(* ===== verification/Prelude.thy ===== *)
theory Prelude
  imports Main "HOL-Library.Word"
begin

unbundle bit_operations_syntax

text \<open>
  Shared vocabulary of the development: names for the machine integers of the C++ sources, the
  rule for counted loops, and the list and word facts that several components use.

  A loop \<open>for (int i = a; i < b; i++) body\<close> is \<open>fold body [a..<b]\<close>: the body is a function
  of the loop variable and of the state it updates.  Arrays are functions from indices; the bounds
  lemmas of each component say which indices its operations touch.
\<close>

type_synonym u8 = "8 word"
type_synonym u12 = "12 word"
type_synonym u16 = "16 word"
type_synonym u32 = "32 word"
type_synonym u64 = "64 word"

named_theorems tid_bits \<open>evaluation of the constant bit masks of version words\<close>
named_theorems sched_defs \<open>unfolding of the scheduler's straight-line helpers\<close>

subsection \<open>Counted loops\<close>

text \<open>The invariant rule: a property indexed by the loop variable that every iteration advances.\<close>

lemma fold_upt_invariant:
  assumes "a \<le> b"
    and "P a s"
    and "\<And>j t. a \<le> j \<Longrightarrow> j < b \<Longrightarrow> P j t \<Longrightarrow> P (Suc j) (f j t)"
  shows "P b (fold f [a..<b] s)"
  using assms
proof (induction b)
  case 0
  then show ?case by simp
next
  case (Suc b)
  show ?case
  proof (cases "a = Suc b")
    case True
    with Suc.prems show ?thesis by simp
  next
    case False
    with Suc.prems have ab: "a \<le> b" by simp
    have "P b (fold f [a..<b] s)"
      by (rule Suc.IH [OF ab Suc.prems(2)]) (use Suc.prems(3) in simp)
    with Suc.prems(3) [of b] ab show ?thesis by simp
  qed
qed

text \<open>A loop that writes array cell \<open>j\<close> in iteration \<open>j\<close> and reads no other cell.\<close>

lemma fold_upt_array:
  "fold (\<lambda>j a. a(j := g j (a j))) [0..<n] a = (\<lambda>j. if j < n then g j (a j) else a j)"
  by (induction n) (auto simp: fun_eq_iff less_Suc_eq)

lemma fold_upt_pointwise:
  assumes "\<And>j a k. f j a k = (if k = j then g j (a j) else a k)"
  shows "fold f [0..<n] a = (\<lambda>j. if j < n then g j (a j) else a j)"
proof -
  have "f = (\<lambda>j a. a(j := g j (a j)))"
    using assms by (auto simp: fun_eq_iff)
  then show ?thesis by (simp add: fold_upt_array)
qed

lemma fold_keeps: "P s \<Longrightarrow> (\<And>x s. P s \<Longrightarrow> P (f x s)) \<Longrightarrow> P (fold f xs s)"
  by (induction xs arbitrary: s) auto

subsection \<open>Words\<close>

lemma word_of_nat_diff: "b \<le> a \<Longrightarrow> (of_nat a :: 'a::len word) - of_nat b = of_nat (a - b)"
  by (simp add: of_nat_diff)

lemma unat_bound: "unat (w :: 'a::len word) < 2 ^ LENGTH('a)"
  by (rule unsigned_less)

lemma uint_of_int_small: "0 \<le> x \<Longrightarrow> x < 2 ^ LENGTH('a) \<Longrightarrow> uint (of_int x :: 'a::len word) = x"
  by (simp add: uint_word_of_int_eq take_bit_int_eq_self)

lemma unat_of_nat_small: "n < 2 ^ LENGTH('a) \<Longrightarrow> unat (of_nat n :: 'a::len word) = n"
  by (simp add: unat_of_nat take_bit_nat_eq_self)

subsection \<open>Counting\<close>

lemma of_nat_card_sum: "of_nat (card {i. i < (n::nat) \<and> P i}) = (\<Sum>i<n. of_bool (P i))"
proof -
  have "{i. i < n \<and> P i} = {..<n} \<inter> {i. P i}" by auto
  then show ?thesis by (simp add: sum_of_bool_eq)
qed

lemma sum_change_one:
  fixes g g' :: "nat \<Rightarrow> 'a::ab_group_add"
  assumes "k < n" "\<And>i. i \<noteq> k \<Longrightarrow> g' i = g i"
  shows "(\<Sum>i<n. g' i) = (\<Sum>i<n. g i) - g k + g' k"
proof -
  have "(\<Sum>i<n. h i) = h k + (\<Sum>i\<in>{..<n} - {k}. h i)" for h :: "nat \<Rightarrow> 'a"
    using assms(1) by (intro sum.remove) auto
  moreover have "(\<Sum>i\<in>{..<n} - {k}. g' i) = (\<Sum>i\<in>{..<n} - {k}. g i)"
    using assms(2) by (intro sum.cong) auto
  ultimately show ?thesis by (simp add: algebra_simps)
qed

end
