(* ===== verification/Sched_Config.thy ===== *)
theory Sched_Config
  imports Prelude
begin

text \<open>
  Compile-time constants of the system.  The HLS kernel (\<open>Innova2/scheduler/utils.h\<close>) and the
  server (\<open>nic-sched/Debug.h\<close>) each define their own copy of the constants that describe the
  shared memory layout; the two copies agree and are given once.  The macros that the server's
  makefile sets per experiment are fields of a record, so that the definitions cover every
  \<open>#ifdef\<close> branch.
\<close>

abbreviation FEATURE_SIZE :: nat where "FEATURE_SIZE \<equiv> 512"
abbreviation SLOT_LEN :: nat where "SLOT_LEN \<equiv> 2048"
abbreviation MAX_CORE :: nat where "MAX_CORE \<equiv> 24"
abbreviation MESS_LEN :: nat where "MESS_LEN \<equiv> 64"
abbreviation MESS_LEN_DIV_4 :: nat where "MESS_LEN_DIV_4 \<equiv> 16"
abbreviation QUEUE_METADATA :: nat where "QUEUE_METADATA \<equiv> 256"
abbreviation TOTAL_IP_MESS_N :: nat where "TOTAL_IP_MESS_N \<equiv> 256"
abbreviation HOSTADDR :: nat where "HOSTADDR \<equiv> 67108864"
abbreviation VECTOR_SIZE :: nat where "VECTOR_SIZE \<equiv> 16"
abbreviation MAX_CLIENT_NUM :: nat where "MAX_CLIENT_NUM \<equiv> 48"
abbreviation MAX_SLOT_NUM :: nat where "MAX_SLOT_NUM \<equiv> 4"

abbreviation MAX_CLIENT :: nat where "MAX_CLIENT \<equiv> 2"
abbreviation KEY2NODE_MOD :: nat where "KEY2NODE_MOD \<equiv> 1"
abbreviation MESS_NUM_HOST :: nat where "MESS_NUM_HOST \<equiv> 256"
abbreviation strife_buf_num :: nat where "strife_buf_num \<equiv> 65536"
abbreviation ABORT_DEPTH :: nat where "ABORT_DEPTH \<equiv> 4096"
abbreviation TABLE_NUM_MAX :: nat where "TABLE_NUM_MAX \<equiv> 15"
abbreviation IDMAPADDRSIZE :: nat where "IDMAPADDRSIZE \<equiv> 1000"
abbreviation NOTHING_DEBUG :: u32 where "NOTHING_DEBUG \<equiv> 100"
abbreviation YCSB_TABLE_SIZE :: nat where "YCSB_TABLE_SIZE \<equiv> 10000000"

text \<open>The macros of \<open>GNUmakefile.in\<close>; \<open>cpubased = 0\<close> stands for an undefined \<open>CPUBASED\<close>.\<close>

record build =
  MAX_THREAD :: nat
  CLIENT_THREAD :: nat
  ASYNCTXNUM :: nat
  YCSBSIZE :: nat
  YCSBCOL :: nat
  ycsb_plus_t :: bool
  nullrpc :: bool
  cpubased :: nat
  baseline :: bool
  static_best :: bool
  dynamic :: bool

definition default_build :: build where
  "default_build = \<lparr>MAX_THREAD = 20, CLIENT_THREAD = 24, ASYNCTXNUM = 4, YCSBSIZE = 48, YCSBCOL = 20,
     ycsb_plus_t = False, nullrpc = False, cpubased = 0, baseline = False, static_best = False,
     dynamic = False\<rparr>"

abbreviation SLOT_NUM_of :: "build \<Rightarrow> nat" where
  "SLOT_NUM_of bd \<equiv> ASYNCTXNUM bd"

text \<open>\<open>REPLY_LEN\<close> and \<open>DATA_LEN\<close> depend on the workload.\<close>

definition REPLY_LEN :: "build \<Rightarrow> nat" where
  "REPLY_LEN bd = (if ycsb_plus_t bd then 8192 else SLOT_LEN)"

definition DATA_LEN :: "build \<Rightarrow> nat" where
  "DATA_LEN bd = (if ycsb_plus_t bd then 1024 * 18 else 2048)"

end
