(* ===== verification/Gray_Code.thy ===== *)
theory Gray_Code
  imports Prelude
begin

unbundle bit_operations_syntax

text \<open>
  The walk over the reflected Gray code that both schedulers use to precompute, for one group of
  eight features, the total weight of every subset of the group.  Consecutive codes differ in one
  bit, so each table entry costs one addition or subtraction.
\<close>

subsection \<open>Definitions\<close>

definition gray_code :: "nat \<Rightarrow> u8" where
  "gray_code j = (of_nat j :: u8) XOR drop_bit 1 (of_nat j)"

text \<open>The \<open>switch (delta_bit)\<close> statement; a value that is no power of two leaves 0.\<close>

definition delta_id_of :: "u8 \<Rightarrow> nat" where
  "delta_id_of delta_bit =
     (if delta_bit = 1 then 0
      else if delta_bit = 2 then 1
      else if delta_bit = 4 then 2
      else if delta_bit = 8 then 3
      else if delta_bit = 16 then 4
      else if delta_bit = 32 then 5
      else if delta_bit = 64 then 6
      else if delta_bit = 128 then 7
      else 0)"

text \<open>The reference definition of a table entry: the weights of the features present in a byte.\<close>

definition subset_sum :: "(nat \<Rightarrow> 'a::ab_group_add) \<Rightarrow> u8 \<Rightarrow> 'a" where
  "subset_sum w b = (\<Sum>k<8. if bit b k then w k else 0)"

subsection \<open>One step of the walk\<close>

lemma subset_sum_0 [simp]: "subset_sum w 0 = 0"
  by (simp add: subset_sum_def)

lemma subset_sum_flip:
  assumes "k < 8"
  shows "subset_sum w (flip_bit k b) = (if bit b k then subset_sum w b - w k else subset_sum w b + w k)"
proof -
  have split: "subset_sum w c = (if bit c k then w k else 0) + (\<Sum>i\<in>{..<8} - {k}. if bit c i then w i else 0)" for c
    unfolding subset_sum_def using assms by (subst sum.remove [of _ k]) auto
  have rest: "(\<Sum>i\<in>{..<8} - {k}. if bit (flip_bit k b) i then w i else 0)
      = (\<Sum>i\<in>{..<8} - {k}. if bit b i then w i else 0)"
    by (rule sum.cong) (auto simp: bit_flip_bit_iff)
  have "bit (flip_bit k b) k = (\<not> bit b k)"
    using assms by (simp add: bit_flip_bit_iff)
  then show ?thesis
    using split [of b] split [of "flip_bit k b"] rest by simp
qed

text \<open>Every step of the walk flips one bit, which the \<open>switch\<close> finds and whose direction the
  comparison of the two codes tells.\<close>

definition gray_step_ok :: "nat \<Rightarrow> bool" where
  "gray_step_ok j =
     (let a = gray_code j; b = gray_code (Suc j); k = delta_id_of (b XOR a)
      in k < 8 \<and> b = flip_bit k a \<and> (a < b) = (\<not> bit a k))"

lemma gray_steps_ok: "list_all gray_step_ok [0..<255]"
  by code_simp

lemma gray_step:
  assumes "j < 255"
  shows "delta_id_of (gray_code (Suc j) XOR gray_code j) < 8"
    and "gray_code (Suc j) = flip_bit (delta_id_of (gray_code (Suc j) XOR gray_code j)) (gray_code j)"
    and "(gray_code j < gray_code (Suc j)) = (\<not> bit (gray_code j) (delta_id_of (gray_code (Suc j) XOR gray_code j)))"
  using gray_steps_ok assms by (auto simp: list_all_iff gray_step_ok_def Let_def)

lemma gray_step_sum:
  assumes "j < 255"
  shows "subset_sum w (gray_code (Suc j)) =
    (if gray_code j < gray_code (Suc j)
     then subset_sum w (gray_code j) + w (delta_id_of (gray_code (Suc j) XOR gray_code j))
     else subset_sum w (gray_code j) - w (delta_id_of (gray_code (Suc j) XOR gray_code j)))"
proof -
  let ?k = "delta_id_of (gray_code (Suc j) XOR gray_code j)"
  have "subset_sum w (gray_code (Suc j)) = subset_sum w (flip_bit ?k (gray_code j))"
    using gray_step(2) [OF assms] by simp
  also have "\<dots> = (if bit (gray_code j) ?k then subset_sum w (gray_code j) - w ?k
                   else subset_sum w (gray_code j) + w ?k)"
    by (rule subset_sum_flip) (rule gray_step(1) [OF assms])
  finally show ?thesis
    using gray_step(3) [OF assms] by simp
qed

text \<open>Every byte is visited: the inverse of the code is the exclusive or of its shifts.\<close>

definition gray_inverse :: "u8 \<Rightarrow> u8" where
  "gray_inverse b = b XOR drop_bit 1 b XOR drop_bit 2 b XOR drop_bit 3 b
     XOR drop_bit 4 b XOR drop_bit 5 b XOR drop_bit 6 b XOR drop_bit 7 b"

lemma drop_bit_8_u8 [simp]: "drop_bit 8 (b :: u8) = 0"
  by (rule bit_word_eqI) (auto simp: bit_drop_bit_eq dest: bit_imp_le_length)

lemma gray_code_inverse: "gray_code (unat (gray_inverse b)) = b"
  by (simp add: gray_code_def gray_inverse_def drop_bit_xor drop_bit_drop_bit ac_simps eval_nat_numeral)

lemma bit_7_iff_ge_128: "bit (b :: u8) 7 \<longleftrightarrow> 128 \<le> unat b"
proof -
  have bound: "unat b < 256" using unat_bound [of b] by simp
  have "bit b 7 \<longleftrightarrow> bit (unat b) 7" by (simp only: bit_unsigned_iff) simp
  also have "\<dots> \<longleftrightarrow> odd (unat b div 128)" by (simp only: bit_iff_odd) simp
  also have "\<dots> \<longleftrightarrow> 128 \<le> unat b" 
  proof (cases "128 \<le> unat b")
    case True
    then have "unat b div 128 = 1" using bound by (intro div_nat_eqI) simp_all
    then show ?thesis using True by simp
  next
    case False
    then show ?thesis by simp
  qed
  finally show ?thesis .
qed

lemma gray_code_low: "j < 128 \<Longrightarrow> \<not> bit (gray_code j) 7"
proof -
  assume "j < 128"
  then have "\<not> bit (of_nat j :: u8) 7" "\<not> bit (of_nat j :: u8) 8"
    by (auto simp: bit_7_iff_ge_128 unat_of_nat_small dest: bit_imp_le_length)
  then show ?thesis by (simp add: gray_code_def bit_xor_iff bit_drop_bit_eq)
qed

lemma gray_inverse_low: "\<not> bit b 7 \<Longrightarrow> unat (gray_inverse b) < 128"
proof -
  assume "\<not> bit b 7"
  then have "\<not> bit (gray_inverse b) 7"
    by (auto simp: gray_inverse_def bit_xor_iff bit_drop_bit_eq dest: bit_imp_le_length)
  then show ?thesis by (simp add: bit_7_iff_ge_128)
qed

lemma gray_code_onto_128: "\<not> bit b 7 \<Longrightarrow> \<exists>k<128. gray_code k = b"
  using gray_code_inverse gray_inverse_low by blast

lemma gray_code_onto: "\<exists>k<256. gray_code k = b"
  using gray_code_inverse unat_bound [of "gray_inverse b"] by fastforce

end
