(* ===== verification/Weight_Table.thy ===== *)
theory Weight_Table
  imports Gray_Code
begin

unbundle bit_operations_syntax

text \<open>
  The interface between the precomputed weight tables and the code that scores a core with them.
  A table serves 64 groups of eight features; the scorer cuts a bitmap of 512 features into bytes
  and adds one entry per byte.  The laws say what an entry is worth, the lemma says that the sum of
  64 entries is the total weight of the features in the bitmap.
\<close>

type_synonym feature_t = "512 word"

text \<open>\<open>distance_bitmap.range(8 * f + 7, 8 * f)\<close>.\<close>

definition range8 :: "feature_t \<Rightarrow> nat \<Rightarrow> u8" where
  "range8 w f = ucast (drop_bit (8 * f) w)"

text \<open>The reference score of a bitmap under per-feature weights.\<close>

definition feature_score :: "(nat \<Rightarrow> nat \<Rightarrow> int) \<Rightarrow> feature_t \<Rightarrow> int" where
  "feature_score weight w = (\<Sum>f<512. if bit w f then weight (f div 8) (f mod 8) else 0)"

lemma bit_range8: "bit (range8 w f) k \<longleftrightarrow> k < 8 \<and> bit w (8 * f + k)"
  by (auto simp: range8_def bit_ucast_iff bit_drop_bit_eq)

lemma sum_by_groups: "(\<Sum>f<8 * (n::nat). g (f div 8) (f mod 8)) = (\<Sum>i<n. \<Sum>k<8. (g i k :: 'a::comm_monoid_add))"
proof (induction n)
  case 0
  show ?case by simp
next
  case (Suc n)
  have "{..<8 * Suc n} = {..<8 * n} \<union> {8 * n..<8 * n + 8}" by auto
  moreover have "(\<Sum>f\<in>{8 * n..<8 * n + 8}. g (f div 8) (f mod 8)) = (\<Sum>k<8. g n k)"
  proof -
    have "(\<Sum>f\<in>{8 * n..<8 * n + 8}. g (f div 8) (f mod 8)) = (\<Sum>k\<in>{0..<8}. g ((k + 8 * n) div 8) ((k + 8 * n) mod 8))"
      using sum.shift_bounds_nat_ivl [of "\<lambda>f. g (f div 8) (f mod 8)" 0 "8 * n" 8] by (simp add: add.commute)
    also have "\<dots> = (\<Sum>k<8. g n k)"
      unfolding atLeast0LessThan by (rule sum.cong) auto
    finally show ?thesis .
  qed
  ultimately show ?case
    using Suc.IH sum.union_disjoint [of "{..<8 * n}" "{8 * n..<8 * n + 8}" "\<lambda>f. g (f div 8) (f mod 8)"]
    by (simp add: ivl_disj_int)
qed

text \<open>The same for a bitmap given as 64 bytes.\<close>

definition byte_score :: "(nat \<Rightarrow> nat \<Rightarrow> int) \<Rightarrow> (nat \<Rightarrow> u8) \<Rightarrow> int" where
  "byte_score weight bs = (\<Sum>f<512. if bit (bs (f div 8)) (f mod 8) then weight (f div 8) (f mod 8) else 0)"

lemma feature_score_bytes: "feature_score weight w = byte_score weight (range8 w)"
  by (simp add: feature_score_def byte_score_def bit_range8)

text \<open>What a scheduler promises of the core it picks: the first one with the highest score, and the
  hint of the client when no core scores.\<close>

definition is_best_core :: "(nat \<Rightarrow> 'a::{linorder,zero}) \<Rightarrow> nat \<Rightarrow> nat \<Rightarrow> nat \<Rightarrow> bool" where
  "is_best_core score n hint r \<longleftrightarrow>
     (if \<forall>c<n. score c = 0 then r = hint
      else r < n \<and> 0 < score r \<and> (\<forall>c<n. score c \<le> score r) \<and> (\<forall>c<r. score c < score r))"

lemma word_subset_sum: "subset_sum ws b = (of_int (subset_sum (\<lambda>k. uint (ws k)) b) :: 'a::len word)"
  by (auto simp: subset_sum_def intro!: sum.cong)

lemma subset_sum_bounds:
  assumes "\<And>k. 0 \<le> w k"
  shows "0 \<le> subset_sum (w :: nat \<Rightarrow> int) b" "subset_sum w b \<le> (\<Sum>k<8. w k)"
  using assms by (auto simp: subset_sum_def intro!: sum_nonneg sum_mono)

lemma uint_subset_sum:
  assumes "(\<Sum>k<8. uint (ws k)) < 2 ^ LENGTH('a)"
  shows "uint (subset_sum ws b :: 'a::len word) = subset_sum (\<lambda>k. uint (ws k)) b"
proof -
  have "0 \<le> subset_sum (\<lambda>k. uint (ws k)) b" "subset_sum (\<lambda>k. uint (ws k)) b < 2 ^ LENGTH('a)"
    using subset_sum_bounds [of "\<lambda>k. uint (ws k)" b] assms by auto
  then show ?thesis
    unfolding word_subset_sum [of ws] by (rule uint_of_int_small)
qed

lemma fold_word_sum:
  "fold (\<lambda>f a. a + (g f :: 'a::len word)) [0..<n] 0 = of_int (\<Sum>f<n. uint (g f))"
  by (induction n) (simp_all add: add.commute)

text \<open>The scan over the cores that both schedulers perform.\<close>

lemma scan_pair_best:
  fixes score :: "nat \<Rightarrow> 'a::{linorder,zero}"
  assumes "\<And>c. 0 \<le> score c"
  shows "is_best_core score n hint (snd (fold (\<lambda>t ans. if score t > fst ans then (score t, t) else ans) [0..<n] (0, hint)))"
proof -
  define P where "P j m \<longleftrightarrow> is_best_core score j hint (snd m) \<and>
      (if \<forall>c<j. score c = 0 then fst m = 0 else fst m = score (snd m))" for j m
  have "P n (fold (\<lambda>t ans. if score t > fst ans then (score t, t) else ans) [0..<n] (0, hint))"
  proof (rule fold_upt_invariant)
    show "P 0 (0, hint)" by (simp add: P_def is_best_core_def)
  next
    fix j m assume P: "P j m"
    show "P (Suc j) (if score j > fst m then (score j, j) else m)"
    proof (cases "\<forall>c<j. score c = 0")
      case True
      then show ?thesis
        using P assms [of j] by (auto simp: P_def is_best_core_def less_Suc_eq)
    next
      case False
      then have not0: "\<not> (\<forall>c<Suc j. score c = 0)" by (auto simp: less_Suc_eq)
      have r: "snd m < j" "0 < score (snd m)" "\<forall>c<j. score c \<le> score (snd m)"
        "\<forall>c < snd m. score c < score (snd m)" "fst m = score (snd m)"
        using P False by (auto simp: P_def is_best_core_def)
      then show ?thesis
        using not0
        by (cases "score j > fst m")
          (auto simp: P_def is_best_core_def less_Suc_eq not_less intro: le_less_trans order_le_less_trans less_trans)
    qed
  qed simp
  then show ?thesis by (simp add: P_def)
qed

locale weight_table =
  fixes entry :: "nat \<Rightarrow> u8 \<Rightarrow> int"
    and weight :: "nat \<Rightarrow> nat \<Rightarrow> int"
    and valid :: "nat \<Rightarrow> u8 \<Rightarrow> bool"
  assumes entry_sum: "i < 64 \<Longrightarrow> valid i b \<Longrightarrow> entry i b = subset_sum (weight i) b"
begin

lemma table_bytes:
  assumes "\<And>i. i < 64 \<Longrightarrow> valid i (bs i)"
  shows "(\<Sum>i<64. entry i (bs i)) = byte_score weight bs"
proof -
  have "(\<Sum>i<64. entry i (bs i)) = (\<Sum>i<64. subset_sum (weight i) (bs i))"
    by (rule sum.cong) (simp_all add: entry_sum assms)
  also have "\<dots> = (\<Sum>f<8 * 64. if bit (bs (f div 8)) (f mod 8) then weight (f div 8) (f mod 8) else 0)"
    unfolding subset_sum_def by (rule sum_by_groups [symmetric])
  finally show ?thesis
    by (simp add: byte_score_def)
qed

lemma table_score:
  assumes "\<And>i. i < 64 \<Longrightarrow> valid i (range8 w i)"
  shows "(\<Sum>i<64. entry i (range8 w i)) = feature_score weight w"
  using table_bytes [of "range8 w"] assms by (simp add: feature_score_bytes)

end

end
