(* ===== verification/Fpga_Scheduler.thy ===== *)
theory Fpga_Scheduler
  imports Sched_Config Weight_Table
begin

unbundle bit_operations_syntax

text \<open>
  The on-NIC scheduler: the HLS kernel of \<open>Innova2/scheduler\<close> (\<open>utils.h\<close>, \<open>tx_scheduler.cpp\<close>,
  \<open>no_dma.cpp\<close>).  The kernel's globals are the record \<open>fpga\<close>; the four HLS streams that connect
  the dataflow stages are lists with the oldest message first.  The memory ports \<open>m0\<close> and \<open>m1\<close>
  are written by the clients over RDMA between two iterations, so they are arguments; the writes
  of the kernel to the host port and to the DMA engine's registers are state (\<open>hostm\<close> and
  \<open>cdma_writes\<close>).  The C type \<open>uint32\<close> of the kernel is \<open>int\<close>; sizes, indices and offsets are
  never negative and are natural numbers, and a comparison \<open>x == y - 1\<close> is written \<open>x + 1 = y\<close>.
\<close>

subsection \<open>Messages and state\<close>

type_synonym mem32 = "nat \<Rightarrow> u32"

record cdma_msg_out_t =
  cm_i :: nat
  cm_core_id :: nat
  cm_old_features :: feature_t
  cm_new_features :: feature_t

record update_cluster_in_t =
  uc_old_features :: feature_t
  uc_new_features :: feature_t
  uc_i :: nat
  uc_core_id :: nat

record compute_id_out_t =
  ci_i :: nat
  ci_core_id :: nat

record membership_t =
  mb_index :: nat
  mb_old_index :: nat
  mb_ans :: u16

definition membership_cheat :: "nat \<Rightarrow> u16 \<Rightarrow> membership_t \<Rightarrow> membership_t" where
  "membership_cheat x cheat_ans m = m\<lparr>mb_old_index := mb_index m, mb_ans := cheat_ans, mb_index := x\<rparr>"

text \<open>The constructor of \<open>clusters_t\<close>: one count on the diagonal.\<close>

definition clusters_init :: "nat \<Rightarrow> nat \<Rightarrow> u8" where
  "clusters_init i j = (if i < 24 \<and> j < FEATURE_SIZE \<and> i = j then 1 else 0)"

record fpga =
  BASE_ADDR :: nat
  CLIENT_NUM :: nat
  SLOT_NUM :: nat
  CORE_NUM :: nat
  MESS_NUM :: nat
  b_client :: nat
  e_client :: nat
  b_core :: nat
  e_core :: nat
  ip_id :: nat
  ii :: nat
  jj :: nat
  kk :: bool
  clusters :: "nat \<Rightarrow> nat \<Rightarrow> u8"
  MESSAGE_ADDR :: nat
  QUEUE_ADDR_BASE :: nat
  my_client_num :: nat
  slot_partition0 :: nat
  slot_partition1 :: nat
  max_slot :: nat
  slot_offset0 :: "nat \<Rightarrow> nat"
  slot_offset1 :: "nat \<Rightarrow> nat"
  features0 :: "nat \<Rightarrow> feature_t"
  features1 :: "nat \<Rightarrow> feature_t"
  RRB0 :: "nat \<Rightarrow> u32"
  RRB1 :: "nat \<Rightarrow> u32"
  old_core_id :: "nat \<Rightarrow> nat"
  bit_clusters :: "nat \<Rightarrow> feature_t"
  weights :: "nat \<Rightarrow> nat \<Rightarrow> u8"
  hard_partition :: "nat \<Rightarrow> u8"
  merge_weights :: "nat \<Rightarrow> u8 \<Rightarrow> u12"
  queue_addr_map :: "nat \<Rightarrow> nat"
  queue_metadata :: "nat \<Rightarrow> nat \<Rightarrow> nat"
  check_msg_out0 :: "cdma_msg_out_t list"
  check_msg_out1 :: "cdma_msg_out_t list"
  compute_core_id_out :: "compute_id_out_t list"
  update_cluster_in :: "update_cluster_in_t list"
  hostm :: mem32
  cdma_writes :: "(nat \<times> u32) list"

text \<open>The kernel's state when the bitstream is loaded: static storage is zero.\<close>

definition fpga_zero :: fpga where
  "fpga_zero = \<lparr>BASE_ADDR = 0, CLIENT_NUM = 0, SLOT_NUM = 0, CORE_NUM = 0, MESS_NUM = 0, b_client = 0,
     e_client = 0, b_core = 0, e_core = 0, ip_id = 0, ii = 0, jj = 0, kk = False, clusters = clusters_init,
     MESSAGE_ADDR = HOSTADDR, QUEUE_ADDR_BASE = 0, my_client_num = 0, slot_partition0 = 0,
     slot_partition1 = 0, max_slot = 0, slot_offset0 = (\<lambda>_. 0), slot_offset1 = (\<lambda>_. 0),
     features0 = (\<lambda>_. 0), features1 = (\<lambda>_. 0), RRB0 = (\<lambda>_. 0), RRB1 = (\<lambda>_. 0),
     old_core_id = (\<lambda>_. 0), bit_clusters = (\<lambda>_. 0), weights = (\<lambda>_ _. 0),
     hard_partition = (\<lambda>_. 0), merge_weights = (\<lambda>_ _. 0), queue_addr_map = (\<lambda>_. 0),
     queue_metadata = (\<lambda>_ _. 0), check_msg_out0 = [], check_msg_out1 = [],
     compute_core_id_out = [], update_cluster_in = [], hostm = (\<lambda>_. 0), cdma_writes = []\<rparr>"

subsection \<open>init\_weight\<close>

text \<open>The inner loop of one Gray step: all 64 groups in turn, on the 8-bit running sums and the
  12-bit table.\<close>

definition gray_inner :: "(nat \<Rightarrow> nat \<Rightarrow> u8) \<Rightarrow> u8 \<Rightarrow> u8 \<Rightarrow> nat \<Rightarrow> nat
    \<Rightarrow> (nat \<Rightarrow> u8) \<times> (nat \<Rightarrow> u8 \<Rightarrow> u12) \<Rightarrow> (nat \<Rightarrow> u8) \<times> (nat \<Rightarrow> u8 \<Rightarrow> u12)" where
  "gray_inner ws prev now delta_id i = (\<lambda>(last_value, mw).
     let v = (if now > prev then last_value i + ws i delta_id else last_value i - ws i delta_id)
     in (last_value(i := v), mw(i := (mw i)(now := ucast v))))"

definition gray_outer :: "(nat \<Rightarrow> nat \<Rightarrow> u8) \<Rightarrow> nat
    \<Rightarrow> u8 \<times> (nat \<Rightarrow> u8) \<times> (nat \<Rightarrow> u8 \<Rightarrow> u12) \<Rightarrow> u8 \<times> (nat \<Rightarrow> u8) \<times> (nat \<Rightarrow> u8 \<Rightarrow> u12)" where
  "gray_outer ws gray = (\<lambda>(now, lv, mw).
     let prev = now;
         now' = gray_code gray;
         delta_id = delta_id_of (now' XOR prev)
     in (now', fold (gray_inner ws prev now' delta_id) [0..<64] (lv, mw)))"

definition build_table :: "(nat \<Rightarrow> nat \<Rightarrow> u8) \<Rightarrow> (nat \<Rightarrow> u8 \<Rightarrow> u12) \<Rightarrow> (nat \<Rightarrow> u8 \<Rightarrow> u12)" where
  "build_table ws mw0 =
     (let lv = (\<lambda>_. 0);
          mw = fold (\<lambda>i mw. mw(i := (mw i)(0 := 0))) [0..<64] mw0
      in snd (snd (fold (gray_outer ws) [1..<128] (0, lv, mw))))"

text \<open>The weights start at byte \<open>0x200000\<close> of the DMA buffer, the hard partition right behind
  them.  Afterwards the next DMA transfer is started by three register writes.\<close>

definition init_weight :: "(nat \<Rightarrow> u8) \<Rightarrow> fpga \<Rightarrow> fpga" where
  "init_weight cdma_buf s =
     (let ws = (\<lambda>i k. if i < 64 \<and> k < 8 then cdma_buf (2097152 + (8 * i + k)) else weights s i k);
          hp = (\<lambda>f. if f < FEATURE_SIZE then cdma_buf (2097152 + FEATURE_SIZE + f) else hard_partition s f)
      in s\<lparr>weights := ws,
           merge_weights := build_table ws (merge_weights s),
           hard_partition := hp,
           cdma_writes := cdma_writes s @
             [(6, of_nat (MESSAGE_ADDR s)), (8, 2097152), (10, of_nat (FEATURE_SIZE * 2))]\<rparr>)"

subsection \<open>init\_bitmap\<close>

definition put_bit :: "nat \<Rightarrow> bool \<Rightarrow> feature_t \<Rightarrow> feature_t" where
  "put_bit f b w = (if b then set_bit f w else unset_bit f w)"

definition bitmap_inner :: "fpga \<Rightarrow> nat \<Rightarrow> nat \<Rightarrow> (nat \<Rightarrow> feature_t) \<Rightarrow> (nat \<Rightarrow> feature_t)" where
  "bitmap_inner s f i bc =
     (let my_hp = unat (hard_partition s f); my_hp_true = (my_hp = 25)
      in bc(i := put_bit f (my_hp = i \<or> (clusters s i f \<noteq> 0 \<and> my_hp_true)) (bc i)))"

definition init_bitmap :: "fpga \<Rightarrow> fpga" where
  "init_bitmap s = s\<lparr>bit_clusters :=
     fold (\<lambda>f bc. fold (bitmap_inner s f) [0..<22] bc) [0..<FEATURE_SIZE] (bit_clusters s)\<rparr>"

subsection \<open>The dataflow stages\<close>

definition set_range32 :: "nat \<Rightarrow> u32 \<Rightarrow> feature_t \<Rightarrow> feature_t" where
  "set_range32 c v w = (w AND NOT (push_bit (c * 32) (mask 32))) OR push_bit (c * 32) (ucast v)"

definition load_feature :: "nat \<Rightarrow> mem32 \<Rightarrow> cdma_msg_out_t \<Rightarrow> cdma_msg_out_t" where
  "load_feature offset m_d msg = msg\<lparr>cm_new_features :=
     fold (\<lambda>c w. set_range32 c (m_d (offset + c)) w) [0..<VECTOR_SIZE] (cm_new_features msg)\<rparr>"

text \<open>The test \<open>(tmp_RRB | 0xFFFF0000) == ((~RRB) | 0xFFFF0000)\<close>.\<close>

definition rrb_toggled :: "u32 \<Rightarrow> u32 \<Rightarrow> bool" where
  "rrb_toggled tmp_RRB rrb = ((tmp_RRB OR 0xFFFF0000) = (NOT rrb OR 0xFFFF0000))"

definition check_message_dataflow_nodma0 :: "mem32 \<Rightarrow> fpga \<Rightarrow> fpga" where
  "check_message_dataflow_nodma0 m_d s =
     (let i = ii s;
          now_slot_offset0 = slot_offset0 s i;
          message_head = m_d now_slot_offset0;
          tmp_RRB = drop_bit 16 message_head AND 0xFFFF;
          s' = (if rrb_toggled tmp_RRB (RRB0 s i)
                then let core_id = unat (message_head AND 0xFFFF);
                         tmp_msg = load_feature (now_slot_offset0 - 16) m_d
                           \<lparr>cm_i = i, cm_core_id = core_id, cm_old_features = features0 s i, cm_new_features = 0\<rparr>
                     in s\<lparr>RRB0 := (RRB0 s)(i := tmp_RRB),
                          check_msg_out0 := check_msg_out0 s @ [tmp_msg],
                          features0 := (features0 s)(i := cm_new_features tmp_msg)\<rparr>
                else s)
      in s'\<lparr>ii := (if ii s + 1 = slot_partition0 s then 0 else ii s + 1)\<rparr>)"

definition check_message_dataflow_nodma1 :: "mem32 \<Rightarrow> fpga \<Rightarrow> fpga" where
  "check_message_dataflow_nodma1 m_d s =
     (let j = jj s;
          now_slot_offset1 = slot_offset1 s j;
          message_head = m_d now_slot_offset1;
          tmp_RRB = drop_bit 16 message_head AND 0xFFFF;
          s' = (if rrb_toggled tmp_RRB (RRB1 s j)
                then let core_id = unat (message_head AND 0xFFFF);
                         tmp_msg = load_feature (now_slot_offset1 - 16) m_d
                           \<lparr>cm_i = j + slot_partition1 s, cm_core_id = core_id,
                            cm_old_features = features1 s j, cm_new_features = 0\<rparr>
                     in s\<lparr>RRB1 := (RRB1 s)(j := tmp_RRB),
                          check_msg_out1 := check_msg_out1 s @ [tmp_msg],
                          features1 := (features1 s)(j := cm_new_features tmp_msg)\<rparr>
                else s)
      in s'\<lparr>jj := (if jj s + 1 = slot_partition1 s then 0 else jj s + 1)\<rparr>)"

definition ansmap_of :: "fpga \<Rightarrow> feature_t \<Rightarrow> nat \<Rightarrow> u16" where
  "ansmap_of s new_features c =
     (let distance_bitmap = new_features AND bit_clusters s c
      in fold (\<lambda>f ansmap. ansmap + ucast (merge_weights s f (range8 distance_bitmap f))) [0..<64] 0)"

text \<open>The scan over the cores; \<open>break\<close> at \<open>CORE_NUM\<close> bounds the loop.\<close>

definition core_scan :: "fpga \<Rightarrow> feature_t \<Rightarrow> membership_t \<Rightarrow> membership_t" where
  "core_scan s new_features =
     fold (\<lambda>c m. let ansmap = ansmap_of s new_features c
                 in if ansmap > mb_ans m then m\<lparr>mb_index := c, mb_ans := ansmap\<rparr> else m)
       [0..<min 22 (CORE_NUM s)]"

definition core_id_func :: "cdma_msg_out_t \<Rightarrow> fpga \<Rightarrow> fpga" where
  "core_id_func msg s =
     (let membership = membership_cheat (cm_core_id msg) 9 \<lparr>mb_index = 0, mb_old_index = 0, mb_ans = 0\<rparr>;
          membership = membership\<lparr>mb_ans := 0\<rparr>;
          membership = core_scan s (cm_new_features msg) membership
      in s\<lparr>compute_core_id_out := compute_core_id_out s @
             [\<lparr>ci_i = cm_i msg, ci_core_id = mb_index membership\<rparr>],
           update_cluster_in := update_cluster_in s @
             [\<lparr>uc_old_features = cm_old_features msg, uc_new_features = cm_new_features msg,
               uc_i = cm_i msg, uc_core_id = mb_index membership\<rparr>]\<rparr>)"

definition compute_core_id :: "fpga \<Rightarrow> fpga" where
  "compute_core_id s =
     (if \<not> kk s
      then (case check_msg_out0 s of
              [] \<Rightarrow> s\<lparr>kk := \<not> kk s\<rparr>
            | msg # rest \<Rightarrow> core_id_func msg (s\<lparr>check_msg_out0 := rest\<rparr>))
      else (case check_msg_out1 s of
              [] \<Rightarrow> s\<lparr>kk := \<not> kk s\<rparr>
            | msg # rest \<Rightarrow> core_id_func msg (s\<lparr>check_msg_out1 := rest\<rparr>)))"

definition doorbell_dataflow :: "fpga \<Rightarrow> fpga" where
  "doorbell_dataflow s =
     (case compute_core_id_out s of
        [] \<Rightarrow> s
      | msg # rest \<Rightarrow>
          let c = ci_core_id msg;
              local_head = queue_metadata s c 0;
              head' = (if local_head + 1 = MESS_NUM s then 0 else local_head + 1);
              queue_offset = queue_addr_map s c + local_head * MESS_LEN_DIV_4
          in s\<lparr>compute_core_id_out := rest,
               queue_metadata := (queue_metadata s)(c := (queue_metadata s c)(0 := head')),
               hostm := (hostm s)(queue_offset := of_nat (ci_i msg))\<rparr>)"

text \<open>One iteration of the counting loop over the features.  The two updates are sequential: when
  the old and the new core coincide the increment acts on the decremented count.\<close>

definition cluster_iter :: "update_cluster_in_t \<Rightarrow> nat \<Rightarrow> nat \<Rightarrow> (nat \<Rightarrow> nat \<Rightarrow> u8) \<Rightarrow> (nat \<Rightarrow> nat \<Rightarrow> u8)" where
  "cluster_iter msg old_index f cl =
     (let cl = (if bit (uc_old_features msg) f
                then cl(old_index := (cl old_index)(f := cl old_index f - 1)) else cl)
      in if bit (uc_new_features msg) f
         then cl(uc_core_id msg := (cl (uc_core_id msg))(f := cl (uc_core_id msg) f + 1)) else cl)"

definition update_cluster :: "fpga \<Rightarrow> fpga" where
  "update_cluster s =
     (case update_cluster_in s of
        [] \<Rightarrow> s
      | msg # rest \<Rightarrow>
          let old_index = old_core_id s (uc_i msg)
          in s\<lparr>update_cluster_in := rest,
               clusters := fold (cluster_iter msg old_index) [0..<512] (clusters s),
               old_core_id := (old_core_id s)(uc_i msg := uc_core_id msg)\<rparr>)"

definition dataflow_no_dma :: "mem32 \<Rightarrow> mem32 \<Rightarrow> fpga \<Rightarrow> fpga" where
  "dataflow_no_dma m0 m1 s =
     update_cluster (doorbell_dataflow (compute_core_id
       (check_message_dataflow_nodma1 m1 (check_message_dataflow_nodma0 m0 s))))"

subsection \<open>schedule\_nodma\<close>

record sched_args =
  a_con :: nat
  a_BASE_ADDR :: nat
  a_CLIENT_NUM :: nat
  a_SLOT_NUM :: nat
  a_CORE_NUM :: nat
  a_MESS_NUM :: nat
  a_b_client :: nat
  a_e_client :: nat
  a_b_core :: nat
  a_e_core :: nat
  a_ip_id :: nat

text \<open>The loop that lays out the per-core doorbell queues, with the running address \<open>addr\<close>.\<close>

definition queue_layout_step :: "nat \<Rightarrow> nat \<times> fpga \<Rightarrow> nat \<times> fpga" where
  "queue_layout_step i = (\<lambda>(addr, s).
     let parallel_offset = (MESS_NUM s * MESS_LEN * ip_id s) div 2
     in (addr + (TOTAL_IP_MESS_N * MESS_LEN + QUEUE_METADATA),
         s\<lparr>queue_metadata := (queue_metadata s)(i := (queue_metadata s i)(0 := 0)),
           queue_addr_map := (queue_addr_map s)(i := (addr + QUEUE_METADATA + parallel_offset) div 4)\<rparr>))"

definition slot_layout_step :: "nat \<Rightarrow> nat \<Rightarrow> fpga \<Rightarrow> fpga" where
  "slot_layout_step i j s =
     (let s' = (if i * 2 < my_client_num s
                then s\<lparr>slot_offset0 := (slot_offset0 s)(i * SLOT_NUM s + j :=
                          (SLOT_LEN * (i * SLOT_NUM s + j) + QUEUE_ADDR_BASE s) div 4 + 16),
                       RRB0 := (RRB0 s)(i * SLOT_NUM s + j := 0),
                       RRB1 := (RRB1 s)(i * SLOT_NUM s + j := 0)\<rparr>
                else s\<lparr>slot_offset1 := (slot_offset1 s)((i - my_client_num s div 2) * SLOT_NUM s + j :=
                          (SLOT_LEN * ((i - my_client_num s div 2) * SLOT_NUM s + j) + QUEUE_ADDR_BASE s) div 4 + 16)\<rparr>)
      in s'\<lparr>old_core_id := (old_core_id s')(i * SLOT_NUM s + j := CORE_NUM s)\<rparr>)"

definition schedule_prologue :: "sched_args \<Rightarrow> fpga \<Rightarrow> fpga" where
  "schedule_prologue a s =
     (let s = s\<lparr>BASE_ADDR := a_BASE_ADDR a, CLIENT_NUM := a_CLIENT_NUM a, SLOT_NUM := a_SLOT_NUM a, CORE_NUM := a_CORE_NUM a,
                MESS_NUM := a_MESS_NUM a, b_client := a_b_client a, e_client := a_e_client a,
                b_core := a_b_core a, e_core := a_e_core a, ip_id := a_ip_id a,
                my_client_num := a_e_client a - a_b_client a,
                QUEUE_ADDR_BASE := a_b_client a * a_SLOT_NUM a * SLOT_LEN\<rparr>;
          addr = SLOT_LEN * SLOT_NUM s * CLIENT_NUM s + MESSAGE_ADDR s;
          s = snd (fold queue_layout_step [0..<CORE_NUM s] (addr, s));
          s = fold (\<lambda>i s. fold (slot_layout_step i) [0..<SLOT_NUM s] s) [0..<my_client_num s] s
      in s\<lparr>max_slot := SLOT_NUM s * my_client_num s,
           slot_partition0 := SLOT_NUM s * my_client_num s div 2,
           slot_partition1 := SLOT_NUM s * my_client_num s div 2,
           cdma_writes := cdma_writes s @ [(0, 4), (0, 0x7000)]\<rparr>)"

text \<open>The control word the server writes (\<open>*control_addr = 666\<close>).\<close>

definition total_offset :: "fpga \<Rightarrow> nat" where
  "total_offset s = SLOT_LEN * SLOT_NUM s * CLIENT_NUM s div 2 div 4 + 0x40000"

text \<open>What the kernel sees of its memory ports during one iteration of the endless loop: ports
  \<open>m0\<close> and \<open>m1\<close> in each of the 1024 dataflow rounds, port \<open>m1\<close> when the control word is
  read, the status register and the buffer of the DMA engine.\<close>

record sched_env =
  env_m0 :: "nat \<Rightarrow> mem32"
  env_m1 :: "nat \<Rightarrow> mem32"
  env_control :: mem32
  env_cdma_status :: u32
  env_cdma_buf :: "nat \<Rightarrow> u8"

definition dataflow_rounds :: "sched_env \<Rightarrow> nat \<Rightarrow> fpga \<Rightarrow> fpga" where
  "dataflow_rounds e n = fold (\<lambda>it. dataflow_no_dma (env_m0 e it) (\<lambda>x. env_m1 e it (x + 0x40000))) [0..<n]"

text \<open>One iteration of \<open>while (true)\<close>; \<open>None\<close> is \<open>return\<close>.  Port \<open>m1\<close> is read through
  \<open>m1_addr = m1 + 0x40000\<close>.\<close>

definition while_body :: "sched_env \<Rightarrow> nat \<times> fpga \<Rightarrow> (nat \<times> fpga) option" where
  "while_body e = (\<lambda>(u_w, s).
     if u_w mod 2 = 0
     then if u_w = 1024
          then if env_control e (total_offset s) \<noteq> 666 then None
               else Some (0, if env_cdma_status e AND 2 = 2 then init_weight (env_cdma_buf e) s else s)
          else Some (u_w + 1, init_bitmap s)
     else Some (u_w + 1, dataflow_rounds e 1024 s))"

text \<open>The endless loop over a sequence of memory observations: the state it is in after \<open>fuel\<close>
  iterations (\<open>Inr\<close>) or the iteration in which it returned (\<open>Inl\<close>).\<close>

fun while_loop :: "nat \<Rightarrow> (nat \<Rightarrow> sched_env) \<Rightarrow> nat \<Rightarrow> nat \<times> fpga \<Rightarrow> (nat \<times> fpga) + (nat \<times> fpga)" where
  "while_loop 0 env t us = Inr us"
| "while_loop (Suc fuel) env t us =
     (case while_body (env t) us of
        None \<Rightarrow> Inl (t, snd us)
      | Some us' \<Rightarrow> while_loop fuel env (Suc t) us')"

definition schedule_nodma_run :: "nat \<Rightarrow> (nat \<Rightarrow> sched_env) \<Rightarrow> sched_args \<Rightarrow> fpga \<Rightarrow> (nat \<times> fpga) + (nat \<times> fpga)" where
  "schedule_nodma_run fuel env a s =
     while_loop fuel env 0 (1024, (schedule_prologue a s)\<lparr>ii := 0, jj := 0, kk := False\<rparr>)"

text \<open>The self test (\<open>con == 1\<close>) on the six words at \<open>BASE_ADDR\<close>.\<close>

definition selftest_buff :: "(nat \<Rightarrow> u32) \<Rightarrow> nat \<Rightarrow> u32" where
  "selftest_buff buff =
     fold (\<lambda>i b. b(i + 1 := b i + 2)) [0..<3] (buff(0 := buff 0 + 2))"

definition schedule_nodma_test :: "sched_args \<Rightarrow> mem32 \<Rightarrow> (nat \<Rightarrow> u8) \<Rightarrow> fpga \<Rightarrow> mem32 \<times> (nat \<Rightarrow> u8) \<times> fpga" where
  "schedule_nodma_test a m0 cdma_buf s =
     (let base = a_BASE_ADDR a div 4;
          buff = selftest_buff (\<lambda>k. m0 (base + k))
      in (\<lambda>x. if base \<le> x \<and> x < base + 6 then buff (x - base) else m0 x,
          cdma_buf(2097152 := 0xFF),
          (schedule_prologue a s)\<lparr>cdma_writes := cdma_writes (schedule_prologue a s) @
             [(6, 2097152), (8, of_nat (MESSAGE_ADDR s)), (10, of_nat FEATURE_SIZE)]\<rparr>))"

text \<open>The three branches on \<open>con\<close>.  The result tells which one ran.\<close>

datatype sched_result =
  Loop "(nat \<times> fpga) + (nat \<times> fpga)"
| Test "mem32 \<times> (nat \<Rightarrow> u8) \<times> fpga"
| Nothing fpga

definition schedule_nodma :: "nat \<Rightarrow> (nat \<Rightarrow> sched_env) \<Rightarrow> mem32 \<Rightarrow> (nat \<Rightarrow> u8) \<Rightarrow> sched_args \<Rightarrow> fpga \<Rightarrow> sched_result" where
  "schedule_nodma fuel env m0 cdma_buf a s =
     (if a_con a = 2 then Loop (schedule_nodma_run fuel env a s)
      else if a_con a = 1 then Test (schedule_nodma_test a m0 cdma_buf s)
      else Nothing (schedule_prologue a s))"

end
