(* ===== verification/Fpga_Tables.thy ===== *)
theory Fpga_Tables
  imports Fpga_Scheduler
begin

unbundle bit_operations_syntax

text \<open>
  Correctness of the tables and bitmaps of the on-NIC scheduler: the Gray-code walk of
  \<open>init_weight\<close> computes the subset sums of the weights, \<open>init_bitmap\<close> the membership of the
  features, and \<open>load_feature\<close> copies the 16 words of a feature vector bit by bit.
\<close>

subsection \<open>The weight table\<close>

lemma gray_inner_fold:
  "fold (gray_inner ws prev now d) [0..<n] (lv, mw) =
    ((\<lambda>i. if i < n then (if now > prev then lv i + ws i d else lv i - ws i d) else lv i),
     (\<lambda>i. if i < n then (mw i)(now := ucast (if now > prev then lv i + ws i d else lv i - ws i d)) else mw i))"
proof (induction n)
  case 0
  show ?case by simp
next
  case (Suc n)
  then show ?case
    by (auto simp: gray_inner_def Let_def fun_eq_iff less_Suc_eq)
qed

definition table_inv :: "(nat \<Rightarrow> nat \<Rightarrow> u8) \<Rightarrow> (nat \<Rightarrow> u8 \<Rightarrow> u12) \<Rightarrow> nat
    \<Rightarrow> u8 \<times> (nat \<Rightarrow> u8) \<times> (nat \<Rightarrow> u8 \<Rightarrow> u12) \<Rightarrow> bool" where
  "table_inv ws mw0 j = (\<lambda>(now, lv, mw).
     now = gray_code (j - 1) \<and>
     (\<forall>i<64. lv i = subset_sum (ws i) now) \<and>
     (\<forall>i<64. \<forall>k<j. mw i (gray_code k) = ucast (subset_sum (ws i) (gray_code k))) \<and>
     (\<forall>i b. 64 \<le> i \<or> bit b 7 \<longrightarrow> mw i b = mw0 i b))"

lemma gray_outer_eq:
  "gray_outer ws j (now, lv, mw) =
    (let now' = gray_code j; d = delta_id_of (now' XOR now);
         v = (\<lambda>i. if now' > now then lv i + ws i d else lv i - ws i d)
     in (now', (\<lambda>i. if i < 64 then v i else lv i), (\<lambda>i. if i < 64 then (mw i)(now' := ucast (v i)) else mw i)))"
  by (simp add: gray_outer_def gray_inner_fold Let_def)

lemma table_inv_step:
  assumes "1 \<le> j" "j < 128" "table_inv ws mw0 j t"
  shows "table_inv ws mw0 (Suc j) (gray_outer ws j t)"
proof -
  obtain now lv mw where t: "t = (now, lv, mw)" by (cases t)
  obtain m where j: "j = Suc m" using assms(1) by (cases j) auto
  define v where "v i = (if gray_code j > now then lv i + ws i (delta_id_of (gray_code j XOR now))
      else lv i - ws i (delta_id_of (gray_code j XOR now)))" for i
  have inv: "now = gray_code m" "i < 64 \<Longrightarrow> lv i = subset_sum (ws i) now"
    "i < 64 \<Longrightarrow> k < j \<Longrightarrow> mw i (gray_code k) = ucast (subset_sum (ws i) (gray_code k))"
    "64 \<le> i \<or> bit b 7 \<Longrightarrow> mw i b = mw0 i b" for i k b
    using assms(3) unfolding t table_inv_def j by auto
  have v: "i < 64 \<Longrightarrow> v i = subset_sum (ws i) (gray_code j)" for i
    using gray_step_sum [of m "ws i"] assms(2) by (simp add: v_def inv(1) inv(2) j)
  have low: "\<not> bit (gray_code j) 7"
    using gray_code_low [of j] assms by auto
  have eq: "gray_outer ws j t = (gray_code j, (\<lambda>i. if i < 64 then v i else lv i),
      (\<lambda>i. if i < 64 then (mw i)(gray_code j := ucast (v i)) else mw i))"
    by (simp only: t gray_outer_eq v_def Let_def)
  show ?thesis
    unfolding eq table_inv_def using v inv(3,4) low by (auto simp: less_Suc_eq)
qed

lemma zero_column: "fold (\<lambda>i mw. mw(i := (mw i)(b := x))) [0..<n] mw0 = (\<lambda>i. if i < n then (mw0 i)(b := x) else mw0 i)"
  using fold_upt_array [of "\<lambda>_ r. r(b := x)" n mw0] by simp

lemma build_table_inv: "table_inv ws mw0 128 (fold (gray_outer ws) [1..<128]
    (0, (\<lambda>_. 0), fold (\<lambda>i mw. mw(i := (mw i)(0 := 0))) [0..<64] mw0))"
proof (rule fold_upt_invariant)
  show "table_inv ws mw0 1 (0, (\<lambda>_. 0), fold (\<lambda>i mw. mw(i := (mw i)(0 := 0))) [0..<64] mw0)"
    unfolding zero_column by (auto simp: table_inv_def gray_code_def)
qed (auto intro: table_inv_step)

lemma build_table_entry:
  assumes "i < 64" "\<not> bit b 7"
  shows "build_table ws mw0 i b = ucast (subset_sum (ws i) b)"
proof -
  obtain k where "k < 128" "gray_code k = b" using gray_code_onto_128 [OF assms(2)] by blast
  then show ?thesis
    using build_table_inv [of ws mw0] assms(1)
    by (auto simp: table_inv_def build_table_def Let_def split: prod.splits)
qed

lemma build_table_untouched:
  assumes "64 \<le> i \<or> bit b 7"
  shows "build_table ws mw0 i b = mw0 i b"
  using build_table_inv [of ws mw0] assms
  by (auto simp: table_inv_def build_table_def Let_def split: prod.splits)

subsection \<open>Scores\<close>

definition light_group :: "(nat \<Rightarrow> nat \<Rightarrow> u8) \<Rightarrow> nat \<Rightarrow> bool" where
  "light_group ws i \<longleftrightarrow> (\<Sum>k<8. uint (ws i k)) < 256"

interpretation fpga_table: weight_table "\<lambda>i b. uint (build_table ws mw0 i b)" "\<lambda>i k. uint (ws i k)"
    "\<lambda>i b. light_group ws i \<and> \<not> bit b 7"
  for ws mw0
  by unfold_locales (simp add: build_table_entry uint_subset_sum light_group_def uint_up_ucast is_up)

text \<open>No feature in the last place of its byte.\<close>

definition low_features :: "feature_t \<Rightarrow> bool" where
  "low_features w \<longleftrightarrow> (\<forall>i<64. \<not> bit w (8 * i + 7))"

lemma ansmap_score:
  assumes table: "merge_weights s = build_table ws mw0"
    and light: "\<forall>i<64. light_group ws i" and low: "low_features w"
  shows "uint (ansmap_of s w c) = feature_score (\<lambda>i k. uint (ws i k)) (w AND bit_clusters s c)"
proof -
  let ?d = "w AND bit_clusters s c"
  have low': "\<not> bit (range8 ?d i) 7" if "i < 64" for i
    using low that by (simp add: low_features_def bit_range8 bit_and_iff)
  have entry: "uint (build_table ws mw0 i (range8 ?d i)) = subset_sum (\<lambda>k. uint (ws i k)) (range8 ?d i)" if "i < 64" for i
    using fpga_table.entry_sum [of i ws] light low' that by blast
  have bound: "uint (build_table ws mw0 i (range8 ?d i)) \<le> 255" if "i < 64" for i
  proof -
    have "(\<Sum>k<8. uint (ws i k)) < 256" using light that by (simp add: light_group_def)
    then show ?thesis
      using entry [OF that] subset_sum_bounds(2) [of "\<lambda>k. uint (ws i k)" "range8 ?d i"] by simp
  qed
  define S where "S = (\<Sum>i<64. uint (build_table ws mw0 i (range8 ?d i)))"
  have "S \<le> (\<Sum>i<64::nat. 255)"
    unfolding S_def by (rule sum_mono) (simp add: bound)
  moreover have "0 \<le> S"
    unfolding S_def by (rule sum_nonneg) simp
  moreover have "ansmap_of s w c = of_int S"
    unfolding S_def ansmap_of_def Let_def table fold_word_sum by (simp add: uint_up_ucast is_up)
  ultimately have "uint (ansmap_of s w c) = S"
    by (simp add: uint_of_int_small)
  also have "S = feature_score (\<lambda>i k. uint (ws i k)) ?d"
    unfolding S_def by (rule fpga_table.table_score) (use light low' in blast)
  finally show ?thesis .
qed

subsection \<open>Bitmaps\<close>

lemma bit_put_bit: "bit (put_bit f b w) k \<longleftrightarrow> (if k = f then k < 512 \<and> b else bit w k)"
  by (auto simp: put_bit_def bit_set_bit_iff bit_unset_bit_iff possible_bit_def dest: bit_imp_le_length)

lemma bit_fold_put_bit:
  "bit (fold (\<lambda>f. put_bit f (v f)) [0..<n] w) k \<longleftrightarrow> (if k < n then k < 512 \<and> v k else bit w k)"
  by (induction n) (auto simp: bit_put_bit)

definition membership_bit :: "fpga \<Rightarrow> nat \<Rightarrow> nat \<Rightarrow> bool" where
  "membership_bit s c f \<longleftrightarrow> unat (hard_partition s f) = c \<or> (clusters s c f \<noteq> 0 \<and> unat (hard_partition s f) = 25)"

lemma bitmap_row: "fold (bitmap_inner s f) [0..<n] bc = (\<lambda>i. if i < n then put_bit f (membership_bit s i f) (bc i) else bc i)"
proof -
  have "bitmap_inner s f = (\<lambda>i bc. bc(i := put_bit f (membership_bit s i f) (bc i)))"
    by (simp add: fun_eq_iff bitmap_inner_def membership_bit_def Let_def)
  then show ?thesis
    using fold_upt_array [of "\<lambda>i. put_bit f (membership_bit s i f)"] by simp
qed

lemma bitmap_rows:
  "fold (\<lambda>f bc. fold (bitmap_inner s f) [0..<m] bc) [0..<n] bc =
    (\<lambda>i. if i < m then fold (\<lambda>f. put_bit f (membership_bit s i f)) [0..<n] (bc i) else bc i)"
  by (induction n) (auto simp: bitmap_row fun_eq_iff)

lemma bit_init_bitmap:
  assumes "c < 22" "f < FEATURE_SIZE"
  shows "bit (bit_clusters (init_bitmap s) c) f \<longleftrightarrow> membership_bit s c f"
  using assms by (simp add: init_bitmap_def bitmap_rows bit_fold_put_bit)

lemma bit_set_range32:
  assumes "c < 16" "k < 512"
  shows "bit (set_range32 c v w) k \<longleftrightarrow> (if k div 32 = c then bit v (k mod 32) else bit w k)"
proof -
  have "k div 32 = c \<longleftrightarrow> c * 32 \<le> k \<and> k - c * 32 < 32" by auto
  moreover have "k div 32 = c \<Longrightarrow> k - c * 32 = k mod 32"
    by (auto simp: minus_div_mult_eq_mod)
  moreover have "bit v m \<Longrightarrow> m < 32" for m
    using bit_imp_le_length [of v m] by simp
  ultimately show ?thesis
    using assms
    by (auto simp: set_range32_def bit_or_iff bit_and_iff bit_not_iff bit_push_bit_iff bit_mask_iff bit_ucast_iff possible_bit_def)
qed

lemma bit_fold_set_range32:
  assumes "n \<le> 16" "k < 512"
  shows "bit (fold (\<lambda>c w. set_range32 c (g c) w) [0..<n] w) k \<longleftrightarrow>
    (if k div 32 < n then bit (g (k div 32)) (k mod 32) else bit w k)"
  using assms by (induction n) (auto simp: bit_set_range32)

lemma bit_load_feature:
  assumes "k < FEATURE_SIZE"
  shows "bit (cm_new_features (load_feature offset m_d msg)) k \<longleftrightarrow> bit (m_d (offset + k div 32)) (k mod 32)"
proof -
  have "k div 32 < 16" using assms by (simp add: less_mult_imp_div_less)
  then show ?thesis
    using assms by (simp add: load_feature_def bit_fold_set_range32)
qed

end
