(* ===== verification/Fpga_Choice.thy ===== *)
theory Fpga_Choice
  imports Fpga_Tables
begin

unbundle bit_operations_syntax

text \<open>
  The core the on-NIC scheduler picks.  The scan of \<open>core_id_func\<close> is an argmax over the scores
  that the weight table yields; together with the meaning of the table and of the bitmaps this says
  what the chosen core is in terms of the weights and partition the host sent.
\<close>

lemma scan_best:
  fixes score :: "nat \<Rightarrow> u16" and m0 :: membership_t
  defines "step \<equiv> (\<lambda>c m. if score c > mb_ans m then m\<lparr>mb_index := c, mb_ans := score c\<rparr> else m)"
  assumes start: "mb_ans m0 = 0" "mb_index m0 = hint"
  shows "is_best_core score n hint (mb_index (fold step [0..<n] m0))"
proof -
  define P where "P j m \<longleftrightarrow> is_best_core score j hint (mb_index m) \<and>
      (if \<forall>c<j. score c = 0 then mb_ans m = 0 else mb_ans m = score (mb_index m))" for j and m :: membership_t
  have "P n (fold step [0..<n] m0)"
  proof (rule fold_upt_invariant)
    show "P 0 m0" using start by (simp add: P_def is_best_core_def)
  next
    fix j m assume P: "P j m"
    show "P (Suc j) (step j m)"
    proof (cases "\<forall>c<j. score c = 0")
      case True
      then show ?thesis
        using P by (auto simp: P_def is_best_core_def step_def less_Suc_eq word_neq_0_conv)
    next
      case False
      then have not0: "\<not> (\<forall>c<Suc j. score c = 0)" by (auto simp: less_Suc_eq)
      have r: "mb_index m < j" "0 < score (mb_index m)" "\<forall>c<j. score c \<le> score (mb_index m)"
        "\<forall>c<mb_index m. score c < score (mb_index m)" "mb_ans m = score (mb_index m)"
        using P False by (auto simp: P_def is_best_core_def)
      then show ?thesis
        using not0
        by (cases "score j > mb_ans m")
          (auto simp: P_def is_best_core_def step_def less_Suc_eq not_less intro: le_less_trans order_le_less_trans less_trans)
    qed
  qed simp
  then show ?thesis by (simp add: P_def)
qed

lemma core_scan_best:
  "mb_ans m = 0 \<Longrightarrow> is_best_core (ansmap_of s w) (min 22 (CORE_NUM s)) (mb_index m) (mb_index (core_scan s w m))"
  unfolding core_scan_def Let_def by (rule scan_best) simp_all

definition chosen_core :: "fpga \<Rightarrow> cdma_msg_out_t \<Rightarrow> nat" where
  "chosen_core s msg = mb_index (core_scan s (cm_new_features msg)
     \<lparr>mb_index = cm_core_id msg, mb_old_index = 0, mb_ans = 0\<rparr>)"

lemma core_id_func_eq:
  "core_id_func msg s = s\<lparr>
     compute_core_id_out := compute_core_id_out s @ [\<lparr>ci_i = cm_i msg, ci_core_id = chosen_core s msg\<rparr>],
     update_cluster_in := update_cluster_in s @
       [\<lparr>uc_old_features = cm_old_features msg, uc_new_features = cm_new_features msg,
         uc_i = cm_i msg, uc_core_id = chosen_core s msg\<rparr>]\<rparr>"
  by (simp add: core_id_func_def chosen_core_def membership_cheat_def Let_def)

lemma chosen_core_best:
  "is_best_core (ansmap_of s (cm_new_features msg)) (min 22 (CORE_NUM s)) (cm_core_id msg) (chosen_core s msg)"
  unfolding chosen_core_def using core_scan_best [of "\<lparr>mb_index = cm_core_id msg, mb_old_index = 0, mb_ans = 0\<rparr>"] by simp

lemma is_best_core_transfer:
  assumes "is_best_core score n hint r"
    and "\<And>c. c < n \<Longrightarrow> score' c = uint (score c :: u16)"
  shows "is_best_core score' n hint r"
proof (cases "\<forall>c<n. score c = 0")
  case True
  then show ?thesis using assms by (auto simp: is_best_core_def)
next
  case False
  then have r: "r < n" "0 < score r" "\<forall>c<n. score c \<le> score r" "\<forall>c<r. score c < score r"
    using assms(1) by (simp_all add: is_best_core_def split: if_splits)
  have "score' r > 0" using assms(2) [OF r(1)] r(2) by (simp add: word_less_def)
  moreover have "\<forall>c<n. score' c \<le> score' r"
    using assms(2) r(1,3) by (simp add: word_le_def)
  moreover have "\<forall>c<r. score' c < score' r"
    using assms(2) r(1,4) by (simp add: word_less_def)
  ultimately show ?thesis
    using r(1) by (auto simp: is_best_core_def)
qed

subsection \<open>The choice in terms of what the host sent\<close>

text \<open>The weight and the hard partition of a feature as they stand in the DMA buffer; 25 means that
  the feature is not pinned and its members are the cores with a nonzero count.\<close>

definition host_weight :: "(nat \<Rightarrow> u8) \<Rightarrow> nat \<Rightarrow> int" where
  "host_weight cdma_buf f = uint (cdma_buf (0x200000 + f))"

definition host_member :: "(nat \<Rightarrow> u8) \<Rightarrow> fpga \<Rightarrow> nat \<Rightarrow> nat \<Rightarrow> bool" where
  "host_member cdma_buf s c f \<longleftrightarrow> (let hp = unat (cdma_buf (0x200000 + FEATURE_SIZE + f))
     in hp = c \<or> (clusters s c f \<noteq> 0 \<and> hp = 25))"

definition host_score :: "(nat \<Rightarrow> u8) \<Rightarrow> fpga \<Rightarrow> feature_t \<Rightarrow> nat \<Rightarrow> int" where
  "host_score cdma_buf s w c =
     (\<Sum>f<512. if bit w f \<and> host_member cdma_buf s c f then host_weight cdma_buf f else 0)"

lemma feature_score_cong:
  assumes "\<And>f. f < 512 \<Longrightarrow> (if bit w f then weight (f div 8) (f mod 8) else 0) = g f"
  shows "feature_score weight w = (\<Sum>f<512. g f)"
  unfolding feature_score_def using assms by (intro sum.cong) auto

lemma init_tables_score:
  assumes light: "\<forall>i<64. (\<Sum>k<8. host_weight cdma_buf (8 * i + k)) < 256" and low: "low_features w" and c: "c < 22"
  shows "uint (ansmap_of (init_bitmap (init_weight cdma_buf s)) w c) = host_score cdma_buf s w c"
proof -
  let ?s = "init_bitmap (init_weight cdma_buf s)"
  define ws where "ws = weights (init_weight cdma_buf s)"
  have ws: "i < 64 \<Longrightarrow> k < 8 \<Longrightarrow> uint (ws i k) = host_weight cdma_buf (8 * i + k)" for i k
    by (simp add: ws_def init_weight_def Let_def host_weight_def)
  have "merge_weights ?s = build_table ws (merge_weights s)"
    by (simp add: init_bitmap_def init_weight_def ws_def Let_def)
  moreover have "\<forall>i<64. light_group ws i"
    using light by (simp add: light_group_def ws)
  ultimately have "uint (ansmap_of ?s w c) = feature_score (\<lambda>i k. uint (ws i k)) (w AND bit_clusters ?s c)"
    using low by (intro ansmap_score)
  also have "\<dots> = host_score cdma_buf s w c"
    unfolding host_score_def
  proof (rule feature_score_cong)
    fix f :: nat assume f: "f < 512"
    have "membership_bit (init_weight cdma_buf s) c f = host_member cdma_buf s c f"
      using f by (simp add: membership_bit_def init_weight_def host_member_def Let_def)
    moreover have "f div 8 < 64" using f by (simp add: less_mult_imp_div_less)
    ultimately show "(if bit (w AND bit_clusters ?s c) f then uint (ws (f div 8) (f mod 8)) else 0) =
        (if bit w f \<and> host_member cdma_buf s c f then host_weight cdma_buf f else 0)"
      using f c by (simp add: bit_and_iff bit_init_bitmap ws)
  qed
  finally show ?thesis .
qed

lemma bit_int_8: "bit (8 :: int) f \<longleftrightarrow> f = 3"
  using bit_exp_iff [of 3 f, where 'a = int] by auto


text \<open>C26: The table that the Gray-code walk of \<open>init_weight\<close> leaves: an entry whose subset does
  not contain the last feature of the group is the sum of the weights of the subset, in 8-bit
  arithmetic; an entry whose subset contains it keeps whatever the table held before.\<close>

theorem fpga_table_entries:
  assumes "i < 64"
  shows "merge_weights (init_weight cdma_buf s) i b =
    (if bit b 7 then merge_weights s i b
     else ucast (\<Sum>k<8. if bit b k then cdma_buf (0x200000 + (8 * i + k)) else 0))"
proof (cases "bit b 7")
  case True
  then show ?thesis by (simp add: init_weight_def Let_def build_table_untouched)
next
  case False
  have "(\<Sum>k<8. if bit b k then weights (init_weight cdma_buf s) i k else 0) =
      (\<Sum>k<8. if bit b k then cdma_buf (0x200000 + (8 * i + k)) else 0)"
    using assms by (intro sum.cong) (auto simp: init_weight_def Let_def)
  moreover have "merge_weights (init_weight cdma_buf s) = build_table (weights (init_weight cdma_buf s)) (merge_weights s)"
    by (simp add: init_weight_def Let_def)
  ultimately show ?thesis
    using build_table_entry [OF assms False, of "weights (init_weight cdma_buf s)" "merge_weights s"] False
    by (simp add: subset_sum_def)
qed

theorem fpga_table_entries_witness:
  "merge_weights (init_weight (\<lambda>x. of_nat (x - 0x200000)) fpga_zero) 2 5 = 34 \<and>
   merge_weights (init_weight (\<lambda>x. of_nat (x - 0x200000)) fpga_zero) 2 129 = 0"
  using fpga_table_entries [of 2 "\<lambda>x. of_nat (x - 0x200000)" fpga_zero 5]
    fpga_table_entries [of 2 "\<lambda>x. of_nat (x - 0x200000)" fpga_zero 129]
  by (simp add: fpga_zero_def lessThan_nat_numeral)

end
