(* ===== verification/Fpga_Pipeline.thy ===== *)
theory Fpga_Pipeline
  imports Fpga_Choice
begin

unbundle bit_operations_syntax

text \<open>
  Invariants of the dataflow pipeline of the on-NIC scheduler over all its iterations: the two
  short streams are drained in every round, the pending messages of a slot form a chain from the
  features last counted to the features last read, and the 8-bit counters of a core count the slots
  whose last dispatched request went to that core.
\<close>

subsection \<open>Specification of the pipeline state\<close>

fun chain :: "feature_t \<Rightarrow> cdma_msg_out_t list \<Rightarrow> feature_t \<Rightarrow> bool" where
  "chain a [] b = (a = b)"
| "chain a (m # ms) b = (cm_old_features m = a \<and> chain (cm_new_features m) ms b)"

definition of_slot :: "nat \<Rightarrow> cdma_msg_out_t list \<Rightarrow> cdma_msg_out_t list" where
  "of_slot i ms = filter (\<lambda>m. cm_i m = i) ms"

definition pending :: "fpga \<Rightarrow> cdma_msg_out_t list" where
  "pending s = check_msg_out0 s @ check_msg_out1 s"

text \<open>The features last read from a slot.\<close>

definition slot_features :: "fpga \<Rightarrow> nat \<Rightarrow> feature_t" where
  "slot_features s i = (if i < slot_partition1 s then features0 s i else features1 s (i - slot_partition1 s))"

definition slot_count :: "fpga \<Rightarrow> nat" where
  "slot_count s = slot_partition0 s + slot_partition1 s"

definition pipe_wf :: "fpga \<Rightarrow> bool" where
  "pipe_wf s \<longleftrightarrow> slot_partition0 s = slot_partition1 s \<and> ii s < slot_partition0 s \<and> jj s < slot_partition1 s \<and>
     (\<forall>m\<in>set (check_msg_out0 s). cm_i m < slot_partition1 s) \<and>
     (\<forall>m\<in>set (check_msg_out1 s). slot_partition1 s \<le> cm_i m \<and> cm_i m < slot_count s) \<and>
     compute_core_id_out s = [] \<and> update_cluster_in s = []"

definition pending_chains :: "(nat \<Rightarrow> feature_t) \<Rightarrow> fpga \<Rightarrow> bool" where
  "pending_chains app s \<longleftrightarrow> (\<forall>i < slot_count s. chain (app i) (of_slot i (pending s)) (slot_features s i))"

text \<open>The number of slots whose last dispatched request has feature \<open>f\<close> and went to core \<open>c\<close>.\<close>

definition slots_on :: "(nat \<Rightarrow> feature_t) \<Rightarrow> fpga \<Rightarrow> nat \<Rightarrow> nat \<Rightarrow> nat" where
  "slots_on app s c f = card {i. i < slot_count s \<and> old_core_id s i = c \<and> bit (app i) f}"

definition counted :: "(nat \<Rightarrow> nat \<Rightarrow> u8) \<Rightarrow> (nat \<Rightarrow> feature_t) \<Rightarrow> fpga \<Rightarrow> bool" where
  "counted cl0 app s \<longleftrightarrow> (\<forall>c f. clusters s c f = cl0 c f + of_nat (slots_on app s c f))"

definition sched_inv :: "(nat \<Rightarrow> nat \<Rightarrow> u8) \<Rightarrow> fpga \<Rightarrow> bool" where
  "sched_inv cl0 s \<longleftrightarrow> pipe_wf s \<and> (\<exists>app. pending_chains app s \<and> counted cl0 app s)"

subsection \<open>Lemmas on chains and counts\<close>

lemma set_tl_subset: "set (tl xs) \<subseteq> set xs"
  by (cases xs) auto

lemma chain_snoc: "chain a (ms @ [m]) b \<longleftrightarrow> chain a ms (cm_old_features m) \<and> cm_new_features m = b"
  by (induction ms arbitrary: a) auto

lemma of_slot_simps [simp]:
  "of_slot i [] = []" "of_slot i (m # ms) = (if cm_i m = i then m # of_slot i ms else of_slot i ms)"
  "of_slot i (ms @ ms') = of_slot i ms @ of_slot i ms'"
  by (simp_all add: of_slot_def)

lemma of_slot_none: "(\<And>m. m \<in> set ms \<Longrightarrow> cm_i m \<noteq> i) \<Longrightarrow> of_slot i ms = []"
  by (auto simp: of_slot_def filter_empty_conv)

lemma slots_on_sum: "of_nat (slots_on app s c f) = (\<Sum>i < slot_count s. of_bool (old_core_id s i = c \<and> bit (app i) f))"
  unfolding slots_on_def by (rule of_nat_card_sum)

lemma cluster_iter_at:
  "cluster_iter msg oi f cl c g = (if g = f
    then cl c g - of_bool (c = oi \<and> bit (uc_old_features msg) f) + of_bool (c = uc_core_id msg \<and> bit (uc_new_features msg) f)
    else cl c g)"
  by (auto simp: cluster_iter_def Let_def)

lemma cluster_fold:
  "fold (cluster_iter msg oi) [0..<n] cl c g = (if g < n
    then cl c g - of_bool (c = oi \<and> bit (uc_old_features msg) g) + of_bool (c = uc_core_id msg \<and> bit (uc_new_features msg) g)
    else cl c g)"
  by (induction n) (auto simp: cluster_iter_at less_Suc_eq)

lemma cluster_fold_512:
  "fold (cluster_iter msg oi) [0..<512] cl c g =
    cl c g - of_bool (c = oi \<and> bit (uc_old_features msg) g) + of_bool (c = uc_core_id msg \<and> bit (uc_new_features msg) g)"
proof (cases "g < 512")
  case False
  then have "\<not> bit w g" for w :: feature_t using bit_imp_le_length [of w g] by auto
  then show ?thesis using False by (simp add: cluster_fold)
qed (simp add: cluster_fold)

subsection \<open>The stages keep the invariant\<close>

lemma check0_frame [simp]:
  "clusters (check_message_dataflow_nodma0 m s) = clusters s"
  "old_core_id (check_message_dataflow_nodma0 m s) = old_core_id s"
  "slot_partition0 (check_message_dataflow_nodma0 m s) = slot_partition0 s"
  "slot_partition1 (check_message_dataflow_nodma0 m s) = slot_partition1 s"
  "check_msg_out1 (check_message_dataflow_nodma0 m s) = check_msg_out1 s"
  "features1 (check_message_dataflow_nodma0 m s) = features1 s"
  "jj (check_message_dataflow_nodma0 m s) = jj s"
  "compute_core_id_out (check_message_dataflow_nodma0 m s) = compute_core_id_out s"
  "update_cluster_in (check_message_dataflow_nodma0 m s) = update_cluster_in s"
  by (simp_all add: check_message_dataflow_nodma0_def Let_def)

lemma check1_frame [simp]:
  "clusters (check_message_dataflow_nodma1 m s) = clusters s"
  "old_core_id (check_message_dataflow_nodma1 m s) = old_core_id s"
  "slot_partition0 (check_message_dataflow_nodma1 m s) = slot_partition0 s"
  "slot_partition1 (check_message_dataflow_nodma1 m s) = slot_partition1 s"
  "check_msg_out0 (check_message_dataflow_nodma1 m s) = check_msg_out0 s"
  "features0 (check_message_dataflow_nodma1 m s) = features0 s"
  "ii (check_message_dataflow_nodma1 m s) = ii s"
  "compute_core_id_out (check_message_dataflow_nodma1 m s) = compute_core_id_out s"
  "update_cluster_in (check_message_dataflow_nodma1 m s) = update_cluster_in s"
  by (simp_all add: check_message_dataflow_nodma1_def Let_def)

lemma counted_cong:
  "clusters s' = clusters s \<Longrightarrow> old_core_id s' = old_core_id s \<Longrightarrow> slot_count s' = slot_count s
    \<Longrightarrow> counted cl0 app s' = counted cl0 app s"
  by (simp add: counted_def slots_on_def)

lemma pending_chains_cong:
  "pending s' = pending s \<Longrightarrow> slot_features s' = slot_features s \<Longrightarrow> slot_count s' = slot_count s
    \<Longrightarrow> pending_chains app s' = pending_chains app s"
  by (simp add: pending_chains_def)

text \<open>A step that leaves the streams, the slots and the counters alone keeps the invariant.\<close>

lemma sched_inv_frame:
  assumes "sched_inv cl0 s" "pipe_wf s'" "pending s' = pending s" "slot_features s' = slot_features s"
    "slot_count s' = slot_count s" "clusters s' = clusters s" "old_core_id s' = old_core_id s"
  shows "sched_inv cl0 s'"
  using assms pending_chains_cong [of s' s] counted_cong [of s' s] by (auto simp: sched_inv_def)

text \<open>What the first stage does: at most one message for the scanned slot is appended, and it is the
  next link of the slot's chain.\<close>

lemma check0_cases:
  obtains (quiet) "check_msg_out0 (check_message_dataflow_nodma0 m s) = check_msg_out0 s"
      "features0 (check_message_dataflow_nodma0 m s) = features0 s"
  | (message) msg where "check_msg_out0 (check_message_dataflow_nodma0 m s) = check_msg_out0 s @ [msg]"
      "features0 (check_message_dataflow_nodma0 m s) = (features0 s)(ii s := cm_new_features msg)"
      "cm_i msg = ii s" "cm_old_features msg = features0 s (ii s)"
proof (cases "rrb_toggled (drop_bit 16 (m (slot_offset0 s (ii s))) AND 0xFFFF) (RRB0 s (ii s))")
  case True
  then show ?thesis by (intro message) (auto simp: check_message_dataflow_nodma0_def Let_def load_feature_def)
next
  case False
  then show ?thesis by (intro quiet) (auto simp: check_message_dataflow_nodma0_def Let_def)
qed

lemma check1_cases:
  obtains (quiet) "check_msg_out1 (check_message_dataflow_nodma1 m s) = check_msg_out1 s"
      "features1 (check_message_dataflow_nodma1 m s) = features1 s"
  | (message) msg where "check_msg_out1 (check_message_dataflow_nodma1 m s) = check_msg_out1 s @ [msg]"
      "features1 (check_message_dataflow_nodma1 m s) = (features1 s)(jj s := cm_new_features msg)"
      "cm_i msg = jj s + slot_partition1 s" "cm_old_features msg = features1 s (jj s)"
proof (cases "rrb_toggled (drop_bit 16 (m (slot_offset1 s (jj s))) AND 0xFFFF) (RRB1 s (jj s))")
  case True
  then show ?thesis by (intro message) (auto simp: check_message_dataflow_nodma1_def Let_def load_feature_def)
next
  case False
  then show ?thesis by (intro quiet) (auto simp: check_message_dataflow_nodma1_def Let_def)
qed

lemma check0_ii: "ii s < slot_partition0 s \<Longrightarrow> ii (check_message_dataflow_nodma0 m s) < slot_partition0 s"
  by (auto simp: check_message_dataflow_nodma0_def Let_def)

lemma check1_jj: "jj s < slot_partition1 s \<Longrightarrow> jj (check_message_dataflow_nodma1 m s) < slot_partition1 s"
  by (auto simp: check_message_dataflow_nodma1_def Let_def)

lemma check0_inv:
  assumes "pipe_wf s" "pending_chains app s"
  shows "pipe_wf (check_message_dataflow_nodma0 m s) \<and> pending_chains app (check_message_dataflow_nodma0 m s)"
proof (cases rule: check0_cases [of m s])
  case quiet
  then show ?thesis
    using assms check0_ii [of s m]
    by (subst pending_chains_cong [of _ s]) (auto simp: pipe_wf_def pending_def slot_features_def slot_count_def)
next
  case (message msg)
  have none: "of_slot (ii s) (check_msg_out1 s) = []"
    using assms(1) by (intro of_slot_none) (auto simp: pipe_wf_def)
  have "pipe_wf (check_message_dataflow_nodma0 m s)"
    using assms(1) message(1,3) check0_ii [of s m] by (auto simp: pipe_wf_def slot_count_def)
  moreover have "pending_chains app (check_message_dataflow_nodma0 m s)"
    unfolding pending_chains_def
  proof (intro allI impI)
    fix i assume i: "i < slot_count (check_message_dataflow_nodma0 m s)"
    then have "chain (app i) (of_slot i (pending s)) (slot_features s i)"
      using assms(2) by (simp add: pending_chains_def slot_count_def)
    then show "chain (app i) (of_slot i (pending (check_message_dataflow_nodma0 m s)))
        (slot_features (check_message_dataflow_nodma0 m s) i)"
      using message none assms(1)
      by (cases "i = ii s") (auto simp: pending_def slot_features_def chain_snoc pipe_wf_def)
  qed
  ultimately show ?thesis ..
qed

lemma check1_inv:
  assumes "pipe_wf s" "pending_chains app s"
  shows "pipe_wf (check_message_dataflow_nodma1 m s) \<and> pending_chains app (check_message_dataflow_nodma1 m s)"
proof (cases rule: check1_cases [of m s])
  case quiet
  then show ?thesis
    using assms check1_jj [of s m]
    by (subst pending_chains_cong [of _ s]) (auto simp: pipe_wf_def pending_def slot_features_def slot_count_def)
next
  case (message msg)
  have "pipe_wf (check_message_dataflow_nodma1 m s)"
    using assms(1) message(1,3) check1_jj [of s m] by (auto simp: pipe_wf_def slot_count_def)
  moreover have "pending_chains app (check_message_dataflow_nodma1 m s)"
    unfolding pending_chains_def
  proof (intro allI impI)
    fix i assume i: "i < slot_count (check_message_dataflow_nodma1 m s)"
    then have "chain (app i) (of_slot i (pending s)) (slot_features s i)"
      using assms(2) by (simp add: pending_chains_def slot_count_def)
    then show "chain (app i) (of_slot i (pending (check_message_dataflow_nodma1 m s)))
        (slot_features (check_message_dataflow_nodma1 m s) i)"
      using message
      by (cases "i = jj s + slot_partition1 s")
        (auto simp: pending_def slot_features_def chain_snoc simp flip: append_assoc)
  qed
  ultimately show ?thesis ..
qed

text \<open>The last three stages on one message.\<close>

definition dispatched :: "cdma_msg_out_t \<Rightarrow> fpga \<Rightarrow> fpga" where
  "dispatched msg s = update_cluster (doorbell_dataflow (core_id_func msg s))"

lemma dispatched_fields:
  assumes "compute_core_id_out s = []" "update_cluster_in s = []"
  shows "compute_core_id_out (dispatched msg s) = []" "update_cluster_in (dispatched msg s) = []"
    "old_core_id (dispatched msg s) = (old_core_id s)(cm_i msg := chosen_core s msg)"
    "clusters (dispatched msg s) c f = clusters s c f
      - of_bool (c = old_core_id s (cm_i msg) \<and> bit (cm_old_features msg) f)
      + of_bool (c = chosen_core s msg \<and> bit (cm_new_features msg) f)"
  using assms
  by (simp_all add: dispatched_def core_id_func_eq doorbell_dataflow_def update_cluster_def Let_def cluster_fold_512
      del: of_bool_conj)

lemma dispatched_frame [simp]:
  "slot_partition0 (dispatched msg s) = slot_partition0 s" "slot_partition1 (dispatched msg s) = slot_partition1 s"
  "ii (dispatched msg s) = ii s" "jj (dispatched msg s) = jj s" "kk (dispatched msg s) = kk s"
  "check_msg_out0 (dispatched msg s) = check_msg_out0 s" "check_msg_out1 (dispatched msg s) = check_msg_out1 s"
  "features0 (dispatched msg s) = features0 s" "features1 (dispatched msg s) = features1 s"
  by (simp_all add: dispatched_def core_id_func_eq doorbell_dataflow_def update_cluster_def Let_def split: list.splits)

lemma dispatched_counted:
  assumes "counted cl0 app s" "cm_i msg < slot_count s" "app (cm_i msg) = cm_old_features msg"
    "compute_core_id_out s = []" "update_cluster_in s = []"
  shows "counted cl0 (app(cm_i msg := cm_new_features msg)) (dispatched msg s)"
  unfolding counted_def
proof (intro allI)
  fix c f
  let ?t = "dispatched msg s" and ?app = "app(cm_i msg := cm_new_features msg)"
  have n: "slot_count ?t = slot_count s" by (simp add: slot_count_def)
  have "(of_nat (slots_on ?app ?t c f) :: u8) = of_nat (slots_on app s c f)
      - of_bool (old_core_id s (cm_i msg) = c \<and> bit (app (cm_i msg)) f)
      + of_bool (old_core_id ?t (cm_i msg) = c \<and> bit (?app (cm_i msg)) f)"
    unfolding slots_on_sum n
    by (rule sum_change_one) (use assms in \<open>simp_all add: dispatched_fields del: of_bool_conj\<close>)
  then show "clusters ?t c f = cl0 c f + of_nat (slots_on ?app ?t c f)"
    using assms by (auto simp: dispatched_fields counted_def)
qed

lemma dispatched_chains:
  assumes "pending_chains app s" "of_slot (cm_i msg) (pending s) = msg # of_slot (cm_i msg) (pending s0)"
    "\<And>i. i \<noteq> cm_i msg \<Longrightarrow> of_slot i (pending s0) = of_slot i (pending s)"
    "slot_features s0 = slot_features s" "slot_count s0 = slot_count s" "cm_i msg < slot_count s"
  shows "app (cm_i msg) = cm_old_features msg"
    and "pending_chains (app(cm_i msg := cm_new_features msg)) (dispatched msg s0)"
proof -
  have msg: "chain (app (cm_i msg)) (msg # of_slot (cm_i msg) (pending s0)) (slot_features s (cm_i msg))"
    using assms(1,2,6) by (auto simp: pending_chains_def)
  then show "app (cm_i msg) = cm_old_features msg" by simp
  have "slot_features (dispatched msg s0) = slot_features s0" "slot_count (dispatched msg s0) = slot_count s0"
    "pending (dispatched msg s0) = pending s0"
    by (simp_all add: slot_features_def slot_count_def pending_def fun_eq_iff)
  then show "pending_chains (app(cm_i msg := cm_new_features msg)) (dispatched msg s0)"
    using msg assms(1,3,4,5) by (auto simp: pending_chains_def)
qed

lemma update_cluster_idle: "update_cluster_in s = [] \<Longrightarrow> update_cluster s = s"
  by (simp add: update_cluster_def)

lemma doorbell_idle: "compute_core_id_out s = [] \<Longrightarrow> doorbell_dataflow s = s"
  by (simp add: doorbell_dataflow_def)

lemma tail_inv:
  assumes "pipe_wf s" "pending_chains app s" "counted cl0 app s"
  shows "sched_inv cl0 (update_cluster (doorbell_dataflow (compute_core_id s)))"
proof (cases "(if kk s then check_msg_out1 s else check_msg_out0 s) = []")
  case True
  then have "update_cluster (doorbell_dataflow (compute_core_id s)) = s\<lparr>kk := \<not> kk s\<rparr>"
    using assms(1) by (auto simp: compute_core_id_def update_cluster_idle doorbell_idle pipe_wf_def split: if_splits)
  moreover have "sched_inv cl0 (s\<lparr>kk := \<not> kk s\<rparr>)"
    by (rule sched_inv_frame [of _ s])
      (use assms in \<open>auto simp: sched_inv_def pipe_wf_def pending_def slot_features_def slot_count_def fun_eq_iff\<close>)
  ultimately show ?thesis by simp
next
  case False
  define s0 where "s0 = (if kk s then s\<lparr>check_msg_out1 := tl (check_msg_out1 s)\<rparr> else s\<lparr>check_msg_out0 := tl (check_msg_out0 s)\<rparr>)"
  define msg where "msg = hd (if kk s then check_msg_out1 s else check_msg_out0 s)"
  have eq: "update_cluster (doorbell_dataflow (compute_core_id s)) = dispatched msg s0"
    using False by (auto simp: compute_core_id_def dispatched_def s0_def msg_def split: list.splits if_splits)
  have i: "cm_i msg < slot_count s"
    using False assms(1) by (auto simp: msg_def pipe_wf_def slot_count_def dest!: hd_in_set split: if_splits)
  have none: "of_slot (cm_i msg) (check_msg_out0 s) = []" if "kk s"
  proof (rule of_slot_none)
    fix m assume "m \<in> set (check_msg_out0 s)"
    moreover have "msg \<in> set (check_msg_out1 s)" using False that by (simp add: msg_def)
    ultimately show "cm_i m \<noteq> cm_i msg" using assms(1) by (fastforce simp: pipe_wf_def)
  qed
  have s0: "slot_features s0 = slot_features s" "slot_count s0 = slot_count s" "old_core_id s0 = old_core_id s"
    "clusters s0 = clusters s" "compute_core_id_out s0 = []" "update_cluster_in s0 = []"
    using assms(1) by (auto simp: s0_def slot_features_def slot_count_def fun_eq_iff pipe_wf_def)
  have "of_slot (cm_i msg) (pending s) = msg # of_slot (cm_i msg) (pending s0)"
    "\<And>i. i \<noteq> cm_i msg \<Longrightarrow> of_slot i (pending s0) = of_slot i (pending s)"
    using False none by (auto simp: pending_def s0_def msg_def neq_Nil_conv split: if_splits)
  note chains = dispatched_chains [OF assms(2) this s0(1,2) i]
  moreover have "counted cl0 (app(cm_i msg := cm_new_features msg)) (dispatched msg s0)"
    using assms(3) i chains(1) s0 by (intro dispatched_counted) (auto simp: counted_def slots_on_def)
  moreover have "pipe_wf (dispatched msg s0)"
  proof -
    have "set (check_msg_out0 s0) \<subseteq> set (check_msg_out0 s)" "set (check_msg_out1 s0) \<subseteq> set (check_msg_out1 s)"
      using set_tl_subset [of "check_msg_out0 s"] set_tl_subset [of "check_msg_out1 s"] by (simp_all add: s0_def)
    moreover have "slot_partition0 s0 = slot_partition0 s" "slot_partition1 s0 = slot_partition1 s" "ii s0 = ii s" "jj s0 = jj s"
      by (simp_all add: s0_def)
    ultimately show ?thesis
      using assms(1) s0(5,6) by (auto simp: pipe_wf_def slot_count_def dispatched_fields subset_iff)
  qed
  ultimately show ?thesis
    unfolding eq sched_inv_def by blast
qed

lemma dataflow_inv: "sched_inv cl0 s \<Longrightarrow> sched_inv cl0 (dataflow_no_dma m0 m1 s)"
proof -
  assume "sched_inv cl0 s"
  then obtain app where app: "pipe_wf s" "pending_chains app s" "counted cl0 app s"
    by (auto simp: sched_inv_def)
  let ?s = "check_message_dataflow_nodma1 m1 (check_message_dataflow_nodma0 m0 s)"
  have "pipe_wf ?s \<and> pending_chains app ?s"
    using check0_inv [OF app(1,2)] by (intro check1_inv) auto
  moreover have "counted cl0 app ?s"
    using app(3) by (subst counted_cong [of _ s]) (auto simp: slot_count_def)
  ultimately show ?thesis
    unfolding dataflow_no_dma_def by (intro tail_inv) auto
qed

subsection \<open>The endless loop\<close>

lemma pipe_wf_cong:
  assumes "slot_partition0 s' = slot_partition0 s" "slot_partition1 s' = slot_partition1 s" "ii s' = ii s" "jj s' = jj s"
    "check_msg_out0 s' = check_msg_out0 s" "check_msg_out1 s' = check_msg_out1 s"
    "compute_core_id_out s' = compute_core_id_out s" "update_cluster_in s' = update_cluster_in s"
  shows "pipe_wf s' = pipe_wf s"
  using assms by (simp add: pipe_wf_def slot_count_def)

lemma init_bitmap_inv: "sched_inv cl0 s \<Longrightarrow> sched_inv cl0 (init_bitmap s)"
  by (rule sched_inv_frame [of _ s])
    (auto simp: init_bitmap_def sched_inv_def pipe_wf_def pending_def slot_features_def slot_count_def fun_eq_iff)

lemma init_weight_inv: "sched_inv cl0 s \<Longrightarrow> sched_inv cl0 (init_weight cdma_buf s)"
  by (rule sched_inv_frame [of _ s])
    (auto simp: init_weight_def Let_def sched_inv_def pipe_wf_def pending_def slot_features_def slot_count_def fun_eq_iff)

lemma while_body_inv:
  assumes "sched_inv cl0 s" "while_body e (u, s) = Some (u', s')"
  shows "sched_inv cl0 s'"
proof -
  have "sched_inv cl0 (dataflow_rounds e 1024 s)"
    unfolding dataflow_rounds_def
    by (rule fold_keeps [of "sched_inv cl0"]) (auto intro: dataflow_inv assms(1))
  then show ?thesis
    using assms by (auto simp: while_body_def init_bitmap_inv init_weight_inv split: if_splits)
qed

fun loop_state :: "(nat \<times> fpga) + (nat \<times> fpga) \<Rightarrow> fpga" where
  "loop_state (Inl (t, s)) = s"
| "loop_state (Inr (u_w, s)) = s"

lemma while_loop_inv: "sched_inv cl0 (snd us) \<Longrightarrow> sched_inv cl0 (loop_state (while_loop fuel env t us))"
proof (induction fuel env t us rule: while_loop.induct)
  case (1 env t us)
  then show ?case by (cases us) simp
next
  case (2 fuel env t us)
  then show ?case
    by (cases us) (auto split: option.splits dest: while_body_inv)
qed

end
