(* ===== verification/Fpga_Layout.thy ===== *)
theory Fpga_Layout
  imports Fpga_Pipeline
begin

unbundle bit_operations_syntax

text \<open>
  What \<open>schedule_nodma\<close> sets up before its endless loop: the addresses of the doorbell queues in
  host memory and of the message slots in the receive buffers.  The results about whole runs of the
  kernel follow from the layout and the pipeline invariant.
\<close>

subsection \<open>Doorbell queues\<close>

lemma queue_layout_eq:
  "fold queue_layout_step [0..<n] (addr, s) = (addr + n * 16640,
     s\<lparr>queue_metadata := (\<lambda>c. if c < n then (queue_metadata s c)(0 := 0) else queue_metadata s c),
       queue_addr_map := (\<lambda>c. if c < n then (addr + c * 16640 + 256 + (MESS_NUM s * 64 * ip_id s) div 2) div 4
                               else queue_addr_map s c)\<rparr>)"
proof (induction n)
  case 0
  show ?case by simp
next
  case (Suc n)
  show ?case
    unfolding upt_Suc_append [OF le0] fold_append comp_def Suc.IH
    by (simp add: queue_layout_step_def Let_def fun_eq_iff less_Suc_eq del: One_nat_def)
qed

lemma ring_entry_inj:
  fixes n :: nat
  assumes "h < n" "h' < n"
  shows "n * c + h = n * c' + h' \<longleftrightarrow> c = c' \<and> h = h'"
proof
  assume eq: "n * c + h = n * c' + h'"
  have "(n * c + h) div n = c" "(n * c + h) mod n = h" "(n * c' + h') div n = c'" "(n * c' + h') mod n = h'"
    using assms by simp_all
  with eq show "c = c' \<and> h = h'" by metis
qed simp

subsection \<open>Message slots\<close>

definition slot_word :: "fpga \<Rightarrow> nat \<Rightarrow> nat" where
  "slot_word s k = (SLOT_LEN * k + QUEUE_ADDR_BASE s) div 4 + 16"

text \<open>The fields the layout loop does not touch.\<close>

definition layout_frame :: "fpga \<Rightarrow> fpga \<Rightarrow> bool" where
  "layout_frame s t \<longleftrightarrow> SLOT_NUM t = SLOT_NUM s \<and> my_client_num t = my_client_num s \<and> CORE_NUM t = CORE_NUM s \<and>
     MESS_NUM t = MESS_NUM s \<and> CLIENT_NUM t = CLIENT_NUM s \<and>
     QUEUE_ADDR_BASE t = QUEUE_ADDR_BASE s \<and> clusters t = clusters s \<and> features0 t = features0 s \<and> features1 t = features1 s \<and>
     check_msg_out0 t = check_msg_out0 s \<and> check_msg_out1 t = check_msg_out1 s \<and>
     compute_core_id_out t = compute_core_id_out s \<and> update_cluster_in t = update_cluster_in s \<and>
     queue_metadata t = queue_metadata s \<and> queue_addr_map t = queue_addr_map s"

lemma layout_frame_step: "layout_frame s t \<Longrightarrow> layout_frame s (slot_layout_step i j t)"
  by (simp add: layout_frame_def slot_layout_step_def Let_def)

lemma slot_layout_low:
  assumes "i * 2 < my_client_num t"
  shows "slot_offset0 (slot_layout_step i j t) = (slot_offset0 t)(i * SLOT_NUM t + j := slot_word t (i * SLOT_NUM t + j))"
    "RRB0 (slot_layout_step i j t) = (RRB0 t)(i * SLOT_NUM t + j := 0)"
    "RRB1 (slot_layout_step i j t) = (RRB1 t)(i * SLOT_NUM t + j := 0)"
    "slot_offset1 (slot_layout_step i j t) = slot_offset1 t"
  using assms by (simp_all add: slot_layout_step_def slot_word_def Let_def)

lemma slot_layout_high:
  assumes "\<not> i * 2 < my_client_num t"
  shows "slot_offset1 (slot_layout_step i j t) = (slot_offset1 t)
      ((i - my_client_num t div 2) * SLOT_NUM t + j := slot_word t ((i - my_client_num t div 2) * SLOT_NUM t + j))"
    "slot_offset0 (slot_layout_step i j t) = slot_offset0 t"
    "RRB0 (slot_layout_step i j t) = RRB0 t" "RRB1 (slot_layout_step i j t) = RRB1 t"
  using assms by (simp_all add: slot_layout_step_def slot_word_def Let_def)

definition low_done :: "fpga \<Rightarrow> nat \<Rightarrow> fpga \<Rightarrow> bool" where
  "low_done s m t \<longleftrightarrow> layout_frame s t \<and> (\<forall>k<m. slot_offset0 t k = slot_word s k \<and> RRB0 t k = 0 \<and> RRB1 t k = 0)"

definition high_done :: "fpga \<Rightarrow> nat \<Rightarrow> nat \<Rightarrow> fpga \<Rightarrow> bool" where
  "high_done s m0 m t \<longleftrightarrow> low_done s m0 t \<and> (\<forall>k<m. slot_offset1 t k = slot_word s k)"

lemma low_step:
  assumes "low_done s (i * SLOT_NUM s + j) t" "i * 2 < my_client_num s"
  shows "low_done s (i * SLOT_NUM s + Suc j) (slot_layout_step i j t)"
proof -
  have "SLOT_NUM t = SLOT_NUM s" "i * 2 < my_client_num t" "slot_word t = slot_word s"
    using assms by (auto simp: low_done_def layout_frame_def slot_word_def fun_eq_iff)
  then show ?thesis
    using assms(1) layout_frame_step [of s t i j] by (auto simp: low_done_def slot_layout_low less_Suc_eq)
qed

lemma high_step:
  assumes "high_done s m0 ((i - my_client_num s div 2) * SLOT_NUM s + j) t" "\<not> i * 2 < my_client_num s"
  shows "high_done s m0 ((i - my_client_num s div 2) * SLOT_NUM s + Suc j) (slot_layout_step i j t)"
proof -
  have "SLOT_NUM t = SLOT_NUM s" "my_client_num t = my_client_num s" "slot_word t = slot_word s"
    using assms(1) by (auto simp: high_done_def low_done_def layout_frame_def slot_word_def fun_eq_iff)
  then show ?thesis
    using assms layout_frame_step [of s t i j] by (auto simp: high_done_def low_done_def slot_layout_high less_Suc_eq)
qed

lemma low_client:
  assumes "low_done s (i * SLOT_NUM s) t" "i * 2 < my_client_num s"
  shows "low_done s (Suc i * SLOT_NUM s) (fold (slot_layout_step i) [0..<SLOT_NUM t] t)"
proof -
  have "low_done s (i * SLOT_NUM s + SLOT_NUM t) (fold (slot_layout_step i) [0..<SLOT_NUM t] t)"
    by (rule fold_upt_invariant [of 0 _ "\<lambda>j. low_done s (i * SLOT_NUM s + j)"]) (use assms low_step in auto)
  moreover have "SLOT_NUM t = SLOT_NUM s" using assms(1) by (simp add: low_done_def layout_frame_def)
  ultimately show ?thesis by (simp add: add.commute)
qed

lemma high_client:
  assumes "high_done s m0 ((i - my_client_num s div 2) * SLOT_NUM s) t" "\<not> i * 2 < my_client_num s"
  shows "high_done s m0 ((Suc i - my_client_num s div 2) * SLOT_NUM s) (fold (slot_layout_step i) [0..<SLOT_NUM t] t)"
proof -
  let ?m = "(i - my_client_num s div 2) * SLOT_NUM s"
  have "high_done s m0 (?m + SLOT_NUM t) (fold (slot_layout_step i) [0..<SLOT_NUM t] t)"
    by (rule fold_upt_invariant [of 0 _ "\<lambda>j. high_done s m0 (?m + j)"]) (use assms high_step in auto)
  moreover have "SLOT_NUM t = SLOT_NUM s" using assms(1) by (simp add: high_done_def low_done_def layout_frame_def)
  moreover have "Suc i - my_client_num s div 2 = Suc (i - my_client_num s div 2)"
    using assms(2) by linarith
  ultimately show ?thesis by (simp add: add.commute)
qed

lemma slot_layout_done:
  assumes "my_client_num s = 2 * h"
  shows "high_done s (h * SLOT_NUM s) (h * SLOT_NUM s)
    (fold (\<lambda>i s. fold (slot_layout_step i) [0..<SLOT_NUM s] s) [0..<my_client_num s] s)"
proof -
  let ?f = "\<lambda>i s. fold (slot_layout_step i) [0..<SLOT_NUM s] s"
  have low: "low_done s (h * SLOT_NUM s) (fold ?f [0..<h] s)"
    by (rule fold_upt_invariant [of 0 h "\<lambda>i. low_done s (i * SLOT_NUM s)"])
      (use assms low_client in \<open>auto simp: low_done_def layout_frame_def\<close>)
  have "high_done s (h * SLOT_NUM s) ((2 * h - h) * SLOT_NUM s) (fold ?f [h..<2 * h] (fold ?f [0..<h] s))"
    by (rule fold_upt_invariant [of h "2 * h" "\<lambda>i. high_done s (h * SLOT_NUM s) ((i - h) * SLOT_NUM s)"])
      (use assms low high_client [of s "h * SLOT_NUM s"] in \<open>auto simp: high_done_def [of _ _ 0]\<close>)
  moreover have "[0..<2 * h] = [0..<h] @ [h..<2 * h]"
    using upt_add_eq_append [of 0 h h] by (simp add: mult_2)
  ultimately show ?thesis
    using assms by simp
qed

subsection \<open>The prologue as a whole\<close>

definition args_set :: "sched_args \<Rightarrow> fpga \<Rightarrow> fpga" where
  "args_set a s = s\<lparr>BASE_ADDR := a_BASE_ADDR a, CLIENT_NUM := a_CLIENT_NUM a, SLOT_NUM := a_SLOT_NUM a, CORE_NUM := a_CORE_NUM a,
     MESS_NUM := a_MESS_NUM a, b_client := a_b_client a, e_client := a_e_client a,
     b_core := a_b_core a, e_core := a_e_core a, ip_id := a_ip_id a,
     my_client_num := a_e_client a - a_b_client a, QUEUE_ADDR_BASE := a_b_client a * a_SLOT_NUM a * SLOT_LEN\<rparr>"

definition queues_set :: "sched_args \<Rightarrow> fpga \<Rightarrow> fpga" where
  "queues_set a s = snd (fold queue_layout_step [0..<a_CORE_NUM a]
     (SLOT_LEN * a_SLOT_NUM a * a_CLIENT_NUM a + MESSAGE_ADDR s, args_set a s))"

lemma queues_set_fields:
  "SLOT_NUM (queues_set a s) = a_SLOT_NUM a" "my_client_num (queues_set a s) = a_e_client a - a_b_client a"
  "CORE_NUM (queues_set a s) = a_CORE_NUM a" "MESS_NUM (queues_set a s) = a_MESS_NUM a"
  "CLIENT_NUM (queues_set a s) = a_CLIENT_NUM a"
  "QUEUE_ADDR_BASE (queues_set a s) = a_b_client a * a_SLOT_NUM a * SLOT_LEN"
  "clusters (queues_set a s) = clusters s" "features0 (queues_set a s) = features0 s" "features1 (queues_set a s) = features1 s"
  "check_msg_out0 (queues_set a s) = check_msg_out0 s" "check_msg_out1 (queues_set a s) = check_msg_out1 s"
  "compute_core_id_out (queues_set a s) = compute_core_id_out s" "update_cluster_in (queues_set a s) = update_cluster_in s"
  "c < a_CORE_NUM a \<Longrightarrow> queue_metadata (queues_set a s) c 0 = 0"
  "c < a_CORE_NUM a \<Longrightarrow> queue_addr_map (queues_set a s) c =
     (SLOT_LEN * a_SLOT_NUM a * a_CLIENT_NUM a + MESSAGE_ADDR s + c * 16640 + 256 + (a_MESS_NUM a * 64 * a_ip_id a) div 2) div 4"
  by (simp_all add: queues_set_def queue_layout_eq args_set_def)

definition slots_set :: "sched_args \<Rightarrow> fpga \<Rightarrow> fpga" where
  "slots_set a s = fold (\<lambda>i s. fold (slot_layout_step i) [0..<SLOT_NUM s] s) [0..<my_client_num (queues_set a s)] (queues_set a s)"

lemma slots_set_frame: "layout_frame (queues_set a s) (slots_set a s)"
  unfolding slots_set_def
  by (intro fold_keeps [of "layout_frame (queues_set a s)"]) (auto simp: layout_frame_def slot_layout_step_def Let_def)

lemma schedule_prologue_eq:
  "schedule_prologue a s = (slots_set a s)\<lparr>
     max_slot := a_SLOT_NUM a * (a_e_client a - a_b_client a),
     slot_partition0 := a_SLOT_NUM a * (a_e_client a - a_b_client a) div 2,
     slot_partition1 := a_SLOT_NUM a * (a_e_client a - a_b_client a) div 2,
     cdma_writes := cdma_writes (slots_set a s) @ [(0, 4), (0, 0x7000)]\<rparr>"
proof -
  have "SLOT_NUM (slots_set a s) = a_SLOT_NUM a" "my_client_num (slots_set a s) = a_e_client a - a_b_client a"
    using slots_set_frame [of a s] by (auto simp: layout_frame_def queues_set_fields)
  moreover have "schedule_prologue a s = (slots_set a s)\<lparr>
      max_slot := SLOT_NUM (slots_set a s) * my_client_num (slots_set a s),
      slot_partition0 := SLOT_NUM (slots_set a s) * my_client_num (slots_set a s) div 2,
      slot_partition1 := SLOT_NUM (slots_set a s) * my_client_num (slots_set a s) div 2,
      cdma_writes := cdma_writes (slots_set a s) @ [(0, 4), (0, 0x7000)]\<rparr>"
    by (simp only: schedule_prologue_def slots_set_def queues_set_def args_set_def Let_def) simp
  ultimately show ?thesis by simp
qed

lemma prologue_fields:
  "clusters (schedule_prologue a s) = clusters s" "features0 (schedule_prologue a s) = features0 s"
  "features1 (schedule_prologue a s) = features1 s" "check_msg_out0 (schedule_prologue a s) = check_msg_out0 s"
  "check_msg_out1 (schedule_prologue a s) = check_msg_out1 s" "compute_core_id_out (schedule_prologue a s) = compute_core_id_out s"
  "update_cluster_in (schedule_prologue a s) = update_cluster_in s"
  "slot_partition0 (schedule_prologue a s) = a_SLOT_NUM a * (a_e_client a - a_b_client a) div 2"
  "slot_partition1 (schedule_prologue a s) = a_SLOT_NUM a * (a_e_client a - a_b_client a) div 2"
  "MESS_NUM (schedule_prologue a s) = a_MESS_NUM a" "CORE_NUM (schedule_prologue a s) = a_CORE_NUM a"
  "queue_metadata (schedule_prologue a s) = queue_metadata (queues_set a s)"
  "queue_addr_map (schedule_prologue a s) = queue_addr_map (queues_set a s)"
  using slots_set_frame [of a s] by (auto simp: schedule_prologue_eq layout_frame_def queues_set_fields)

lemma prologue_inv:
  assumes "0 < a_SLOT_NUM a * (a_e_client a - a_b_client a) div 2"
  shows "sched_inv clusters_init ((schedule_prologue a fpga_zero)\<lparr>ii := 0, jj := 0, kk := False\<rparr>)"
proof -
  let ?s = "(schedule_prologue a fpga_zero)\<lparr>ii := 0, jj := 0, kk := False\<rparr>"
  have "pipe_wf ?s" using assms by (simp add: pipe_wf_def prologue_fields fpga_zero_def)
  moreover have "pending_chains (\<lambda>_. 0) ?s" "counted clusters_init (\<lambda>_. 0) ?s"
    by (simp_all add: pending_chains_def pending_def slot_features_def counted_def slots_on_def prologue_fields fpga_zero_def)
  ultimately show ?thesis unfolding sched_inv_def by blast
qed

subsection \<open>Properties\<close>

definition sample_args :: sched_args where
  "sample_args = \<lparr>a_con = 2, a_BASE_ADDR = 0, a_CLIENT_NUM = 4, a_SLOT_NUM = 2, a_CORE_NUM = 8, a_MESS_NUM = 64,
     a_b_client = 0, a_e_client = 4, a_b_core = 0, a_e_core = 8, a_ip_id = 0\<rparr>"

definition sample_env :: sched_env where
  "sample_env = \<lparr>env_m0 = (\<lambda>_ _. 0xFFFF0001), env_m1 = (\<lambda>_ _. 0), env_control = (\<lambda>_. 666),
     env_cdma_status = 2, env_cdma_buf = (\<lambda>_. 25)\<rparr>"

text \<open>C7: Whatever the clients write and whenever they write it, in every state that a run of the
  kernel reaches from power-up there is for each slot a feature vector \<open>app i\<close> such that the 8-bit
  counter of every core and feature is its initial value plus the number of slots whose last
  dispatched request went to that core and whose \<open>app i\<close> has the feature, modulo 256; and the
  messages still pending for a slot lead from \<open>app i\<close> to the features last read from it.  In
  particular no count is lost or made twice.\<close>

theorem fpga_counters_count_slots:
  assumes "0 < a_SLOT_NUM a * (a_e_client a - a_b_client a) div 2"
    and "s = loop_state (schedule_nodma_run fuel env a fpga_zero)"
  shows "\<exists>app. (\<forall>c f. clusters s c f = clusters_init c f +
        of_nat (card {i. i < slot_count s \<and> old_core_id s i = c \<and> bit (app i) f})) \<and>
      (\<forall>i < slot_count s. chain (app i) (of_slot i (pending s)) (slot_features s i))"
proof -
  have "sched_inv clusters_init s"
    unfolding assms(2) schedule_nodma_run_def by (intro while_loop_inv) (simp add: prologue_inv assms(1))
  then show ?thesis
    unfolding sched_inv_def counted_def slots_on_def pending_chains_def by blast
qed

theorem fpga_counters_count_slots_witness:
  "\<exists>app. \<forall>c f. clusters (loop_state (schedule_nodma_run 3 (\<lambda>_. sample_env) sample_args fpga_zero)) c f =
     clusters_init c f + of_nat (card {i. i < slot_count (loop_state (schedule_nodma_run 3 (\<lambda>_. sample_env) sample_args fpga_zero)) \<and>
       old_core_id (loop_state (schedule_nodma_run 3 (\<lambda>_. sample_env) sample_args fpga_zero)) i = c \<and> bit (app i :: feature_t) f})"
proof -
  have "0 < a_SLOT_NUM sample_args * (a_e_client sample_args - a_b_client sample_args) div 2"
    by (simp add: sample_args_def)
  from fpga_counters_count_slots [OF this refl, of 3 "\<lambda>_. sample_env"] show ?thesis by blast
qed

text \<open>C38: With an even number of clients the prologue gives every slot \<open>k\<close> of either half its own
  512 words of the receive buffer: the message head stands 16 words into the slot, so the head and
  the 16 feature words in front of it lie inside the slot, and the toggle words start at 0.\<close>

theorem fpga_slot_layout:
  assumes "a_e_client a - a_b_client a = 2 * h" "k < h * a_SLOT_NUM a"
    and "s = schedule_prologue a s0"
  shows "slot_offset0 s k = 512 * (a_b_client a * a_SLOT_NUM a + k) + 16 \<and> slot_offset1 s k = slot_offset0 s k
    \<and> RRB0 s k = 0 \<and> RRB1 s k = 0 \<and> slot_partition0 s = h * a_SLOT_NUM a \<and> slot_partition1 s = h * a_SLOT_NUM a"
proof -
  have "high_done (queues_set a s0) (h * a_SLOT_NUM a) (h * a_SLOT_NUM a) (slots_set a s0)"
    using slot_layout_done [of "queues_set a s0" h] assms(1) by (simp add: slots_set_def queues_set_fields)
  then have "slot_offset0 (slots_set a s0) k = slot_word (queues_set a s0) k" "RRB0 (slots_set a s0) k = 0"
      "RRB1 (slots_set a s0) k = 0" "slot_offset1 (slots_set a s0) k = slot_word (queues_set a s0) k"
    using assms(2) by (simp_all add: high_done_def low_done_def)
  moreover have "slot_word (queues_set a s0) k = 512 * (a_b_client a * a_SLOT_NUM a + k) + 16"
  proof -
    have "2048 * k + a_b_client a * a_SLOT_NUM a * 2048 = 4 * (512 * (a_b_client a * a_SLOT_NUM a + k))"
      by (simp add: algebra_simps)
    then show ?thesis by (simp only: slot_word_def queues_set_fields)
  qed
  ultimately show ?thesis
    using assms(1) by (simp add: schedule_prologue_eq assms(3) mult.commute)
qed

theorem fpga_slot_layout_witness:
  "slot_offset0 (schedule_prologue sample_args fpga_zero) 3 = 1552"
  using fpga_slot_layout [of sample_args 2 3 _ fpga_zero, OF _ _ refl] by (simp add: sample_args_def)

text \<open>C39: The doorbell rings of the cores do not overlap.  Ring entry \<open>h\<close> of core \<open>c\<close> is one word of
  host memory, at the byte offset the host computes for \<open>queue_message[h]\<close> of its dispatch queue
  \<open>c\<close> (queues of 16640 bytes, behind the receive buffer, entries of 64 bytes behind 256 bytes of
  metadata), and two different entries are never the same word.  Hypothesis: the ring of this
  engine fits the 256 entries of a queue.\<close>

theorem fpga_doorbell_layout:
  assumes "s = schedule_prologue a s0" "MESSAGE_ADDR s0 = HOSTADDR"
    and "c < a_CORE_NUM a" "h < a_MESS_NUM a" "c' < a_CORE_NUM a" "h' < a_MESS_NUM a"
    and "a_MESS_NUM a + a_MESS_NUM a * a_ip_id a div 2 \<le> TOTAL_IP_MESS_N" "even (a_MESS_NUM a)"
  shows "4 * (queue_addr_map s c + h * MESS_LEN_DIV_4) = HOSTADDR + SLOT_LEN * a_SLOT_NUM a * a_CLIENT_NUM a + c * 16640
        + QUEUE_METADATA + MESS_LEN * (a_MESS_NUM a * a_ip_id a div 2 + h)
      \<and> (queue_addr_map s c + h * MESS_LEN_DIV_4 = queue_addr_map s c' + h' * MESS_LEN_DIV_4 \<longleftrightarrow> c = c' \<and> h = h')"
proof -
  define p where "p = a_MESS_NUM a * a_ip_id a div 2"
  have p: "a_MESS_NUM a * 64 * a_ip_id a div 2 = 64 * p"
    using assms(8) by (auto simp: p_def elim!: evenE)
  define B where "B = 512 * a_SLOT_NUM a * a_CLIENT_NUM a + 16777216 + 64 + 16 * p"
  have addr: "queue_addr_map s d = B + d * 4160" if "d < a_CORE_NUM a" for d
  proof -
    have "SLOT_LEN * a_SLOT_NUM a * a_CLIENT_NUM a + MESSAGE_ADDR s0 + d * 16640 + 256 + a_MESS_NUM a * 64 * a_ip_id a div 2
        = 4 * (B + d * 4160)"
      unfolding p B_def assms(2) by simp
    then show ?thesis
      using that by (simp only: assms(1) prologue_fields queues_set_fields) simp
  qed
  have "h < 260" "h' < 260" using assms(4,6,7) by auto
  then have "260 * c + h = 260 * c' + h' \<longleftrightarrow> c = c' \<and> h = h'"
    by (rule ring_entry_inj)
  moreover have "B + c * 4160 + h * 16 = B + c' * 4160 + h' * 16 \<longleftrightarrow> 260 * c + h = 260 * c' + h'"
    by auto
  moreover have "4 * (B + c * 4160 + h * 16) = HOSTADDR + SLOT_LEN * a_SLOT_NUM a * a_CLIENT_NUM a + c * 16640
        + QUEUE_METADATA + MESS_LEN * (p + h)"
    by (simp add: B_def algebra_simps)
  ultimately show ?thesis
    unfolding addr [OF assms(3)] addr [OF assms(5)] p_def [symmetric] by blast
qed

theorem fpga_doorbell_layout_witness:
  "queue_addr_map (schedule_prologue sample_args fpga_zero) 1 + 5 * MESS_LEN_DIV_4 \<noteq>
   queue_addr_map (schedule_prologue sample_args fpga_zero) 2 + 63 * MESS_LEN_DIV_4"
  using fpga_doorbell_layout [OF refl, of fpga_zero 1 sample_args 5 2 63] by (simp add: sample_args_def fpga_zero_def)

end
