(* ===== verification/Fpga_Runs.thy ===== *)
theory Fpga_Runs
  imports Fpga_Layout
begin

unbundle bit_operations_syntax

text \<open>
  Message detection, doorbells and termination of the on-NIC scheduler: a message is taken exactly
  once per toggle of its slot, doorbell heads go round the ring, and the endless loop ends after the
  host clears the control word.
\<close>

subsection \<open>Toggle words\<close>

lemma or_high_eq: "((a OR 0xFFFF0000) = (b OR 0xFFFF0000)) \<longleftrightarrow> (ucast a :: u16) = ucast (b :: u32)"
proof -
  define H :: u32 where "H = 0xFFFF0000"
  have "H = push_bit 16 (mask 16)" by (simp add: H_def mask_eq_exp_minus_1)
  then have mask: "bit H n \<longleftrightarrow> 16 \<le> n \<and> n < 32" for n
    by (auto simp: bit_push_bit_iff bit_mask_iff)
  show ?thesis
    unfolding H_def [symmetric]
    by (auto simp: bit_eq_iff bit_or_iff mask bit_ucast_iff) (drule_tac x = n in spec; simp)+
qed

lemma ucast_not_16: "(ucast (NOT (r :: u32)) :: u16) = NOT (ucast r)"
  by (rule bit_word_eqI) (simp add: bit_not_iff bit_ucast_iff)

lemma rrb_toggled_iff: "rrb_toggled t r \<longleftrightarrow> (ucast t :: u16) = NOT (ucast r)"
  unfolding rrb_toggled_def or_high_eq ucast_not_16 ..

text \<open>The two halves of a message head: toggle word and core hint.\<close>

definition head_rrb :: "u32 \<Rightarrow> u16" where
  "head_rrb w = ucast (drop_bit 16 w)"

definition head_hint :: "u32 \<Rightarrow> nat" where
  "head_hint w = unat (w AND 0xFFFF)"

lemma mask_FFFF: "(0xFFFF :: u32) = mask 16"
  by (simp add: mask_eq_exp_minus_1)

lemma head_rrb_and: "(ucast (drop_bit 16 w AND 0xFFFF :: u32) :: u16) = head_rrb w"
  unfolding head_rrb_def mask_FFFF
  by (rule bit_word_eqI) (simp only: bit_ucast_iff bit_and_iff bit_mask_iff, simp)

lemma check0_toggled:
  assumes "head_rrb (m (slot_offset0 s (ii s))) = NOT (ucast (RRB0 s (ii s)))"
  shows "check_msg_out0 (check_message_dataflow_nodma0 m s) = check_msg_out0 s @
      [load_feature (slot_offset0 s (ii s) - 16) m
        \<lparr>cm_i = ii s, cm_core_id = head_hint (m (slot_offset0 s (ii s))), cm_old_features = features0 s (ii s), cm_new_features = 0\<rparr>]"
    "ucast (RRB0 (check_message_dataflow_nodma0 m s) (ii s)) = head_rrb (m (slot_offset0 s (ii s)))"
  using assms
  by (simp_all only: check_message_dataflow_nodma0_def Let_def rrb_toggled_iff head_rrb_and head_hint_def if_True) (simp_all add: head_rrb_and)

lemma check0_quiet:
  assumes "head_rrb (m (slot_offset0 s (ii s))) \<noteq> NOT (ucast (RRB0 s (ii s)))"
  shows "check_msg_out0 (check_message_dataflow_nodma0 m s) = check_msg_out0 s"
    "RRB0 (check_message_dataflow_nodma0 m s) = RRB0 s"
  using assms
  by (simp_all only: check_message_dataflow_nodma0_def Let_def rrb_toggled_iff head_rrb_and if_False) simp_all

lemma not_ne_self: "(NOT x :: 'a::len word) \<noteq> x"
proof
  assume "NOT x = x"
  then have "bit (NOT x) 0 = bit x 0" by simp
  then show False by (simp add: bit_not_iff)
qed

text \<open>C8: Exactly-once detection.  When the toggle word of the scanned slot in memory is the
  complement of the one the kernel remembers, the stage takes exactly one message, with the slot
  number, the core hint of the head, the features last read as old features, and as new features
  the 512 bits in front of the head; otherwise it takes none.  Scanning the slot again takes nothing
  as long as the client leaves the toggle word alone, and takes one message again after the client
  has complemented it.\<close>

theorem fpga_takes_message_once:
  fixes s :: fpga and m m' :: mem32
  defines "i \<equiv> ii s" and "off \<equiv> slot_offset0 s (ii s)"
  defines "s1 \<equiv> check_message_dataflow_nodma0 m s"
  defines "s2 \<equiv> check_message_dataflow_nodma0 m' (s1\<lparr>ii := ii s\<rparr>)"
  shows "if head_rrb (m off) = NOT (ucast (RRB0 s i))
    then (\<exists>msg. check_msg_out0 s1 = check_msg_out0 s @ [msg] \<and> cm_i msg = i \<and> cm_core_id msg = head_hint (m off) \<and>
            cm_old_features msg = features0 s i \<and> features0 s1 i = cm_new_features msg \<and>
            (\<forall>k<512. bit (cm_new_features msg) k = bit (m (off - 16 + k div 32)) (k mod 32))) \<and>
         (head_rrb (m' off) = head_rrb (m off) \<longrightarrow> check_msg_out0 s2 = check_msg_out0 s1) \<and>
         (head_rrb (m' off) = NOT (head_rrb (m off)) \<longrightarrow> length (check_msg_out0 s2) = length (check_msg_out0 s1) + 1)
    else check_msg_out0 s1 = check_msg_out0 s"
proof (cases "head_rrb (m off) = NOT (ucast (RRB0 s i))")
  case True
  let ?msg = "load_feature (off - 16) m \<lparr>cm_i = i, cm_core_id = head_hint (m off), cm_old_features = features0 s i, cm_new_features = 0\<rparr>"
  have out: "check_msg_out0 s1 = check_msg_out0 s @ [?msg]" and rrb: "ucast (RRB0 s1 i) = head_rrb (m off)"
    using check0_toggled [of m s] True unfolding s1_def i_def off_def by auto
  have frame: "slot_offset0 s1 i = off" "features0 s1 i = cm_new_features ?msg"
    using True unfolding s1_def i_def off_def
    by (simp_all add: check_message_dataflow_nodma0_def Let_def rrb_toggled_iff head_rrb_and load_feature_def)
  have "check_msg_out0 s2 = check_msg_out0 s1" if "head_rrb (m' off) = head_rrb (m off)"
    unfolding s2_def using check0_quiet(1) [of m' "s1\<lparr>ii := ii s\<rparr>"] that frame rrb not_ne_self [of "head_rrb (m off)"]
    by (simp add: i_def)
  moreover have "length (check_msg_out0 s2) = length (check_msg_out0 s1) + 1" if "head_rrb (m' off) = NOT (head_rrb (m off))"
    unfolding s2_def using check0_toggled(1) [of m' "s1\<lparr>ii := ii s\<rparr>"] that frame rrb by (simp add: i_def)
  moreover have "cm_i ?msg = i" "cm_core_id ?msg = head_hint (m off)" "cm_old_features ?msg = features0 s i"
    by (simp_all add: load_feature_def)
  ultimately show ?thesis
    using True out frame(2) by (auto simp: bit_load_feature)
next
  case False
  then show ?thesis
    using check0_quiet(1) [of m s] unfolding s1_def i_def off_def by simp
qed

theorem fpga_takes_message_once_witness:
  fixes s :: fpga and m :: mem32
  defines "s \<equiv> fpga_zero\<lparr>slot_offset0 := (\<lambda>_. 16), slot_partition0 := 4\<rparr>" and "m \<equiv> (\<lambda>x. if x = 16 then 0xFFFF0003 else 0)"
  shows "length (check_msg_out0 (check_message_dataflow_nodma0 m s)) = 1 \<and>
    check_msg_out0 (check_message_dataflow_nodma0 m ((check_message_dataflow_nodma0 m s)\<lparr>ii := 0\<rparr>)) =
    check_msg_out0 (check_message_dataflow_nodma0 m s)"
proof -
  have "head_rrb (m 16) = NOT (ucast (RRB0 s 0))" "ii s = 0" "slot_offset0 s 0 = 16" "check_msg_out0 s = []"
    by (simp_all add: m_def s_def head_rrb_def fpga_zero_def)
  then show ?thesis
    using fpga_takes_message_once [of m s m] by auto
qed

subsection \<open>Doorbells\<close>

definition ring_word :: "fpga \<Rightarrow> nat \<Rightarrow> nat \<Rightarrow> nat" where
  "ring_word s c h = queue_addr_map s c + h * MESS_LEN_DIV_4"

definition rings_disjoint :: "nat \<Rightarrow> fpga \<Rightarrow> bool" where
  "rings_disjoint n s \<longleftrightarrow> (\<forall>c<n. \<forall>c'<n. \<forall>h < MESS_NUM s. \<forall>h' < MESS_NUM s.
     ring_word s c h = ring_word s c' h' \<longrightarrow> c = c' \<and> h = h')"

definition doorbells_for :: "nat \<Rightarrow> compute_id_out_t list \<Rightarrow> nat list" where
  "doorbells_for c ms = map ci_i (filter (\<lambda>m. ci_core_id m = c) ms)"

definition ring_head :: "fpga \<Rightarrow> nat \<Rightarrow> nat" where
  "ring_head s c = queue_metadata s c 0"

lemma doorbell_step:
  assumes "compute_core_id_out s = msg # rest" "ring_head s (ci_core_id msg) < MESS_NUM s"
  defines "t \<equiv> doorbell_dataflow s" and "d \<equiv> ci_core_id msg"
  shows "compute_core_id_out t = rest" "MESS_NUM t = MESS_NUM s" "ring_word t = ring_word s"
    "hostm t = (hostm s)(ring_word s d (ring_head s d) := of_nat (ci_i msg))"
    "ring_head t c = (if c = d then (ring_head s d + 1) mod MESS_NUM s else ring_head s c)"
  using assms(1,2) unfolding t_def d_def
  by (auto simp: doorbell_dataflow_def Let_def ring_word_def ring_head_def fun_eq_iff mod_Suc)

lemma mod_ring_ne:
  fixes h :: nat
  assumes "h < M" "0 < k" "k < M"
  shows "h \<noteq> (h + k) mod M"
proof (cases "h + k < M")
  case False
  then have "(h + k) mod M = h + k - M" using assms by (simp add: mod_if)
  then show ?thesis using assms False by linarith
qed (use assms in simp)

definition ring_written :: "fpga \<Rightarrow> compute_id_out_t list \<Rightarrow> fpga \<Rightarrow> nat \<Rightarrow> bool" where
  "ring_written s ms t c \<longleftrightarrow>
     (\<forall>k < length (doorbells_for c ms).
        hostm t (ring_word s c ((ring_head s c + k) mod MESS_NUM s)) = of_nat (doorbells_for c ms ! k)) \<and>
     (\<forall>p < MESS_NUM s. (\<forall>k < length (doorbells_for c ms). p \<noteq> (ring_head s c + k) mod MESS_NUM s) \<longrightarrow>
        hostm t (ring_word s c p) = hostm s (ring_word s c p))"

lemma ring_written_cons:
  assumes "compute_core_id_out s = msg # ms" "ci_core_id msg < n" "rings_disjoint n s"
    "\<forall>c<n. ring_head s c < MESS_NUM s" "c < n" "length (doorbells_for c (msg # ms)) \<le> MESS_NUM s"
    and rest: "ring_written (doorbell_dataflow s) ms t c"
  shows "ring_written s (msg # ms) t c"
proof (cases "ci_core_id msg = c")
  case False
  then have other: "p < MESS_NUM s \<Longrightarrow> hostm (doorbell_dataflow s) (ring_word s c p) = hostm s (ring_word s c p)" for p
    using assms doorbell_step [OF assms(1)] by (auto simp: rings_disjoint_def)
  show ?thesis
    using rest False other assms(1,2,4) by (simp add: ring_written_def doorbells_for_def doorbell_step)
next
  case True
  let ?M = "MESS_NUM s" and ?h = "ring_head s c"
  have hM: "?h < ?M" "0 < ?M" using assms(4,5) by (auto simp: gr_zeroI intro: le_less_trans)
  have s': "ring_head (doorbell_dataflow s) c = (?h + 1) mod ?M" "MESS_NUM (doorbell_dataflow s) = ?M"
    "ring_word (doorbell_dataflow s) = ring_word s"
    "hostm (doorbell_dataflow s) = (hostm s)(ring_word s c ?h := of_nat (ci_i msg))"
    using doorbell_step [OF assms(1)] True hM by auto
  have next_pos: "((?h + 1) mod ?M + k) mod ?M = (?h + Suc k) mod ?M" for k
    by (simp add: mod_add_left_eq)
  have len: "length (doorbells_for c ms) < ?M" using assms(6) True by (simp add: doorbells_for_def)
  have fresh: "?h \<noteq> (?h + Suc k) mod ?M" if "k < length (doorbells_for c ms)" for k
    using mod_ring_ne [OF hM(1), of "Suc k"] that len by simp
  have inj: "p < ?M \<Longrightarrow> ring_word s c p = ring_word s c ?h \<longleftrightarrow> p = ?h" for p
    using assms(3,5) hM by (auto simp: rings_disjoint_def)
  have "hostm t (ring_word s c ?h) = of_nat (ci_i msg)"
    using rest fresh hM unfolding ring_written_def s' next_pos by simp
  then have "hostm t (ring_word s c ((?h + k) mod ?M)) = of_nat (doorbells_for c (msg # ms) ! k)"
    if "k < length (doorbells_for c (msg # ms))" for k
    using rest that hM True unfolding ring_written_def s' next_pos by (cases k) (auto simp: doorbells_for_def)
  moreover have "hostm t (ring_word s c p) = hostm s (ring_word s c p)"
    if "p < ?M" "\<forall>k < length (doorbells_for c (msg # ms)). p \<noteq> (?h + k) mod ?M" for p
  proof -
    have "p \<noteq> ?h" using that(2) True hM by (auto simp: doorbells_for_def)
    moreover have "\<forall>k < length (doorbells_for c ms). p \<noteq> (?h + Suc k) mod ?M"
      using that(2) True by (auto simp: doorbells_for_def)
    ultimately show ?thesis
      using rest that(1) inj [OF that(1)] unfolding ring_written_def s' next_pos by simp
  qed
  ultimately show ?thesis
    unfolding ring_written_def by blast
qed

lemma rings_written:
  assumes "compute_core_id_out s = ms" "\<forall>m\<in>set ms. ci_core_id m < n" "rings_disjoint n s"
    "\<forall>c<n. ring_head s c < MESS_NUM s" "\<forall>c<n. length (doorbells_for c ms) \<le> MESS_NUM s" "c < n"
  shows "ring_written s ms ((doorbell_dataflow ^^ length ms) s) c"
  using assms
proof (induction ms arbitrary: s)
  case Nil
  then show ?case by (simp add: ring_written_def doorbells_for_def)
next
  case (Cons msg ms)
  note step = doorbell_step [OF Cons.prems(1)]
  have d: "ci_core_id msg < n" "ring_head s (ci_core_id msg) < MESS_NUM s" using Cons.prems by auto
  have "length (doorbells_for c ms) \<le> MESS_NUM s" if "c < n" for c
    using Cons.prems(5) that by (auto simp: doorbells_for_def split: if_splits dest!: spec [of _ c])
  moreover have "\<forall>c<n. ring_head (doorbell_dataflow s) c < MESS_NUM (doorbell_dataflow s)"
    using Cons.prems(4) d step [OF d(2)] by (auto intro: mod_less_divisor)
  moreover have "rings_disjoint n (doorbell_dataflow s)"
    using Cons.prems(3) step [OF d(2)] by (simp add: rings_disjoint_def)
  ultimately have "ring_written (doorbell_dataflow s) ms ((doorbell_dataflow ^^ length ms) (doorbell_dataflow s)) c"
    using Cons.prems step [OF d(2)] by (intro Cons.IH) auto
  then show ?case
    using Cons.prems d by (auto simp: funpow_swap1 intro!: ring_written_cons)
qed

text \<open>C25: Doorbells are delivered in order and none is overwritten within one lap.  Ringing a stream
  of doorbells for \<open>n\<close> cores puts the slot numbers for each core \<open>c\<close>, in stream order, into the
  consecutive ring entries that start at the head of \<open>c\<close> and wrap at \<open>MESS_NUM\<close>, and leaves every
  other ring entry of \<open>c\<close> as it was, provided that no core gets more than \<open>MESS_NUM\<close> of them.\<close>

theorem fpga_doorbells_in_order:
  assumes "\<forall>m\<in>set (compute_core_id_out s). ci_core_id m < n" "rings_disjoint n s"
    "\<forall>c<n. ring_head s c < MESS_NUM s" "c < n"
    "\<forall>c<n. length (doorbells_for c (compute_core_id_out s)) \<le> MESS_NUM s"
    and "xs = doorbells_for c (compute_core_id_out s)"
    and "t = (doorbell_dataflow ^^ length (compute_core_id_out s)) s"
  shows "(\<forall>k < length xs. hostm t (queue_addr_map s c + ((ring_head s c + k) mod MESS_NUM s) * MESS_LEN_DIV_4) = of_nat (xs ! k)) \<and>
    (\<forall>p < MESS_NUM s. (\<forall>k < length xs. p \<noteq> (ring_head s c + k) mod MESS_NUM s) \<longrightarrow>
      hostm t (queue_addr_map s c + p * MESS_LEN_DIV_4) = hostm s (queue_addr_map s c + p * MESS_LEN_DIV_4))"
  using rings_written [OF refl assms(1-3) assms(5) assms(4)]
  unfolding ring_written_def ring_word_def assms(6) assms(7) by blast

theorem fpga_doorbells_in_order_witness:
  fixes s :: fpga
  defines "s \<equiv> fpga_zero\<lparr>MESS_NUM := 3, queue_addr_map := (\<lambda>c. c * 100), queue_metadata := (\<lambda>_ _. 2),
      compute_core_id_out := [\<lparr>ci_i = 7, ci_core_id = 1\<rparr>, \<lparr>ci_i = 8, ci_core_id = 0\<rparr>, \<lparr>ci_i = 9, ci_core_id = 1\<rparr>]\<rparr>"
  shows "hostm ((doorbell_dataflow ^^ 3) s) 132 = 7 \<and> hostm ((doorbell_dataflow ^^ 3) s) 100 = 9"
proof -
  have cores: "c < 2 \<longleftrightarrow> c = 0 \<or> c = 1" for c :: nat by auto
  have ms: "compute_core_id_out s = [\<lparr>ci_i = 7, ci_core_id = 1\<rparr>, \<lparr>ci_i = 8, ci_core_id = 0\<rparr>, \<lparr>ci_i = 9, ci_core_id = 1\<rparr>]"
    and fields: "MESS_NUM s = 3" "ring_head s c = 2" "queue_addr_map s c = c * 100" for c
    by (simp_all add: s_def ring_head_def)
  have "rings_disjoint 2 s" by (auto simp: rings_disjoint_def ring_word_def fields cores)
  moreover have dbs: "doorbells_for 1 (compute_core_id_out s) = [7, 9]" "doorbells_for 0 (compute_core_id_out s) = [8]"
    by (simp_all add: ms doorbells_for_def)
  moreover have "\<forall>m\<in>set (compute_core_id_out s). ci_core_id m < 2" "length (compute_core_id_out s) = 3" by (simp_all add: ms)
  ultimately have "\<forall>k < length [7::nat, 9]. hostm ((doorbell_dataflow ^^ 3) s) (1 * 100 + ((2 + k) mod 3) * 16) = of_nat ([7, 9] ! k)"
    using fpga_doorbells_in_order [of s 2 1, OF _ _ _ _ _ refl refl] by (simp only: fields cores) auto
  from this [rule_format, of 0] this [rule_format, of 1] show ?thesis by simp
qed

subsection \<open>The loop ends\<close>

lemma stage_total_offset [simp]:
  "total_offset (check_message_dataflow_nodma0 m s) = total_offset s"
  "total_offset (check_message_dataflow_nodma1 m s) = total_offset s"
  "total_offset (core_id_func msg s) = total_offset s"
  "total_offset (doorbell_dataflow s) = total_offset s"
  "total_offset (update_cluster s) = total_offset s"
  by (simp_all add: total_offset_def check_message_dataflow_nodma0_def check_message_dataflow_nodma1_def core_id_func_eq
      doorbell_dataflow_def update_cluster_def Let_def split: list.splits)

lemma compute_total_offset [simp]: "total_offset (compute_core_id s) = total_offset s"
  by (simp add: compute_core_id_def split: list.splits) (simp add: total_offset_def)

lemma dataflow_total_offset: "total_offset (dataflow_no_dma m0 m1 s) = total_offset s"
  by (simp add: dataflow_no_dma_def)

lemma rounds_total_offset: "total_offset (dataflow_rounds e n s) = total_offset s"
  unfolding dataflow_rounds_def
  by (rule fold_keeps [of "\<lambda>t. total_offset t = total_offset s"]) (simp_all add: dataflow_total_offset)

lemma init_total_offset: "total_offset (init_bitmap s) = total_offset s" "total_offset (init_weight cdma_buf s) = total_offset s"
  by (simp_all add: init_bitmap_def init_weight_def Let_def total_offset_def)

lemma while_body_total_offset: "while_body e (u, s) = Some (u', s') \<Longrightarrow> total_offset s' = total_offset s"
  by (auto simp: while_body_def rounds_total_offset init_total_offset split: if_splits)

lemma while_body_below: "u < 1024 \<Longrightarrow> \<exists>s'. while_body e (u, s) = Some (Suc u, s')"
  by (auto simp: while_body_def)

lemma while_loop_stops:
  assumes "u \<le> 1024" "\<forall>t'. env_control (env t') (total_offset s) \<noteq> 666" "1024 - u < fuel"
  shows "\<exists>s'. while_loop fuel env t (u, s) = Inl (t + (1024 - u), s')"
  using assms
proof (induction "1024 - u" arbitrary: u s t fuel)
  case 0
  then obtain fuel' where "fuel = Suc fuel'" "u = 1024" by (cases fuel) auto
  then show ?case using 0 by (simp add: while_body_def)
next
  case (Suc d)
  then obtain fuel' where fuel: "fuel = Suc fuel'" by (cases fuel) auto
  obtain s' where s': "while_body (env t) (u, s) = Some (Suc u, s')"
    using while_body_below [of u] Suc.hyps(2) by (metis diff_is_0_eq' linorder_not_le nat.distinct(1))
  have "\<exists>s''. while_loop fuel' env (Suc t) (Suc u, s') = Inl (Suc t + (1024 - Suc u), s'')"
    using Suc.hyps(2) Suc.prems fuel while_body_total_offset [OF s'] by (intro Suc.hyps(1)) auto
  moreover have "Suc t + (1024 - Suc u) = t + (1024 - u)" using Suc.hyps(2) by simp
  ultimately have "\<exists>s''. while_loop fuel' env (Suc t) (Suc u, s') = Inl (t + (1024 - u), s'')" by (simp only:)
  then show ?case by (simp only: fuel while_loop.simps s' option.case)
qed

lemma while_loop_runs:
  assumes "\<forall>t'. env_control (env t') (total_offset s) = 666"
  shows "\<exists>us. while_loop fuel env t (u, s) = Inr us"
  using assms
proof (induction fuel arbitrary: t u s)
  case (Suc fuel)
  have "while_body (env t) (u, s) \<noteq> None" using Suc.prems by (simp add: while_body_def)
  then obtain u' s' where s': "while_body (env t) (u, s) = Some (u', s')" by auto
  then have "\<forall>t'. env_control (env t') (total_offset s') = 666"
    using Suc.prems while_body_total_offset by metis
  then show ?case using Suc.IH s' by simp
qed simp

text \<open>C27: The host controls the endless loop.  From any point of it (\<open>u_w \<le> 1024\<close>), if the control word
  behind the receive buffer no longer reads 666, the kernel returns after exactly \<open>1024 - u_w\<close>
  further iterations, whatever the clients do; while the word reads 666 it never returns.\<close>

theorem fpga_loop_returns_on_stop:
  assumes "u_w \<le> 1024"
  shows "((\<forall>t'. env_control (env t') (total_offset s) \<noteq> 666) \<longrightarrow>
      (\<exists>s'. while_loop 1025 env t (u_w, s) = Inl (t + (1024 - u_w), s'))) \<and>
    ((\<forall>t'. env_control (env t') (total_offset s) = 666) \<longrightarrow>
      (\<forall>fuel. \<exists>us. while_loop fuel env t (u_w, s) = Inr us))"
proof (intro conjI impI allI)
  assume "\<forall>t'. env_control (env t') (total_offset s) \<noteq> 666"
  then show "\<exists>s'. while_loop 1025 env t (u_w, s) = Inl (t + (1024 - u_w), s')"
    by (intro while_loop_stops assms) auto
next
  fix fuel
  assume "\<forall>t'. env_control (env t') (total_offset s) = 666"
  then show "\<exists>us. while_loop fuel env t (u_w, s) = Inr us"
    by (rule while_loop_runs)
qed

theorem fpga_loop_returns_on_stop_witness:
  "\<exists>s'. while_loop 1025 (\<lambda>_. sample_env\<lparr>env_control := (\<lambda>_. 0)\<rparr>) 0 (1021, fpga_zero) = Inl (3, s')"
proof -
  have "\<exists>s'. while_loop 1025 (\<lambda>_. sample_env\<lparr>env_control := (\<lambda>_. 0)\<rparr>) 0 (1021, fpga_zero) = Inl (0 + (1024 - 1021), s')"
    by (rule fpga_loop_returns_on_stop [THEN conjunct1, THEN mp]) simp_all
  then show ?thesis by (simp only: add_0) simp
qed

end
