(* ===== verification/Host_Memory.thy ===== *)
theory Host_Memory
  imports Prelude
begin

unbundle bit_operations_syntax

text \<open>
  Byte-addressed memory of the host and of the clients, with the little-endian accesses that the
  C++ code performs through casts of addresses (\<open>uint8_t *\<close>, \<open>uint16_t *\<close>, \<open>uint32_t *\<close>,
  \<open>uint64_t *\<close>) and \<open>memcpy\<close>.  Addresses are natural numbers.
\<close>

type_synonym mem = "nat \<Rightarrow> u8"

definition rd16 :: "mem \<Rightarrow> nat \<Rightarrow> u16" where
  "rd16 m a = ucast (m a) OR push_bit 8 (ucast (m (a + 1)))"

definition rd32 :: "mem \<Rightarrow> nat \<Rightarrow> u32" where
  "rd32 m a = ucast (rd16 m a) OR push_bit 16 (ucast (rd16 m (a + 2)))"

definition rd64 :: "mem \<Rightarrow> nat \<Rightarrow> u64" where
  "rd64 m a = ucast (rd32 m a) OR push_bit 32 (ucast (rd32 m (a + 4)))"

definition wr16 :: "nat \<Rightarrow> u16 \<Rightarrow> mem \<Rightarrow> mem" where
  "wr16 a v m = m(a := ucast v, a + 1 := ucast (drop_bit 8 v))"

definition wr32 :: "nat \<Rightarrow> u32 \<Rightarrow> mem \<Rightarrow> mem" where
  "wr32 a v m = wr16 (a + 2) (ucast (drop_bit 16 v)) (wr16 a (ucast v) m)"

definition wr64 :: "nat \<Rightarrow> u64 \<Rightarrow> mem \<Rightarrow> mem" where
  "wr64 a v m = wr32 (a + 4) (ucast (drop_bit 32 v)) (wr32 a (ucast v) m)"

definition memcpy :: "nat \<Rightarrow> nat \<Rightarrow> nat \<Rightarrow> mem \<Rightarrow> mem" where
  "memcpy dst src n m = (\<lambda>x. if dst \<le> x \<and> x < dst + n then m (src + (x - dst)) else m x)"

subsection \<open>Joining and splitting words\<close>

lemma join16: "ucast (ucast v :: u8) OR push_bit 8 (ucast (ucast (drop_bit 8 v) :: u8)) = (v :: u16)"
  by (rule bit_word_eqI)
    (auto simp: bit_or_iff bit_push_bit_iff bit_ucast_iff bit_drop_bit_eq not_less)

lemma join32: "ucast (ucast v :: u16) OR push_bit 16 (ucast (ucast (drop_bit 16 v) :: u16)) = (v :: u32)"
  by (rule bit_word_eqI)
    (auto simp: bit_or_iff bit_push_bit_iff bit_ucast_iff bit_drop_bit_eq not_less)

lemma join64: "ucast (ucast v :: u32) OR push_bit 32 (ucast (ucast (drop_bit 32 v) :: u32)) = (v :: u64)"
  by (rule bit_word_eqI)
    (auto simp: bit_or_iff bit_push_bit_iff bit_ucast_iff bit_drop_bit_eq not_less)

subsection \<open>Reads after writes\<close>

lemma wr16_other [simp]: "x \<noteq> a \<Longrightarrow> x \<noteq> a + 1 \<Longrightarrow> wr16 a v m x = m x"
  by (simp add: wr16_def)

lemma wr32_other [simp]: "x < a \<or> a + 4 \<le> x \<Longrightarrow> wr32 a v m x = m x"
  by (auto simp: wr32_def)

lemma wr64_other [simp]: "x < a \<or> a + 8 \<le> x \<Longrightarrow> wr64 a v m x = m x"
  by (auto simp: wr64_def)

lemma rd16_wr16 [simp]: "rd16 (wr16 a v m) a = v"
  by (simp add: rd16_def wr16_def join16)

lemma rd16_cong: "m a = m' a \<Longrightarrow> m (a + 1) = m' (a + 1) \<Longrightarrow> rd16 m a = rd16 m' a"
  by (simp add: rd16_def)

lemma rd16_disjoint: "b + 2 \<le> a \<or> a + 2 \<le> b \<Longrightarrow> rd16 (wr16 a v m) b = rd16 m b"
  by (rule rd16_cong) auto

lemma rd32_wr32 [simp]: "rd32 (wr32 a v m) a = v"
  by (simp add: rd32_def wr32_def rd16_disjoint join32)

lemma rd32_cong: "(\<And>k. k < 4 \<Longrightarrow> m (a + k) = m' (a + k)) \<Longrightarrow> rd32 m a = rd32 m' a"
proof -
  assume eq: "\<And>k. k < 4 \<Longrightarrow> m (a + k) = m' (a + k)"
  have "rd16 m a = rd16 m' a" "rd16 m (a + 2) = rd16 m' (a + 2)"
    using eq [of 0] eq [of 1] eq [of 2] eq [of 3] by (auto simp: rd16_def numeral_3_eq_3)
  then show ?thesis by (simp add: rd32_def)
qed

lemma rd32_disjoint: "b + 4 \<le> a \<or> a + 4 \<le> b \<Longrightarrow> rd32 (wr32 a v m) b = rd32 m b"
  by (rule rd32_cong) auto

lemma rd64_wr64 [simp]: "rd64 (wr64 a v m) a = v"
  by (simp add: rd64_def wr64_def rd32_disjoint join64)

lemma rd64_cong: "(\<And>k. k < 8 \<Longrightarrow> m (a + k) = m' (a + k)) \<Longrightarrow> rd64 m a = rd64 m' a"
proof -
  assume eq: "\<And>k. k < 8 \<Longrightarrow> m (a + k) = m' (a + k)"
  have "rd32 m a = rd32 m' a" by (rule rd32_cong) (simp add: eq)
  moreover have "rd32 m (a + 4) = rd32 m' (a + 4)"
  proof (rule rd32_cong)
    fix k :: nat assume "k < 4"
    then show "m (a + 4 + k) = m' (a + 4 + k)" using eq [of "4 + k"] by (simp add: add.assoc)
  qed
  ultimately show ?thesis by (simp add: rd64_def)
qed

lemma rd32_halves: "ucast (rd32 m a) = rd16 m a" "ucast (drop_bit 16 (rd32 m a)) = rd16 m (a + 2)"
  by (rule bit_word_eqI, auto simp: rd32_def bit_or_iff bit_push_bit_iff bit_ucast_iff bit_drop_bit_eq dest: bit_imp_le_length)+

lemma bit_rd16: "k < 16 \<Longrightarrow> bit (rd16 m a) k = bit (m (a + k div 8)) (k mod 8)"
proof -
  assume k: "k < 16"
  show ?thesis
  proof (cases "k < 8")
    case True
    then show ?thesis by (simp add: rd16_def bit_or_iff bit_push_bit_iff bit_ucast_iff)
  next
    case False
    then have "k div 8 = 1" "k mod 8 = k - 8" using k by (auto simp: div_nat_eqI mod_if)
    then show ?thesis
      using False k bit_imp_le_length [of "m a" k] by (auto simp: rd16_def bit_or_iff bit_push_bit_iff bit_ucast_iff)
  qed
qed

lemma bit_rd32: "k < 32 \<Longrightarrow> bit (rd32 m a) k = bit (m (a + k div 8)) (k mod 8)"
proof -
  assume k: "k < 32"
  show ?thesis
  proof (cases "k < 16")
    case True
    then show ?thesis by (simp add: rd32_def bit_or_iff bit_push_bit_iff bit_ucast_iff bit_rd16)
  next
    case False
    then obtain j where j: "k = 16 + j" by (metis le_Suc_ex not_less)
    then have "k div 8 = 2 + j div 8" "k mod 8 = j mod 8" by (simp_all add: mod_add_eq [symmetric, of 16])
    moreover have "\<not> bit (rd16 m a) k" using False bit_imp_le_length [of "rd16 m a" k] by auto
    ultimately show ?thesis
      using k bit_rd16 [of j m "a + 2"] by (simp add: rd32_def bit_or_iff bit_push_bit_iff bit_ucast_iff j add.assoc)
  qed
qed

end
