(* ===== verification/Mailbox_Ring.thy ===== *)
theory Mailbox_Ring
  imports Prelude
begin

text \<open>
  The interface of the message rings through which the schedulers hand requests to the workers.
  A ring is an array of cells that are either free or hold a message.  Producers claim the next cell
  with an atomic fetch-and-add on a counter and write the message later; the one consumer polls the
  cell at its own position, takes the message, frees the cell and moves on.  The laws are about
  single cells; the lemmas say that under every interleaving the messages come out in the order in
  which their cells were claimed, none lost and none twice, as long as no more messages are in flight
  than the ring has cells.
\<close>

subsection \<open>Interleavings of producers and consumer\<close>

text \<open>The state of an execution: the cells, the messages in claim order (so the claim counter is
  their number), the claims not yet written, the position of the consumer and what it has taken.\<close>

record ('q, 'v) ring_state =
  rg_cells :: 'q
  rg_claimed :: "'v list"
  rg_unwritten :: "nat set"
  rg_tail :: nat
  rg_out :: "'v list"

inductive ring_step :: "('q \<Rightarrow> nat \<Rightarrow> bool) \<Rightarrow> ('q \<Rightarrow> nat \<Rightarrow> 'v) \<Rightarrow> (nat \<Rightarrow> 'v \<Rightarrow> 'q \<Rightarrow> 'q) \<Rightarrow> (nat \<Rightarrow> 'q \<Rightarrow> 'q)
    \<Rightarrow> ('v \<Rightarrow> bool) \<Rightarrow> nat \<Rightarrow> ('q, 'v) ring_state \<Rightarrow> ('q, 'v) ring_state \<Rightarrow> bool"
  for full get put free msg cap where
  claim: "msg v \<Longrightarrow> length (rg_claimed s) < rg_tail s + cap \<Longrightarrow>
    ring_step full get put free msg cap s
      (s\<lparr>rg_claimed := rg_claimed s @ [v], rg_unwritten := insert (length (rg_claimed s)) (rg_unwritten s)\<rparr>)"
| store: "n \<in> rg_unwritten s \<Longrightarrow>
    ring_step full get put free msg cap s
      (s\<lparr>rg_cells := put (n mod cap) (rg_claimed s ! n) (rg_cells s), rg_unwritten := rg_unwritten s - {n}\<rparr>)"
| fetch: "full (rg_cells s) (rg_tail s mod cap) \<Longrightarrow>
    ring_step full get put free msg cap s
      (s\<lparr>rg_cells := free (rg_tail s mod cap) (rg_cells s), rg_tail := rg_tail s + 1,
         rg_out := rg_out s @ [get (rg_cells s) (rg_tail s mod cap)]\<rparr>)"

definition ring_start :: "'q \<Rightarrow> ('q, 'v) ring_state" where
  "ring_start q = \<lparr>rg_cells = q, rg_claimed = [], rg_unwritten = {}, rg_tail = 0, rg_out = []\<rparr>"

lemma mod_window_inj:
  fixes n n' :: nat
  assumes "t \<le> n" "n < t + cap" "t \<le> n'" "n' < t + cap" "n mod cap = n' mod cap"
  shows "n = n'"
proof -
  have "n = n'" if "n \<le> n'" "n' < n + cap" "n mod cap = n' mod cap" for n n' :: nat
  proof -
    have "(n' - n) mod cap = 0" using that by (metis mod_eq_dvd_iff_nat dvd_imp_mod_0)
    then show ?thesis using that by (auto simp: mod_if split: if_splits)
  qed
  note window = this
  show ?thesis
  proof (cases "n \<le> n'")
    case True
    then show ?thesis using window [of n n'] assms by simp
  next
    case False
    then show ?thesis using window [of n' n] assms by simp
  qed
qed

locale mailbox =
  fixes full :: "'q \<Rightarrow> nat \<Rightarrow> bool"
    and get :: "'q \<Rightarrow> nat \<Rightarrow> 'v"
    and put :: "nat \<Rightarrow> 'v \<Rightarrow> 'q \<Rightarrow> 'q"
    and free :: "nat \<Rightarrow> 'q \<Rightarrow> 'q"
    and msg :: "'v \<Rightarrow> bool"
    and cap :: nat
  assumes cap_pos: "0 < cap"
    and full_put: "i < cap \<Longrightarrow> j < cap \<Longrightarrow> msg v \<Longrightarrow> full (put i v q) j \<longleftrightarrow> j = i \<or> full q j"
    and get_put: "i < cap \<Longrightarrow> j < cap \<Longrightarrow> msg v \<Longrightarrow> get (put i v q) j = (if j = i then v else get q j)"
    and full_free: "i < cap \<Longrightarrow> j < cap \<Longrightarrow> full (free i q) j \<longleftrightarrow> j \<noteq> i \<and> full q j"
    and get_free: "i < cap \<Longrightarrow> j < cap \<Longrightarrow> j \<noteq> i \<Longrightarrow> get (free i q) j = get q j"
begin

definition ring_inv :: "('q, 'v) ring_state \<Rightarrow> bool" where
  "ring_inv s \<longleftrightarrow> rg_tail s \<le> length (rg_claimed s) \<and> length (rg_claimed s) \<le> rg_tail s + cap \<and>
     rg_unwritten s \<subseteq> {rg_tail s..<length (rg_claimed s)} \<and> list_all msg (rg_claimed s) \<and>
     rg_out s = take (rg_tail s) (rg_claimed s) \<and>
     (\<forall>i<cap. full (rg_cells s) i \<longleftrightarrow> (\<exists>n\<in>{rg_tail s..<length (rg_claimed s)} - rg_unwritten s. n mod cap = i)) \<and>
     (\<forall>n\<in>{rg_tail s..<length (rg_claimed s)} - rg_unwritten s. get (rg_cells s) (n mod cap) = rg_claimed s ! n)"

lemma ring_inv_start: "(\<And>i. i < cap \<Longrightarrow> \<not> full q i) \<Longrightarrow> ring_inv (ring_start q)"
  by (simp add: ring_inv_def ring_start_def)

lemma ring_inv_claim:
  assumes "ring_inv s" "msg v" "length (rg_claimed s) < rg_tail s + cap"
  shows "ring_inv (s\<lparr>rg_claimed := rg_claimed s @ [v], rg_unwritten := insert (length (rg_claimed s)) (rg_unwritten s)\<rparr>)"
proof -
  have "{rg_tail s..<length (rg_claimed s @ [v])} - insert (length (rg_claimed s)) (rg_unwritten s)
      = {rg_tail s..<length (rg_claimed s)} - rg_unwritten s"
    using assms(1) by (auto simp: ring_inv_def)
  then show ?thesis
    using assms by (auto simp: ring_inv_def nth_append)
qed

lemma ring_inv_store:
  assumes "ring_inv s" "n \<in> rg_unwritten s"
  shows "ring_inv (s\<lparr>rg_cells := put (n mod cap) (rg_claimed s ! n) (rg_cells s), rg_unwritten := rg_unwritten s - {n}\<rparr>)"
proof -
  let ?W = "{rg_tail s..<length (rg_claimed s)} - rg_unwritten s"
  have n: "rg_tail s \<le> n" "n < length (rg_claimed s)" "n < rg_tail s + cap" and cells: "i mod cap < cap" for i
    using assms cap_pos by (auto simp: ring_inv_def)
  have v: "msg (rg_claimed s ! n)" using assms(1) n by (auto simp: ring_inv_def list_all_length)
  have W: "{rg_tail s..<length (rg_claimed s)} - (rg_unwritten s - {n}) = insert n ?W"
    using n by auto
  have distinct: "k mod cap \<noteq> n mod cap" if "k \<in> ?W" for k
    using mod_window_inj [of "rg_tail s" k cap n] that n assms by (auto simp: ring_inv_def)
  show ?thesis
    using assms(1) distinct by (auto simp: ring_inv_def W full_put get_put v cells)
qed

lemma ring_inv_fetch:
  assumes "ring_inv s" "full (rg_cells s) (rg_tail s mod cap)"
  shows "rg_tail s < length (rg_claimed s) \<and> rg_tail s \<notin> rg_unwritten s \<and>
    get (rg_cells s) (rg_tail s mod cap) = rg_claimed s ! rg_tail s"
proof -
  have "\<exists>n\<in>{rg_tail s..<length (rg_claimed s)} - rg_unwritten s. n mod cap = rg_tail s mod cap"
    using assms cap_pos by (auto simp: ring_inv_def)
  then obtain n where n: "n \<in> {rg_tail s..<length (rg_claimed s)} - rg_unwritten s" "n mod cap = rg_tail s mod cap" by blast
  moreover have "n = rg_tail s"
    using mod_window_inj [of "rg_tail s" n cap "rg_tail s"] n assms(1) cap_pos by (auto simp: ring_inv_def)
  ultimately show ?thesis
    using assms(1) by (auto simp: ring_inv_def)
qed

lemma ring_inv_fetched:
  assumes "ring_inv s" "full (rg_cells s) (rg_tail s mod cap)"
  shows "ring_inv (s\<lparr>rg_cells := free (rg_tail s mod cap) (rg_cells s), rg_tail := rg_tail s + 1,
         rg_out := rg_out s @ [get (rg_cells s) (rg_tail s mod cap)]\<rparr>)"
proof -
  let ?W = "{rg_tail s..<length (rg_claimed s)} - rg_unwritten s"
  let ?W' = "{rg_tail s + 1..<length (rg_claimed s)} - rg_unwritten s"
  note f = ring_inv_fetch [OF assms]
  have cells: "i mod cap < cap" for i using cap_pos by simp
  have W: "?W = insert (rg_tail s) ?W'" using f by auto
  have distinct: "k mod cap \<noteq> rg_tail s mod cap" if "k \<in> ?W'" for k
    using mod_window_inj [of "rg_tail s" k cap "rg_tail s"] that assms(1) cap_pos by (auto simp: ring_inv_def)
  have "full (free (rg_tail s mod cap) (rg_cells s)) i \<longleftrightarrow> (\<exists>n\<in>?W'. n mod cap = i)" if "i < cap" for i
    using assms(1) that W distinct by (auto simp: ring_inv_def full_free cells)
  moreover have "get (free (rg_tail s mod cap) (rg_cells s)) (n mod cap) = rg_claimed s ! n" if "n \<in> ?W'" for n
    using assms(1) that W distinct [OF that] by (auto simp: ring_inv_def get_free cells)
  moreover have "rg_unwritten s \<subseteq> {rg_tail s + 1..<length (rg_claimed s)}"
    using assms(1) f by (auto simp: ring_inv_def Suc_le_eq order.order_iff_strict)
  ultimately show ?thesis
    using assms(1) f by (auto simp: ring_inv_def take_Suc_conv_app_nth)
qed

lemma ring_inv_step: "ring_step full get put free msg cap s s' \<Longrightarrow> ring_inv s \<Longrightarrow> ring_inv s'"
  by (induction rule: ring_step.induct) (simp_all only: ring_inv_claim ring_inv_store ring_inv_fetched)

lemma ring_inv_reach: "(ring_step full get put free msg cap)\<^sup>*\<^sup>* s s' \<Longrightarrow> ring_inv s \<Longrightarrow> ring_inv s'"
  by (induction rule: rtranclp_induct) (auto intro: ring_inv_step)

text \<open>What came out is what was claimed, in claim order; the cell at the consumer's position is full
  exactly when the oldest outstanding message has been written.\<close>

lemma fifo:
  assumes "(ring_step full get put free msg cap)\<^sup>*\<^sup>* (ring_start q) s" "\<And>i. i < cap \<Longrightarrow> \<not> full q i"
  shows "rg_out s = take (rg_tail s) (rg_claimed s) \<and> length (rg_out s) = rg_tail s \<and>
    (full (rg_cells s) (rg_tail s mod cap) \<longleftrightarrow> rg_tail s < length (rg_claimed s) \<and> rg_tail s \<notin> rg_unwritten s)"
proof -
  have inv: "ring_inv s" using ring_inv_reach [OF assms(1)] ring_inv_start assms(2) by blast
  moreover have "full (rg_cells s) (rg_tail s mod cap)" if "rg_tail s < length (rg_claimed s)" "rg_tail s \<notin> rg_unwritten s"
    using inv that cap_pos by (auto simp: ring_inv_def)
  ultimately show ?thesis
    using ring_inv_fetch [OF inv] by (auto simp: ring_inv_def)
qed

end

end
