(* ===== verification/Dispatch_Queue.thy ===== *)
theory Dispatch_Queue
  imports Sched_Config Mailbox_Ring Host_Memory
begin

unbundle bit_operations_syntax

text \<open>
  The message rings of \<open>nic-sched/fpga.h\<close> and \<open>worker_buf.h\<close>: the doorbell queue of a worker, the
  queue of the Strife variant and the queue of deferred TPC-C deliveries.  All three keep an empty
  marker in free cells and implement the interface of \<open>Mailbox_Ring\<close>.
\<close>

subsection \<open>fpga\_dispatch\_queue\_t\<close>

record fpga_dispatch_queue_t =
  dq_head :: u32
  dq_tail :: u32
  dq_message_count :: u32
  dq_padding :: "nat \<Rightarrow> u8"
  dq_queue_message :: "nat \<Rightarrow> nat \<Rightarrow> u32"

definition dq_set_word :: "nat \<Rightarrow> nat \<Rightarrow> u32 \<Rightarrow> fpga_dispatch_queue_t \<Rightarrow> fpga_dispatch_queue_t" where
  "dq_set_word i k v q = q\<lparr>dq_queue_message := (dq_queue_message q)(i := (dq_queue_message q i)(k := v))\<rparr>"

definition dq_get_message_client_id :: "build \<Rightarrow> fpga_dispatch_queue_t \<Rightarrow> nat \<Rightarrow> u32" where
  "dq_get_message_client_id bd q i = dq_queue_message q i 0 div of_nat (SLOT_NUM_of bd)"

definition dq_get_message_slot_id :: "build \<Rightarrow> fpga_dispatch_queue_t \<Rightarrow> nat \<Rightarrow> u32" where
  "dq_get_message_slot_id bd q i = dq_queue_message q i 0 mod of_nat (SLOT_NUM_of bd)"

text \<open>\<open>FEATURE_TABLE\<close> is \<open>FEATURE_SIZE / 10\<close>.\<close>

definition dq_add_abort_key :: "nat \<Rightarrow> nat \<Rightarrow> u64 \<Rightarrow> u64 \<Rightarrow> fpga_dispatch_queue_t \<Rightarrow> fpga_dispatch_queue_t" where
  "dq_add_abort_key i cnt tab key q =
     (let q = (if dq_queue_message q i 4 \<le> 5 then dq_set_word i 4 (dq_queue_message q i 4 + 1) q else q);
          cnt = cnt mod 5;
          q = dq_set_word i (4 + cnt * 2 + 1) (ucast tab) q
      in dq_set_word i (4 + cnt * 2 + 2) (ucast (key mod 51)) q)"

definition dq_set_message_down :: "nat \<Rightarrow> fpga_dispatch_queue_t \<Rightarrow> fpga_dispatch_queue_t" where
  "dq_set_message_down i = dq_set_word i 0 0xFFFFFFFF"

definition dq_check_now_message :: "fpga_dispatch_queue_t \<Rightarrow> nat \<Rightarrow> bool" where
  "dq_check_now_message q i \<longleftrightarrow> dq_queue_message q i 0 \<noteq> 0xFFFFFFFF"

definition dq_init_entry :: "nat \<Rightarrow> fpga_dispatch_queue_t \<Rightarrow> fpga_dispatch_queue_t" where
  "dq_init_entry i q = dq_set_word i 3 0 (dq_set_word i 2 0 (dq_set_word i 1 0 (dq_set_word i 0 0xFFFFFFFF q)))"

definition dq_init :: "fpga_dispatch_queue_t \<Rightarrow> fpga_dispatch_queue_t" where
  "dq_init q =
     (let q = q\<lparr>dq_head := 0, dq_tail := 0, dq_message_count := 0\<rparr>;
          q = q\<lparr>dq_padding := fold (\<lambda>i p. p(i := 0)) [0..<52] (dq_padding q)\<rparr>
      in fold dq_init_entry [0..<MESS_NUM_HOST] q)"

subsection \<open>strife\_queue\_t\<close>

record strife_queue_t =
  sq_queue_message :: "nat \<Rightarrow> u64"

definition sq_put :: "nat \<Rightarrow> u64 \<Rightarrow> strife_queue_t \<Rightarrow> strife_queue_t" where
  "sq_put i v q = q\<lparr>sq_queue_message := (sq_queue_message q)(i := v)\<rparr>"

definition sq_check_now_message :: "strife_queue_t \<Rightarrow> nat \<Rightarrow> bool" where
  "sq_check_now_message q i \<longleftrightarrow> sq_queue_message q i \<noteq> 0xFFFFFFFF"

definition sq_set_message_down :: "nat \<Rightarrow> strife_queue_t \<Rightarrow> strife_queue_t" where
  "sq_set_message_down i = sq_put i 0xFFFFFFFF"

definition sq_get_message_addr :: "strife_queue_t \<Rightarrow> nat \<Rightarrow> u64" where
  "sq_get_message_addr q i = sq_queue_message q i"

definition sq_init :: "strife_queue_t \<Rightarrow> strife_queue_t" where
  "sq_init q = fold (\<lambda>i. sq_put i 0xFFFFFFFF) [0..<strife_buf_num] q"

subsection \<open>tpcc\_delivery\_t\<close>

record rpc_id_t =
  rpc_type :: u8
  my_nodeid :: u8
  server_nodeid :: u8
  rpc_thread_id :: u8
  rpc_id :: u32

text \<open>The packed structure as the 64-bit word the code casts it to, and back.\<close>

definition rpc_id_word :: "rpc_id_t \<Rightarrow> u64" where
  "rpc_id_word r = ucast (rpc_type r) OR push_bit 8 (ucast (my_nodeid r)) OR push_bit 16 (ucast (server_nodeid r))
     OR push_bit 24 (ucast (rpc_thread_id r)) OR push_bit 32 (ucast (rpc_id r))"

definition rpc_id_of :: "u64 \<Rightarrow> rpc_id_t" where
  "rpc_id_of w = \<lparr>rpc_type = ucast w, my_nodeid = ucast (drop_bit 8 w), server_nodeid = ucast (drop_bit 16 w),
     rpc_thread_id = ucast (drop_bit 24 w), rpc_id = ucast (drop_bit 32 w)\<rparr>"

record tpcc_delivery_t =
  td_head :: "nat \<Rightarrow> u64"
  td_tail :: "nat \<Rightarrow> u64"
  td_queue :: "nat \<Rightarrow> nat \<Rightarrow> u64"

definition td_length :: "build \<Rightarrow> nat" where
  "td_length bd = 1024 * MAX_CLIENT * CLIENT_THREAD bd"

definition td_put :: "nat \<Rightarrow> nat \<Rightarrow> u64 \<Rightarrow> tpcc_delivery_t \<Rightarrow> tpcc_delivery_t" where
  "td_put w i v d = d\<lparr>td_queue := (td_queue d)(w := (td_queue d w)(i := v))\<rparr>"

definition td_init_one :: "build \<Rightarrow> nat \<Rightarrow> tpcc_delivery_t \<Rightarrow> tpcc_delivery_t" where
  "td_init_one bd i d =
     (let d = fold (\<lambda>j. td_put i j 0xFFFFFFF) [0..<td_length bd] d
      in d\<lparr>td_tail := (td_tail d)(i := 0), td_head := (td_head d)(i := 0)\<rparr>)"

definition td_init :: "build \<Rightarrow> nat \<Rightarrow> tpcc_delivery_t \<Rightarrow> tpcc_delivery_t" where
  "td_init bd warehouse_num d = fold (td_init_one bd) [0..<warehouse_num] d"

definition td_check :: "nat \<Rightarrow> tpcc_delivery_t \<Rightarrow> bool" where
  "td_check w d \<longleftrightarrow> td_queue d w (unat (td_tail d w)) \<noteq> 0xFFFFFFF"

text \<open>The atomic fetch-and-add yields the old counter; the cell is written in a second step.\<close>

definition push_new_delivery :: "build \<Rightarrow> nat \<Rightarrow> rpc_id_t \<Rightarrow> tpcc_delivery_t \<Rightarrow> tpcc_delivery_t" where
  "push_new_delivery bd w r d =
     (let offset = unat (td_head d w) mod td_length bd;
          d = d\<lparr>td_head := (td_head d)(w := td_head d w + 1)\<rparr>
      in td_put w offset (rpc_id_word r) d)"

subsection \<open>The queues implement the ring interface\<close>

lemma dq_set_word_at [simp]:
  "dq_queue_message (dq_set_word i k v q) j l = (if j = i \<and> l = k then v else dq_queue_message q j l)"
  by (simp add: dq_set_word_def)

interpretation dispatch_ring: mailbox dq_check_now_message "\<lambda>q i. dq_queue_message q i 0" "\<lambda>i v. dq_set_word i 0 v"
    dq_set_message_down "\<lambda>v. v \<noteq> 0xFFFFFFFF" MESS_NUM_HOST
  by unfold_locales (auto simp: dq_check_now_message_def dq_set_message_down_def)

interpretation strife_ring: mailbox sq_check_now_message sq_get_message_addr sq_put
    sq_set_message_down "\<lambda>v. v \<noteq> 0xFFFFFFFF" strife_buf_num
  by unfold_locales (auto simp: sq_check_now_message_def sq_get_message_addr_def sq_put_def sq_set_message_down_def)

interpretation delivery_ring: mailbox "\<lambda>d i. td_queue d w i \<noteq> 0xFFFFFFF" "\<lambda>d i. td_queue d w i" "td_put w"
    "\<lambda>i. td_put w i 0xFFFFFFF" "\<lambda>v. v \<noteq> 0xFFFFFFF" "1024 * MAX_CLIENT * Suc n"
  for w n
  by unfold_locales (auto simp: td_put_def)

lemma dq_init_free: "i < MESS_NUM_HOST \<Longrightarrow> \<not> dq_check_now_message (dq_init q) i"
proof -
  assume i: "i < MESS_NUM_HOST"
  have "\<forall>j<n. dq_queue_message (fold dq_init_entry [0..<n] q) j 0 = 0xFFFFFFFF" for n q
    by (induction n) (auto simp: dq_init_entry_def less_Suc_eq)
  then show ?thesis using i by (simp only: dq_init_def Let_def dq_check_now_message_def)
qed

lemma sq_init_free: "i < strife_buf_num \<Longrightarrow> \<not> sq_check_now_message (sq_init q) i"
proof -
  assume i: "i < strife_buf_num"
  have "\<forall>j<n. sq_queue_message (fold (\<lambda>i. sq_put i 0xFFFFFFFF) [0..<n] q) j = 0xFFFFFFFF" for n
    by (induction n) (auto simp: sq_put_def less_Suc_eq)
  then show ?thesis using i by (simp only: sq_init_def sq_check_now_message_def)
qed

definition sample_dq :: fpga_dispatch_queue_t where
  "sample_dq = \<lparr>dq_head = 1, dq_tail = 2, dq_message_count = 3, dq_padding = (\<lambda>_. 9), dq_queue_message = (\<lambda>_ _. 7)\<rparr>"



text \<open>The same for the queues of the Strife variant, which hold request addresses.\<close>

theorem strife_queue_fifo:
  assumes "(ring_step sq_check_now_message sq_get_message_addr sq_put
      sq_set_message_down (\<lambda>v. v \<noteq> 0xFFFFFFFF) strife_buf_num)\<^sup>*\<^sup>* (ring_start (sq_init q)) s"
  shows "rg_out s = take (rg_tail s) (rg_claimed s) \<and> length (rg_out s) = rg_tail s \<and>
    (sq_check_now_message (rg_cells s) (rg_tail s mod strife_buf_num) \<longleftrightarrow>
      rg_tail s < length (rg_claimed s) \<and> rg_tail s \<notin> rg_unwritten s)"
  by (rule strife_ring.fifo [OF assms sq_init_free])

theorem strife_queue_fifo_witness:
  "sq_check_now_message (sq_put 0 4096 (sq_init \<lparr>sq_queue_message = (\<lambda>_. 0)\<rparr>)) 0"
proof -
  let ?R = "ring_step sq_check_now_message sq_get_message_addr sq_put sq_set_message_down (\<lambda>v. v \<noteq> 0xFFFFFFFF) strife_buf_num"
  define s0 where "s0 = (ring_start (sq_init \<lparr>sq_queue_message = (\<lambda>_. 0)\<rparr>) :: (_, u64) ring_state)"
  define s1 where "s1 = s0\<lparr>rg_claimed := rg_claimed s0 @ [4096], rg_unwritten := insert (length (rg_claimed s0)) (rg_unwritten s0)\<rparr>"
  define s2 where "s2 = s1\<lparr>rg_cells := sq_put (0 mod strife_buf_num) (rg_claimed s1 ! 0) (rg_cells s1), rg_unwritten := rg_unwritten s1 - {0}\<rparr>"
  have "?R s0 s1" unfolding s1_def by (rule ring_step.claim) (simp_all add: s0_def ring_start_def)
  moreover have "?R s1 s2" unfolding s2_def by (rule ring_step.store) (simp add: s1_def s0_def ring_start_def)
  ultimately have "?R\<^sup>*\<^sup>* s0 s2" by (meson rtranclp.rtrancl_refl rtranclp.rtrancl_into_rtrancl)
  from strife_queue_fifo [OF this [unfolded s0_def]] show ?thesis
    by (simp add: s2_def s1_def s0_def ring_start_def)
qed

end
