(* ===== verification/Connect.thy ===== *)
theory Connect
  imports Sched_Config Host_Memory Dispatch_Queue
begin

unbundle bit_operations_syntax

text \<open>
  The connection state of \<open>nic-sched/rpc_common.h\<close>: the address arithmetic that gives every slot its
  receive, reply and data buffer, the bump allocator for send slots, and the routine with which a
  client posts a request to the NIC.  The \<open>ReqHead\<close> structure is read in place from memory at its
  packed offsets.
\<close>

subsection \<open>ReqHead, at its packed offsets\<close>

definition req_rpc_id :: "mem \<Rightarrow> nat \<Rightarrow> rpc_id_t" where
  "req_rpc_id m a = rpc_id_of (rd64 m a)"

definition req_read_name :: "mem \<Rightarrow> nat \<Rightarrow> u16" where "req_read_name m a = rd16 m (a + 8)"
definition req_req_num :: "mem \<Rightarrow> nat \<Rightarrow> u8" where "req_req_num m a = m (a + 10)"
definition req_read_num :: "mem \<Rightarrow> nat \<Rightarrow> u8" where "req_read_num m a = m (a + 11)"
definition req_TXID :: "mem \<Rightarrow> nat \<Rightarrow> u8" where "req_TXID m a = m (a + 13)"
definition req_size :: "mem \<Rightarrow> nat \<Rightarrow> u32" where "req_size m a = rd32 m (a + 16)"
definition req_magic :: "mem \<Rightarrow> nat \<Rightarrow> u32" where "req_magic m a = rd32 m (a + 20)"
definition req_partition_hint :: "mem \<Rightarrow> nat \<Rightarrow> u32" where "req_partition_hint m a = rd32 m (a + 24)"

text \<open>\<open>sizeof(ReqHead)\<close> with the fields of the NIC build, \<open>sizeof(rpc_id_t)\<close> and \<open>sizeof(SIZETYPE)\<close>.\<close>

abbreviation sizeof_ReqHead :: nat where "sizeof_ReqHead \<equiv> 28"
abbreviation sizeof_rpc_id_t :: nat where "sizeof_rpc_id_t \<equiv> 8"
abbreviation sizeof_SIZETYPE :: nat where "sizeof_SIZETYPE \<equiv> 4"

subsection \<open>Connect\<close>

record connect_t =
  localBase :: nat
  remoteAddr :: nat
  reply_addr :: nat
  remote_reply_addr :: nat
  data_addr :: nat
  remote_data_addr :: nat
  curAddr :: nat
  poolSize :: nat
  sendnum :: u64
  signal_num :: u64

definition getsendslot :: "nat \<Rightarrow> connect_t \<Rightarrow> nat \<times> connect_t" where
  "getsendslot msize c =
     (let c = (if curAddr c + msize > poolSize c then c\<lparr>curAddr := 0\<rparr> else c)
      in (curAddr c mod poolSize c + localBase c, c\<lparr>curAddr := curAddr c + msize\<rparr>))"

definition get_rev_addr :: "build \<Rightarrow> connect_t \<Rightarrow> u16 \<Rightarrow> nat" where
  "get_rev_addr bd c i = data_addr c + unat i * DATA_LEN bd"

definition get_send_addr :: "build \<Rightarrow> connect_t \<Rightarrow> u16 \<Rightarrow> nat" where
  "get_send_addr bd c i = reply_addr c + unat i * REPLY_LEN bd"

definition get_remote_reply_addr_by_id :: "build \<Rightarrow> connect_t \<Rightarrow> u16 \<Rightarrow> nat" where
  "get_remote_reply_addr_by_id bd c i = remote_reply_addr c + unat i * REPLY_LEN bd"

text \<open>\<open>rpc_id * 8\<close> is computed in 32 bits.\<close>

definition get_remote_reply_addr_by_id_strife :: "build \<Rightarrow> connect_t \<Rightarrow> u32 \<Rightarrow> nat" where
  "get_remote_reply_addr_by_id_strife bd c r = remote_reply_addr c + REPLY_LEN bd * SLOT_NUM_of bd + unat (r * 8)"

definition get_strife_send_addr :: "build \<Rightarrow> connect_t \<Rightarrow> u32 \<Rightarrow> nat" where
  "get_strife_send_addr bd c r = reply_addr c + REPLY_LEN bd * SLOT_NUM_of bd + unat (r * 8)"

definition get_strife_reply_size :: nat where
  "get_strife_reply_size = 8 * IDMAPADDRSIZE"

definition get_my_reply_addr :: "build \<Rightarrow> connect_t \<Rightarrow> u16 \<Rightarrow> nat" where
  "get_my_reply_addr bd c i = reply_addr c + unat i * REPLY_LEN bd"

definition getRemoteAddr :: "connect_t \<Rightarrow> nat \<Rightarrow> nat" where
  "getRemoteAddr c localAddr = localAddr + remoteAddr c - localBase c"

definition get_read_remote_addr :: "connect_t \<Rightarrow> nat \<Rightarrow> nat" where
  "get_read_remote_addr c local_reply_addr = local_reply_addr + remote_reply_addr c - reply_addr c"

definition get_send_data_addr :: "build \<Rightarrow> connect_t \<Rightarrow> u16 \<Rightarrow> nat" where
  "get_send_data_addr bd c i = data_addr c + unat i * DATA_LEN bd"

definition get_remote_data_addr :: "connect_t \<Rightarrow> nat \<Rightarrow> nat" where
  "get_remote_data_addr c local_data_addr = local_data_addr + remote_data_addr c - data_addr c"

text \<open>Posting a request: the feature vector is copied in front, the toggle word (16-bit word 33) is
  complemented and the hint (word 32) taken from the request's head.  The results are the address
  and the number of bytes to send.\<close>

definition serialization :: "build \<Rightarrow> connect_t \<Rightarrow> u16 \<Rightarrow> nat \<Rightarrow> mem \<Rightarrow> nat \<times> nat \<times> mem" where
  "serialization bd c i feature_addr m =
     (let addr = localBase c + unat i * SLOT_LEN;
          d_addr = localBase c + 2 * poolSize c + unat i * DATA_LEN bd;
          m = (if feature_addr \<noteq> 0 then memcpy addr feature_addr 64 m else m);
          m = wr16 (addr + 66) (NOT (rd16 m (addr + 66))) m;
          m = wr16 (addr + 64) (ucast (req_partition_hint m d_addr)) m
      in (addr, 4 + 64, m))"

text \<open>The connection of a slot number: \<open>server->nic_connect[client / CLIENT_THREAD + KEY2NODE_MOD]
  [client % CLIENT_THREAD]\<close>.\<close>

type_synonym nic_connect = "nat \<Rightarrow> nat \<Rightarrow> connect_t"

definition connect_of_client :: "build \<Rightarrow> nic_connect \<Rightarrow> nat \<Rightarrow> connect_t" where
  "connect_of_client bd nc client_id = nc (client_id div CLIENT_THREAD bd + KEY2NODE_MOD) (client_id mod CLIENT_THREAD bd)"

subsection \<open>Lemmas\<close>

lemma DATA_LEN_pos [simp]: "0 < DATA_LEN bd" and REPLY_LEN_pos [simp]: "0 < REPLY_LEN bd"
  by (simp_all add: DATA_LEN_def REPLY_LEN_def)

lemma rpc_id_roundtrip: "rpc_id_of (rpc_id_word r) = r"
proof -
  have "ucast (rpc_id_word r) = rpc_type r" "ucast (drop_bit 8 (rpc_id_word r)) = my_nodeid r"
    "ucast (drop_bit 16 (rpc_id_word r)) = server_nodeid r" "ucast (drop_bit 24 (rpc_id_word r)) = rpc_thread_id r"
    "ucast (drop_bit 32 (rpc_id_word r)) = rpc_id r"
    by (rule bit_word_eqI;
        auto simp: rpc_id_word_def bit_or_iff bit_push_bit_iff bit_ucast_iff bit_drop_bit_eq dest: bit_imp_le_length)+
  then show ?thesis by (simp add: rpc_id_of_def)
qed

end
