(* ===== verification/Central_Scheduler.thy ===== *)
theory Central_Scheduler
  imports Weight_Table Connect
begin

unbundle bit_operations_syntax

text \<open>
  The scheduler that runs on a CPU of the server (\<open>central_scheduler_t\<close> of \<open>nic-sched/worker_buf.cpp\<close>):
  the weight table, the per-core feature counters and bitmaps, the choice of a core, and the polling
  loops over the receive buffers.  \<open>c_feature\<close> counts, \<open>c_byte_feature\<close> is the bitmap the choice
  uses.  Fetch-and-add, fetch-and-or and fetch-and-and of the atomic mode have the effect of the plain
  updates of the other mode, so both modes are one definition.  The results of \<open>rand()\<close> are an
  argument, the macros of the build a record.
\<close>

subsection \<open>State\<close>

record central_scheduler_t =
  cs_thread_num :: nat
  cs_run_count :: "nat \<Rightarrow> u64"
  cs_head :: "nat \<Rightarrow> u64"
  cs_doorbell_queue :: "nat \<Rightarrow> fpga_dispatch_queue_t"
  cs_strife_queue :: "nat \<Rightarrow> strife_queue_t"
  cs_c_feature :: "nat \<Rightarrow> nat \<Rightarrow> u64"
  cs_c_byte_feature :: "nat \<Rightarrow> nat \<Rightarrow> u8"
  cs_merge_weights :: "nat \<Rightarrow> u8 \<Rightarrow> u32"
  cs_old_feature :: "nat \<Rightarrow> nat \<Rightarrow> u8"
  cs_old_core_id :: "nat \<Rightarrow> u16"
  cs_weights :: "nat \<Rightarrow> u8"
  cs_filter :: "nat \<Rightarrow> u8"
  cs_strife_buffer :: nat

text \<open>The two initialisers.  The weights and the filter live in memory shared with the model; their
  contents at that moment are arguments.  \<open>memset(old_core_id, -1, ...)\<close> makes every entry 65535.\<close>

definition cpu_alnico_init :: "(nat \<Rightarrow> u8) \<Rightarrow> nat \<Rightarrow> central_scheduler_t \<Rightarrow> central_scheduler_t" where
  "cpu_alnico_init ws thread_num s = s\<lparr>
     cs_weights := ws, cs_thread_num := thread_num,
     cs_head := (\<lambda>c. if c < MAX_CORE then 0 else cs_head s c),
     cs_filter := (\<lambda>i. if i < FEATURE_SIZE then 255 else cs_filter s i),
     cs_run_count := (\<lambda>c. if c < MAX_CORE then 0 else cs_run_count s c),
     cs_c_byte_feature := (\<lambda>c i. if c < MAX_CORE \<and> i < 64 then 0 else cs_c_byte_feature s c i),
     cs_old_core_id := (\<lambda>_. 65535),
     cs_merge_weights := (\<lambda>i b. if i < 64 then 0 else cs_merge_weights s i b)\<rparr>"

definition cs_init :: "(nat \<Rightarrow> fpga_dispatch_queue_t) \<Rightarrow> (nat \<Rightarrow> u8) \<Rightarrow> nat \<Rightarrow> central_scheduler_t \<Rightarrow> central_scheduler_t" where
  "cs_init queues ws thread_num s =
     cpu_alnico_init ws thread_num
       (s\<lparr>cs_doorbell_queue := (\<lambda>i. if i < thread_num then queues i else cs_doorbell_queue s i)\<rparr>)"

definition cs_init_strife :: "(nat \<Rightarrow> strife_queue_t) \<Rightarrow> nat \<Rightarrow> nat \<Rightarrow> central_scheduler_t \<Rightarrow> central_scheduler_t" where
  "cs_init_strife queues buffer thread_num s =
     s\<lparr>cs_strife_queue := (\<lambda>i. if i < thread_num then queues i else cs_strife_queue s i),
       cs_strife_buffer := buffer, cs_thread_num := thread_num,
       cs_head := (\<lambda>c. if c < MAX_CORE then 0 else cs_head s c)\<rparr>"

subsection \<open>update\_weights\<close>

definition update_weights_step :: "(nat \<Rightarrow> u8) \<Rightarrow> nat \<Rightarrow> nat \<Rightarrow> u8 \<times> (nat \<Rightarrow> u8 \<Rightarrow> u32) \<Rightarrow> u8 \<times> (nat \<Rightarrow> u8 \<Rightarrow> u32)" where
  "update_weights_step ws i j = (\<lambda>(now, mw).
     let prev = now;
         now' = gray_code j;
         delta_id = delta_id_of (now' XOR prev);
         v = (if now' > prev then mw i prev + ucast (ws (i * 8 + delta_id)) else mw i prev - ucast (ws (i * 8 + delta_id)))
     in (now', mw(i := (mw i)(now' := v))))"

definition update_weights_group :: "(nat \<Rightarrow> u8) \<Rightarrow> nat \<Rightarrow> (nat \<Rightarrow> u8 \<Rightarrow> u32) \<Rightarrow> (nat \<Rightarrow> u8 \<Rightarrow> u32)" where
  "update_weights_group ws i mw = snd (fold (update_weights_step ws i) [1..<256] (0, mw(i := (mw i)(0 := 0))))"

definition update_weights :: "central_scheduler_t \<Rightarrow> central_scheduler_t" where
  "update_weights s = s\<lparr>cs_merge_weights := fold (update_weights_group (cs_weights s)) [0..<64] (cs_merge_weights s)\<rparr>"

subsection \<open>Queues\<close>

definition push_new_request :: "nat \<Rightarrow> u32 \<Rightarrow> central_scheduler_t \<Rightarrow> central_scheduler_t" where
  "push_new_request core_id slot_id s =
     (let offset = unat (cs_head s core_id mod 256);
          s = s\<lparr>cs_head := (cs_head s)(core_id := cs_head s core_id + 1)\<rparr>
      in s\<lparr>cs_doorbell_queue := (cs_doorbell_queue s)(core_id := dq_set_word offset 0 slot_id (cs_doorbell_queue s core_id))\<rparr>)"

definition push_new_request_stife :: "nat \<Rightarrow> u64 \<Rightarrow> central_scheduler_t \<Rightarrow> central_scheduler_t" where
  "push_new_request_stife core_id slot_addr s =
     (let offset = unat (cs_head s core_id mod 65536);
          s = s\<lparr>cs_head := (cs_head s)(core_id := cs_head s core_id + 1)\<rparr>
      in s\<lparr>cs_strife_queue := (cs_strife_queue s)(core_id := sq_put offset slot_addr (cs_strife_queue s core_id))\<rparr>)"

subsection \<open>Feature counters\<close>

text \<open>The body of the double loop of \<open>replace_new_request\<close> for bit \<open>j\<close> of byte \<open>i\<close>.  The old count
  \<open>x\<close> is an \<open>int\<close>, so the test \<open>x >= 0\<close> is about bit 31 of the counter.\<close>

definition replace_bit :: "nat \<Rightarrow> nat \<Rightarrow> nat \<Rightarrow> nat \<Rightarrow> central_scheduler_t \<Rightarrow> central_scheduler_t" where
  "replace_bit core_id slot_id i j s =
     (if bit (cs_old_feature s slot_id i) j
      then let x = (ucast (cs_c_feature s core_id (i * 8 + j)) :: u32);
               s = s\<lparr>cs_c_feature := (cs_c_feature s)(core_id := (cs_c_feature s core_id)(i * 8 + j := cs_c_feature s core_id (i * 8 + j) + 1))\<rparr>;
               fl = unat (cs_filter s (i * 8 + j))
           in if \<not> bit x 31 \<and> (fl = MAX_CORE + 1 \<or> fl = core_id)
              then s\<lparr>cs_c_byte_feature := (cs_c_byte_feature s)(core_id := (cs_c_byte_feature s core_id)
                      (i := set_bit j (cs_c_byte_feature s core_id i)))\<rparr>
              else s
      else s)"

definition replace_new_request :: "nat \<Rightarrow> nat \<Rightarrow> central_scheduler_t \<Rightarrow> central_scheduler_t" where
  "replace_new_request core_id slot_id s =
     fold (\<lambda>i s. fold (\<lambda>j s. replace_bit core_id slot_id i j s) [0..<8] s) [0..<64]
       (s\<lparr>cs_old_core_id := (cs_old_core_id s)(slot_id := of_nat core_id)\<rparr>)"

definition delate_bit :: "nat \<Rightarrow> nat \<Rightarrow> nat \<Rightarrow> nat \<Rightarrow> central_scheduler_t \<Rightarrow> central_scheduler_t" where
  "delate_bit old_c_id slot_id i j s =
     (if bit (cs_old_feature s slot_id i) j
      then let s = s\<lparr>cs_c_feature := (cs_c_feature s)(old_c_id := (cs_c_feature s old_c_id)(i * 8 + j := cs_c_feature s old_c_id (i * 8 + j) - 1))\<rparr>;
               fl = unat (cs_filter s (i * 8 + j))
           in if fl \<noteq> MAX_CORE + 1 \<and> fl \<noteq> old_c_id
              then s\<lparr>cs_c_byte_feature := (cs_c_byte_feature s)(old_c_id := (cs_c_byte_feature s old_c_id)
                      (i := unset_bit j (cs_c_byte_feature s old_c_id i)))\<rparr>
              else s
      else s)"

text \<open>\<open>old_c_id\<close> is an \<open>int\<close> read from a 16-bit field, so the test \<open>old_c_id != -1\<close> always holds.\<close>

definition delate_old_request :: "nat \<Rightarrow> (nat \<Rightarrow> u8) \<Rightarrow> central_scheduler_t \<Rightarrow> central_scheduler_t" where
  "delate_old_request slot_id feature s =
     (let old_c_id = unat (cs_old_core_id s slot_id);
          s = fold (\<lambda>i s. fold (\<lambda>j s. delate_bit old_c_id slot_id i j s) [0..<8] s) [0..<64] s
      in s\<lparr>cs_old_feature := (cs_old_feature s)(slot_id := (\<lambda>i. if i < 64 then feature i else cs_old_feature s slot_id i))\<rparr>)"

subsection \<open>The choice of a core\<close>

definition tmp_ans :: "central_scheduler_t \<Rightarrow> nat \<Rightarrow> nat \<Rightarrow> u32" where
  "tmp_ans s slot_id t =
     fold (\<lambda>i a. a + cs_merge_weights s i (cs_old_feature s slot_id i AND cs_c_byte_feature s t i)) [0..<64] 0"

text \<open>\<open>tmp_ans\<close> and \<open>ans.first\<close> are \<open>int\<close>s.\<close>

definition get_core_id :: "build \<Rightarrow> central_scheduler_t \<Rightarrow> nat \<Rightarrow> nat \<Rightarrow> u16" where
  "get_core_id bd s slot_id default_id =
     of_nat (snd (fold (\<lambda>t ans. if sint (tmp_ans s slot_id t) > fst ans then (sint (tmp_ans s slot_id t), t) else ans)
       [0..<MAX_THREAD bd] (0, default_id)))"

subsection \<open>Polling the receive buffers\<close>

definition get_addr :: "build \<Rightarrow> nic_connect \<Rightarrow> nat \<Rightarrow> nat" where
  "get_addr bd nc slot_id =
     get_rev_addr bd (connect_of_client bd nc (slot_id div SLOT_NUM_of bd)) (of_nat (slot_id mod SLOT_NUM_of bd))"

definition get_feature_addr :: "build \<Rightarrow> nic_connect \<Rightarrow> mem \<Rightarrow> nat \<Rightarrow> nat" where
  "get_feature_addr bd nc m slot_id =
     get_addr bd nc slot_id + unat (req_size m (get_addr bd nc slot_id)) - 64"

text \<open>The common head of the two polling loops: a request has arrived when its size is not zero and
  the magic number of its head stands behind it; the copy behind it is cleared.  \<open>None\<close> is
  \<open>continue\<close>.\<close>

definition tail_magic_addr :: "mem \<Rightarrow> nat \<Rightarrow> nat" where
  "tail_magic_addr m a = a + 4 * (unat (req_size m a) div 4)"

definition take_request :: "nat \<Rightarrow> mem \<Rightarrow> mem option" where
  "take_request a m =
     (if req_size m a = 0 then None
      else if req_magic m a \<noteq> rd32 m (tail_magic_addr m a) then None
      else Some (wr32 (tail_magic_addr m a) 0 m))"

record host_t =
  h_mem :: mem
  h_cs :: central_scheduler_t
  h_count :: "nat \<Rightarrow> u64"

definition schedule_request :: "build \<Rightarrow> nic_connect \<Rightarrow> nat \<Rightarrow> nat \<Rightarrow> mem \<Rightarrow> central_scheduler_t \<Rightarrow> nat \<times> central_scheduler_t" where
  "schedule_request bd nc i default_id m s =
     (let s = delate_old_request i (\<lambda>k. m (get_feature_addr bd nc m i + k)) s;
          c_id = unat (get_core_id bd s i default_id)
      in (c_id, replace_new_request c_id i s))"

definition run_once_slot :: "build \<Rightarrow> nic_connect \<Rightarrow> nat \<Rightarrow> host_t \<Rightarrow> host_t" where
  "run_once_slot bd nc i h =
     (let a = get_addr bd nc i
      in case take_request a (h_mem h) of
           None \<Rightarrow> h
         | Some m \<Rightarrow>
             let (c_id, s) = schedule_request bd nc i (unat (req_partition_hint m a)) m (h_cs h)
             in h\<lparr>h_mem := m, h_cs := push_new_request c_id (of_nat i) s\<rparr>)"

definition refresh_weights :: "nat \<Rightarrow> host_t \<Rightarrow> host_t" where
  "refresh_weights thread_id h =
     (let s = h_cs h;
          s = (if cs_run_count s thread_id mod 1000 = 0 \<and> thread_id = 0 then update_weights s else s)
      in h\<lparr>h_cs := s\<lparr>cs_run_count := (cs_run_count s)(thread_id := cs_run_count s thread_id + 1)\<rparr>\<rparr>)"

definition run_once :: "build \<Rightarrow> nic_connect \<Rightarrow> nat \<Rightarrow> nat \<Rightarrow> nat \<Rightarrow> host_t \<Rightarrow> host_t" where
  "run_once bd nc begin_id end_id thread_id h =
     fold (run_once_slot bd nc) [begin_id..<end_id] (refresh_weights thread_id h)"

definition test_reply :: "nat \<Rightarrow> nat \<Rightarrow> host_t \<Rightarrow> host_t" where
  "test_reply thread_id a h =
     h\<lparr>h_count := (h_count h)(thread_id := h_count h thread_id + 1), h_mem := wr64 a (rd64 (h_mem h) a + 11) (h_mem h)\<rparr>"

subsection \<open>run\_strife\_once\<close>

text \<open>The core id before any scheduling: hint, fair spreading for reserved cores, or random.\<close>

definition strife_core_hint :: "build \<Rightarrow> nat \<Rightarrow> u32 \<Rightarrow> u32 \<Rightarrow> nat" where
  "strife_core_hint bd rnd rpc hint =
     (let c_id = unat hint;
          c_id = (if \<not> static_best bd \<and> \<not> ycsb_plus_t bd \<and> cpubased bd = 3 \<and> c_id < 2
                  then unat rpc mod 21 + 1 else c_id);
          c_id = (if \<not> static_best bd \<and> \<not> ycsb_plus_t bd \<and> cpubased bd = 4 \<and> c_id < 2
                  then ((if unat rpc mod 10 < 5 then 1 else 0) * 10 + c_id) mod (MAX_THREAD bd + 2) else c_id);
          c_id = (if baseline bd then (if ycsb_plus_t bd then rnd mod MAX_THREAD bd else rnd mod (MAX_THREAD bd + 2)) else c_id)
      in if cpubased bd = 1 \<or> cpubased bd = 2 then rnd mod MAX_THREAD bd else c_id)"

text \<open>The early reply of the null-RPC and the Strife builds.\<close>

definition early_reply :: "build \<Rightarrow> u8 \<Rightarrow> nat \<Rightarrow> nat \<Rightarrow> nat \<Rightarrow> host_t \<Rightarrow> host_t" where
  "early_reply bd phase thread_id recv_addr ra h =
     (let h = (if nullrpc bd
               then h\<lparr>h_count := (h_count h)(thread_id := h_count h thread_id + 1), h_mem := (h_mem h)(ra := 0)\<rparr> else h);
          h = (if nullrpc bd
               then h\<lparr>h_mem := wr32 (ra + 4) (rpc_id (req_rpc_id (h_mem h) recv_addr) + NOTHING_DEBUG) (h_mem h)\<rparr> else h);
          h = (if cpubased bd = 3 \<and> ycsb_plus_t bd
               then h\<lparr>h_mem := (h_mem h)(ra := req_read_num (h_mem h) recv_addr, ra + 1 := phase)\<rparr> else h)
      in if cpubased bd = 3
         then h\<lparr>h_mem := wr32 (ra + 4) (rpc_id (req_rpc_id (h_mem h) recv_addr) + NOTHING_DEBUG) (h_mem h)\<rparr> else h)"

definition run_strife_slot :: "build \<Rightarrow> nic_connect \<Rightarrow> (nat \<Rightarrow> nat) \<Rightarrow> u8 \<Rightarrow> nat \<Rightarrow> nat \<Rightarrow> nat \<Rightarrow> host_t \<Rightarrow> host_t" where
  "run_strife_slot bd nc rnd phase begin_id thread_id i h =
     (if begin_id \<ge> MAX_CLIENT * SLOT_NUM_of bd * CLIENT_THREAD bd then h
      else let recv_addr = get_addr bd nc i
      in case take_request recv_addr (h_mem h) of
           None \<Rightarrow> h
         | Some m \<Rightarrow>
             let rpc = req_rpc_id m recv_addr;
                 client_id = (ucast (my_nodeid rpc) - 1 :: u32);
                 c_thread_id = (ucast (rpc_thread_id rpc) :: u32);
                 copy = unat (((client_id * of_nat (CLIENT_THREAD bd) + c_thread_id) * of_nat IDMAPADDRSIZE + rpc_id rpc)
                          * of_nat (DATA_LEN bd)) + cs_strife_buffer (h_cs h);
                 m = (if cpubased bd = 3 then memcpy copy recv_addr (unat (req_size m recv_addr)) m else m);
                 addr = (if cpubased bd = 3 then copy else recv_addr);
                 c_id = strife_core_hint bd (rnd i) (rpc_id rpc) (req_partition_hint m recv_addr);
                 (c_id, s) = (if cpubased bd = 1 \<or> cpubased bd = 2 then schedule_request bd nc i c_id m (h_cs h) else (c_id, h_cs h));
                 s = (if nullrpc bd then s else push_new_request_stife (c_id mod 65536) (of_nat addr) s);
                 ra = get_send_addr bd (nc (unat (client_id + 1)) (unat c_thread_id)) (of_nat (i mod SLOT_NUM_of bd))
             in early_reply bd phase thread_id recv_addr ra (h\<lparr>h_mem := m, h_cs := s\<rparr>))"

definition run_strife_once :: "build \<Rightarrow> nic_connect \<Rightarrow> (nat \<Rightarrow> nat) \<Rightarrow> u8 \<Rightarrow> nat \<Rightarrow> nat \<Rightarrow> nat \<Rightarrow> host_t \<Rightarrow> host_t" where
  "run_strife_once bd nc rnd phase begin_id end_id thread_id h =
     fold (run_strife_slot bd nc rnd phase begin_id thread_id) [begin_id..<end_id]
       (if cpubased bd = 1 \<or> cpubased bd = 2 then refresh_weights thread_id h else h)"

end
