(* ===== verification/Central_Proofs.thy ===== *)
theory Central_Proofs
  imports Central_Scheduler
begin

unbundle bit_operations_syntax

text \<open>
  Correctness of the CPU scheduler: its weight table, its choice of a core, its counters over whole
  passes, and the detection of requests in the receive buffers.
\<close>

subsection \<open>The weight table\<close>

definition host_ws :: "(nat \<Rightarrow> u8) \<Rightarrow> nat \<Rightarrow> nat \<Rightarrow> u32" where
  "host_ws ws i k = ucast (ws (i * 8 + k))"

definition group_inv :: "(nat \<Rightarrow> u8) \<Rightarrow> (nat \<Rightarrow> u8 \<Rightarrow> u32) \<Rightarrow> nat \<Rightarrow> nat \<Rightarrow> u8 \<times> (nat \<Rightarrow> u8 \<Rightarrow> u32) \<Rightarrow> bool" where
  "group_inv ws mw0 i j = (\<lambda>(now, mw). now = gray_code (j - 1) \<and>
     (\<forall>k<j. mw i (gray_code k) = subset_sum (host_ws ws i) (gray_code k)) \<and> (\<forall>i'. i' \<noteq> i \<longrightarrow> mw i' = mw0 i'))"

lemma group_inv_step:
  assumes "1 \<le> j" "j < 256" "group_inv ws mw0 i j t"
  shows "group_inv ws mw0 i (Suc j) (update_weights_step ws i j t)"
proof -
  obtain now mw where t: "t = (now, mw)" by (cases t)
  obtain m where j: "j = Suc m" using assms(1) by (cases j) auto
  have inv: "now = gray_code m" "k < j \<Longrightarrow> mw i (gray_code k) = subset_sum (host_ws ws i) (gray_code k)" "i' \<noteq> i \<Longrightarrow> mw i' = mw0 i'" for k i'
    using assms(3) by (auto simp: group_inv_def t j)
  define v where "v = (if gray_code j > now then mw i now + ucast (ws (i * 8 + delta_id_of (gray_code j XOR now)))
    else mw i now - ucast (ws (i * 8 + delta_id_of (gray_code j XOR now))))"
  have v: "v = subset_sum (host_ws ws i) (gray_code j)"
    using gray_step_sum [of m "host_ws ws i"] assms(2) inv(2) [of m] by (simp add: v_def inv(1) j host_ws_def)
  have "update_weights_step ws i j t = (gray_code j, mw(i := (mw i)(gray_code j := v)))"
    by (simp add: update_weights_step_def t v_def Let_def)
  then show ?thesis
    using inv(2,3) v by (auto simp: group_inv_def less_Suc_eq)
qed

lemma update_weights_group_entry:
  "update_weights_group ws i mw i b = subset_sum (host_ws ws i) b"
  "i' \<noteq> i \<Longrightarrow> update_weights_group ws i mw i' = mw i'"
proof -
  have inv: "group_inv ws mw i 256 (fold (update_weights_step ws i) [1..<256] (0, mw(i := (mw i)(0 := 0))))"
  proof (rule fold_upt_invariant)
    show "group_inv ws mw i 1 (0, mw(i := (mw i)(0 := 0)))"
      by (simp add: group_inv_def gray_code_def)
  qed (auto intro: group_inv_step)
  obtain k where "k < 256" "gray_code k = b" using gray_code_onto by blast
  then show "update_weights_group ws i mw i b = subset_sum (host_ws ws i) b"
    and "i' \<noteq> i \<Longrightarrow> update_weights_group ws i mw i' = mw i'"
    using inv by (auto simp: group_inv_def update_weights_group_def split: prod.splits)
qed

lemma update_weights_entry:
  assumes "i < 64"
  shows "cs_merge_weights (update_weights s) i b = subset_sum (host_ws (cs_weights s) i) b"
proof -
  have "\<forall>i<n. \<forall>b. fold (update_weights_group ws) [0..<n] mw i b = subset_sum (host_ws ws i) b" for n ws mw
  proof (induction n)
    case (Suc n)
    then show ?case
      by (auto simp: less_Suc_eq update_weights_group_entry)
  qed simp
  then show ?thesis using assms by (simp add: update_weights_def del: upt_rec_numeral)
qed

definition host_weights :: "(nat \<Rightarrow> u8) \<Rightarrow> nat \<Rightarrow> nat \<Rightarrow> int" where
  "host_weights ws i k = uint (ws (8 * i + k))"

lemma uint_host_ws: "uint (host_ws ws i k) = host_weights ws i k"
  by (simp add: host_ws_def host_weights_def uint_up_ucast is_up mult.commute)

lemma host_weights_bound: "0 \<le> host_weights ws i k" "host_weights ws i k \<le> 255"
  using uint_lt2p [of "ws (8 * i + k)"] by (simp_all add: host_weights_def)

lemma host_group_bound: "(\<Sum>k<8. host_weights ws i k) \<le> 2040"
  using sum_mono [of "{..<8::nat}" "host_weights ws i" "\<lambda>_. 255"] by (simp add: host_weights_bound)

interpretation cpu_table: weight_table "\<lambda>i b. uint (cs_merge_weights (update_weights s) i b)" "host_weights (cs_weights s)" "\<lambda>_ _. True"
  for s
proof unfold_locales
  fix i b assume "i < (64::nat)"
  moreover have "(\<Sum>k<8. uint (host_ws (cs_weights s) i k)) < 2 ^ LENGTH(32)"
    using host_group_bound [of "cs_weights s" i] by (simp add: uint_host_ws)
  ultimately show "uint (cs_merge_weights (update_weights s) i b) = subset_sum (host_weights (cs_weights s) i) b"
    by (simp add: update_weights_entry uint_subset_sum uint_host_ws)
qed

subsection \<open>The choice of a core\<close>

text \<open>The scheduler's table is current when it is what \<open>update_weights\<close> last computed from the
  weights.\<close>

definition table_current :: "central_scheduler_t \<Rightarrow> bool" where
  "table_current s \<longleftrightarrow> (\<forall>i<64. \<forall>b. cs_merge_weights s i b = subset_sum (host_ws (cs_weights s) i) b)"

lemma table_current_update: "table_current (update_weights s)"
  using update_weights_entry [of _ s] by (simp add: table_current_def update_weights_def)

definition cpu_score :: "central_scheduler_t \<Rightarrow> nat \<Rightarrow> nat \<Rightarrow> int" where
  "cpu_score s slot t = (\<Sum>f<512. if bit (cs_old_feature s slot (f div 8)) (f mod 8) \<and> bit (cs_c_byte_feature s t (f div 8)) (f mod 8)
     then uint (cs_weights s f) else 0)"

lemma cpu_score_bytes:
  "cpu_score s slot t = byte_score (host_weights (cs_weights s)) (\<lambda>i. cs_old_feature s slot i AND cs_c_byte_feature s t i)"
  unfolding cpu_score_def byte_score_def by (rule sum.cong) (auto simp: bit_and_iff host_weights_def)

lemma cpu_score_nonneg: "0 \<le> cpu_score s slot t"
  by (auto simp: cpu_score_def intro!: sum_nonneg)

lemma cpu_score_bound: "cpu_score s slot t \<le> 130560"
proof -
  have "cpu_score s slot t \<le> (\<Sum>f<512::nat. 255)"
    unfolding cpu_score_def
    by (rule sum_mono) (use host_weights_bound [of "cs_weights s" 0] in \<open>auto simp: host_weights_def\<close>)
  then show ?thesis by simp
qed

lemma sint_tmp_ans:
  assumes "table_current s"
  shows "sint (tmp_ans s slot t) = cpu_score s slot t"
proof -
  let ?bs = "\<lambda>i. cs_old_feature s slot i AND cs_c_byte_feature s t i"
  have entry: "uint (cs_merge_weights s i (?bs i)) = uint (cs_merge_weights (update_weights s) i (?bs i))" if "i < 64" for i
    using assms that by (simp add: table_current_def update_weights_entry)
  have "(\<Sum>i<64. uint (cs_merge_weights s i (?bs i))) = cpu_score s slot t"
    unfolding cpu_score_bytes cpu_table.table_bytes [OF TrueI, of s ?bs, symmetric]
    by (rule sum.cong) (simp_all add: entry)
  then have "tmp_ans s slot t = of_int (cpu_score s slot t)"
    by (simp add: tmp_ans_def fold_word_sum del: upt_rec_numeral of_int_sum)
  then show ?thesis
    using cpu_score_nonneg [of s slot t] cpu_score_bound [of s slot t]
    by (simp add: int_word_sint)
qed

lemma get_core_id_best:
  assumes "table_current s"
  shows "\<exists>core. get_core_id bd s slot d = of_nat core \<and> is_best_core (cpu_score s slot) (MAX_THREAD bd) d core"
  unfolding get_core_id_def sint_tmp_ans [OF assms]
  using scan_pair_best [of "cpu_score s slot" "MAX_THREAD bd" d, OF cpu_score_nonneg] by blast

text \<open>C22: The core the CPU scheduler picks for a slot, whenever its table is current: the first core
  below \<open>MAX_THREAD\<close> with the highest total weight of those features of the request that are in the
  core's bitmap, and the default when no core scores.\<close>

theorem cpu_picks_best_core:
  assumes "table_current s"
  shows "\<exists>core. get_core_id bd s slot default_id = of_nat core \<and>
    is_best_core (\<lambda>t. \<Sum>f<512. if bit (cs_old_feature s slot (f div 8)) (f mod 8) \<and> bit (cs_c_byte_feature s t (f div 8)) (f mod 8)
      then uint (cs_weights s f) else 0) (MAX_THREAD bd) default_id core"
  using get_core_id_best [OF assms] unfolding cpu_score_def by blast

definition sample_cs :: central_scheduler_t where
  "sample_cs = \<lparr>cs_thread_num = 4, cs_run_count = (\<lambda>_. 0), cs_head = (\<lambda>_. 0), cs_doorbell_queue = (\<lambda>_. sample_dq),
     cs_strife_queue = (\<lambda>_. \<lparr>sq_queue_message = (\<lambda>_. 0)\<rparr>), cs_c_feature = (\<lambda>_ _. 0), cs_c_byte_feature = (\<lambda>c _. of_nat c),
     cs_merge_weights = (\<lambda>_ _. 0), cs_old_feature = (\<lambda>_ _. 1), cs_old_core_id = (\<lambda>_. 65535), cs_weights = (\<lambda>_. 3),
     cs_filter = (\<lambda>_. 25), cs_strife_buffer = 0\<rparr>"

theorem cpu_picks_best_core_witness:
  "\<exists>core. get_core_id default_build (update_weights sample_cs) 0 7 = of_nat core \<and>
    is_best_core (\<lambda>t. \<Sum>f<512. if bit (cs_old_feature (update_weights sample_cs) 0 (f div 8)) (f mod 8)
        \<and> bit (cs_c_byte_feature (update_weights sample_cs) t (f div 8)) (f mod 8)
      then uint (cs_weights (update_weights sample_cs) f) else 0) (MAX_THREAD default_build) 7 core"
  by (rule cpu_picks_best_core) (rule table_current_update)

text \<open>C34: After \<open>update_weights\<close> all 256 entries of each of the 64 groups hold the exact sum of the
  weights of their subset, whatever the table held before.\<close>

theorem cpu_table_entries:
  assumes "i < 64"
  shows "uint (cs_merge_weights (update_weights s) i b) = (\<Sum>k<8. if bit b k then uint (cs_weights s (8 * i + k)) else 0)"
  using cpu_table.entry_sum [OF assms TrueI, of s b] unfolding subset_sum_def host_weights_def .

theorem cpu_table_entries_witness:
  "uint (cs_merge_weights (update_weights (sample_cs\<lparr>cs_weights := (\<lambda>f. of_nat f)\<rparr>)) 2 129) = 39"
  using cpu_table_entries [of 2 "sample_cs\<lparr>cs_weights := (\<lambda>f. of_nat f)\<rparr>" 129] by (simp add: lessThan_nat_numeral)

subsection \<open>The counters\<close>

lemma fold_bytes:
  "fold (\<lambda>i s. fold (\<lambda>j s. g i j s) [0..<8] s) [0..<n] s = fold (\<lambda>f. g (f div 8) (f mod 8)) [0..<8 * n] s"
proof (induction n)
  case (Suc n)
  have "[0..<8 * Suc n] = [0..<8 * n] @ [8 * n..<8 * n + 8]"
    using upt_add_eq_append [of 0 "8 * n" 8] by (simp add: add.commute)
  moreover have "[8 * n..<8 * n + 8] = map (\<lambda>j. 8 * n + j) [0..<8]"
    by (simp add: map_add_upt add.commute [of "8 * n"])
  moreover have "fold (\<lambda>f. g (f div 8) (f mod 8)) (map (\<lambda>j. 8 * n + j) [0..<8]) t = fold (g n) [0..<8] t" for t
    unfolding fold_map by (rule fold_cong) auto
  ultimately show ?case using Suc.IH by (simp del: upt_rec_numeral)
qed simp

text \<open>Feature \<open>f\<close> of the request last taken from a slot.\<close>

definition slot_bit :: "central_scheduler_t \<Rightarrow> nat \<Rightarrow> nat \<Rightarrow> bool" where
  "slot_bit s slot f \<longleftrightarrow> bit (cs_old_feature s slot (f div 8)) (f mod 8)"

definition same_slots :: "central_scheduler_t \<Rightarrow> central_scheduler_t \<Rightarrow> bool" where
  "same_slots s t \<longleftrightarrow> cs_old_feature t = cs_old_feature s \<and> cs_old_core_id t = cs_old_core_id s \<and> cs_filter t = cs_filter s \<and>
     cs_weights t = cs_weights s \<and> cs_merge_weights t = cs_merge_weights s \<and> cs_head t = cs_head s \<and>
     cs_doorbell_queue t = cs_doorbell_queue s \<and> cs_strife_queue t = cs_strife_queue s"

lemma same_slots_bit: "same_slots s t \<Longrightarrow> slot_bit t = slot_bit s"
  by (simp add: same_slots_def slot_bit_def fun_eq_iff)

lemma delate_bits:
  "same_slots s (fold (\<lambda>f. delate_bit c0 slot (f div 8) (f mod 8)) [0..<m] s) \<and>
   cs_c_feature (fold (\<lambda>f. delate_bit c0 slot (f div 8) (f mod 8)) [0..<m] s) c f =
     cs_c_feature s c f - of_bool (f < m \<and> c = c0 \<and> slot_bit s slot f)"
proof -
  define P where "P m t \<longleftrightarrow> same_slots s t \<and>
    (\<forall>c f. cs_c_feature t c f = cs_c_feature s c f - of_bool (f < m \<and> c = c0 \<and> slot_bit s slot f))" for m t
  have "P m (fold (\<lambda>f. delate_bit c0 slot (f div 8) (f mod 8)) [0..<m] s)"
  proof (rule fold_upt_invariant)
    fix j t assume P: "P j t"
    then have "bit (cs_old_feature t slot (j div 8)) (j mod 8) = slot_bit s slot j"
      by (simp add: P_def same_slots_def slot_bit_def)
    then show "P (Suc j) (delate_bit c0 slot (j div 8) (j mod 8) t)"
      using P by (auto simp: P_def delate_bit_def same_slots_def Let_def less_Suc_eq)
  qed (simp_all add: P_def same_slots_def)
  then show ?thesis by (simp add: P_def)
qed

lemma replace_bits:
  "same_slots s (fold (\<lambda>f. replace_bit c0 slot (f div 8) (f mod 8)) [0..<m] s) \<and>
   cs_c_feature (fold (\<lambda>f. replace_bit c0 slot (f div 8) (f mod 8)) [0..<m] s) c f =
     cs_c_feature s c f + of_bool (f < m \<and> c = c0 \<and> slot_bit s slot f)"
proof -
  define P where "P m t \<longleftrightarrow> same_slots s t \<and>
    (\<forall>c f. cs_c_feature t c f = cs_c_feature s c f + of_bool (f < m \<and> c = c0 \<and> slot_bit s slot f))" for m t
  have "P m (fold (\<lambda>f. replace_bit c0 slot (f div 8) (f mod 8)) [0..<m] s)"
  proof (rule fold_upt_invariant)
    fix j t assume P: "P j t"
    then have "bit (cs_old_feature t slot (j div 8)) (j mod 8) = slot_bit s slot j"
      by (simp add: P_def same_slots_def slot_bit_def)
    then show "P (Suc j) (replace_bit c0 slot (j div 8) (j mod 8) t)"
      using P by (auto simp: P_def replace_bit_def same_slots_def Let_def less_Suc_eq)
  qed (simp_all add: P_def same_slots_def)
  then show ?thesis by (simp add: P_def)
qed

text \<open>The counters are right for the slots below \<open>n\<close>.\<close>

definition cpu_counted :: "(nat \<Rightarrow> nat \<Rightarrow> u64) \<Rightarrow> nat \<Rightarrow> central_scheduler_t \<Rightarrow> bool" where
  "cpu_counted c0 n s \<longleftrightarrow> (\<forall>c. \<forall>f<512. cs_c_feature s c f =
     c0 c f + of_nat (card {i. i < n \<and> unat (cs_old_core_id s i) = c \<and> slot_bit s i f}))"

lemma cpu_counted_sum:
  "cpu_counted c0 n s \<longleftrightarrow> (\<forall>c. \<forall>f<512. cs_c_feature s c f =
     c0 c f + (\<Sum>i<n. of_bool (unat (cs_old_core_id s i) = c \<and> slot_bit s i f)))"
  unfolding cpu_counted_def of_nat_card_sum ..

lemma delate_old_request_fields:
  fixes s :: central_scheduler_t and slot :: nat and feature :: "nat \<Rightarrow> u8"
  defines "t \<equiv> delate_old_request slot feature s"
  shows "cs_old_core_id t = cs_old_core_id s" "cs_filter t = cs_filter s" "cs_weights t = cs_weights s"
    "cs_merge_weights t = cs_merge_weights s" "cs_head t = cs_head s" "cs_doorbell_queue t = cs_doorbell_queue s"
    "cs_strife_queue t = cs_strife_queue s"
    "i \<noteq> slot \<Longrightarrow> cs_old_feature t i = cs_old_feature s i" "k < 64 \<Longrightarrow> cs_old_feature t slot k = feature k"
    "f < 512 \<Longrightarrow> cs_c_feature t c f = cs_c_feature s c f - of_bool (c = unat (cs_old_core_id s slot) \<and> slot_bit s slot f)"
proof -
  let ?c0 = "unat (cs_old_core_id s slot)"
  define u where "u = fold (\<lambda>f. delate_bit ?c0 slot (f div 8) (f mod 8)) [0..<8 * 64] s"
  have t: "t = u\<lparr>cs_old_feature := (cs_old_feature u)(slot := (\<lambda>i. if i < 64 then feature i else cs_old_feature u slot i))\<rparr>"
    unfolding t_def delate_old_request_def Let_def fold_bytes u_def ..
  have u: "same_slots s u" "cs_c_feature u c f = cs_c_feature s c f - of_bool (f < 8 * 64 \<and> c = ?c0 \<and> slot_bit s slot f)" for c f
    using delate_bits unfolding u_def by blast+
  show "cs_old_core_id t = cs_old_core_id s" "cs_filter t = cs_filter s" "cs_weights t = cs_weights s"
    "cs_merge_weights t = cs_merge_weights s" "cs_head t = cs_head s" "cs_doorbell_queue t = cs_doorbell_queue s"
    "cs_strife_queue t = cs_strife_queue s"
    "i \<noteq> slot \<Longrightarrow> cs_old_feature t i = cs_old_feature s i" "k < 64 \<Longrightarrow> cs_old_feature t slot k = feature k"
    "f < 512 \<Longrightarrow> cs_c_feature t c f = cs_c_feature s c f - of_bool (c = ?c0 \<and> slot_bit s slot f)"
    using u by (simp_all add: t same_slots_def)
qed

lemma replace_new_request_fields:
  fixes s :: central_scheduler_t and slot core :: nat
  defines "t \<equiv> replace_new_request core slot s"
  shows "cs_old_core_id t = (cs_old_core_id s)(slot := of_nat core)" "cs_old_feature t = cs_old_feature s"
    "cs_head t = cs_head s" "cs_doorbell_queue t = cs_doorbell_queue s" "cs_strife_queue t = cs_strife_queue s"
    "cs_weights t = cs_weights s" "cs_merge_weights t = cs_merge_weights s"
    "f < 512 \<Longrightarrow> cs_c_feature t c f = cs_c_feature s c f + of_bool (c = core \<and> slot_bit s slot f)"
proof -
  let ?s = "s\<lparr>cs_old_core_id := (cs_old_core_id s)(slot := of_nat core)\<rparr>"
  have t: "t = fold (\<lambda>f. replace_bit core slot (f div 8) (f mod 8)) [0..<8 * 64] ?s"
    unfolding t_def replace_new_request_def fold_bytes ..
  have u: "same_slots ?s t" "cs_c_feature t c f = cs_c_feature ?s c f + of_bool (f < 8 * 64 \<and> c = core \<and> slot_bit ?s slot f)" for c f
    using replace_bits unfolding t by blast+
  moreover have "slot_bit ?s = slot_bit s" by (simp add: slot_bit_def fun_eq_iff)
  ultimately show "cs_old_core_id t = (cs_old_core_id s)(slot := of_nat core)" "cs_old_feature t = cs_old_feature s"
    "cs_head t = cs_head s" "cs_doorbell_queue t = cs_doorbell_queue s" "cs_strife_queue t = cs_strife_queue s"
    "cs_weights t = cs_weights s" "cs_merge_weights t = cs_merge_weights s"
    "f < 512 \<Longrightarrow> cs_c_feature t c f = cs_c_feature s c f + of_bool (c = core \<and> slot_bit s slot f)"
    by (simp_all add: same_slots_def)
qed

lemma schedule_request_counted:
  assumes "cpu_counted c0 n s" "i < n" "schedule_request bd nc i d m s = (core, t)"
  shows "cpu_counted c0 n t" "unat (cs_old_core_id t i) = core" "cs_head t = cs_head s"
    "cs_doorbell_queue t = cs_doorbell_queue s"
    "k < 64 \<Longrightarrow> cs_old_feature t i k = m (get_feature_addr bd nc m i + k)"
proof -
  define s1 where "s1 = delate_old_request i (\<lambda>k. m (get_feature_addr bd nc m i + k)) s"
  have core: "core = unat (get_core_id bd s1 i d)" and t: "t = replace_new_request core i s1"
    using assms(3) by (auto simp: schedule_request_def s1_def Let_def)
  have of_core: "of_nat core = get_core_id bd s1 i d" by (simp add: core)
  note f2 = replace_new_request_fields [where core = core and slot = i and s = s1, folded t]
  have oc: "unat (cs_old_core_id t i) = core" using f2(1) of_core by (simp add: core)
  then show "unat (cs_old_core_id t i) = core" .
  show "cs_head t = cs_head s" "cs_doorbell_queue t = cs_doorbell_queue s"
    by (simp_all add: f2 s1_def delate_old_request_fields)
  show "k < 64 \<Longrightarrow> cs_old_feature t i k = m (get_feature_addr bd nc m i + k)"
    by (simp add: f2 s1_def delate_old_request_fields)
  show "cpu_counted c0 n t"
    unfolding cpu_counted_sum
  proof (intro allI impI)
    fix c and f :: nat assume f: "f < 512"
    let ?g = "\<lambda>s i. of_bool (unat (cs_old_core_id s i) = c \<and> slot_bit s i f) :: u64"
    have "(\<Sum>j<n. ?g t j) = (\<Sum>j<n. ?g s j) - ?g s i + ?g t i"
      by (rule sum_change_one [OF assms(2)])
        (simp add: slot_bit_def f2(1,2) s1_def delate_old_request_fields)
    moreover have "cs_c_feature t c f = cs_c_feature s c f - of_bool (c = unat (cs_old_core_id s i) \<and> slot_bit s i f)
        + of_bool (c = core \<and> slot_bit t i f)"
      using f f2(2) by (simp add: f2(8) s1_def delate_old_request_fields(10) slot_bit_def)
    ultimately show "cs_c_feature t c f = c0 c f + (\<Sum>j<n. ?g t j)"
      using assms(1) f oc by (auto simp: cpu_counted_sum)
  qed
qed

lemma cpu_counted_cong:
  "cs_c_feature t = cs_c_feature s \<Longrightarrow> cs_old_core_id t = cs_old_core_id s \<Longrightarrow> cs_old_feature t = cs_old_feature s \<Longrightarrow>
    cpu_counted c0 n t = cpu_counted c0 n s"
  by (simp add: cpu_counted_def slot_bit_def)

lemma refresh_weights_counted: "cpu_counted c0 n (h_cs (refresh_weights t h)) = cpu_counted c0 n (h_cs h)"
  by (rule cpu_counted_cong) (simp_all add: refresh_weights_def update_weights_def Let_def)

lemma push_counted:
  "cpu_counted c0 n (push_new_request core slot s) = cpu_counted c0 n s"
  "cpu_counted c0 n (push_new_request_stife core a s) = cpu_counted c0 n s"
  by (rule cpu_counted_cong; simp add: push_new_request_def push_new_request_stife_def Let_def)+

lemma run_once_slot_counted:
  "cpu_counted c0 n (h_cs h) \<Longrightarrow> i < n \<Longrightarrow> cpu_counted c0 n (h_cs (run_once_slot bd nc i h))"
  by (auto simp: run_once_slot_def Let_def push_counted split: option.splits prod.splits dest: schedule_request_counted(1))

lemma early_reply_cs: "h_cs (early_reply bd phase t ra sa h) = h_cs h"
  by (simp add: early_reply_def Let_def)

lemma run_strife_slot_counted:
  "cpu_counted c0 n (h_cs h) \<Longrightarrow> i < n \<Longrightarrow> cpu_counted c0 n (h_cs (run_strife_slot bd nc rnd phase b t i h))"
  by (auto simp: run_strife_slot_def Let_def push_counted early_reply_cs
      split: option.splits prod.splits if_splits dest: schedule_request_counted(1))

text \<open>C21: The counters of the CPU scheduler are exact over every pass of its polling loops.  If the
  64-bit counter of each core and feature is \<open>c0\<close> plus the number of slots below \<open>n\<close> whose last
  request has the feature and went to the core, this still holds after any pass over slots below
  \<open>n\<close>, whatever requests the pass finds in memory, in each of the two loops.\<close>

theorem cpu_counters_count_slots:
  assumes "\<forall>c. \<forall>f<512. cs_c_feature (h_cs h) c f =
      c0 c f + of_nat (card {i. i < n \<and> unat (cs_old_core_id (h_cs h) i) = c \<and> slot_bit (h_cs h) i f})"
    and "end_id \<le> n"
    and "h' = run_once bd nc begin_id end_id thread_id h \<or> h' = run_strife_once bd nc rnd phase begin_id end_id thread_id h"
  shows "\<forall>c. \<forall>f<512. cs_c_feature (h_cs h') c f =
      c0 c f + of_nat (card {i. i < n \<and> unat (cs_old_core_id (h_cs h') i) = c \<and> slot_bit (h_cs h') i f})"
proof -
  have start: "cpu_counted c0 n (h_cs (if b then refresh_weights thread_id h else h))" for b
    using assms(1) by (simp add: refresh_weights_counted) (simp add: cpu_counted_def)
  have loop: "cpu_counted c0 n (h_cs (fold g [begin_id..<end_id] g0))"
    if "cpu_counted c0 n (h_cs g0)" "\<And>i h. cpu_counted c0 n (h_cs h) \<Longrightarrow> i < n \<Longrightarrow> cpu_counted c0 n (h_cs (g i h))" for g g0
  proof (rule fold_invariant [of "[begin_id..<end_id]" "\<lambda>i. i < n" "\<lambda>h. cpu_counted c0 n (h_cs h)"])
  qed (use that assms(2) in auto)
  have "cpu_counted c0 n (h_cs h')"
    using assms(3) loop [OF start [of True] run_once_slot_counted] loop [OF start [of False] run_strife_slot_counted]
      loop [OF start [of True] run_strife_slot_counted]
    by (auto simp: run_once_def run_strife_once_def split: if_splits)
  then show ?thesis by (simp add: cpu_counted_def)
qed

definition sample_connect :: nic_connect where
  "sample_connect node thread = \<lparr>localBase = 0, remoteAddr = 0, reply_addr = 1000000 + 10000 * thread, remote_reply_addr = 0,
     data_addr = 10000 * thread, remote_data_addr = 0, curAddr = 0, poolSize = 4096, sendnum = 0, signal_num = 0\<rparr>"

definition sample_host :: host_t where
  "sample_host = \<lparr>h_mem = (\<lambda>_. 0), h_cs = sample_cs\<lparr>cs_old_feature := (\<lambda>_ _. 0)\<rparr>, h_count = (\<lambda>_. 0)\<rparr>"

theorem cpu_counters_count_slots_witness:
  "cs_c_feature (h_cs (run_once default_build sample_connect 0 8 1 sample_host)) 3 5 =
     0 + of_nat (card {i. i < 8 \<and> unat (cs_old_core_id (h_cs (run_once default_build sample_connect 0 8 1 sample_host)) i) = 3
       \<and> slot_bit (h_cs (run_once default_build sample_connect 0 8 1 sample_host)) i 5})"
  by (rule cpu_counters_count_slots [OF _ _ disjI1, OF _ _ refl, rule_format])
    (simp_all add: sample_host_def sample_cs_def slot_bit_def)

subsection \<open>Requests are taken once\<close>

lemma take_request_eq:
  assumes "take_request a m = Some m'" "28 \<le> unat (req_size m a)"
  shows "m' = wr32 (tail_magic_addr m a) 0 m" "req_size m' a = req_size m a" "req_magic m' a = req_magic m a"
    "tail_magic_addr m' a = tail_magic_addr m a" "req_partition_hint m' a = req_partition_hint m a"
    "rd32 m (tail_magic_addr m a) = req_magic m a" "a + 28 \<le> tail_magic_addr m a"
proof -
  show m': "m' = wr32 (tail_magic_addr m a) 0 m" "rd32 m (tail_magic_addr m a) = req_magic m a"
    using assms(1) by (auto simp: take_request_def split: if_splits)
  show far: "a + 28 \<le> tail_magic_addr m a"
    using assms(2) div_le_mono [of 28 "unat (req_size m a)" 4] by (simp add: tail_magic_addr_def)
  show size: "req_size m' a = req_size m a" "req_magic m' a = req_magic m a" "req_partition_hint m' a = req_partition_hint m a"
    using far by (simp_all add: m' req_size_def req_magic_def req_partition_hint_def rd32_disjoint)
  show "tail_magic_addr m' a = tail_magic_addr m a"
    using size by (simp add: tail_magic_addr_def)
qed

text \<open>C23: A request in a receive buffer is taken once.  Taking it changes nothing but the copy of the
  magic number behind the request; a second poll of the buffer finds nothing, and the buffer yields a
  request again once the client has written the magic number behind it again.  Hypotheses: the
  request is at least as long as its head and its magic number is not zero.\<close>

theorem cpu_takes_request_once:
  assumes "take_request a m = Some m'" "28 \<le> unat (req_size m a)" "req_magic m a \<noteq> 0"
  shows "take_request a m' = None \<and>
    (\<forall>x. x < tail_magic_addr m a \<or> tail_magic_addr m a + 4 \<le> x \<longrightarrow> m' x = m x) \<and>
    take_request a (wr32 (tail_magic_addr m a) (req_magic m a) m') \<noteq> None"
proof -
  note eq = take_request_eq [OF assms(1,2)]
  let ?m = "wr32 (tail_magic_addr m a) (req_magic m a) m'"
  have "req_size ?m a = req_size m a" "req_magic ?m a = req_magic m a"
    using eq by (simp_all add: req_size_def req_magic_def rd32_disjoint)
  moreover from this have "tail_magic_addr ?m a = tail_magic_addr m a"
    by (simp add: tail_magic_addr_def)
  ultimately have "take_request a ?m \<noteq> None"
    using assms(1) by (auto simp: take_request_def split: if_splits)
  moreover have "take_request a m' = None"
    using eq assms(3) by (simp add: take_request_def)
  ultimately show ?thesis using eq(1) by simp
qed

text \<open>A request of 32 bytes at address 0 with magic number 9.\<close>

definition sample_request :: mem where
  "sample_request = (\<lambda>x. if x = 16 then 32 else if x = 20 \<or> x = 32 then 9 else 0)"

lemma sample_request_words: "req_size sample_request 0 = 32" "req_magic sample_request 0 = 9"
  "tail_magic_addr sample_request 0 = 32" "rd32 sample_request 32 = 9"
proof -
  show "req_size sample_request 0 = 32" "req_magic sample_request 0 = 9" "rd32 sample_request 32 = 9"
    by (simp_all add: req_size_def req_magic_def rd32_def rd16_def sample_request_def)
  then show "tail_magic_addr sample_request 0 = 32" by (simp add: tail_magic_addr_def)
qed

theorem cpu_takes_request_once_witness:
  "take_request 0 (wr32 32 0 sample_request) = None"
  using cpu_takes_request_once [of 0 sample_request "wr32 32 0 sample_request"]
  by (simp add: take_request_def sample_request_words)

text \<open>C24: What the CPU scheduler does with a request it finds.  When slot \<open>i\<close> holds a request and the
  weight table is current, one step of the polling loop clears the arrival mark, remembers the 64
  feature bytes at the end of the request, and writes the slot number to the doorbell queue of one
  core at the position of its head, which advances by one; no other queue changes.  The core is the
  best one for these features under the bitmaps left by removing the slot's previous request, with
  the hint of the request's head as default, and it is remembered for the slot.\<close>

theorem cpu_dispatches_request:
  assumes "take_request (get_addr bd nc i) (h_mem h) = Some m" "table_current (h_cs h)"
    and "h' = run_once_slot bd nc i h"
    and "s = delate_old_request i (\<lambda>k. m (get_feature_addr bd nc m i + k)) (h_cs h)"
  shows "h_mem h' = m \<and> (\<forall>k<64. cs_old_feature (h_cs h') i k = m (get_feature_addr bd nc m i + k)) \<and>
    (\<exists>core. is_best_core (cpu_score s i) (MAX_THREAD bd) (unat (req_partition_hint m (get_addr bd nc i))) core \<and>
      cs_old_core_id (h_cs h') i = of_nat core \<and>
      cs_head (h_cs h') = (cs_head (h_cs h))(core mod 65536 := cs_head (h_cs h) (core mod 65536) + 1) \<and>
      cs_doorbell_queue (h_cs h') = (cs_doorbell_queue (h_cs h))(core mod 65536 :=
        dq_set_word (unat (cs_head (h_cs h) (core mod 65536)) mod 256) 0 (of_nat i) (cs_doorbell_queue (h_cs h) (core mod 65536))))"
proof -
  let ?d = "unat (req_partition_hint m (get_addr bd nc i))"
  have cur: "table_current s"
    using assms(2) by (simp add: table_current_def assms(4) delate_old_request_fields)
  obtain core where core: "get_core_id bd s i ?d = of_nat core" "is_best_core (cpu_score s i) (MAX_THREAD bd) ?d core"
    using get_core_id_best [OF cur] by blast
  define c where "c = unat (get_core_id bd s i ?d)"
  have c: "c = core mod 65536" by (simp add: c_def core(1) unat_of_nat take_bit_eq_mod)
  have t: "h' = h\<lparr>h_mem := m, h_cs := push_new_request c (of_nat i) (replace_new_request c i s)\<rparr>"
    using assms(1) by (simp add: assms(3) run_once_slot_def schedule_request_def Let_def c_def assms(4))
  have of_c: "(of_nat c :: u16) = of_nat core" by (simp add: c_def core(1))
  have "cs_old_feature (h_cs h') i k = m (get_feature_addr bd nc m i + k)" if "k < 64" for k
    using that by (simp add: t push_new_request_def Let_def replace_new_request_fields assms(4) delate_old_request_fields)
  moreover have "cs_old_core_id (h_cs h') i = of_nat core"
    "cs_head (h_cs h') = (cs_head (h_cs h))(c := cs_head (h_cs h) c + 1)"
    "cs_doorbell_queue (h_cs h') = (cs_doorbell_queue (h_cs h))(c :=
        dq_set_word (unat (cs_head (h_cs h) c) mod 256) 0 (of_nat i) (cs_doorbell_queue (h_cs h) c))"
    by (simp_all add: t push_new_request_def Let_def replace_new_request_fields assms(4) delate_old_request_fields of_c unat_mod_distrib)
  ultimately show ?thesis
    using core(2) unfolding c by (auto simp: t)
qed

theorem cpu_dispatches_request_witness:
  "h_mem (run_once_slot default_build sample_connect 0 (sample_host\<lparr>h_mem := sample_request, h_cs := update_weights sample_cs\<rparr>))
     = wr32 32 0 sample_request"
proof -
  have "get_addr default_build sample_connect 0 = 0"
    by (simp add: get_addr_def get_rev_addr_def connect_of_client_def sample_connect_def default_build_def)
  then show ?thesis
    using cpu_dispatches_request [OF _ _ refl refl, of default_build sample_connect 0
        "sample_host\<lparr>h_mem := sample_request, h_cs := update_weights sample_cs\<rparr>" "wr32 32 0 sample_request"]
    by (simp add: take_request_def sample_request_words table_current_update)
qed

subsection \<open>The bitmaps of the CPU scheduler\<close>

definition member_bit :: "central_scheduler_t \<Rightarrow> nat \<Rightarrow> nat \<Rightarrow> bool" where
  "member_bit s c f \<longleftrightarrow> bit (cs_c_byte_feature s c (f div 8)) (f mod 8)"

lemma byte_pos_eq: "(f :: nat) div 8 = j div 8 \<Longrightarrow> f mod 8 = j mod 8 \<Longrightarrow> f = j"
  by (metis mult_div_mod_eq)

lemma delate_member_bits:
  assumes "unat (cs_filter s f) = MAX_CORE + 1"
  shows "member_bit (fold (\<lambda>f. delate_bit c0 slot (f div 8) (f mod 8)) [0..<m] s) c f = member_bit s c f"
proof -
  have "cs_filter t = cs_filter s \<and> member_bit t c f = member_bit s c f"
    if "t = fold (\<lambda>f. delate_bit c0 slot (f div 8) (f mod 8)) [0..<m] s" for t
    unfolding that
  proof (rule fold_upt_invariant [of 0 m "\<lambda>_ t. cs_filter t = cs_filter s \<and> member_bit t c f = member_bit s c f"])
    fix j t assume P: "cs_filter t = cs_filter s \<and> member_bit t c f = member_bit s c f"
    show "cs_filter (delate_bit c0 slot (j div 8) (j mod 8) t) = cs_filter s \<and>
        member_bit (delate_bit c0 slot (j div 8) (j mod 8) t) c f = member_bit s c f"
    proof (cases "j = f")
      case True
      then show ?thesis using P assms by (simp add: delate_bit_def Let_def member_bit_def)
    next
      case False
      then have "\<not> (f div 8 = j div 8 \<and> f mod 8 = j mod 8)" using byte_pos_eq by blast
      then show ?thesis
        using P by (auto simp: delate_bit_def Let_def member_bit_def bit_unset_bit_iff)
    qed
  qed simp_all
  then show ?thesis by blast
qed

text \<open>Removing a request never takes a feature that is not pinned out of a core's bitmap, not even
  when its counter drops to zero: the bitmap the choice is made with only grows, unlike that of the
  on-NIC scheduler, which is recomputed from the counters.\<close>

theorem cpu_bitmap_keeps_unpinned:
  assumes "unat (cs_filter s f) = MAX_CORE + 1" "t = delate_old_request slot feature s"
  shows "bit (cs_c_byte_feature t c (f div 8)) (f mod 8) = bit (cs_c_byte_feature s c (f div 8)) (f mod 8)"
proof -
  let ?u = "fold (\<lambda>f. delate_bit (unat (cs_old_core_id s slot)) slot (f div 8) (f mod 8)) [0..<8 * 64] s"
  have "cs_c_byte_feature t = cs_c_byte_feature ?u"
    unfolding assms(2) delate_old_request_def Let_def fold_bytes by simp
  then show ?thesis
    using delate_member_bits [OF assms(1), of "unat (cs_old_core_id s slot)" slot "8 * 64" c] by (simp only: member_bit_def)
qed

theorem cpu_bitmap_keeps_unpinned_witness:
  "bit (cs_c_byte_feature (delate_old_request 0 (\<lambda>_. 0) (sample_cs\<lparr>cs_old_core_id := (\<lambda>_. 1)\<rparr>)) 1 0) 0"
  using cpu_bitmap_keeps_unpinned [of "sample_cs\<lparr>cs_old_core_id := (\<lambda>_. 1)\<rparr>" 0 _ 0 "\<lambda>_. 0" 1, OF _ refl]
  by (simp add: sample_cs_def)

end
