(* ===== verification/Model_Update.thy ===== *)
theory Model_Update
  imports Sched_Config Host_Memory
begin

text \<open>
  The statistics of aborts that feed the schedulers' weights (\<open>model_update.h\<close>, \<open>abort_queue_t\<close> and
  the key hashes of \<open>Rpc.h\<close>, the feature partition of \<open>fpga.cpp\<close>).  The periodic merge of the
  per-core counters into weights works on floating-point numbers and is not modelled.
\<close>

subsection \<open>The feature partition\<close>

text \<open>\<open>feature_size_512base\<close>: the number of features of each of the twelve TPC-C tables.\<close>

definition feature_size_512base :: "nat \<Rightarrow> nat" where
  "feature_size_512base i = (if i < 15 then [10, 20, 110, 10, 10, 10, 10, 115, 177, 10, 10, 20, 0, 0, 0] ! i else 0)"

record feature_partitiont_t =
  fp_offset :: "nat \<Rightarrow> nat"
  fp_size :: "nat \<Rightarrow> nat"

definition init_feature_partition :: "feature_partitiont_t \<Rightarrow> feature_partitiont_t" where
  "init_feature_partition p =
     fold (\<lambda>i p. p\<lparr>fp_offset := (fp_offset p)(i := fp_offset p (i - 1) + feature_size_512base (i - 1)),
                   fp_size := (fp_size p)(i := feature_size_512base i)\<rparr>) [1..<12]
       (p\<lparr>fp_offset := (fp_offset p)(0 := 0), fp_size := (fp_size p)(0 := feature_size_512base 0)\<rparr>)"

definition init_feature_partitionycsb :: "feature_partitiont_t \<Rightarrow> feature_partitiont_t" where
  "init_feature_partitionycsb p =
     fold (\<lambda>i p. p\<lparr>fp_offset := (fp_offset p)(i := FEATURE_SIZE), fp_size := (fp_size p)(i := 0)\<rparr>) [1..<12]
       (p\<lparr>fp_offset := (fp_offset p)(0 := 0), fp_size := (fp_size p)(0 := FEATURE_SIZE)\<rparr>)"

type_synonym tx_key_t = "u64 \<times> u64"

definition hash_k2f :: "feature_partitiont_t \<Rightarrow> tx_key_t \<Rightarrow> nat" where
  "hash_k2f p key = fp_offset p (unat (fst key)) + unat (snd key) mod fp_size p (unat (fst key))"

definition hash_k2f_ycsb :: "build \<Rightarrow> u32 \<Rightarrow> u32 \<Rightarrow> nat" where
  "hash_k2f_ycsb bd col key = unat col * (FEATURE_SIZE div YCSBCOL bd) + unat key mod (FEATURE_SIZE div YCSBCOL bd)"

subsection \<open>abort\_queue\_t\<close>

record abort_queue_t =
  abort_key :: "nat list"
  abort_depth :: nat

definition abort_init :: "abort_queue_t \<Rightarrow> abort_queue_t" where
  "abort_init q = q\<lparr>abort_depth := 0, abort_key := []\<rparr>"

text \<open>\<open>front\<close> of an empty queue does not occur: the depth counts pushed keys.\<close>

definition abort_push :: "feature_partitiont_t \<Rightarrow> tx_key_t \<Rightarrow> abort_queue_t \<Rightarrow> (nat \<times> nat) \<times> abort_queue_t" where
  "abort_push p new_key q =
     (let (oldest, q) = (if abort_depth q = ABORT_DEPTH then (hd (abort_key q), q\<lparr>abort_key := tl (abort_key q)\<rparr>)
                         else (FEATURE_SIZE + 1, q));
          feature = hash_k2f p new_key
      in ((oldest, feature), q\<lparr>abort_key := abort_key q @ [feature]\<rparr>))"

definition abort_push_ycsb :: "build \<Rightarrow> u32 \<Rightarrow> u32 \<Rightarrow> abort_queue_t \<Rightarrow> (nat \<times> nat) \<times> abort_queue_t" where
  "abort_push_ycsb bd col key q =
     (let (oldest, q) = (if abort_depth q = ABORT_DEPTH then (hd (abort_key q), q\<lparr>abort_key := tl (abort_key q)\<rparr>)
                         else (FEATURE_SIZE + 1, if dynamic bd then q\<lparr>abort_depth := abort_depth q + 1\<rparr> else q));
          feature = hash_k2f_ycsb bd col key
      in ((oldest, feature), if dynamic bd then q\<lparr>abort_key := abort_key q @ [feature]\<rparr> else q))"

subsection \<open>model\_update\_t\<close>

record model_update_t =
  mu_weights :: "nat \<Rightarrow> u8"
  mu_guideline_group :: "nat \<Rightarrow> u8"
  mu_core_weights :: "nat \<Rightarrow> nat \<Rightarrow> u16"
  mu_core_features :: "nat \<Rightarrow> nat \<Rightarrow> nat \<Rightarrow> u8"
  mu_feature_id :: "nat \<Rightarrow> nat"

definition mu_init_addr :: "model_update_t \<Rightarrow> model_update_t" where
  "mu_init_addr u = u\<lparr>mu_weights := (\<lambda>i. if i < 512 then 0 else mu_weights u i),
     mu_guideline_group := (\<lambda>i. if i < 512 then 25 else mu_guideline_group u i)\<rparr>"

definition mu_init_thread :: "nat \<Rightarrow> model_update_t \<Rightarrow> model_update_t" where
  "mu_init_thread t u = u\<lparr>mu_feature_id := (mu_feature_id u)(t := 0),
     mu_core_weights := (mu_core_weights u)(t := (\<lambda>i. if i < FEATURE_SIZE + 1 then 0 else mu_core_weights u t i))\<rparr>"

definition mu_update_weight :: "nat \<Rightarrow> nat \<times> nat \<Rightarrow> model_update_t \<Rightarrow> model_update_t" where
  "mu_update_weight t abort_shift u =
     (let w = mu_core_weights u t;
          w = w(snd abort_shift := w (snd abort_shift) + 1);
          w = w(fst abort_shift := w (fst abort_shift) - 1)
      in u\<lparr>mu_core_weights := (mu_core_weights u)(t := w)\<rparr>)"

text \<open>\<open>ANALYSIS_FEATURE_NUM\<close> is 1024.\<close>

definition mu_store_feature :: "nat \<Rightarrow> nat \<Rightarrow> mem \<Rightarrow> model_update_t \<Rightarrow> model_update_t" where
  "mu_store_feature t a m u =
     u\<lparr>mu_core_features := (mu_core_features u)(t := (mu_core_features u t)(mu_feature_id u t mod 1024 :=
           (\<lambda>k. if k < 64 then m (a + k) else mu_core_features u t (mu_feature_id u t mod 1024) k))),
       mu_feature_id := (mu_feature_id u)(t := mu_feature_id u t + 1)\<rparr>"

text \<open>The bodies of \<open>abort_key\<close> and \<open>abort_key_ycsb\<close>: the queue says which feature gains and
  which loses one.  Keys of table \<open>0xFFFF\<close> are not recorded.\<close>

definition abort_key_step :: "feature_partitiont_t \<Rightarrow> nat \<Rightarrow> tx_key_t \<Rightarrow> abort_queue_t \<times> model_update_t \<Rightarrow> abort_queue_t \<times> model_update_t" where
  "abort_key_step p t key = (\<lambda>(q, u).
     if fst key = 0xFFFF then (q, u)
     else let (abort_shift, q) = abort_push p key q in (q, mu_update_weight t abort_shift u))"

definition abort_key_ycsb_step :: "build \<Rightarrow> nat \<Rightarrow> u32 \<times> u32 \<Rightarrow> abort_queue_t \<times> model_update_t \<Rightarrow> abort_queue_t \<times> model_update_t" where
  "abort_key_ycsb_step bd t ck = (\<lambda>(q, u).
     let (abort_shift, q) = abort_push_ycsb bd (fst ck) (snd ck) q in (q, mu_update_weight t abort_shift u))"

subsection \<open>The feature partition is a partition\<close>

lemma init_feature_partition_eq:
  "i < 12 \<Longrightarrow> fp_offset (init_feature_partition p) i = (\<Sum>k<i. feature_size_512base k) \<and>
    fp_size (init_feature_partition p) i = feature_size_512base i"
proof -
  define f where "f = (\<lambda>i p. p\<lparr>fp_offset := (fp_offset p)(i := fp_offset p (i - 1) + feature_size_512base (i - 1)),
      fp_size := (fp_size p)(i := feature_size_512base i)\<rparr> :: feature_partitiont_t)"
  define P where "P j q \<longleftrightarrow> (\<forall>i<j. fp_offset q i = (\<Sum>k<i. feature_size_512base k) \<and> fp_size q i = feature_size_512base i)" for j and q :: feature_partitiont_t
  have "P 12 (fold f [1..<12] (p\<lparr>fp_offset := (fp_offset p)(0 := 0), fp_size := (fp_size p)(0 := feature_size_512base 0)\<rparr>))"
  proof (rule fold_upt_invariant)
    fix j q assume j: "1 \<le> j" and P: "P j q"
    then obtain i where i: "j = Suc i" by (cases j) auto
    show "P (Suc j) (f j q)"
      using P by (auto simp: P_def f_def i less_Suc_eq)
  qed (auto simp: P_def)
  then show "i < 12 \<Longrightarrow> ?thesis" by (simp only: P_def init_feature_partition_def f_def)
qed

lemma feature_sizes: "i < 12 \<Longrightarrow> 0 < feature_size_512base i"
proof -
  have "list_all (\<lambda>i. 0 < feature_size_512base i) [0..<12]" by code_simp
  then show "i < 12 \<Longrightarrow> ?thesis" by (simp add: list_all_iff del: upt_rec_numeral)
qed

lemma prefix_sums_disjoint:
  fixes w :: "nat \<Rightarrow> nat"
  assumes "a < w i" "b < w j" "(\<Sum>k<i. w k) + a = (\<Sum>k<j. w k) + b"
  shows "i = j \<and> a = b"
proof -
  have "(\<Sum>k<i. w k) + w i \<le> (\<Sum>k<j. w k)" if "i < j" for i j
    using sum_mono2 [of "{..<j}" "{..<Suc i}" w] that by auto
  from this [of i j] this [of j i] have "\<not> i < j" "\<not> j < i" using assms by linarith+
  then show ?thesis using assms(3) by auto
qed

lemma hash_k2f_eq:
  assumes "t < 12"
  shows "hash_k2f (init_feature_partition p) (of_nat t, k) = (\<Sum>i<t. feature_size_512base i) + unat k mod feature_size_512base t"
    "unat k mod feature_size_512base t < feature_size_512base t"
proof -
  have t: "unat (of_nat t :: u64) = t" using assms by (intro unat_of_nat_small) simp
  show "hash_k2f (init_feature_partition p) (of_nat t, k) = (\<Sum>i<t. feature_size_512base i) + unat k mod feature_size_512base t"
    using init_feature_partition_eq [OF assms] by (simp only: hash_k2f_def fst_conv snd_conv t)
  show "unat k mod feature_size_512base t < feature_size_512base t"
    using feature_sizes [OF assms] by simp
qed

lemma feature_sizes_total: "(\<Sum>i<12. feature_size_512base i) = 512"
  by (simp add: feature_size_512base_def lessThan_nat_numeral)

text \<open>The hash of a TPC-C key is a feature: it is below 512, keys of different tables never share
  a feature, and keys of one table share one exactly when they agree modulo the table's share of the
  features.\<close>

theorem hash_k2f_partition:
  assumes "t < 12" "t' < 12" and "p = init_feature_partition p0"
  shows "hash_k2f p (of_nat t, k) < FEATURE_SIZE \<and>
    (hash_k2f p (of_nat t, k) = hash_k2f p (of_nat t', k') \<longleftrightarrow>
      t = t' \<and> unat k mod fp_size p t = unat k' mod fp_size p t)"
proof -
  note h = hash_k2f_eq(1) [OF assms(1), of p0 k] hash_k2f_eq(2) [OF assms(1), of k]
    and h' = hash_k2f_eq(1) [OF assms(2), of p0 k'] hash_k2f_eq(2) [OF assms(2), of k']
  have "(\<Sum>i<t. feature_size_512base i) + feature_size_512base t \<le> 512"
    using sum_mono2 [of "{..<12}" "{..<Suc t}" feature_size_512base] assms(1) by (simp add: feature_sizes_total)
  then have "hash_k2f p (of_nat t, k) < FEATURE_SIZE" using h unfolding assms(3) by linarith
  moreover have "hash_k2f p (of_nat t, k) = hash_k2f p (of_nat t', k') \<longleftrightarrow>
      t = t' \<and> unat k mod feature_size_512base t = unat k' mod feature_size_512base t"
    using prefix_sums_disjoint [where w = feature_size_512base, OF h(2) h'(2)] unfolding assms(3) h(1) h'(1) by auto
  ultimately show ?thesis
    using init_feature_partition_eq [OF assms(1), of p0] by (simp add: assms(3))
qed

theorem hash_k2f_partition_witness:
  "hash_k2f (init_feature_partition \<lparr>fp_offset = (\<lambda>_. 7), fp_size = (\<lambda>_. 7)\<rparr>) (of_nat 2, 1000) < FEATURE_SIZE"
  using hash_k2f_partition [of 2 3 _ "\<lparr>fp_offset = (\<lambda>_. 7), fp_size = (\<lambda>_. 7)\<rparr>" 1000, OF _ _ refl] by simp

subsection \<open>The abort window\<close>

definition abort_inv :: "nat \<Rightarrow> nat list \<Rightarrow> abort_queue_t \<times> model_update_t \<Rightarrow> bool" where
  "abort_inv t fs = (\<lambda>(q, u). abort_key q = drop (length fs - ABORT_DEPTH) fs \<and> abort_depth q = min (length fs) ABORT_DEPTH \<and>
     (\<forall>f \<le> FEATURE_SIZE. mu_core_weights u t f = of_nat (count_list (abort_key q) f)))"

lemma abort_window_step:
  assumes "dynamic bd" "abort_inv t fs s" "hash_k2f_ycsb bd col key \<le> FEATURE_SIZE"
  shows "abort_inv t (fs @ [hash_k2f_ycsb bd col key]) (abort_key_ycsb_step bd t (col, key) s)"
proof -
  obtain q u where s: "s = (q, u)" by (cases s)
  let ?x = "hash_k2f_ycsb bd col key"
  have inv: "abort_key q = drop (length fs - ABORT_DEPTH) fs" "abort_depth q = min (length fs) ABORT_DEPTH"
    "\<And>f. f \<le> FEATURE_SIZE \<Longrightarrow> mu_core_weights u t f = of_nat (count_list (abort_key q) f)"
    using assms(2) by (auto simp: abort_inv_def s)
  show ?thesis
  proof (cases "length fs < ABORT_DEPTH")
    case True
    then show ?thesis
      using inv assms(1) by (auto simp: s abort_inv_def abort_key_ycsb_step_def abort_push_ycsb_def mu_update_weight_def Let_def)
  next
    case False
    then have "abort_key q \<noteq> []" using inv(1) by simp
    then obtain y ys where y: "abort_key q = y # ys" by (cases "abort_key q") auto
    have "ys = drop (Suc (length fs) - ABORT_DEPTH) fs"
      using inv(1) y False by (metis drop_Suc list.sel(3) not_less Suc_diff_le tl_drop)
    moreover have "abort_depth q = ABORT_DEPTH" using inv(2) False by simp
    moreover have "f \<le> FEATURE_SIZE \<Longrightarrow> mu_core_weights u t f = of_nat (count_list (y # ys) f)" for f
      using inv(3) y by simp
    ultimately show ?thesis
      using assms(1,3) False y
      by (auto simp: s abort_inv_def abort_key_ycsb_step_def abort_push_ycsb_def mu_update_weight_def Let_def)
  qed
qed

lemma abort_window:
  assumes "dynamic bd" "\<forall>(col, key)\<in>set ks. hash_k2f_ycsb bd col key \<le> FEATURE_SIZE"
  shows "abort_inv t fs s \<Longrightarrow> abort_inv t (fs @ map (\<lambda>(col, key). hash_k2f_ycsb bd col key) ks) (fold (abort_key_ycsb_step bd t) ks s)"
  using assms(2)
proof (induction ks arbitrary: fs s)
  case (Cons ck ks)
  obtain col key where ck: "ck = (col, key)" by (cases ck)
  have "abort_inv t ((fs @ [hash_k2f_ycsb bd col key]) @ map (\<lambda>(col, key). hash_k2f_ycsb bd col key) ks)
      (fold (abort_key_ycsb_step bd t) ks (abort_key_ycsb_step bd t ck s))"
    using Cons.prems ck by (intro Cons.IH) (auto intro: abort_window_step assms(1))
  then show ?case by (simp add: ck)
qed simp

lemma hash_k2f_ycsb_bound:
  assumes "0 < YCSBCOL bd" "YCSBCOL bd \<le> FEATURE_SIZE" "unat col < YCSBCOL bd"
  shows "hash_k2f_ycsb bd col key < FEATURE_SIZE"
proof -
  let ?w = "FEATURE_SIZE div YCSBCOL bd"
  have "0 < ?w" using assms by (simp add: div_greater_zero_iff)
  then have "hash_k2f_ycsb bd col key < unat col * ?w + ?w" by (simp add: hash_k2f_ycsb_def)
  also have "\<dots> = Suc (unat col) * ?w" by simp
  also have "\<dots> \<le> YCSBCOL bd * ?w" using assms(3) by (intro mult_le_mono1) simp
  also have "\<dots> \<le> FEATURE_SIZE" by simp
  finally show ?thesis .
qed

text \<open>C37: In the dynamic YCSB build the weights of a core count its recent aborts: after any sequence
  of aborted keys the window holds the features of the last 4096 of them, and the 16-bit weight of
  every feature is its number of occurrences in the window.\<close>

theorem abort_weights_count_window:
  assumes "dynamic bd" "0 < YCSBCOL bd" "YCSBCOL bd \<le> FEATURE_SIZE" "\<forall>(col, key)\<in>set ks. unat col < YCSBCOL bd"
    and "(q, u) = fold (abort_key_ycsb_step bd t) ks (abort_init q0, mu_init_thread t u0)"
    and "fs = map (\<lambda>(col, key). hash_k2f_ycsb bd col key) ks"
  shows "abort_key q = drop (length fs - 4096) fs \<and>
    (\<forall>f<FEATURE_SIZE. unat (mu_core_weights u t f) = count_list (abort_key q) f)"
proof -
  have start: "abort_inv t [] (abort_init q0, mu_init_thread t u0)"
    by (simp add: abort_inv_def abort_init_def mu_init_thread_def)
  have "\<forall>(col, key)\<in>set ks. hash_k2f_ycsb bd col key \<le> FEATURE_SIZE"
    using assms(4) hash_k2f_ycsb_bound [OF assms(2,3)] by (fastforce intro: less_imp_le)
  from abort_window [OF assms(1) this start] have inv: "abort_inv t fs (q, u)"
    unfolding assms(5,6) by simp
  have "count_list (abort_key q) f < 2 ^ LENGTH(16)" for f
    using count_le_length [of "abort_key q" f] inv by (simp add: abort_inv_def)
  then show ?thesis
    using inv by (auto simp: abort_inv_def unat_of_nat_small)
qed

theorem abort_weights_count_window_witness:
  "unat (mu_core_weights (snd (fold (abort_key_ycsb_step (default_build\<lparr>dynamic := True\<rparr>) 0) [(1, 3), (1, 28)]
     (abort_init \<lparr>abort_key = [], abort_depth = 0\<rparr>, mu_init_thread 0 \<lparr>mu_weights = (\<lambda>_. 0), mu_guideline_group = (\<lambda>_. 0),
        mu_core_weights = (\<lambda>_ _. 5), mu_core_features = (\<lambda>_ _ _. 0), mu_feature_id = (\<lambda>_. 0)\<rparr>))) 0 28) = 2"
  using abort_weights_count_window [where bd = "default_build\<lparr>dynamic := True\<rparr>" and ks = "[(1, 3), (1, 28)]" and t = 0
      and ?q0.0 = "\<lparr>abort_key = [], abort_depth = 0\<rparr>" and ?u0.0 = "\<lparr>mu_weights = (\<lambda>_. 0), mu_guideline_group = (\<lambda>_. 0),
        mu_core_weights = (\<lambda>_ _. 5), mu_core_features = (\<lambda>_ _ _. 0), mu_feature_id = (\<lambda>_. 0)\<rparr>", OF _ _ _ _ prod.collapse refl]
  by (simp add: default_build_def hash_k2f_ycsb_def del: fold_simps)

text \<open>In the TPC-C build the window never fills: \<open>abort_depth\<close> stays 0 however many keys abort,
  so no key ever leaves the queue, and every update decrements the weight with index 513, which is
  one past the end of the 513 weights that \<open>init_thread\<close> allocates.\<close>

theorem abort_window_never_fills:
  assumes "\<forall>key\<in>set ks. fst key \<noteq> 0xFFFF"
    and "(q, u) = fold (abort_key_step p t) ks (abort_init q0, u0)"
  shows "abort_depth q = 0 \<and> abort_key q = map (hash_k2f p) ks \<and>
    fst (fst (abort_push p key q)) = 513 \<and> \<not> 513 < FEATURE_SIZE + 1"
proof -
  have "abort_depth (fst (fold (abort_key_step p t) ks s)) = 0 \<and>
      abort_key (fst (fold (abort_key_step p t) ks s)) = abort_key (fst s) @ map (hash_k2f p) ks"
    if "abort_depth (fst s) = 0" for s
    using assms(1) that
  proof (induction ks arbitrary: s)
    case (Cons k ks)
    obtain q u where s: "s = (q, u)" by (cases s)
    show ?case
      using Cons.prems Cons.IH [of "abort_key_step p t k s"] by (simp add: s abort_key_step_def abort_push_def Let_def)
  qed simp
  from this [of "(abort_init q0, u0)"] have "abort_depth q = 0" "abort_key q = map (hash_k2f p) ks"
    unfolding assms(2) [symmetric] by (simp_all add: abort_init_def)
  then show ?thesis by (simp add: abort_push_def Let_def)
qed

theorem abort_window_never_fills_witness:
  "fst (fst (abort_push (init_feature_partition \<lparr>fp_offset = (\<lambda>_. 0), fp_size = (\<lambda>_. 0)\<rparr>) (1, 4)
     (fst (fold (abort_key_step (init_feature_partition \<lparr>fp_offset = (\<lambda>_. 0), fp_size = (\<lambda>_. 0)\<rparr>) 0) [(2, 5), (0, 1)]
       (abort_init \<lparr>abort_key = [9], abort_depth = 3\<rparr>, \<lparr>mu_weights = (\<lambda>_. 0), mu_guideline_group = (\<lambda>_. 0),
          mu_core_weights = (\<lambda>_ _. 0), mu_core_features = (\<lambda>_ _ _. 0), mu_feature_id = (\<lambda>_. 0)\<rparr>))))) = 513"
  using abort_window_never_fills [OF _ prod.collapse, of "[(2, 5), (0, 1)]"] by simp

end
