(* ===== verification/Worker_Msg.thy ===== *)
theory Worker_Msg
  imports Connect Model_Update
begin

unbundle bit_operations_syntax

text \<open>
  The worker side of a request (\<open>msg_t\<close>, \<open>worker_msg_t\<close>, \<open>strife_msg_t\<close>, \<open>tpcc_delivery_t\<close> of
  \<open>nic-sched/worker_buf.h\<close> and \<open>worker_buf.cpp\<close>): finding the next request of the dispatch queue,
  decoding it in place from memory, the accessors the transactions use, and the reply.  A pointer into
  a message is its address; what it points to is read from memory when it is used.
\<close>

subsection \<open>msg\_t\<close>

record msg_t =
  mg_addr :: nat
  mg_type :: u16
  mg_req_head :: nat
  mg_reqP_addr :: "nat \<Rightarrow> nat"
  mg_reqP_size :: "nat \<Rightarrow> u32"
  mg_main_read_count :: u32
  mg_keys_array :: nat
  mg_args_array :: nat
  mg_rpc_id_ptr :: nat
  mg_ycsb_key_array :: nat
  mg_ycsb_col_array :: nat
  mg_write_bits :: u64
  mg_last_num :: u32

definition reqP_step :: "mem \<Rightarrow> nat \<Rightarrow> nat \<Rightarrow> nat \<times> msg_t \<Rightarrow> nat \<times> msg_t" where
  "reqP_step m txn_addr i = (\<lambda>(addr_tmp, g).
     let sz = rd32 m (txn_addr + sizeof_ReqHead + sizeof_SIZETYPE * i)
     in (addr_tmp + unat sz, g\<lparr>mg_reqP_size := (mg_reqP_size g)(i := sz), mg_reqP_addr := (mg_reqP_addr g)(i := addr_tmp)\<rparr>))"

definition deserialization :: "build \<Rightarrow> nat \<Rightarrow> mem \<Rightarrow> msg_t \<Rightarrow> msg_t" where
  "deserialization bd txn_addr m g =
     (let g = g\<lparr>mg_addr := txn_addr, mg_req_head := txn_addr, mg_rpc_id_ptr := txn_addr, mg_type := req_read_name m txn_addr\<rparr>
      in if nullrpc bd then g
         else let n = unat (req_req_num m txn_addr);
                  g = snd (fold (reqP_step m txn_addr) [0..<n] (txn_addr + sizeof_ReqHead + sizeof_SIZETYPE * n, g))
              in g\<lparr>mg_write_bits := rd64 m (mg_reqP_addr g 0), mg_ycsb_key_array := mg_reqP_addr g 1,
                   mg_ycsb_col_array := mg_reqP_addr g 2, mg_main_read_count := rd32 m (mg_reqP_addr g 0),
                   mg_keys_array := mg_reqP_addr g 1, mg_args_array := mg_reqP_addr g 2\<rparr>)"

text \<open>\<open>keys_array[k]\<close> and \<open>args_array[k]\<close>; a key is a pair of 64-bit integers.\<close>

definition key_at :: "mem \<Rightarrow> msg_t \<Rightarrow> nat \<Rightarrow> tx_key_t" where
  "key_at m g k = (rd64 m (mg_keys_array g + 16 * k), rd64 m (mg_keys_array g + 16 * k + 8))"

definition arg_at :: "mem \<Rightarrow> msg_t \<Rightarrow> nat \<Rightarrow> u64" where
  "arg_at m g k = ucast (rd32 m (mg_args_array g + 4 * k))"

definition get_read_num :: "build \<Rightarrow> msg_t \<Rightarrow> u32" where
  "get_read_num bd g = of_nat (YCSBSIZE bd) - mg_reqP_size g 3 div 384"

definition stockKeyToWare :: "u64 \<Rightarrow> u32" where
  "stockKeyToWare s_key = (if s_key mod 100000 = 0 then ucast (s_key div 100000 - 1) else ucast (s_key div 100000))"

text \<open>New order.\<close>

definition get_w_key :: "mem \<Rightarrow> msg_t \<Rightarrow> tx_key_t" where "get_w_key m g = key_at m g 1"
definition get_c_key :: "mem \<Rightarrow> msg_t \<Rightarrow> tx_key_t" where "get_c_key m g = key_at m g 0"
definition get_d_key :: "mem \<Rightarrow> msg_t \<Rightarrow> tx_key_t" where "get_d_key m g = key_at m g 2"
definition get_i_key :: "mem \<Rightarrow> msg_t \<Rightarrow> nat \<Rightarrow> tx_key_t" where "get_i_key m g i = key_at m g (2 * i + 3)"
definition get_i_id :: "mem \<Rightarrow> msg_t \<Rightarrow> nat \<Rightarrow> u64" where "get_i_id m g i = snd (key_at m g (2 * i + 3))"
definition get_s_key :: "mem \<Rightarrow> msg_t \<Rightarrow> nat \<Rightarrow> tx_key_t" where "get_s_key m g i = key_at m g (2 * i + 4)"
definition get_s_id :: "mem \<Rightarrow> msg_t \<Rightarrow> nat \<Rightarrow> u64" where "get_s_id m g i = snd (key_at m g (2 * i + 4))"
definition get_s_w :: "mem \<Rightarrow> msg_t \<Rightarrow> nat \<Rightarrow> u64" where
  "get_s_w m g i = scast (stockKeyToWare (snd (key_at m g (2 * i + 4))))"
definition get_w_id :: "mem \<Rightarrow> msg_t \<Rightarrow> u64" where "get_w_id m g = arg_at m g 0"
definition get_d_id :: "mem \<Rightarrow> msg_t \<Rightarrow> u64" where "get_d_id m g = arg_at m g 1"
definition get_c_id :: "mem \<Rightarrow> msg_t \<Rightarrow> u64" where "get_c_id m g = arg_at m g 2"
definition get_s_num :: "mem \<Rightarrow> msg_t \<Rightarrow> u64" where "get_s_num m g = arg_at m g 3"
definition get_last_num :: "mem \<Rightarrow> msg_t \<Rightarrow> msg_t" where "get_last_num m g = g\<lparr>mg_last_num := ucast (get_s_num m g)\<rparr>"

text \<open>Payment.\<close>

definition get_w_key_pay :: "mem \<Rightarrow> msg_t \<Rightarrow> tx_key_t" where "get_w_key_pay m g = key_at m g 0"
definition get_d_key_pay :: "mem \<Rightarrow> msg_t \<Rightarrow> tx_key_t" where "get_d_key_pay m g = key_at m g 1"
definition get_c_w_key_pay :: "mem \<Rightarrow> msg_t \<Rightarrow> tx_key_t" where "get_c_w_key_pay m g = key_at m g 2"
definition get_c_d_key_pay :: "mem \<Rightarrow> msg_t \<Rightarrow> tx_key_t" where "get_c_d_key_pay m g = key_at m g 3"
definition get_c_key_pay :: "mem \<Rightarrow> msg_t \<Rightarrow> tx_key_t" where "get_c_key_pay m g = key_at m g 4"
definition get_c_c_key_pay :: "mem \<Rightarrow> msg_t \<Rightarrow> tx_key_t" where "get_c_c_key_pay m g = key_at m g 5"
definition get_w_id_pay :: "mem \<Rightarrow> msg_t \<Rightarrow> u64" where "get_w_id_pay m g = arg_at m g 0"
definition get_d_id_pay :: "mem \<Rightarrow> msg_t \<Rightarrow> u64" where "get_d_id_pay m g = arg_at m g 1"
definition get_c_w_id_pay :: "mem \<Rightarrow> msg_t \<Rightarrow> u64" where "get_c_w_id_pay m g = arg_at m g 2"
definition get_c_d_id_pay :: "mem \<Rightarrow> msg_t \<Rightarrow> u64" where "get_c_d_id_pay m g = arg_at m g 3"
definition get_is_home_pay :: "mem \<Rightarrow> msg_t \<Rightarrow> bool" where "get_is_home_pay m g = (arg_at m g 4 \<noteq> 0)"
definition get_by_name_pay :: "mem \<Rightarrow> msg_t \<Rightarrow> bool" where "get_by_name_pay m g = (arg_at m g 5 \<noteq> 0)"
definition get_c_id_pay :: "mem \<Rightarrow> msg_t \<Rightarrow> u64" where "get_c_id_pay m g = arg_at m g 6"

text \<open>Order status, stock level and delivery.\<close>

definition get_w_id_order :: "mem \<Rightarrow> msg_t \<Rightarrow> u64" where "get_w_id_order m g = arg_at m g 0"
definition get_d_id_order :: "mem \<Rightarrow> msg_t \<Rightarrow> u64" where "get_d_id_order m g = arg_at m g 1"
definition get_by_name_order :: "mem \<Rightarrow> msg_t \<Rightarrow> bool" where "get_by_name_order m g = (arg_at m g 2 \<noteq> 0)"
definition get_c_id_order :: "mem \<Rightarrow> msg_t \<Rightarrow> u64" where "get_c_id_order m g = arg_at m g 3"
definition get_w_id_stock :: "mem \<Rightarrow> msg_t \<Rightarrow> u64" where "get_w_id_stock m g = arg_at m g 0"
definition get_d_id_stock :: "mem \<Rightarrow> msg_t \<Rightarrow> u64" where "get_d_id_stock m g = arg_at m g 1"
definition get_w_id_del :: "mem \<Rightarrow> msg_t \<Rightarrow> u64" where "get_w_id_del m g = arg_at m g 0"

text \<open>YCSB.  The key is computed in 32-bit arithmetic.\<close>

definition get_ycsb_key_origin :: "mem \<Rightarrow> msg_t \<Rightarrow> nat \<Rightarrow> u32" where
  "get_ycsb_key_origin m g i = rd32 m (mg_ycsb_key_array g + 4 * i)"

definition get_ycsb_col_origin :: "mem \<Rightarrow> msg_t \<Rightarrow> nat \<Rightarrow> u32" where
  "get_ycsb_col_origin m g i = ucast (rd16 m (mg_ycsb_col_array g + 2 * i))"

definition get_ycsb_key :: "build \<Rightarrow> mem \<Rightarrow> msg_t \<Rightarrow> nat \<Rightarrow> u32" where
  "get_ycsb_key bd m g i =
     (get_ycsb_key_origin m g i + get_ycsb_col_origin m g i * of_nat (YCSB_TABLE_SIZE div YCSBCOL bd)) mod of_nat YCSB_TABLE_SIZE"

text \<open>The mask is \<open>1ull<i\<close>, the result of a comparison.\<close>

definition get_ycsb_is_write :: "msg_t \<Rightarrow> nat \<Rightarrow> bool" where
  "get_ycsb_is_write g i \<longleftrightarrow> mg_write_bits g AND (if 1 < i then 1 else 0) \<noteq> 0"

subsection \<open>The worker\<close>

record worker_msg_t =
  wk_thread_id :: nat
  wk_txn_reply_addr :: nat
  wk_txn_addr :: nat
  wk_client_id :: u16
  wk_slot_id :: u16
  wk_now_msg :: msg_t
  wk_abort_queue :: abort_queue_t
  wk_msg_id :: nat

text \<open>What the workers share: memory, queues, statistics.\<close>

record server_t =
  sv_mem :: mem
  sv_queue :: "nat \<Rightarrow> fpga_dispatch_queue_t"
  sv_strife :: "nat \<Rightarrow> strife_queue_t"
  sv_count :: "nat \<Rightarrow> u64"
  sv_batch :: "nat \<Rightarrow> u64"
  sv_model :: model_update_t
  sv_delivery :: tpcc_delivery_t
  sv_tpcc_reply :: "nat \<Rightarrow> nat \<Rightarrow> u64"

definition perf_count :: "nat \<Rightarrow> server_t \<Rightarrow> server_t" where
  "perf_count t v = v\<lparr>sv_count := (sv_count v)(t := sv_count v t + 1)\<rparr>"

definition worker_init :: "nat \<Rightarrow> worker_msg_t \<times> server_t \<Rightarrow> worker_msg_t \<times> server_t" where
  "worker_init i = (\<lambda>(w, v).
     (w\<lparr>wk_thread_id := i, wk_msg_id := 0, wk_abort_queue := abort_init (wk_abort_queue w)\<rparr>,
      v\<lparr>sv_model := mu_init_thread i (sv_model v)\<rparr>))"

text \<open>The fields of the reply: the size byte and the phase byte of the YCSB build, then the id.\<close>

definition write_reply :: "build \<Rightarrow> u8 \<Rightarrow> bool \<Rightarrow> worker_msg_t \<Rightarrow> mem \<Rightarrow> mem" where
  "write_reply bd phase null w m =
     (let a = wk_txn_reply_addr w;
          m = (if ycsb_plus_t bd
               then (m(a := (if null then 0 else ucast (get_read_num bd (wk_now_msg w)))))(a + 1 := phase) else m)
      in wr32 (a + 4) (rpc_id (req_rpc_id m (mg_req_head (wk_now_msg w))) + NOTHING_DEBUG) m)"

definition reply_now :: "build \<Rightarrow> u8 \<Rightarrow> bool \<Rightarrow> worker_msg_t \<times> server_t \<Rightarrow> worker_msg_t \<times> server_t" where
  "reply_now bd phase no_perf_flag = (\<lambda>(w, v).
     let v = v\<lparr>sv_mem := write_reply bd phase (nullrpc bd) w (sv_mem v)\<rparr>;
         v = (if no_perf_flag then v else perf_count (wk_thread_id w) v);
         q = wk_thread_id w
     in (w\<lparr>wk_msg_id := (wk_msg_id w + 1) mod MESS_NUM_HOST\<rparr>,
         v\<lparr>sv_queue := (sv_queue v)(q := dq_set_message_down (wk_msg_id w) (sv_queue v q))\<rparr>))"

definition count_count_only :: "worker_msg_t \<times> server_t \<Rightarrow> worker_msg_t \<times> server_t" where
  "count_count_only = (\<lambda>(w, v). (w, perf_count (wk_thread_id w) v))"

text \<open>\<open>None\<close> as message means that the call returned \<open>false\<close>.  The ids are truncated to 16 bits.\<close>

definition next_txn_check :: "build \<Rightarrow> nic_connect \<Rightarrow> u8 \<Rightarrow> worker_msg_t \<times> server_t \<Rightarrow> bool \<times> worker_msg_t \<times> server_t" where
  "next_txn_check bd nc phase = (\<lambda>(w, v).
     let q = sv_queue v (wk_thread_id w)
     in if \<not> dq_check_now_message q (wk_msg_id w) then (False, w, v)
        else let w = w\<lparr>wk_client_id := ucast (dq_get_message_client_id bd q (wk_msg_id w)),
                       wk_slot_id := ucast (dq_get_message_slot_id bd q (wk_msg_id w))\<rparr>;
                 c = connect_of_client bd nc (unat (wk_client_id w));
                 w = w\<lparr>wk_txn_addr := get_rev_addr bd c (wk_slot_id w), wk_txn_reply_addr := get_send_addr bd c (wk_slot_id w)\<rparr>;
                 w = w\<lparr>wk_now_msg := deserialization bd (wk_txn_addr w) (sv_mem v) (wk_now_msg w)\<rparr>
             in if nullrpc bd
                then (False, reply_now bd phase True (w, perf_count (wk_thread_id w) v))
                else (True, w, v\<lparr>sv_model := mu_store_feature (wk_thread_id w) (mg_reqP_addr (wk_now_msg w) 3) (sv_mem v) (sv_model v)\<rparr>))"

definition worker_abort_key :: "feature_partitiont_t \<Rightarrow> tx_key_t \<Rightarrow> worker_msg_t \<times> server_t \<Rightarrow> worker_msg_t \<times> server_t" where
  "worker_abort_key p key = (\<lambda>(w, v).
     let (q, u) = abort_key_step p (wk_thread_id w) key (wk_abort_queue w, sv_model v)
     in (w\<lparr>wk_abort_queue := q\<rparr>, v\<lparr>sv_model := u\<rparr>))"

definition worker_abort_key_ycsb :: "build \<Rightarrow> nat \<Rightarrow> worker_msg_t \<times> server_t \<Rightarrow> worker_msg_t \<times> server_t" where
  "worker_abort_key_ycsb bd i = (\<lambda>(w, v).
     let ck = (get_ycsb_col_origin (sv_mem v) (wk_now_msg w) i, get_ycsb_key_origin (sv_mem v) (wk_now_msg w) i);
         (q, u) = abort_key_ycsb_step bd (wk_thread_id w) ck (wk_abort_queue w, sv_model v)
     in (w\<lparr>wk_abort_queue := q\<rparr>, v\<lparr>sv_model := u\<rparr>))"

subsection \<open>The Strife worker\<close>

record strife_msg_t =
  st_worker :: worker_msg_t
  st_batch_req_num :: u32
  st_last_epoch_num :: u32
  st_msg_id :: nat
  st_cq_signal_id :: nat
  st_txn_reply_addr :: nat
  st_client_node_id :: u32
  st_client_thread_id :: u32
  st_client_rpc_id :: u32

definition init_strife_msg :: "strife_msg_t \<Rightarrow> strife_msg_t" where
  "init_strife_msg x = x\<lparr>st_batch_req_num := 0, st_last_epoch_num := 0, st_msg_id := 0, st_cq_signal_id := 0\<rparr>"

abbreviation st_thread :: "strife_msg_t \<Rightarrow> nat" where
  "st_thread x \<equiv> wk_thread_id (st_worker x)"

definition next_txn_check_strife :: "build \<Rightarrow> nic_connect \<Rightarrow> strife_msg_t \<times> server_t \<Rightarrow> bool \<times> strife_msg_t \<times> server_t" where
  "next_txn_check_strife bd nc = (\<lambda>(x, v).
     let q = sv_strife v (st_thread x)
     in if \<not> sq_check_now_message q (st_msg_id x) then (False, x, v)
        else let a = unat (sq_get_message_addr q (st_msg_id x));
                 r = req_rpc_id (sv_mem v) a;
                 x = x\<lparr>st_client_node_id := ucast (my_nodeid r) - 1, st_client_thread_id := ucast (rpc_thread_id r),
                       st_client_rpc_id := rpc_id r\<rparr>;
                 c = nc (unat (st_client_node_id x + 1)) (unat (st_client_thread_id x));
                 w = (st_worker x)\<lparr>wk_txn_reply_addr := get_send_addr bd c (ucast (req_TXID (sv_mem v) a)),
                       wk_now_msg := deserialization bd a (sv_mem v) (wk_now_msg (st_worker x))\<rparr>
             in (True, x\<lparr>st_txn_reply_addr := get_strife_send_addr bd c (st_client_rpc_id x), st_worker := w\<rparr>, v))"

definition next_now_strife :: "strife_msg_t \<times> server_t \<Rightarrow> strife_msg_t \<times> server_t" where
  "next_now_strife = (\<lambda>(x, v).
     (x\<lparr>st_msg_id := (st_msg_id x + 1) mod strife_buf_num\<rparr>,
      v\<lparr>sv_strife := (sv_strife v)(st_thread x := sq_set_message_down (st_msg_id x) (sv_strife v (st_thread x)))\<rparr>))"

definition reply_now_strife :: "strife_msg_t \<times> server_t \<Rightarrow> strife_msg_t \<times> server_t" where
  "reply_now_strife = (\<lambda>(x, v).
     let (x', v) = next_now_strife (x, v);
         v = perf_count (st_thread x) v
     in (x', v\<lparr>sv_mem := wr64 (st_txn_reply_addr x) (rd64 (sv_mem v) (st_txn_reply_addr x) + 11) (sv_mem v)\<rparr>))"

definition reply_now_partition :: "build \<Rightarrow> u8 \<Rightarrow> bool \<Rightarrow> strife_msg_t \<times> server_t \<Rightarrow> strife_msg_t \<times> server_t" where
  "reply_now_partition bd phase no_perf_flag = (\<lambda>(x, v).
     let v = v\<lparr>sv_strife := (sv_strife v)(st_thread x := sq_set_message_down (st_msg_id x) (sv_strife v (st_thread x)))\<rparr>;
         v = v\<lparr>sv_mem := write_reply bd phase False (st_worker x) (sv_mem v)\<rparr>;
         v = (if no_perf_flag then v else perf_count (st_thread x) v)
     in (x\<lparr>st_msg_id := (st_msg_id x + 1) mod strife_buf_num\<rparr>, v))"

text \<open>The loop of \<open>count_strife\<close> ends at the first free cell; \<open>None\<close> when the fuel runs out first.\<close>

fun count_strife :: "nat \<Rightarrow> strife_msg_t \<times> server_t \<Rightarrow> (strife_msg_t \<times> server_t) option" where
  "count_strife 0 _ = None"
| "count_strife (Suc fuel) (x, v) =
     (if \<not> sq_check_now_message (sv_strife v (st_thread x)) (st_cq_signal_id x) then Some (x, v)
      else count_strife fuel
        (x\<lparr>st_cq_signal_id := (st_cq_signal_id x + 1) mod strife_buf_num\<rparr>,
         v\<lparr>sv_batch := (sv_batch v)(st_thread x := sv_batch v (st_thread x) + 1)\<rparr>))"

text \<open>The loops of \<open>store_count\<close> that only read the messages to model their cost have no effect.\<close>

definition store_count :: "strife_msg_t \<times> server_t \<Rightarrow> strife_msg_t \<times> server_t" where
  "store_count = (\<lambda>(x, v).
     let tmp = st_last_epoch_num x;
         x = x\<lparr>st_last_epoch_num := ucast (sv_batch v (st_thread x))\<rparr>
     in (x\<lparr>st_batch_req_num := st_last_epoch_num x - tmp\<rparr>, v))"

subsection \<open>Deferred deliveries\<close>

definition reply_now_delivery :: "build \<Rightarrow> nic_connect \<Rightarrow> nat \<Rightarrow> nat \<Rightarrow> server_t \<Rightarrow> server_t" where
  "reply_now_delivery bd nc w_id thread_id v =
     (let d = sv_delivery v;
          offset = unat (td_tail d w_id);
          now = td_queue d w_id offset;
          d = td_put w_id offset 0xFFFFFFF d;
          r = rpc_id_of now;
          d = d\<lparr>td_tail := (td_tail d)(w_id := (td_tail d w_id + 1) mod of_nat (td_length bd))\<rparr>;
          v = perf_count thread_id (v\<lparr>sv_delivery := d\<rparr>);
          a = get_strife_send_addr bd (nc (unat (my_nodeid r)) (unat (rpc_thread_id r))) (rpc_id r);
          v = v\<lparr>sv_mem := wr64 a (rd64 (sv_mem v) a + 11) (sv_mem v)\<rparr>
      in v\<lparr>sv_tpcc_reply := (sv_tpcc_reply v)(unat (my_nodeid r) - KEY2NODE_MOD :=
             (sv_tpcc_reply v (unat (my_nodeid r) - KEY2NODE_MOD))(unat (rpc_thread_id r) := 1))\<rparr>)"

subsection \<open>Decoding\<close>

definition req_end :: "mem \<Rightarrow> nat \<Rightarrow> nat \<Rightarrow> nat \<Rightarrow> nat" where
  "req_end m a n i = a + sizeof_ReqHead + sizeof_SIZETYPE * n + (\<Sum>k<i. unat (rd32 m (a + sizeof_ReqHead + sizeof_SIZETYPE * k)))"

lemma reqP_step_pair:
  "reqP_step m a i (t, g) = (t + unat (rd32 m (a + sizeof_ReqHead + sizeof_SIZETYPE * i)),
     g\<lparr>mg_reqP_size := (mg_reqP_size g)(i := rd32 m (a + sizeof_ReqHead + sizeof_SIZETYPE * i)), mg_reqP_addr := (mg_reqP_addr g)(i := t)\<rparr>)"
  by (simp add: reqP_step_def Let_def)

lemma req_end_Suc: "req_end m a N (Suc n) = req_end m a N n + unat (rd32 m (a + sizeof_ReqHead + sizeof_SIZETYPE * n))"
  by (simp add: req_end_def)

lemma reqP_fold:
  "fst (fold (reqP_step m a) [0..<n] (req_end m a N 0, g)) = req_end m a N n \<and>
   (\<forall>i<n. mg_reqP_addr (snd (fold (reqP_step m a) [0..<n] (req_end m a N 0, g))) i = req_end m a N i \<and>
     mg_reqP_size (snd (fold (reqP_step m a) [0..<n] (req_end m a N 0, g))) i = rd32 m (a + sizeof_ReqHead + sizeof_SIZETYPE * i))"
proof (induction n)
  case (Suc n)
  then show ?case
    by (cases "fold (reqP_step m a) [0..<n] (req_end m a N 0, g)")
      (auto simp: reqP_step_pair less_Suc_eq req_end_Suc)
qed simp

text \<open>Decoding a request finds its parameters: the \<open>i\<close>-th parameter has the \<open>i\<close>-th size of the
  size table, parameter 0 starts right behind the table and each further one right behind its
  predecessor, so no two overlap; the key and argument arrays are parameters 1 and 2.\<close>

lemma deserialization_layout:
  assumes "\<not> nullrpc bd" "n = unat (req_req_num m a)" "i < n" "3 \<le> n"
    and "g = deserialization bd a m g0"
  shows "mg_reqP_size g i = rd32 m (a + 28 + 4 * i) \<and>
    mg_reqP_addr g i = a + 28 + 4 * n + (\<Sum>k<i. unat (rd32 m (a + 28 + 4 * k))) \<and>
    (i + 1 < n \<longrightarrow> mg_reqP_addr g (i + 1) = mg_reqP_addr g i + unat (mg_reqP_size g i)) \<and>
    mg_keys_array g = mg_reqP_addr g 1 \<and> mg_args_array g = mg_reqP_addr g 2 \<and> mg_addr g = a \<and> mg_type g = req_read_name m a"
proof -
  define g1 where "g1 = g0\<lparr>mg_addr := a, mg_req_head := a, mg_rpc_id_ptr := a, mg_type := req_read_name m a\<rparr>"
  define g2 where "g2 = snd (fold (reqP_step m a) [0..<n] (req_end m a n 0, g1))"
  have arr: "\<And>i. i < n \<Longrightarrow> mg_reqP_addr g2 i = req_end m a n i" "\<And>i. i < n \<Longrightarrow> mg_reqP_size g2 i = rd32 m (a + 28 + 4 * i)"
    using reqP_fold [of m a n n g1] by (auto simp: g2_def)
  have frame: "mg_addr (snd (fold (reqP_step m a) xs p)) = mg_addr (snd p) \<and> mg_type (snd (fold (reqP_step m a) xs p)) = mg_type (snd p)" for xs p
    by (rule fold_keeps [of "\<lambda>q. mg_addr (snd q) = mg_addr (snd p) \<and> mg_type (snd q) = mg_type (snd p)"])
      (auto simp: reqP_step_def Let_def split: prod.splits)
  have g: "g = g2\<lparr>mg_write_bits := rd64 m (mg_reqP_addr g2 0), mg_ycsb_key_array := mg_reqP_addr g2 1,
                   mg_ycsb_col_array := mg_reqP_addr g2 2, mg_main_read_count := rd32 m (mg_reqP_addr g2 0),
                   mg_keys_array := mg_reqP_addr g2 1, mg_args_array := mg_reqP_addr g2 2\<rparr>"
    using assms(1,2) by (simp add: assms(5) deserialization_def Let_def g2_def g1_def req_end_def)
  have "mg_addr g2 = a" "mg_type g2 = req_read_name m a"
    using frame [of "[0..<n]" "(req_end m a n 0, g1)"] by (simp_all add: g2_def g1_def)
  then show ?thesis
    using arr assms(3) by (auto simp: g req_end_def)
qed

definition empty_msg :: msg_t where
  "empty_msg = \<lparr>mg_addr = 0, mg_type = 0, mg_req_head = 0, mg_reqP_addr = (\<lambda>_. 0), mg_reqP_size = (\<lambda>_. 0), mg_main_read_count = 0,
     mg_keys_array = 0, mg_args_array = 0, mg_rpc_id_ptr = 0, mg_ycsb_key_array = 0, mg_ycsb_col_array = 0, mg_write_bits = 0, mg_last_num = 0\<rparr>"

text \<open>The test whether access \<open>i\<close> of a YCSB request is a write looks at bit 0 of the write mask for
  every \<open>i\<close> from 2 on, and is false for accesses 0 and 1: the mask is \<open>1ull<i\<close> where bit \<open>i\<close> was
  meant.\<close>

theorem ycsb_is_write_tests_bit_0:
  "get_ycsb_is_write g i \<longleftrightarrow> 1 < i \<and> bit (mg_write_bits g) 0"
  by (simp add: get_ycsb_is_write_def and_one_eq bit_0 odd_iff_mod_2_eq_one flip: mod_2_eq_odd)

subsection \<open>Serving a request\<close>

lemma unat_div_slot:
  fixes w :: u32
  assumes "0 < k" "k < 65536" "unat w div k < 65536"
  shows "unat (ucast (w div of_nat k) :: u16) = unat w div k" "unat (ucast (w mod of_nat k) :: u16) = unat w mod k"
proof -
  have k: "unat (of_nat k :: u32) = k" using assms(2) by (intro unat_of_nat_small) simp
  have d: "unat (w div of_nat k) = unat w div k" "unat (w mod of_nat k) = unat w mod k"
    by (simp_all add: unat_div_distrib unat_mod_distrib k)
  show "unat (ucast (w div of_nat k) :: u16) = unat w div k" "unat (ucast (w mod of_nat k) :: u16) = unat w mod k"
    using assms mod_less_divisor [of k "unat w"] by (simp_all add: unsigned_ucast_eq d take_bit_nat_eq_self del: mod_less_divisor)
qed

lemma write_reply_id:
  assumes "a = wk_txn_reply_addr w" "b = mg_req_head (wk_now_msg w)" "a + 2 \<le> b \<or> b + 8 \<le> a"
  shows "rd32 (write_reply bd phase null w m) (a + 4) = rpc_id (req_rpc_id m b) + NOTHING_DEBUG"
proof -
  have "rd64 (m(a := x, a + 1 := y)) b = rd64 m b" for x y
    by (rule rd64_cong) (use assms(3) in auto)
  then show ?thesis
    by (simp add: write_reply_def Let_def req_rpc_id_def flip: assms(1,2))
qed

text \<open>C36: Serving one request.  When the check of a worker finds a doorbell with slot number \<open>s\<close>, the
  request is decoded from the receive buffer of client \<open>s / SLOT_NUM\<close>, slot \<open>s % SLOT_NUM\<close>; the reply
  then puts the request's id plus 100 into the reply buffer of the same slot, frees the doorbell entry,
  counts one transaction and moves the worker to the next entry of the ring.\<close>

theorem worker_serves_request:
  assumes "next_txn_check bd nc phase (w, v) = (True, w1, v1)" "(w2, v2) = reply_now bd phase' False (w1, v1)"
    and "t = wk_thread_id w" "s = unat (dq_queue_message (sv_queue v t) (wk_msg_id w) 0)"
    and "0 < SLOT_NUM_of bd" "SLOT_NUM_of bd < 65536" "s div SLOT_NUM_of bd < 65536"
    and "c = connect_of_client bd nc (s div SLOT_NUM_of bd)"
    and "recv = data_addr c + s mod SLOT_NUM_of bd * DATA_LEN bd" "rep = reply_addr c + s mod SLOT_NUM_of bd * REPLY_LEN bd"
    and "rep + 2 \<le> recv \<or> recv + 8 \<le> rep"
  shows "dq_check_now_message (sv_queue v t) (wk_msg_id w) \<and>
    wk_now_msg w1 = deserialization bd recv (sv_mem v) (wk_now_msg w) \<and>
    rd32 (sv_mem v2) (rep + 4) = rpc_id (req_rpc_id (sv_mem v) recv) + NOTHING_DEBUG \<and>
    \<not> dq_check_now_message (sv_queue v2 t) (wk_msg_id w) \<and> sv_count v2 t = sv_count v t + 1 \<and>
    wk_msg_id w2 = (wk_msg_id w + 1) mod 256"
proof -
  let ?q = "sv_queue v t"
  note slot = unat_div_slot [OF assms(5-6) assms(7) [unfolded assms(4)], folded assms(4)]
  have full: "dq_check_now_message ?q (wk_msg_id w)" and nn: "\<not> nullrpc bd"
    using assms(1,3) by (auto simp: next_txn_check_def Let_def split: if_splits)
  have w1: "wk_now_msg w1 = deserialization bd recv (sv_mem v) (wk_now_msg w)" "wk_txn_reply_addr w1 = rep"
    "wk_msg_id w1 = wk_msg_id w" "wk_thread_id w1 = t" "sv_queue v1 = sv_queue v" "sv_mem v1 = sv_mem v" "sv_count v1 = sv_count v"
    using assms(1,3) full nn
    by (auto simp: next_txn_check_def Let_def dq_get_message_client_id_def dq_get_message_slot_id_def slot [unfolded assms(3)]
        get_rev_addr_def get_send_addr_def assms(8-10))
  have head: "mg_req_head (wk_now_msg w1) = recv"
  proof -
    have "mg_req_head (snd (fold (reqP_step m a) xs p)) = mg_req_head (snd p)" for m a xs p
      by (rule fold_keeps [of "\<lambda>q. mg_req_head (snd q) = mg_req_head (snd p)"]) (auto simp: reqP_step_def Let_def split: prod.splits)
    then show ?thesis using nn by (simp add: w1 deserialization_def Let_def)
  qed
  have v2: "w2 = w1\<lparr>wk_msg_id := (wk_msg_id w + 1) mod 256\<rparr>" "sv_mem v2 = write_reply bd phase' (nullrpc bd) w1 (sv_mem v)"
    "sv_queue v2 t = dq_set_message_down (wk_msg_id w) ?q" "sv_count v2 t = sv_count v t + 1"
    using assms(2) by (simp_all add: reply_now_def Let_def w1 perf_count_def)
  have "rd32 (sv_mem v2) (rep + 4) = rpc_id (req_rpc_id (sv_mem v) recv) + NOTHING_DEBUG"
    unfolding v2 by (rule write_reply_id [OF w1(2) [symmetric] head [symmetric] assms(11)])
  then show ?thesis
    using full w1 v2 by (simp add: dq_check_now_message_def dq_set_message_down_def)
qed

definition sample_worker :: worker_msg_t where
  "sample_worker = \<lparr>wk_thread_id = 1, wk_txn_reply_addr = 0, wk_txn_addr = 0, wk_client_id = 0, wk_slot_id = 0, wk_now_msg = empty_msg,
     wk_abort_queue = \<lparr>abort_key = [], abort_depth = 0\<rparr>, wk_msg_id = 255\<rparr>"

definition sample_server :: server_t where
  "sample_server = \<lparr>sv_mem = (\<lambda>x. if x = 4104 then 7 else 0), sv_queue = (\<lambda>_. dq_set_word 255 0 6 (dq_init sample_dq)),
     sv_strife = (\<lambda>_. \<lparr>sq_queue_message = (\<lambda>_. 0xFFFFFFFF)\<rparr>), sv_count = (\<lambda>_. 41), sv_batch = (\<lambda>_. 0),
     sv_model = \<lparr>mu_weights = (\<lambda>_. 0), mu_guideline_group = (\<lambda>_. 0), mu_core_weights = (\<lambda>_ _. 0), mu_core_features = (\<lambda>_ _ _. 0),
       mu_feature_id = (\<lambda>_. 0)\<rparr>,
     sv_delivery = \<lparr>td_head = (\<lambda>_. 0), td_tail = (\<lambda>_. 0), td_queue = (\<lambda>_ _. 0xFFFFFFF)\<rparr>, sv_tpcc_reply = (\<lambda>_ _. 0)\<rparr>"

definition sample_nic :: nic_connect where
  "sample_nic node thread = \<lparr>localBase = 0, remoteAddr = 0, reply_addr = 100000 * thread, remote_reply_addr = 0, data_addr = 4 + 100000 * (thread - 1),
     remote_data_addr = 0, curAddr = 0, poolSize = 4096, sendnum = 0, signal_num = 0\<rparr>"

theorem worker_serves_request_witness:
  "rd32 (sv_mem (snd (reply_now default_build 0 False (snd (next_txn_check default_build sample_nic 0 (sample_worker, sample_server))))))
     (100000 + 2 * 2048 + 4) = 107"
proof -
  let ?r = "next_txn_check default_build sample_nic 0 (sample_worker, sample_server)"
  have dq: "dq_queue_message (sv_queue sample_server (Suc 0)) 255 0 = 6" by (simp add: sample_server_def)
  have "fst ?r"
    by (simp add: next_txn_check_def Let_def sample_worker_def dq_check_now_message_def dq default_build_def)
  then have r: "?r = (True, fst (snd ?r), snd (snd ?r))" by (metis (full_types) prod.collapse)
  have c: "connect_of_client default_build sample_nic (6 div SLOT_NUM_of default_build) = sample_nic 1 1"
    by (simp add: connect_of_client_def default_build_def)
  have "rpc_id (req_rpc_id (sv_mem sample_server) 4100) = 7"
    by (simp add: req_rpc_id_def rpc_id_of_def rd64_def rd32_def rd16_def sample_server_def)
  then show ?thesis
    using worker_serves_request [OF r prod.collapse refl refl _ _ _ refl refl refl, of 0] dq
    by (simp add: sample_worker_def c) (simp add: default_build_def sample_nic_def DATA_LEN_def REPLY_LEN_def)
qed

text \<open>Counting a batch ends and counts right.  If the first free cell of a Strife worker's ring, seen
  from its counting position, is \<open>n\<close> cells ahead, the loop returns with any fuel above \<open>n\<close>; it has then
  counted \<open>n\<close> requests, stands at the free cell, and has changed nothing else.\<close>

theorem count_strife_counts:
  assumes "\<not> sq_check_now_message (sv_strife v (st_thread x)) ((st_cq_signal_id x + n) mod strife_buf_num)"
    and "\<forall>k<n. sq_check_now_message (sv_strife v (st_thread x)) ((st_cq_signal_id x + k) mod strife_buf_num)"
    and "st_cq_signal_id x < strife_buf_num" "n < fuel"
  shows "count_strife fuel (x, v) =
    Some (x\<lparr>st_cq_signal_id := (st_cq_signal_id x + n) mod strife_buf_num\<rparr>,
          v\<lparr>sv_batch := (sv_batch v)(st_thread x := sv_batch v (st_thread x) + of_nat n)\<rparr>)"
  using assms
proof (induction n arbitrary: x v fuel)
  case 0
  then obtain f where "fuel = Suc f" by (cases fuel) auto
  then show ?case using 0 by simp
next
  case (Suc n)
  then obtain f where f: "fuel = Suc f" "n < f" by (cases fuel) auto
  let ?x = "x\<lparr>st_cq_signal_id := (st_cq_signal_id x + 1) mod strife_buf_num\<rparr>"
  let ?v = "v\<lparr>sv_batch := (sv_batch v)(st_thread x := sv_batch v (st_thread x) + 1)\<rparr>"
  have pos: "(st_cq_signal_id ?x + k) mod strife_buf_num = (st_cq_signal_id x + Suc k) mod strife_buf_num" for k
    by (simp add: mod_add_left_eq)
  have "count_strife f (?x, ?v) = Some (?x\<lparr>st_cq_signal_id := (st_cq_signal_id ?x + n) mod strife_buf_num\<rparr>,
      ?v\<lparr>sv_batch := (sv_batch ?v)(st_thread ?x := sv_batch ?v (st_thread ?x) + of_nat n)\<rparr>)"
  proof (rule Suc.IH)
    show "\<not> sq_check_now_message (sv_strife ?v (st_thread ?x)) ((st_cq_signal_id ?x + n) mod strife_buf_num)"
      using Suc.prems(1) unfolding pos by simp
    show "\<forall>k<n. sq_check_now_message (sv_strife ?v (st_thread ?x)) ((st_cq_signal_id ?x + k) mod strife_buf_num)"
      unfolding pos
    proof (intro allI impI)
      fix k assume "k < n"
      then show "sq_check_now_message (sv_strife ?v (st_thread ?x)) ((st_cq_signal_id x + Suc k) mod strife_buf_num)"
        using Suc.prems(2) [rule_format, of "Suc k"] by simp
    qed
  qed (use f in simp_all)
  moreover have "sq_check_now_message (sv_strife v (st_thread x)) (st_cq_signal_id x)"
    using Suc.prems(2) [rule_format, of 0] Suc.prems(3) by simp
  ultimately show ?case
    by (simp add: f(1) pos [of n, simplified] add.assoc flip: fun_upd_def)
qed

definition sample_strife :: strife_msg_t where
  "sample_strife = \<lparr>st_worker = sample_worker, st_batch_req_num = 0, st_last_epoch_num = 0, st_msg_id = 0, st_cq_signal_id = 65535,
     st_txn_reply_addr = 0, st_client_node_id = 0, st_client_thread_id = 0, st_client_rpc_id = 0\<rparr>"

theorem count_strife_counts_witness:
  "count_strife 5 (sample_strife, sample_server\<lparr>sv_strife := (\<lambda>_. \<lparr>sq_queue_message = (\<lambda>i. if i = 1 then 0xFFFFFFFF else 0)\<rparr>)\<rparr>) =
   Some (sample_strife\<lparr>st_cq_signal_id := 1\<rparr>,
     sample_server\<lparr>sv_strife := (\<lambda>_. \<lparr>sq_queue_message = (\<lambda>i. if i = 1 then 0xFFFFFFFF else 0)\<rparr>), sv_batch := (\<lambda>_. 0)(1 := 2)\<rparr>)"
proof -
  have two: "k < 2 \<longleftrightarrow> k = 0 \<or> k = 1" for k :: nat by auto
  show ?thesis
    using count_strife_counts [of "sample_server\<lparr>sv_strife := (\<lambda>_. \<lparr>sq_queue_message = (\<lambda>i. if i = 1 then 0xFFFFFFFF else 0)\<rparr>)\<rparr>" sample_strife 2 5]
    by (simp add: sample_strife_def sample_worker_def sq_check_now_message_def two sample_server_def del: count_strife.simps)
qed

end
