(* ===== verification/Rpc_Reply.thy ===== *)
theory Rpc_Reply
  imports Connect Fpga_Scheduler
begin

text \<open>
  The reply thread of \<open>nic-sched/rpc_reply.cpp\<close>: it scans the reply words the workers fill in, posts
  an RDMA write for every changed one, and keeps the number of unacknowledged writes of a connection
  inside its send queue.  Under the Strife scheduler it also drives the three-phase barrier of the
  workers.  The verbs library is a parameter: posting a request and polling a completion queue act
  on a state of the hardware that the definitions do not look into.
\<close>

subsection \<open>Work requests and the verbs library\<close>

abbreviation BatchPollSend :: u64 where "BatchPollSend \<equiv> 24"
abbreviation BatchSignalSend :: u64 where "BatchSignalSend \<equiv> 64"

record send_wr =
  wr_source :: nat
  wr_length :: nat
  wr_remote_addr :: nat
  wr_wr_id :: nat
  wr_signaled :: bool
  wr_inline :: bool

text \<open>The first argument selects \<open>context_dual\<close> over \<open>context\<close>; the second of \<open>ibv_post_send\<close> is
  the number of the connection whose queue pair is used.  A poll fails with \<open>None\<close> or returns the
  identifiers of at most as many completions as asked for.\<close>

record 'h verbs =
  ibv_post_send :: "bool \<Rightarrow> nat \<Rightarrow> send_wr \<Rightarrow> 'h \<Rightarrow> bool \<times> 'h"
  ibv_poll_cq :: "bool \<Rightarrow> nat \<Rightarrow> 'h \<Rightarrow> nat list option \<times> 'h"

definition fillSgeWr :: "nat \<Rightarrow> nat \<Rightarrow> send_wr" where
  "fillSgeWr source len = \<lparr>wr_source = source, wr_length = len, wr_remote_addr = 0, wr_wr_id = 0,
     wr_signaled = False, wr_inline = False\<rparr>"

text \<open>State of the reply thread; \<open>rp_log\<close> lists the posted requests with their connections.\<close>

record 'h reply_t =
  rp_nc :: nic_connect
  rp_signalNum :: "bool \<Rightarrow> u64"
  rp_wr :: "nat \<Rightarrow> nat \<Rightarrow> send_wr"
  rp_wr_strife :: "nat \<Rightarrow> send_wr"
  rp_last_rpc_id :: "nat \<Rightarrow> nat \<Rightarrow> u32"
  rp_tpcc_delivery :: "nat \<Rightarrow> nat \<Rightarrow> u64"
  rp_now_phase :: u64
  rp_log :: "(nat \<times> send_wr) list"
  rp_hw :: 'h

definition client_total :: "build \<Rightarrow> nat" where
  "client_total bd = MAX_CLIENT * CLIENT_THREAD bd"

definition upd_connect :: "build \<Rightarrow> nat \<Rightarrow> (connect_t \<Rightarrow> connect_t) \<Rightarrow> 'h reply_t \<Rightarrow> 'h reply_t" where
  "upd_connect bd i g s =
     (let n = i div CLIENT_THREAD bd + KEY2NODE_MOD; t = i mod CLIENT_THREAD bd
      in s\<lparr>rp_nc := (rp_nc s)(n := (rp_nc s n)(t := g (rp_nc s n t)))\<rparr>)"

abbreviation conn :: "build \<Rightarrow> 'h reply_t \<Rightarrow> nat \<Rightarrow> connect_t" where
  "conn bd s i \<equiv> connect_of_client bd (rp_nc s) i"

subsection \<open>Polling\<close>

text \<open>\<open>None\<close>: the fuel ran out; an inner \<open>None\<close>: the library reported an error.\<close>

fun pollWithCQN :: "nat \<Rightarrow> 'h verbs \<Rightarrow> bool \<Rightarrow> nat \<Rightarrow> 'h \<Rightarrow> (nat list option \<times> 'h) option" where
  "pollWithCQN fuel V d 0 h = Some (Some [], h)"
| "pollWithCQN 0 V d (Suc n) h = None"
| "pollWithCQN (Suc fuel) V d (Suc n) h =
     (case ibv_poll_cq V d (Suc n) h of
        (None, h) \<Rightarrow> Some (None, h)
      | (Some ids, h) \<Rightarrow>
          (case pollWithCQN fuel V d (Suc n - length ids) h of
             Some (Some rest, h) \<Rightarrow> Some (Some (ids @ rest), h)
           | r \<Rightarrow> r))"

text \<open>The credit given back by a completion.\<close>

definition credit :: "build \<Rightarrow> nat \<Rightarrow> 'h reply_t \<Rightarrow> 'h reply_t" where
  "credit bd wid s =
     (if client_total bd \<le> wid then upd_connect bd (wid - client_total bd) (\<lambda>c. c\<lparr>sendnum := sendnum c - 1\<rparr>) s
      else upd_connect bd wid (\<lambda>c. c\<lparr>sendnum := sendnum c - BatchPollSend\<rparr>) s)"

text \<open>The body of the loop of \<open>poll_signal\<close>, entered with the completions just polled; the third
  exit reads \<open>context\<close>, not \<open>*context_ptr\<close>.  The \<open>min\<close> of the first poll is the one on 32-bit words.\<close>

fun poll_loop :: "nat \<Rightarrow> build \<Rightarrow> 'h verbs \<Rightarrow> bool \<Rightarrow> nat \<Rightarrow> bool \<Rightarrow> bool \<Rightarrow> nat list \<Rightarrow> nat \<Rightarrow> 'h reply_t \<Rightarrow> (bool \<times> 'h reply_t) option" where
  "poll_loop 0 bd V d i pollflag sync_op ids poll_num s = None"
| "poll_loop (Suc fuel) bd V d i pollflag sync_op ids poll_num s =
     (let s = fold (credit bd) ids s;
          s = s\<lparr>rp_signalNum := (rp_signalNum s)(d := rp_signalNum s d - of_nat poll_num)\<rparr>
      in if sendnum (conn bd s i) < BatchPollSend \<and> pollflag then Some (True, s)
         else if signal_num (conn bd s i) = 0 \<and> sync_op then Some (True, s)
         else if rp_signalNum s False < BatchSignalSend \<and> \<not> sync_op \<and> \<not> pollflag then Some (True, s)
         else (case pollWithCQN fuel V d 1 (rp_hw s) of
                 None \<Rightarrow> None
               | Some (None, h) \<Rightarrow> Some (False, s\<lparr>rp_hw := h\<rparr>)
               | Some (Some ids, h) \<Rightarrow> poll_loop fuel bd V d i pollflag sync_op ids 1 (s\<lparr>rp_hw := h\<rparr>)))"

definition poll_signal :: "nat \<Rightarrow> build \<Rightarrow> 'h verbs \<Rightarrow> bool \<Rightarrow> nat \<Rightarrow> bool \<Rightarrow> bool \<Rightarrow> 'h reply_t \<Rightarrow> (bool \<times> 'h reply_t) option" where
  "poll_signal fuel bd V d i pollflag sync_op s =
     (if pollflag \<or> sync_op \<or> 2 * BatchSignalSend \<le> rp_signalNum s d
      then (let poll_num = unat (min (64 :: u32) (ucast (rp_signalNum s d)))
            in case pollWithCQN fuel V d poll_num (rp_hw s) of
                 None \<Rightarrow> None
               | Some (None, h) \<Rightarrow> Some (False, s\<lparr>rp_hw := h\<rparr>)
               | Some (Some ids, h) \<Rightarrow> poll_loop fuel bd V d i pollflag sync_op ids poll_num (s\<lparr>rp_hw := h\<rparr>))
      else Some (True, s))"

text \<open>\<open>rdma_write_reply_nictx\<close> counts the write, asks for a completion on every 24th of the window,
  posts it and polls.  The process exits (\<open>Some None\<close>) when the post fails; the result of the poll
  is ignored.\<close>

definition rdma_write_reply_nictx ::
    "nat \<Rightarrow> build \<Rightarrow> 'h verbs \<Rightarrow> bool \<Rightarrow> nat \<Rightarrow> send_wr \<Rightarrow> bool \<Rightarrow> 'h reply_t \<Rightarrow> 'h reply_t option option" where
  "rdma_write_reply_nictx fuel bd V d i w inline_flag s =
     (let s = upd_connect bd i (\<lambda>c. c\<lparr>sendnum := sendnum c + 1\<rparr>) s;
          signal = (sendnum (conn bd s i) = BatchPollSend);
          s = (if signal
               then (upd_connect bd i (\<lambda>c. c\<lparr>signal_num := signal_num c + 1\<rparr>) s)
                      \<lparr>rp_signalNum := (rp_signalNum s)(d := rp_signalNum s d + 1)\<rparr>
               else s);
          w = w\<lparr>wr_signaled := signal, wr_inline := inline_flag\<rparr>;
          pollflag = (sendnum (conn bd s i) = 2 * BatchPollSend - 1)
      in case ibv_post_send V d i w (rp_hw s) of
           (False, h) \<Rightarrow> Some None
         | (True, h) \<Rightarrow>
             map_option (\<lambda>(ok, s). Some s)
               (poll_signal fuel bd V d i pollflag False (s\<lparr>rp_hw := h, rp_log := rp_log s @ [(i, w)]\<rparr>)))"

subsection \<open>The scan\<close>

text \<open>The thread's steps on \<open>Some (Some s)\<close>: anything else ends the run.\<close>

definition alive :: "('h reply_t \<Rightarrow> 'h reply_t option option) \<Rightarrow> 'h reply_t option option \<Rightarrow> 'h reply_t option option" where
  "alive g r = (case r of Some (Some s) \<Rightarrow> g s | _ \<Rightarrow> r)"

text \<open>\<open>context\<close> serves the first half of the connections, \<open>context_dual\<close> the second.\<close>

definition ctx_of :: "build \<Rightarrow> nat \<Rightarrow> bool" where
  "ctx_of bd i \<longleftrightarrow> client_total bd div 2 \<le> i"

definition fill_slot :: "build \<Rightarrow> nat \<Rightarrow> nat \<Rightarrow> 'h reply_t \<Rightarrow> 'h reply_t" where
  "fill_slot bd i j s =
     (let c = conn bd s i
      in s\<lparr>rp_wr := (rp_wr s)(i := (rp_wr s i)(j :=
           (fillSgeWr (get_send_addr bd c (of_nat j)) sizeof_rpc_id_t)
             \<lparr>wr_wr_id := i, wr_remote_addr := get_remote_reply_addr_by_id bd c (of_nat j)\<rparr>))\<rparr>)"

definition reply_write_init :: "build \<Rightarrow> 'h reply_t \<Rightarrow> 'h reply_t" where
  "reply_write_init bd s =
     fold (\<lambda>i s. fold (fill_slot bd i) [0..<SLOT_NUM_of bd] s) [0..<client_total bd] (s\<lparr>rp_last_rpc_id := (\<lambda>_ _. 0)\<rparr>)"

definition fill_strife :: "build \<Rightarrow> nat \<Rightarrow> 'h reply_t \<Rightarrow> 'h reply_t" where
  "fill_strife bd i s =
     (let c = conn bd s i
      in s\<lparr>rp_wr_strife := (rp_wr_strife s)(i :=
           (fillSgeWr (get_strife_send_addr bd c 0) get_strife_reply_size)
             \<lparr>wr_wr_id := i, wr_remote_addr := get_remote_reply_addr_by_id_strife bd c 0\<rparr>)\<rparr>)"

definition reply_init_strife :: "build \<Rightarrow> 'h reply_t \<Rightarrow> 'h reply_t" where
  "reply_init_strife bd s = fold (fill_strife bd) [0..<client_total bd] s"

definition reply_rpc_id :: "mem \<Rightarrow> nat \<Rightarrow> u32" where
  "reply_rpc_id m a = rpc_id (rpc_id_of (rd64 m a))"

text \<open>One slot of the scan, on the memory as the thread sees it at this visit.\<close>

definition reply_slot :: "nat \<Rightarrow> build \<Rightarrow> 'h verbs \<Rightarrow> mem \<Rightarrow> nat \<Rightarrow> nat \<Rightarrow> 'h reply_t \<Rightarrow> 'h reply_t option option" where
  "reply_slot fuel bd V m i j s =
     (let addr = get_send_addr bd (conn bd s i) (of_nat j)
      in if reply_rpc_id m addr \<noteq> rp_last_rpc_id s i j
         then (let num = unat (rpc_type (rpc_id_of (rd64 m addr)));
                   w = (if ycsb_plus_t bd then (rp_wr s i j)\<lparr>wr_length := sizeof_rpc_id_t + num * 384\<rparr> else rp_wr s i j);
                   s = s\<lparr>rp_wr := (rp_wr s)(i := (rp_wr s i)(j := w)),
                         rp_last_rpc_id := (rp_last_rpc_id s)(i := (rp_last_rpc_id s i)(j := reply_rpc_id m addr))\<rparr>
               in rdma_write_reply_nictx fuel bd V (ctx_of bd i) i w (\<not> ycsb_plus_t bd \<or> nullrpc bd) s)
         else Some (Some s))"

definition reply_pass :: "nat \<Rightarrow> build \<Rightarrow> 'h verbs \<Rightarrow> (nat \<Rightarrow> nat \<Rightarrow> mem) \<Rightarrow> 'h reply_t \<Rightarrow> 'h reply_t option option" where
  "reply_pass fuel bd V mm s =
     fold (\<lambda>i r. fold (\<lambda>j r. alive (reply_slot fuel bd V (mm i j) i j) r) [0..<SLOT_NUM_of bd] r) [0..<client_total bd] (Some (Some s))"

definition tpcc_reply :: "nat \<Rightarrow> build \<Rightarrow> 'h verbs \<Rightarrow> 'h reply_t \<Rightarrow> 'h reply_t option option" where
  "tpcc_reply fuel bd V s =
     fold (\<lambda>i r. alive (\<lambda>s.
         let n = i div CLIENT_THREAD bd; t = i mod CLIENT_THREAD bd
         in if rp_tpcc_delivery s n t = 1
            then rdma_write_reply_nictx fuel bd V (ctx_of bd i) i (rp_wr_strife s i) False
                   (s\<lparr>rp_tpcc_delivery := (rp_tpcc_delivery s)(n := (rp_tpcc_delivery s n)(t := 0))\<rparr>)
            else Some (Some s)) r) [0..<client_total bd] (Some (Some s))"

definition reply_write_strife :: "nat \<Rightarrow> build \<Rightarrow> 'h verbs \<Rightarrow> 'h reply_t \<Rightarrow> 'h reply_t option option" where
  "reply_write_strife fuel bd V s =
     fold (\<lambda>i r. alive (\<lambda>s. rdma_write_reply_nictx fuel bd V (ctx_of bd i) i (rp_wr_strife s i) False s) r)
       [0..<client_total bd] (Some (Some s))"

text \<open>The barrier of the Strife scheduler: the phase moves on when every worker has reached it, and out
  of phase 1 only when the batch is large or old enough (\<open>check_batch_size\<close>, argument \<open>full\<close>).\<close>

definition worker_total :: "build \<Rightarrow> nat" where
  "worker_total bd = (if ycsb_plus_t bd then MAX_THREAD bd else MAX_THREAD bd + 2)"

definition phase_sync_strife :: "nat \<Rightarrow> build \<Rightarrow> 'h verbs \<Rightarrow> (nat \<Rightarrow> u64) \<Rightarrow> bool \<Rightarrow> 'h reply_t \<Rightarrow> 'h reply_t option option" where
  "phase_sync_strife fuel bd V phases full s =
     (let flag = fold (\<lambda>i flag. flag \<and> phases i = rp_now_phase s) [0..<worker_total bd] True
      in if \<not> flag then Some (Some s)
         else if rp_now_phase s = 0
         then alive (\<lambda>s. Some (Some (s\<lparr>rp_now_phase := 1\<rparr>))) (reply_write_strife fuel bd V s)
         else if rp_now_phase s = 1 then Some (Some (if full then s\<lparr>rp_now_phase := 2\<rparr> else s))
         else if rp_now_phase s = 2 then Some (Some (s\<lparr>rp_now_phase := 0\<rparr>))
         else Some (Some s))"

text \<open>One turn of the endless loop of \<open>reply_write\<close>, on what the workers have written meanwhile: the
  reply words as each slot is visited, the delivery flags, the phases.\<close>

record observation =
  ob_mem :: "nat \<Rightarrow> nat \<Rightarrow> mem"
  ob_delivery :: "nat \<Rightarrow> nat \<Rightarrow> u64"
  ob_phases :: "nat \<Rightarrow> u64"
  ob_full :: bool

definition reply_round :: "nat \<Rightarrow> build \<Rightarrow> 'h verbs \<Rightarrow> observation \<Rightarrow> 'h reply_t \<Rightarrow> 'h reply_t option option" where
  "reply_round fuel bd V ob s =
     (let r = reply_pass fuel bd V (ob_mem ob) s
      in if cpubased bd = 3 then alive (phase_sync_strife fuel bd V (ob_phases ob) (ob_full ob)) r
         else if \<not> ycsb_plus_t bd then alive (\<lambda>s. tpcc_reply fuel bd V (s\<lparr>rp_tpcc_delivery := ob_delivery ob\<rparr>)) r
         else r)"

definition reply_write :: "nat \<Rightarrow> build \<Rightarrow> 'h verbs \<Rightarrow> observation list \<Rightarrow> 'h reply_t \<Rightarrow> 'h reply_t option option" where
  "reply_write fuel bd V obs s =
     fold (\<lambda>ob r. alive (reply_round fuel bd V ob) r) obs (Some (Some (reply_init_strife bd (reply_write_init bd s))))"

text \<open>The arguments with which \<open>begin_fpga\<close> starts the single engine (\<open>PARALLEL_IP_NUM\<close> is 1).\<close>

definition begin_fpga_args :: "build \<Rightarrow> sched_args" where
  "begin_fpga_args bd =
     \<lparr>a_con = 2, a_BASE_ADDR = SLOT_LEN * SLOT_NUM_of bd * MAX_CLIENT * CLIENT_THREAD bd, a_CLIENT_NUM = MAX_CLIENT * CLIENT_THREAD bd,
      a_SLOT_NUM = SLOT_NUM_of bd, a_CORE_NUM = MAX_THREAD bd, a_MESS_NUM = MESS_NUM_HOST,
      a_b_client = 0, a_e_client = MAX_CLIENT * CLIENT_THREAD bd, a_b_core = 0, a_e_core = 0, a_ip_id = 0\<rparr>"

subsection \<open>What the verbs library promises\<close>

text \<open>The library is seen through the pending completions of a completion queue (with the connection
  they belong to), the occupied entries of a send queue and the number of requests posted to it
  after the last signaled one.  A post succeeds while the send queue of 48 entries
  (\<open>attr.cap.max_send_wr\<close>) has room.  A completion frees the entries up to its request.  Polling
  takes pending completions in order, and misses an available one at most \<open>B\<close> times in a row.\<close>

record 'h nic_view =
  pend :: "'h \<Rightarrow> bool \<Rightarrow> (nat \<times> nat) list"
  occupied :: "'h \<Rightarrow> nat \<Rightarrow> nat"
  since_signal :: "'h \<Rightarrow> nat \<Rightarrow> nat"
  lag :: "'h \<Rightarrow> bool \<Rightarrow> nat"

definition post_law :: "'h verbs \<Rightarrow> 'h nic_view \<Rightarrow> bool" where
  "post_law V N \<longleftrightarrow> (\<forall>d i w h. occupied N h i < 48 \<longrightarrow>
     (\<exists>h'. ibv_post_send V d i w h = (True, h')
       \<and> pend N h' = (pend N h)(d := pend N h d @ (if wr_signaled w then [(i, wr_wr_id w)] else []))
       \<and> occupied N h' = (occupied N h)(i := occupied N h i + 1)
       \<and> since_signal N h' = (since_signal N h)(i := if wr_signaled w then 0 else since_signal N h i + 1)))"

definition poll_law :: "'h verbs \<Rightarrow> 'h nic_view \<Rightarrow> bool" where
  "poll_law V N \<longleftrightarrow> (\<forall>d n h. \<exists>ps h'. ibv_poll_cq V d n h = (Some (map snd ps), h') \<and> length ps \<le> n
       \<and> pend N h d = ps @ pend N h' d \<and> pend N h' (\<not> d) = pend N h (\<not> d) \<and> since_signal N h' = since_signal N h
       \<and> (distinct (map fst (pend N h d)) \<longrightarrow>
            occupied N h' = (\<lambda>i. if i \<in> fst ` set ps then since_signal N h i else occupied N h i))
       \<and> (0 < n \<and> pend N h d \<noteq> [] \<longrightarrow> ps \<noteq> [] \<or> lag N h' d < lag N h d))"

definition verbs_laws :: "'h verbs \<Rightarrow> 'h nic_view \<Rightarrow> nat \<Rightarrow> bool" where
  "verbs_laws V N B \<longleftrightarrow> post_law V N \<and> poll_law V N \<and> (\<forall>h d. lag N h d \<le> B)"

text \<open>Asking for all pending completions returns them.\<close>

lemma poll_steps:
  assumes "poll_law V N"
  obtains ps h' where "ibv_poll_cq V d n h = (Some (map snd ps), h')" "length ps \<le> n"
    "pend N h d = ps @ pend N h' d" "pend N h' (\<not> d) = pend N h (\<not> d)" "since_signal N h' = since_signal N h"
    "distinct (map fst (pend N h d)) \<Longrightarrow>
       occupied N h' = (\<lambda>i. if i \<in> fst ` set ps then since_signal N h i else occupied N h i)"
    "0 < n \<Longrightarrow> pend N h d \<noteq> [] \<Longrightarrow> ps \<noteq> [] \<or> lag N h' d < lag N h d"
  using assms unfolding poll_law_def by meson

lemma post_steps:
  assumes "post_law V N" "occupied N h i < 48"
  obtains h' where "ibv_post_send V d i w h = (True, h')"
    "pend N h' = (pend N h)(d := pend N h d @ (if wr_signaled w then [(i, wr_wr_id w)] else []))"
    "occupied N h' = (occupied N h)(i := occupied N h i + 1)"
    "since_signal N h' = (since_signal N h)(i := if wr_signaled w then 0 else since_signal N h i + 1)"
  using assms unfolding post_law_def by meson

lemma poll_all:
  assumes laws: "verbs_laws V N B"
  shows "distinct (map fst (pend N h d)) \<Longrightarrow> n = length (pend N h d) \<Longrightarrow> n * (B + 1) + lag N h d \<le> fuel \<Longrightarrow>
    \<exists>h'. pollWithCQN fuel V d n h = Some (Some (map snd (pend N h d)), h') \<and> pend N h' = (pend N h)(d := [])
      \<and> since_signal N h' = since_signal N h
      \<and> occupied N h' = (\<lambda>i. if i \<in> fst ` set (pend N h d) then since_signal N h i else occupied N h i)"
proof (induction fuel arbitrary: n h)
  case 0
  then show ?case by (auto simp: fun_eq_iff)
next
  case (Suc fuel)
  show ?case
  proof (cases n)
    case 0
    with Suc.prems show ?thesis by (auto simp: fun_eq_iff)
  next
    case (Suc n')
    have P: "poll_law V N" and L: "\<And>h d. lag N h d \<le> B" using laws by (auto simp: verbs_laws_def)
    obtain ps h1 where p: "ibv_poll_cq V d n h = (Some (map snd ps), h1)" "length ps \<le> n"
      "pend N h d = ps @ pend N h1 d" "pend N h1 (\<not> d) = pend N h (\<not> d)" "since_signal N h1 = since_signal N h"
      "occupied N h1 = (\<lambda>i. if i \<in> fst ` set ps then since_signal N h i else occupied N h i)"
      "ps \<noteq> [] \<or> lag N h1 d < lag N h d"
      by (rule poll_steps [OF P, of d n h]) (use Suc Suc.prems(1,2) in force)
    have n1: "n - length ps = length (pend N h1 d)" using p(3) Suc.prems(2) by simp
    have "(n - length ps) * (B + 1) + lag N h1 d \<le> fuel"
    proof (cases "ps = []")
      case False
      then have "Suc (n - length ps) \<le> n" using p(2) by (cases ps) auto
      then have "Suc (n - length ps) * (B + 1) \<le> n * (B + 1)" by (rule mult_le_mono1)
      then show ?thesis using Suc.prems(3) L [of h1 d] unfolding mult_Suc by linarith
    qed (use p(7) Suc.prems(3) in simp)
    moreover have "distinct (map fst (pend N h1 d))" using p(3) Suc.prems(1) by simp
    ultimately obtain h' where "pollWithCQN fuel V d (n - length ps) h1 = Some (Some (map snd (pend N h1 d)), h')"
      "pend N h' = (pend N h1)(d := [])" "since_signal N h' = since_signal N h1"
      "occupied N h' = (\<lambda>i. if i \<in> fst ` set (pend N h1 d) then since_signal N h1 i else occupied N h1 i)"
      using Suc.IH [OF _ n1] by blast
    moreover have "(pend N h1)(d := []) = (pend N h)(d := [])"
    proof
      fix d' show "((pend N h1)(d := [])) d' = ((pend N h)(d := [])) d'" using p(4) by (cases d; cases d') auto
    qed
    ultimately show ?thesis using p Suc by (auto simp: fun_eq_iff image_Un)
  qed
qed

subsection \<open>The send window\<close>

lemma conn_upd:
  "0 < CLIENT_THREAD bd \<Longrightarrow> conn bd (upd_connect bd i g s) k = (if k = i then g (conn bd s i) else conn bd s k)"
  by (auto simp: upd_connect_def connect_of_client_def Let_def) (metis div_mult_mod_eq)

lemma upd_connect_frame [simp]:
  "rp_signalNum (upd_connect bd i g s) = rp_signalNum s" "rp_wr (upd_connect bd i g s) = rp_wr s"
  "rp_wr_strife (upd_connect bd i g s) = rp_wr_strife s" "rp_last_rpc_id (upd_connect bd i g s) = rp_last_rpc_id s"
  "rp_tpcc_delivery (upd_connect bd i g s) = rp_tpcc_delivery s" "rp_now_phase (upd_connect bd i g s) = rp_now_phase s" "rp_log (upd_connect bd i g s) = rp_log s"
  "rp_hw (upd_connect bd i g s) = rp_hw s"
  by (simp_all add: upd_connect_def Let_def)

text \<open>Steps of the window leave the tables and the addresses of the connections alone.\<close>

definition same_setup :: "build \<Rightarrow> 'h reply_t \<Rightarrow> 'h reply_t \<Rightarrow> bool" where
  "same_setup bd s s' \<longleftrightarrow> rp_wr s' = rp_wr s \<and> rp_wr_strife s' = rp_wr_strife s \<and> rp_last_rpc_id s' = rp_last_rpc_id s
     \<and> rp_tpcc_delivery s' = rp_tpcc_delivery s \<and> rp_now_phase s' = rp_now_phase s \<and> (\<forall>k. reply_addr (conn bd s' k) = reply_addr (conn bd s k))"

lemma same_setup_trans [trans]: "same_setup bd s s' \<Longrightarrow> same_setup bd s' s'' \<Longrightarrow> same_setup bd s s''"
  by (simp add: same_setup_def)

lemma fold_credit:
  assumes ct: "0 < CLIENT_THREAD bd"
  shows "distinct ids \<Longrightarrow> \<forall>i\<in>set ids. i < client_total bd \<Longrightarrow>
    (\<forall>k. sendnum (conn bd (fold (credit bd) ids s) k) = sendnum (conn bd s k) - (if k \<in> set ids then 24 else 0))
    \<and> same_setup bd s (fold (credit bd) ids s) \<and> rp_signalNum (fold (credit bd) ids s) = rp_signalNum s
    \<and> rp_log (fold (credit bd) ids s) = rp_log s \<and> rp_hw (fold (credit bd) ids s) = rp_hw s"
proof (induction ids arbitrary: s)
  case Nil
  then show ?case by (simp add: same_setup_def)
next
  case (Cons x ids)
  have x: "credit bd x s = upd_connect bd x (\<lambda>c. c\<lparr>sendnum := sendnum c - 24\<rparr>) s"
    using Cons.prems(2) by (simp add: credit_def)
  have "same_setup bd s (credit bd x s)" by (simp add: x same_setup_def conn_upd [OF ct])
  then show ?case
    using Cons.IH [of "credit bd x s"] Cons.prems by (auto simp: x conn_upd [OF ct] intro: same_setup_trans)
qed

text \<open>The invariant: no connection has more than \<open>b\<close> unacknowledged writes, exactly the connections with
  24 or more have a completion pending, on their own context, and the send queue holds what is
  counted.\<close>

definition pending_of :: "build \<Rightarrow> 'h reply_t \<Rightarrow> bool \<Rightarrow> nat set" where
  "pending_of bd s d = {i. i < client_total bd \<and> ctx_of bd i = d \<and> 24 \<le> sendnum (conn bd s i)}"

definition window_ok :: "build \<Rightarrow> 'h nic_view \<Rightarrow> (nat \<Rightarrow> u64) \<Rightarrow> 'h reply_t \<Rightarrow> bool" where
  "window_ok bd N b s \<longleftrightarrow>
     (\<forall>i<client_total bd. sendnum (conn bd s i) \<le> b i \<and> occupied N (rp_hw s) i = unat (sendnum (conn bd s i))
        \<and> (24 \<le> sendnum (conn bd s i) \<longrightarrow> since_signal N (rp_hw s) i = unat (sendnum (conn bd s i) - 24)))
     \<and> (\<forall>d. distinct (map fst (pend N (rp_hw s) d)) \<and> fst ` set (pend N (rp_hw s) d) = pending_of bd s d
          \<and> map snd (pend N (rp_hw s) d) = map fst (pend N (rp_hw s) d)
          \<and> rp_signalNum s d = of_nat (length (pend N (rp_hw s) d)))"

lemma pending_length:
  assumes "window_ok bd N b s"
  shows "length (pend N (rp_hw s) d) \<le> client_total bd"
proof -
  have "length (pend N (rp_hw s) d) = card (pending_of bd s d)"
    using assms unfolding window_ok_def by (metis distinct_card length_map set_map)
  also have "\<dots> \<le> card {i. i < client_total bd}" by (rule card_mono) (auto simp: pending_of_def)
  finally show ?thesis by simp
qed

lemma window_connD:
  assumes "window_ok bd N b s" "i < client_total bd"
  shows "sendnum (conn bd s i) \<le> b i" "occupied N (rp_hw s) i = unat (sendnum (conn bd s i))"
    "24 \<le> sendnum (conn bd s i) \<Longrightarrow> since_signal N (rp_hw s) i = unat (sendnum (conn bd s i) - 24)"
  using assms by (auto simp: window_ok_def)

lemma window_pendD:
  assumes "window_ok bd N b s"
  shows "distinct (map fst (pend N (rp_hw s) d))" "fst ` set (pend N (rp_hw s) d) = pending_of bd s d"
    "map snd (pend N (rp_hw s) d) = map fst (pend N (rp_hw s) d)" "rp_signalNum s d = of_nat (length (pend N (rp_hw s) d))"
  using assms by (auto simp: window_ok_def)

text \<open>Counting and posting one write.\<close>

definition counted :: "build \<Rightarrow> nat \<Rightarrow> 'h reply_t \<Rightarrow> 'h reply_t" where
  "counted bd i s =
     (let s = upd_connect bd i (\<lambda>c. c\<lparr>sendnum := sendnum c + 1\<rparr>) s
      in if sendnum (conn bd s i) = 24
         then (upd_connect bd i (\<lambda>c. c\<lparr>signal_num := signal_num c + 1\<rparr>) s)
                \<lparr>rp_signalNum := (rp_signalNum s)(ctx_of bd i := rp_signalNum s (ctx_of bd i) + 1)\<rparr>
         else s)"

lemma counted_conn:
  assumes "0 < CLIENT_THREAD bd"
  shows "sendnum (conn bd (counted bd i s) k) = sendnum (conn bd s k) + (if k = i then 1 else 0)"
    "same_setup bd s (counted bd i s)" "rp_log (counted bd i s) = rp_log s" "rp_hw (counted bd i s) = rp_hw s"
    "rp_signalNum (counted bd i s) = (rp_signalNum s)(ctx_of bd i := rp_signalNum s (ctx_of bd i) +
        (if sendnum (conn bd s i) + 1 = 24 then 1 else 0))"
  by (auto simp: counted_def Let_def conn_upd [OF assms] same_setup_def split: if_splits)

lemma small_window:
  fixes x :: u64
  assumes "unat x \<le> 46"
  shows "unat (x + 1) = unat x + 1" "x + 1 = 24 \<longleftrightarrow> unat x = 23" "24 \<le> x \<longleftrightarrow> 24 \<le> unat x"
    "24 \<le> x + 1 \<longleftrightarrow> 23 \<le> unat x" "x + 1 \<le> 47" "x + 1 = 47 \<longleftrightarrow> unat x = 46"
    "23 \<le> unat x \<Longrightarrow> unat (x + 1 - 24) = unat x - 23" "24 \<le> unat x \<Longrightarrow> unat (x - 24) = unat x - 24"
proof -
  show a: "unat (x + 1) = unat x + 1" using assms by (simp add: unat_word_ariths)
  show "x + 1 = 24 \<longleftrightarrow> unat x = 23" "x + 1 = 47 \<longleftrightarrow> unat x = 46" using a by (auto simp: word_unat_eq_iff)
  show "24 \<le> x \<longleftrightarrow> 24 \<le> unat x" "24 \<le> x + 1 \<longleftrightarrow> 23 \<le> unat x" "x + 1 \<le> 47"
    using a assms by (auto simp: word_le_nat_alt)
  show "23 \<le> unat x \<Longrightarrow> unat (x + 1 - 24) = unat x - 23" "24 \<le> unat x \<Longrightarrow> unat (x - 24) = unat x - 24"
    using a by (subst unat_sub; simp add: word_le_nat_alt)+
qed

lemma window_post:
  assumes laws: "verbs_laws V N B" and ct: "0 < CLIENT_THREAD bd" and ok: "window_ok bd N (\<lambda>_. 46) s"
    and i: "i < client_total bd" "wr_wr_id w = i" "wr_signaled w \<longleftrightarrow> sendnum (conn bd (counted bd i s) i) = 24"
  obtains h where "ibv_post_send V (ctx_of bd i) i w (rp_hw (counted bd i s)) = (True, h)"
    "window_ok bd N ((\<lambda>_. 46)(i := 47)) ((counted bd i s)\<lparr>rp_hw := h, rp_log := l\<rparr>)"
proof -
  let ?x = "sendnum (conn bd s i)" and ?d = "ctx_of bd i"
  have x: "unat ?x \<le> 46" using window_connD(1) [OF ok i(1)] by (simp add: word_le_nat_alt)
  note sw = small_window [OF x] and wc = counted_conn [OF ct]
  have sig: "wr_signaled w \<longleftrightarrow> unat ?x = 23" using i(3) sw(2) by (simp add: wc(1))
  have o: "occupied N (rp_hw s) i < 48" using window_connD(2) [OF ok i(1)] x by simp
  have L: "post_law V N" using laws by (simp add: verbs_laws_def)
  obtain h where h: "ibv_post_send V ?d i w (rp_hw s) = (True, h)"
    "pend N h = (pend N (rp_hw s))(?d := pend N (rp_hw s) ?d @ (if unat ?x = 23 then [(i, i)] else []))"
    "occupied N h = (occupied N (rp_hw s))(i := unat ?x + 1)"
    "since_signal N h = (since_signal N (rp_hw s))(i := if unat ?x = 23 then 0 else since_signal N (rp_hw s) i + 1)"
    by (rule post_steps [OF L o, of ?d w]) (simp only: sig i(2) window_connD(2) [OF ok i(1)])
  define s' where "s' = (counted bd i s)\<lparr>rp_hw := h, rp_log := l\<rparr>"
  have c': "sendnum (conn bd s' k) = sendnum (conn bd s k) + (if k = i then 1 else 0)" for k by (simp add: s'_def wc(1))
  have sn: "rp_signalNum s' d = rp_signalNum s d + (if d = ?d \<and> unat ?x = 23 then 1 else 0)" for d
    by (simp add: s'_def wc(5) sw(2))
  have P: "pending_of bd s' d = (if d = ?d \<and> unat ?x = 23 then insert i (pending_of bd s d) else pending_of bd s d)" for d
    using i(1) sw(3,4) by (auto simp: pending_of_def c' split: if_splits)
  have ni: "unat ?x = 23 \<Longrightarrow> i \<notin> pending_of bd s ?d" using sw(3) by (simp add: pending_of_def)
  have "sendnum (conn bd s' k) \<le> ((\<lambda>_. 46)(i := 47)) k \<and> occupied N h k = unat (sendnum (conn bd s' k))
      \<and> (24 \<le> sendnum (conn bd s' k) \<longrightarrow> since_signal N h k = unat (sendnum (conn bd s' k) - 24))"
    if k: "k < client_total bd" for k
  proof (cases "k = i")
    case True
    then show ?thesis using window_connD [OF ok i(1)] sw by (auto simp: c' h)
  next
    case False
    then show ?thesis using window_connD [OF ok k] by (auto simp: c' h)
  qed
  moreover have "distinct (map fst (pend N h d)) \<and> fst ` set (pend N h d) = pending_of bd s' d
      \<and> map snd (pend N h d) = map fst (pend N h d) \<and> rp_signalNum s' d = of_nat (length (pend N h d))" for d
    using window_pendD [OF ok, of d] ni by (auto simp: P h sn)
  ultimately have "window_ok bd N ((\<lambda>_. 46)(i := 47)) s'" by (simp add: window_ok_def s'_def)
  then show thesis using that [of h] h(1) by (simp add: s'_def wc(4))
qed

text \<open>Polling when a connection has 47 unacknowledged writes takes the window back to at most 23 for
  every connection of the context with a completion pending.\<close>

definition polled :: "build \<Rightarrow> bool \<Rightarrow> nat list \<Rightarrow> 'h \<Rightarrow> 'h reply_t \<Rightarrow> 'h reply_t" where
  "polled bd d ids h s =
     (let s = fold (credit bd) ids (s\<lparr>rp_hw := h\<rparr>)
      in s\<lparr>rp_signalNum := (rp_signalNum s)(d := rp_signalNum s d - of_nat (length ids))\<rparr>)"

lemma polled_window:
  assumes ct: "0 < CLIENT_THREAD bd" and ok: "window_ok bd N b s" and b: "\<And>k. b k \<le> 47"
    and h: "pend N h = (pend N (rp_hw s))(d := [])" "since_signal N h = since_signal N (rp_hw s)"
      "occupied N h = (\<lambda>i. if i \<in> fst ` set (pend N (rp_hw s) d) then since_signal N (rp_hw s) i else occupied N (rp_hw s) i)"
  defines "s' \<equiv> polled bd d (map snd (pend N (rp_hw s) d)) h s"
  shows "window_ok bd N (\<lambda>k. if k \<in> pending_of bd s d then 23 else b k) s'" "same_setup bd s s'" "rp_log s' = rp_log s"
    "rp_signalNum s' d = 0"
proof -
  note pe = window_pendD [OF ok]
  have ids: "map snd (pend N (rp_hw s) d) = map fst (pend N (rp_hw s) d)"
    "distinct (map fst (pend N (rp_hw s) d))" "set (map fst (pend N (rp_hw s) d)) = pending_of bd s d" using pe [of d] by auto
  have "\<forall>k\<in>set (map fst (pend N (rp_hw s) d)). k < client_total bd" unfolding ids(3) by (auto simp: pending_of_def)
  note fc = fold_credit [OF ct ids(2) this, of "s\<lparr>rp_hw := h\<rparr>"]
  have cn: "sendnum (conn bd s' k) = sendnum (conn bd s k) - (if k \<in> pending_of bd s d then 24 else 0)" for k
    using fc unfolding s'_def polled_def ids(1) ids(3) [symmetric] by (simp add: Let_def)
  have hw: "rp_hw s' = h" and sn: "rp_signalNum s' = (rp_signalNum s)(d := 0)" and "rp_log s' = rp_log s" "same_setup bd s s'"
    using fc pe(4) [of d] unfolding s'_def polled_def ids(1) by (auto simp: Let_def same_setup_def fun_eq_iff)
  then show "rp_log s' = rp_log s" "same_setup bd s s'" "rp_signalNum s' d = 0" by auto
  have bd24: "24 \<le> sendnum (conn bd s k) \<and> unat (sendnum (conn bd s k)) \<le> 47" if "k \<in> pending_of bd s d" for k
    using that window_connD(1) [OF ok, of k] b [of k] by (auto simp: pending_of_def word_le_nat_alt)
  have small: "unat (sendnum (conn bd s k) - 24) = unat (sendnum (conn bd s k)) - 24" if "k \<in> pending_of bd s d" for k
    using bd24 [OF that] by (simp add: unat_sub)
  have "\<not> 24 \<le> sendnum (conn bd s k) - 24" if "k \<in> pending_of bd s d" for k
    using small [OF that] bd24 [OF that] by (auto simp: word_le_nat_alt)
  then have P: "pending_of bd s' d' = (if d' = d then {} else pending_of bd s d')" for d'
    by (auto simp: pending_of_def cn)
  have "sendnum (conn bd s' k) \<le> (if k \<in> pending_of bd s d then 23 else b k) \<and> occupied N h k = unat (sendnum (conn bd s' k))
      \<and> (24 \<le> sendnum (conn bd s' k) \<longrightarrow> since_signal N h k = unat (sendnum (conn bd s' k) - 24))"
    if k: "k < client_total bd" for k
    using window_connD [OF ok k] bd24 [of k] small [of k] pe(2) [of d]
    by (auto simp: cn h word_le_nat_alt)
  moreover have "distinct (map fst (pend N h d')) \<and> fst ` set (pend N h d') = pending_of bd s' d'
      \<and> map snd (pend N h d') = map fst (pend N h d') \<and> rp_signalNum s' d' = of_nat (length (pend N h d'))" for d'
    using pe [of d'] by (auto simp: P h sn)
  ultimately show "window_ok bd N (\<lambda>k. if k \<in> pending_of bd s d then 23 else b k) s'" by (simp add: window_ok_def hw)
qed

lemma window_mono:
  assumes "window_ok bd N b s" "\<And>k. k < client_total bd \<Longrightarrow> sendnum (conn bd s k) \<le> b' k"
  shows "window_ok bd N b' s"
  using assms by (simp add: window_ok_def)

lemma window_poll:
  assumes laws: "verbs_laws V N B" and ct: "0 < CLIENT_THREAD bd" and total: "client_total bd \<le> 64"
    and ok: "window_ok bd N ((\<lambda>_. 46)(i := 47)) s" and i: "i < client_total bd" and fuel: "64 * (B + 1) + B < fuel"
  shows "\<exists>s'. poll_signal fuel bd V (ctx_of bd i) i (sendnum (conn bd s i) = 47) False s = Some (True, s')
    \<and> window_ok bd N (\<lambda>_. 46) s' \<and> same_setup bd s s' \<and> rp_log s' = rp_log s"
proof -
  let ?d = "ctx_of bd i" and ?p = "pend N (rp_hw s) (ctx_of bd i)"
  have len: "length ?p \<le> 64" using pending_length [OF ok] total by (rule le_trans)
  have sn: "rp_signalNum s ?d = of_nat (length ?p)" by (rule window_pendD(4) [OF ok])
  show ?thesis
  proof (cases "sendnum (conn bd s i) = 47")
    case False
    have "\<not> 2 * BatchSignalSend \<le> rp_signalNum s ?d" using len unfolding sn not_le by (simp add: word_less_nat_alt unat_of_nat_small)
    moreover have "sendnum (conn bd s k) \<le> 46" if "k < client_total bd" for k
    proof (cases "k = i")
      case True
      have "unat (sendnum (conn bd s i)) \<le> 47" using window_connD(1) [OF ok i] by (simp add: word_le_nat_alt)
      moreover have "unat (sendnum (conn bd s i)) \<noteq> 47" using False by (simp add: word_unat_eq_iff)
      ultimately show ?thesis using True by (simp add: word_le_nat_alt)
    qed (use window_connD(1) [OF ok that] in simp)
    ultimately show ?thesis
      using False window_mono [OF ok, of "\<lambda>_. 46"] by (simp add: poll_signal_def same_setup_def)
  next
    case True
    have tb: "take_bit 32 (length ?p) = length ?p" using len by (simp add: take_bit_nat_eq_self_iff)
    have num: "unat (min (64 :: u32) (ucast (rp_signalNum s ?d))) = length ?p"
      using len unfolding sn min_def by (simp add: word_le_nat_alt unat_of_nat_small unsigned_ucast_eq tb)
    have "length ?p * (B + 1) \<le> 64 * (B + 1)" using len by (rule mult_le_mono1)
    moreover have "lag N (rp_hw s) ?d \<le> B" using laws by (simp add: verbs_laws_def)
    ultimately have "length ?p * (B + 1) + lag N (rp_hw s) ?d \<le> fuel" using fuel by linarith
    from poll_all [OF laws window_pendD(1) [OF ok] refl this]
    obtain h where h: "pollWithCQN fuel V ?d (length ?p) (rp_hw s) = Some (Some (map snd ?p), h)"
      "pend N h = (pend N (rp_hw s))(?d := [])" "since_signal N h = since_signal N (rp_hw s)"
      "occupied N h = (\<lambda>k. if k \<in> fst ` set ?p then since_signal N (rp_hw s) k else occupied N (rp_hw s) k)" by blast
    define s' where "s' = polled bd ?d (map snd ?p) h s"
    have b: "((\<lambda>_. 46)(i := 47)) k \<le> (47 :: u64)" for k by simp
    note pw = polled_window [OF ct ok b h(2-4), folded s'_def]
    have ip: "i \<in> pending_of bd s ?d" using i True by (simp add: pending_of_def)
    have "sendnum (conn bd s' i) < 24" using window_connD(1) [OF pw(1) i] ip by (simp add: word_less_nat_alt word_le_nat_alt)
    then have "poll_signal fuel bd V ?d i True False s = Some (True, s')"
      using fuel h(1) unfolding poll_signal_def by (cases fuel) (auto simp: num s'_def polled_def Let_def)
    moreover have "window_ok bd N (\<lambda>_. 46) s'"
      by (rule window_mono [OF pw(1)]) (use window_connD(1) [OF pw(1)] ip in \<open>fastforce simp: word_le_nat_alt split: if_splits\<close>)
    ultimately show ?thesis using True pw(2,3) by auto
  qed
qed

lemma rdma_write_counted:
  "rdma_write_reply_nictx fuel bd V (ctx_of bd i) i w inline_flag s =
     (let s1 = counted bd i s;
          w = w\<lparr>wr_signaled := sendnum (conn bd s1 i) = 24, wr_inline := inline_flag\<rparr>
      in case ibv_post_send V (ctx_of bd i) i w (rp_hw s1) of
           (False, h) \<Rightarrow> Some None
         | (True, h) \<Rightarrow>
             map_option (\<lambda>(ok, s). Some s)
               (poll_signal fuel bd V (ctx_of bd i) i (sendnum (conn bd s1 i) = 47) False (s1\<lparr>rp_hw := h, rp_log := rp_log s1 @ [(i, w)]\<rparr>)))"
  if "0 < CLIENT_THREAD bd"
  by (auto simp: rdma_write_reply_nictx_def counted_def Let_def conn_upd [OF that] split: prod.splits bool.splits)

text \<open>A write request apart from its completion and inline flags.\<close>

definition target :: "nat \<times> send_wr \<Rightarrow> nat \<times> nat \<times> nat \<times> nat" where
  "target = (\<lambda>(i, w). (i, wr_source w, wr_length w, wr_remote_addr w))"

lemma rdma_write_ok:
  assumes "verbs_laws V N B" "0 < CLIENT_THREAD bd" "client_total bd \<le> 64" "window_ok bd N (\<lambda>_. 46) s"
    and "i < client_total bd" "64 * (B + 1) + B < fuel" "wr_wr_id w = i"
  shows "\<exists>s'. rdma_write_reply_nictx fuel bd V (ctx_of bd i) i w inline_flag s = Some (Some s') \<and> window_ok bd N (\<lambda>_. 46) s'
    \<and> same_setup bd s s' \<and> map target (rp_log s') = map target (rp_log s) @ [target (i, w)]"
proof -
  let ?w = "w\<lparr>wr_signaled := sendnum (conn bd (counted bd i s) i) = 24, wr_inline := inline_flag\<rparr>"
  let ?l = "rp_log s @ [(i, ?w)]"
  obtain h where h: "ibv_post_send V (ctx_of bd i) i ?w (rp_hw (counted bd i s)) = (True, h)"
    "window_ok bd N ((\<lambda>_. 46)(i := 47)) ((counted bd i s)\<lparr>rp_hw := h, rp_log := ?l\<rparr>)"
    by (rule window_post [OF assms(1,2,4,5), of ?w ?l]) (use assms(7) in simp_all)
  from window_poll [OF assms(1-3) h(2) assms(5,6)]
  obtain s' where "poll_signal fuel bd V (ctx_of bd i) i (sendnum (conn bd (counted bd i s) i) = 47) False
        ((counted bd i s)\<lparr>rp_hw := h, rp_log := ?l\<rparr>) = Some (True, s')" "window_ok bd N (\<lambda>_. 46) s'"
    "same_setup bd ((counted bd i s)\<lparr>rp_hw := h, rp_log := ?l\<rparr>) s'" "rp_log s' = ?l" by auto
  moreover have "same_setup bd s ((counted bd i s)\<lparr>rp_hw := h, rp_log := ?l\<rparr>)"
    using counted_conn(2) [OF assms(2), of s i] by (simp add: same_setup_def)
  ultimately show ?thesis
    using h(1) by (auto simp: rdma_write_counted [OF assms(2)] Let_def counted_conn(3) [OF assms(2)] target_def
        intro: same_setup_trans)
qed

subsection \<open>The scan answers every finished request\<close>

lemma fold_alive:
  assumes "\<And>x s. x \<in> set xs \<Longrightarrow> P s \<Longrightarrow> \<exists>s'. f x s = Some (Some s') \<and> P s'"
  shows "P s \<Longrightarrow> \<exists>s'. fold (\<lambda>x r. alive (f x) r) xs (Some (Some s)) = Some (Some s') \<and> P s'"
  using assms
proof (induction xs arbitrary: s)
  case (Cons x xs)
  obtain s1 where "f x s = Some (Some s1)" "P s1" using Cons.prems by force
  with Cons.IH [of s1] Cons.prems(2) show ?case by (simp add: alive_def)
qed simp

lemma fold_nested:
  "fold (\<lambda>i r. fold (\<lambda>j r. g i j r) js r) is r = fold (\<lambda>(i, j). g i j) (List.product is js) r"
  by (induction "is" arbitrary: r) (simp_all add: fold_map comp_def)

definition slot_id_of :: "build \<Rightarrow> (nat \<Rightarrow> nat \<Rightarrow> mem) \<Rightarrow> 'h reply_t \<Rightarrow> nat \<Rightarrow> nat \<Rightarrow> u32" where
  "slot_id_of bd mm s i j = reply_rpc_id (mm i j) (get_send_addr bd (conn bd s i) (of_nat j))"

definition slot_wr :: "build \<Rightarrow> (nat \<Rightarrow> nat \<Rightarrow> mem) \<Rightarrow> 'h reply_t \<Rightarrow> nat \<Rightarrow> nat \<Rightarrow> send_wr" where
  "slot_wr bd mm s i j = (if ycsb_plus_t bd
     then (rp_wr s i j)\<lparr>wr_length := 8 + unat (rpc_type (rpc_id_of (rd64 (mm i j) (get_send_addr bd (conn bd s i) (of_nat j))))) * 384\<rparr>
     else rp_wr s i j)"

text \<open>What a scan has to post: one write for every slot whose reply word changed, in order.\<close>

definition due :: "build \<Rightarrow> (nat \<Rightarrow> nat \<Rightarrow> mem) \<Rightarrow> 'h reply_t \<Rightarrow> (nat \<times> nat) list \<Rightarrow> (nat \<times> nat \<times> nat \<times> nat) list" where
  "due bd mm s ps = map (\<lambda>(i, j). target (i, slot_wr bd mm s i j))
     (filter (\<lambda>(i, j). slot_id_of bd mm s i j \<noteq> rp_last_rpc_id s i j) ps)"

definition wr_ok :: "build \<Rightarrow> 'h reply_t \<Rightarrow> bool" where
  "wr_ok bd s \<longleftrightarrow> (\<forall>i<client_total bd. wr_wr_id (rp_wr_strife s i) = i \<and> (\<forall>j<SLOT_NUM_of bd. wr_wr_id (rp_wr s i j) = i))"

lemma slot_step:
  assumes "verbs_laws V N B" "0 < CLIENT_THREAD bd" "client_total bd \<le> 64" "64 * (B + 1) + B < fuel"
    and "window_ok bd N (\<lambda>_. 46) s" "wr_ok bd s" "i < client_total bd" "j < SLOT_NUM_of bd"
  shows "\<exists>s'. reply_slot fuel bd V (mm i j) i j s = Some (Some s') \<and> window_ok bd N (\<lambda>_. 46) s' \<and> wr_ok bd s'
    \<and> map target (rp_log s') = map target (rp_log s) @ due bd mm s [(i, j)]
    \<and> rp_last_rpc_id s' = (rp_last_rpc_id s)(i := (rp_last_rpc_id s i)(j := slot_id_of bd mm s i j))
    \<and> (\<forall>i' j'. (i', j') \<noteq> (i, j) \<longrightarrow> rp_wr s' i' j' = rp_wr s i' j')
    \<and> (\<forall>k. reply_addr (conn bd s' k) = reply_addr (conn bd s k)) \<and> rp_now_phase s' = rp_now_phase s"
proof (cases "slot_id_of bd mm s i j = rp_last_rpc_id s i j")
  case True
  then show ?thesis using assms(5,6) by (auto simp: reply_slot_def slot_id_of_def due_def Let_def)
next
  case False
  let ?s = "s\<lparr>rp_wr := (rp_wr s)(i := (rp_wr s i)(j := slot_wr bd mm s i j)),
    rp_last_rpc_id := (rp_last_rpc_id s)(i := (rp_last_rpc_id s i)(j := slot_id_of bd mm s i j))\<rparr>"
  have "window_ok bd N (\<lambda>_. 46) ?s" using assms(5) by (simp add: window_ok_def pending_of_def)
  moreover have id: "wr_wr_id (slot_wr bd mm s i j) = i" using assms(6-8) by (simp add: wr_ok_def slot_wr_def)
  ultimately obtain s' where s': "rdma_write_reply_nictx fuel bd V (ctx_of bd i) i (slot_wr bd mm s i j)
      (\<not> ycsb_plus_t bd \<or> nullrpc bd) ?s = Some (Some s')" "window_ok bd N (\<lambda>_. 46) s'" "same_setup bd ?s s'"
    "map target (rp_log s') = map target (rp_log s) @ [target (i, slot_wr bd mm s i j)]"
    using rdma_write_ok [OF assms(1-3) _ assms(7,4)] by fastforce
  have "reply_slot fuel bd V (mm i j) i j s = Some (Some s')"
    using False s'(1) by (simp add: reply_slot_def slot_id_of_def slot_wr_def Let_def)
  moreover have "wr_ok bd s'" using assms(6) id s'(3) by (auto simp: wr_ok_def same_setup_def)
  ultimately show ?thesis using s' False by (auto simp: due_def same_setup_def)
qed

lemma due_cong:
  assumes "\<And>k. reply_addr (conn bd s' k) = reply_addr (conn bd s k)"
    and "\<And>i j. (i, j) \<in> set ps \<Longrightarrow> rp_wr s' i j = rp_wr s i j \<and> rp_last_rpc_id s' i j = rp_last_rpc_id s i j"
  shows "due bd mm s' ps = due bd mm s ps"
  using assms by (auto simp: due_def slot_id_of_def slot_wr_def get_send_addr_def intro!: map_cong filter_cong)

lemma pass_steps:
  assumes "verbs_laws V N B" "0 < CLIENT_THREAD bd" "client_total bd \<le> 64" "64 * (B + 1) + B < fuel"
  shows "distinct ps \<Longrightarrow> \<forall>(i, j)\<in>set ps. i < client_total bd \<and> j < SLOT_NUM_of bd \<Longrightarrow>
    window_ok bd N (\<lambda>_. 46) s \<Longrightarrow> wr_ok bd s \<Longrightarrow>
    \<exists>s'. fold (\<lambda>(i, j) r. alive (reply_slot fuel bd V (mm i j) i j) r) ps (Some (Some s)) = Some (Some s')
      \<and> window_ok bd N (\<lambda>_. 46) s' \<and> wr_ok bd s' \<and> map target (rp_log s') = map target (rp_log s) @ due bd mm s ps
      \<and> (\<forall>i j. rp_last_rpc_id s' i j = (if (i, j) \<in> set ps then slot_id_of bd mm s i j else rp_last_rpc_id s i j))
      \<and> rp_now_phase s' = rp_now_phase s"
proof (induction ps arbitrary: s)
  case Nil
  then show ?case by (simp add: due_def)
next
  case (Cons p ps)
  obtain i j where p: "p = (i, j)" by force
  obtain s1 where s1: "reply_slot fuel bd V (mm i j) i j s = Some (Some s1)" "window_ok bd N (\<lambda>_. 46) s1" "wr_ok bd s1"
    "map target (rp_log s1) = map target (rp_log s) @ due bd mm s [(i, j)]"
    "rp_last_rpc_id s1 = (rp_last_rpc_id s)(i := (rp_last_rpc_id s i)(j := slot_id_of bd mm s i j))"
    "\<And>i' j'. (i', j') \<noteq> (i, j) \<Longrightarrow> rp_wr s1 i' j' = rp_wr s i' j'"
    "\<And>k. reply_addr (conn bd s1 k) = reply_addr (conn bd s k)" "rp_now_phase s1 = rp_now_phase s"
    using slot_step [OF assms Cons.prems(3,4), of i j mm] Cons.prems(2) unfolding p by auto
  have last1: "rp_last_rpc_id s1 i' j' = (if (i', j') = (i, j) then slot_id_of bd mm s i j else rp_last_rpc_id s i' j')" for i' j'
    by (simp add: s1(5))
  have "due bd mm s1 ps = due bd mm s ps"
    using Cons.prems(1) by (intro due_cong) (auto simp: p s1(6,7) last1)
  moreover have "slot_id_of bd mm s1 = slot_id_of bd mm s" by (simp add: slot_id_of_def get_send_addr_def s1(7) fun_eq_iff)
  moreover have "due bd mm s (p # ps) = due bd mm s [(i, j)] @ due bd mm s ps" by (simp add: due_def p)
  ultimately show ?case
    using Cons.IH [of s1] Cons.prems s1(1-4,8) by (auto simp: p alive_def last1)
qed

lemma reply_pass_ok:
  assumes "verbs_laws V N B" "0 < CLIENT_THREAD bd" "client_total bd \<le> 64" "64 * (B + 1) + B < fuel"
    and "window_ok bd N (\<lambda>_. 46) s" "wr_ok bd s"
  shows "\<exists>s'. reply_pass fuel bd V mm s = Some (Some s') \<and> window_ok bd N (\<lambda>_. 46) s' \<and> wr_ok bd s'
      \<and> map target (rp_log s') = map target (rp_log s) @ due bd mm s (List.product [0..<client_total bd] [0..<SLOT_NUM_of bd])
      \<and> (\<forall>i<client_total bd. \<forall>j<SLOT_NUM_of bd. rp_last_rpc_id s' i j = slot_id_of bd mm s i j)
      \<and> rp_now_phase s' = rp_now_phase s"
  using pass_steps [OF assms(1-4) _ _ assms(5,6), of "List.product [0..<client_total bd] [0..<SLOT_NUM_of bd]" mm]
  unfolding reply_pass_def fold_nested by (auto simp: distinct_product case_prod_beta)

lemma tpcc_reply_ok:
  assumes "verbs_laws V N B" "0 < CLIENT_THREAD bd" "client_total bd \<le> 64" "64 * (B + 1) + B < fuel"
    and "window_ok bd N (\<lambda>_. 46) s" "wr_ok bd s"
  shows "\<exists>s'. tpcc_reply fuel bd V s = Some (Some s') \<and> window_ok bd N (\<lambda>_. 46) s' \<and> wr_ok bd s'"
  unfolding tpcc_reply_def
proof (rule fold_alive [where P = "\<lambda>s. window_ok bd N (\<lambda>_. 46) s \<and> wr_ok bd s"])
  fix i and s :: "'a reply_t"
  assume i: "i \<in> set [0..<client_total bd]" and ok: "window_ok bd N (\<lambda>_. 46) s \<and> wr_ok bd s"
  let ?s = "s\<lparr>rp_tpcc_delivery := (rp_tpcc_delivery s)(i div CLIENT_THREAD bd :=
    (rp_tpcc_delivery s (i div CLIENT_THREAD bd))(i mod CLIENT_THREAD bd := 0))\<rparr>"
  have "window_ok bd N (\<lambda>_. 46) ?s" using ok by (simp add: window_ok_def pending_of_def)
  moreover have "wr_wr_id (rp_wr_strife s i) = i" using ok i by (simp add: wr_ok_def)
  ultimately obtain s' where "rdma_write_reply_nictx fuel bd V (ctx_of bd i) i (rp_wr_strife s i) False ?s = Some (Some s')"
    "window_ok bd N (\<lambda>_. 46) s'" "same_setup bd ?s s'"
    using rdma_write_ok [OF assms(1-3) _ _ assms(4)] i by fastforce
  then show "\<exists>s'. (let n = i div CLIENT_THREAD bd; t = i mod CLIENT_THREAD bd
         in if rp_tpcc_delivery s n t = 1
            then rdma_write_reply_nictx fuel bd V (ctx_of bd i) i (rp_wr_strife s i) False
                   (s\<lparr>rp_tpcc_delivery := (rp_tpcc_delivery s)(n := (rp_tpcc_delivery s n)(t := 0))\<rparr>)
            else Some (Some s)) = Some (Some s') \<and> window_ok bd N (\<lambda>_. 46) s' \<and> wr_ok bd s'"
    using ok by (auto simp: Let_def wr_ok_def same_setup_def)
qed (use assms in simp)

lemma reply_write_strife_ok:
  assumes "verbs_laws V N B" "0 < CLIENT_THREAD bd" "client_total bd \<le> 64" "64 * (B + 1) + B < fuel"
    and "window_ok bd N (\<lambda>_. 46) s" "wr_ok bd s"
  shows "\<exists>s'. reply_write_strife fuel bd V s = Some (Some s') \<and> window_ok bd N (\<lambda>_. 46) s' \<and> wr_ok bd s'"
  unfolding reply_write_strife_def
proof (rule fold_alive [where P = "\<lambda>s. window_ok bd N (\<lambda>_. 46) s \<and> wr_ok bd s"])
  fix i and s :: "'a reply_t"
  assume i: "i \<in> set [0..<client_total bd]" and ok: "window_ok bd N (\<lambda>_. 46) s \<and> wr_ok bd s"
  then have "wr_wr_id (rp_wr_strife s i) = i" by (simp add: wr_ok_def)
  with ok i obtain s' where "rdma_write_reply_nictx fuel bd V (ctx_of bd i) i (rp_wr_strife s i) False s = Some (Some s')"
    "window_ok bd N (\<lambda>_. 46) s'" "same_setup bd s s'"
    using rdma_write_ok [OF assms(1-3) _ _ assms(4)] by fastforce
  then show "\<exists>s'. rdma_write_reply_nictx fuel bd V (ctx_of bd i) i (rp_wr_strife s i) False s = Some (Some s')
      \<and> window_ok bd N (\<lambda>_. 46) s' \<and> wr_ok bd s'"
    using ok by (auto simp: wr_ok_def same_setup_def)
qed (use assms in simp)

subsection \<open>The thread from its start\<close>

text \<open>The set-up writes the tables of work requests and nothing the window depends on.\<close>

definition same_wires :: "'h reply_t \<Rightarrow> 'h reply_t \<Rightarrow> bool" where
  "same_wires s t \<longleftrightarrow> rp_nc t = rp_nc s \<and> rp_signalNum t = rp_signalNum s \<and> rp_hw t = rp_hw s \<and> rp_log t = rp_log s
     \<and> rp_now_phase t = rp_now_phase s"

lemma same_wires_window: "same_wires s t \<Longrightarrow> window_ok bd N b t = window_ok bd N b s"
  by (simp add: same_wires_def window_ok_def pending_of_def)

lemma fill_slot_wires: "same_wires s t \<Longrightarrow> same_wires s (fill_slot bd i j t)"
  and fill_strife_wires: "same_wires s t \<Longrightarrow> same_wires s (fill_strife bd i t)"
  by (simp_all add: same_wires_def fill_slot_def fill_strife_def Let_def)

lemma init_wires: "same_wires s (reply_init_strife bd (reply_write_init bd s))"
  unfolding reply_init_strife_def reply_write_init_def
  by (rule fold_keeps [of "same_wires s"], rule fold_keeps [of "same_wires s"], simp add: same_wires_def,
      rule fold_keeps [of "same_wires s"]) (auto intro: fill_slot_wires fill_strife_wires)

lemma fill_slot_other: "rp_wr (fill_slot bd i j s) i' j' = (if i' = i \<and> j' = j
    then (fillSgeWr (get_send_addr bd (conn bd s i) (of_nat j)) 8)
       \<lparr>wr_wr_id := i, wr_remote_addr := get_remote_reply_addr_by_id bd (conn bd s i) (of_nat j)\<rparr> else rp_wr s i' j')"
  "rp_nc (fill_slot bd i j s) = rp_nc s" "rp_last_rpc_id (fill_slot bd i j s) = rp_last_rpc_id s"
  by (simp_all add: fill_slot_def Let_def)

lemma fill_row:
  "rp_nc (fold (fill_slot bd i) [0..<n] s) = rp_nc s \<and> rp_last_rpc_id (fold (fill_slot bd i) [0..<n] s) = rp_last_rpc_id s
   \<and> (\<forall>i' j'. rp_wr (fold (fill_slot bd i) [0..<n] s) i' j' = (if i' = i \<and> j' < n
      then (fillSgeWr (get_send_addr bd (conn bd s i) (of_nat j')) 8)
       \<lparr>wr_wr_id := i, wr_remote_addr := get_remote_reply_addr_by_id bd (conn bd s i) (of_nat j')\<rparr> else rp_wr s i' j'))"
  by (induction n) (auto simp: fill_slot_other)

lemma fill_table:
  "rp_nc (fold (\<lambda>i. fold (fill_slot bd i) [0..<m]) [0..<n] s) = rp_nc s
   \<and> rp_last_rpc_id (fold (\<lambda>i. fold (fill_slot bd i) [0..<m]) [0..<n] s) = rp_last_rpc_id s
   \<and> (\<forall>i<n. \<forall>j<m. rp_wr (fold (\<lambda>i. fold (fill_slot bd i) [0..<m]) [0..<n] s) i j =
      (fillSgeWr (get_send_addr bd (conn bd s i) (of_nat j)) 8)
       \<lparr>wr_wr_id := i, wr_remote_addr := get_remote_reply_addr_by_id bd (conn bd s i) (of_nat j)\<rparr>)"
  by (induction n) (auto simp: fill_row less_Suc_eq)

lemma fill_strife_table:
  "rp_wr (fold (fill_strife bd) [0..<n] s) = rp_wr s \<and> rp_last_rpc_id (fold (fill_strife bd) [0..<n] s) = rp_last_rpc_id s
   \<and> (\<forall>i<n. wr_wr_id (rp_wr_strife (fold (fill_strife bd) [0..<n] s) i) = i)"
  by (induction n) (auto simp: fill_strife_def Let_def less_Suc_eq)

lemma init_tables:
  "i < client_total bd \<Longrightarrow> j < SLOT_NUM_of bd \<Longrightarrow> rp_wr (reply_init_strife bd (reply_write_init bd s)) i j =
     (fillSgeWr (get_send_addr bd (conn bd s i) (of_nat j)) 8)
       \<lparr>wr_wr_id := i, wr_remote_addr := get_remote_reply_addr_by_id bd (conn bd s i) (of_nat j)\<rparr>"
  "rp_last_rpc_id (reply_init_strife bd (reply_write_init bd s)) = (\<lambda>_ _. 0)"
  using fill_table [of bd "SLOT_NUM_of bd" "client_total bd" "s\<lparr>rp_last_rpc_id := \<lambda>_ _. 0\<rparr>"]
  by (simp_all add: reply_init_strife_def reply_write_init_def fill_strife_table)

lemma init_wr_ok: "wr_ok bd (reply_init_strife bd (reply_write_init bd s))"
  using fill_strife_table [of bd "client_total bd" "reply_write_init bd s"] init_tables(1) [of _ bd _ s]
  by (simp add: wr_ok_def reply_init_strife_def)

lemma reply_round_ok:
  assumes "verbs_laws V N B" "0 < CLIENT_THREAD bd" "client_total bd \<le> 64" "64 * (B + 1) + B < fuel"
    and ok: "window_ok bd N (\<lambda>_. 46) s" "wr_ok bd s"
  shows "\<exists>s'. reply_round fuel bd V ob s = Some (Some s') \<and> window_ok bd N (\<lambda>_. 46) s' \<and> wr_ok bd s'"
proof -
  note laws = assms(1-4)
  obtain s1 where s1: "reply_pass fuel bd V (ob_mem ob) s = Some (Some s1)" "window_ok bd N (\<lambda>_. 46) s1" "wr_ok bd s1"
    using reply_pass_ok [OF laws ok] by blast
  obtain s2 where s2: "reply_write_strife fuel bd V s1 = Some (Some s2)" "window_ok bd N (\<lambda>_. 46) s2" "wr_ok bd s2"
    using reply_write_strife_ok [OF laws s1(2,3)] by blast
  have phase: "window_ok bd N (\<lambda>_. 46) (t\<lparr>rp_now_phase := q\<rparr>) = window_ok bd N (\<lambda>_. 46) t"
    "wr_ok bd (t\<lparr>rp_now_phase := q\<rparr>) = wr_ok bd t" "window_ok bd N (\<lambda>_. 46) (t\<lparr>rp_tpcc_delivery := d\<rparr>) = window_ok bd N (\<lambda>_. 46) t"
    "wr_ok bd (t\<lparr>rp_tpcc_delivery := d\<rparr>) = wr_ok bd t" for t q d
    by (simp_all add: window_ok_def pending_of_def wr_ok_def)
  show ?thesis
    using s1 s2 tpcc_reply_ok [OF laws, of "s1\<lparr>rp_tpcc_delivery := ob_delivery ob\<rparr>"]
    by (auto simp: reply_round_def phase_sync_strife_def alive_def Let_def phase)
qed

subsection \<open>A completion queue in order, as an instance\<close>

type_synonym fifo_nic = "(bool \<Rightarrow> (nat \<times> nat) list) \<times> (nat \<Rightarrow> nat) \<times> (nat \<Rightarrow> nat)"

definition fifo_verbs :: "fifo_nic verbs" where
  "fifo_verbs = \<lparr>
     ibv_post_send = (\<lambda>d i w (q, occ, since).
       if occ i < 48
       then (True, (q(d := q d @ (if wr_signaled w then [(i, wr_wr_id w)] else [])), occ(i := occ i + 1),
                    since(i := if wr_signaled w then 0 else since i + 1)))
       else (False, (q, occ, since))),
     ibv_poll_cq = (\<lambda>d n (q, occ, since).
       let ps = take n (q d)
       in (Some (map snd ps), (q(d := drop n (q d)), (\<lambda>i. if i \<in> set (map fst ps) then since i else occ i), since)))\<rparr>"

definition fifo_view :: "fifo_nic nic_view" where
  "fifo_view = \<lparr>pend = fst, occupied = fst \<circ> snd, since_signal = snd \<circ> snd, lag = (\<lambda>_ _. 0)\<rparr>"

lemma fifo_laws: "verbs_laws fifo_verbs fifo_view 0"
  by (auto simp: verbs_laws_def post_law_def poll_law_def fifo_verbs_def fifo_view_def Let_def
      intro!: exI [of _ "take _ _"])

definition sample_reply :: "fifo_nic reply_t" where
  "sample_reply = \<lparr>rp_nc = (\<lambda>n t. \<lparr>localBase = 0, remoteAddr = 0, reply_addr = 100000 * n + 10000 * t, remote_reply_addr = 7,
       data_addr = 0, remote_data_addr = 0, curAddr = 0, poolSize = 0, sendnum = 0, signal_num = 0\<rparr>),
     rp_signalNum = (\<lambda>_. 0), rp_wr = (\<lambda>_ _. fillSgeWr 0 0), rp_wr_strife = (\<lambda>_. fillSgeWr 0 0),
     rp_last_rpc_id = (\<lambda>_ _. 0), rp_tpcc_delivery = (\<lambda>_ _. 0), rp_now_phase = 0, rp_log = [],
     rp_hw = ((\<lambda>_. []), (\<lambda>_. 0), (\<lambda>_. 0))\<rparr>"

lemma sample_window: "window_ok bd fifo_view (\<lambda>_. 46) sample_reply"
  by (simp add: window_ok_def pending_of_def sample_reply_def fifo_view_def connect_of_client_def)

subsection \<open>Properties\<close>





lemma begin_fpga_args_fit:
  "a_e_client (begin_fpga_args bd) - a_b_client (begin_fpga_args bd) = 2 * CLIENT_THREAD bd
   \<and> a_MESS_NUM (begin_fpga_args bd) + a_MESS_NUM (begin_fpga_args bd) * a_ip_id (begin_fpga_args bd) div 2 \<le> TOTAL_IP_MESS_N
   \<and> even (a_MESS_NUM (begin_fpga_args bd)) \<and> a_MESS_NUM (begin_fpga_args bd) = MESS_NUM_HOST
   \<and> a_BASE_ADDR (begin_fpga_args bd) = SLOT_LEN * a_SLOT_NUM (begin_fpga_args bd) * a_CLIENT_NUM (begin_fpga_args bd)"
  by (simp add: begin_fpga_args_def)

end
