(* ===== verification/Strife_Barrier.thy ===== *)
theory Strife_Barrier
  imports Rpc_Reply
begin

text \<open>
  The three-phase barrier between the reply thread and the workers of the Strife scheduler.  The
  reply thread reads the phase words of the workers one after the other, while they keep changing,
  and then runs \<open>phase_sync_strife\<close> on what it read.  A worker enters phase 1 when the
  thread announces it, takes stock of its batch and enters phase 2 when the thread announces that,
  executes its batch once the thread is back in phase 0, and then returns to phase 0 itself.
\<close>

subsection \<open>The steps\<close>

record 'h barrier =
  bs_reply :: "'h reply_t"
  bs_phase :: "nat \<Rightarrow> u64"
  bs_batch :: "nat \<Rightarrow> nat"
  bs_seen :: "nat \<Rightarrow> u64"
  bs_read :: nat

abbreviation bs_now :: "'h barrier \<Rightarrow> u64" where
  "bs_now s \<equiv> rp_now_phase (bs_reply s)"

definition init_strife_phase :: "build \<Rightarrow> 'h barrier \<Rightarrow> 'h barrier" where
  "init_strife_phase bd s =
     s\<lparr>bs_reply := (bs_reply s)\<lparr>rp_now_phase := 0\<rparr>,
       bs_phase := fold (\<lambda>i p. p(i := 0)) [0..<MAX_THREAD bd + 2] (bs_phase s)\<rparr>"

text \<open>The steps of a worker, in the order of its loop.\<close>

definition worker_arrive :: "nat \<Rightarrow> 'h barrier \<Rightarrow> 'h barrier" where
  "worker_arrive w s = (if bs_now s = 1 \<and> bs_phase s w = 0 then s\<lparr>bs_phase := (bs_phase s)(w := 1)\<rparr> else s)"

definition worker_store :: "nat \<Rightarrow> nat \<Rightarrow> 'h barrier \<Rightarrow> 'h barrier" where
  "worker_store w n s = (if bs_phase s w = 1 \<and> bs_now s = 2
     then s\<lparr>bs_batch := (bs_batch s)(w := n), bs_phase := (bs_phase s)(w := 2)\<rparr> else s)"

definition worker_run :: "nat \<Rightarrow> 'h barrier \<Rightarrow> 'h barrier" where
  "worker_run w s = (if \<not> (bs_now s = 0 \<and> bs_phase s w = 2) then s
     else if bs_batch s w = 0 then s\<lparr>bs_phase := (bs_phase s)(w := 0)\<rparr>
     else s\<lparr>bs_batch := (bs_batch s)(w := bs_batch s w - 1)\<rparr>)"

inductive strife_step :: "nat \<Rightarrow> build \<Rightarrow> 'h verbs \<Rightarrow> 'h barrier \<Rightarrow> 'h barrier \<Rightarrow> bool" for fuel bd V where
  read: "bs_read s < worker_total bd \<Longrightarrow>
    strife_step fuel bd V s (s\<lparr>bs_seen := (bs_seen s)(bs_read s := bs_phase s (bs_read s)), bs_read := Suc (bs_read s)\<rparr>)"
| sync: "bs_read s = worker_total bd \<Longrightarrow> phase_sync_strife fuel bd V (bs_seen s) full (bs_reply s) = Some (Some r) \<Longrightarrow>
    strife_step fuel bd V s (s\<lparr>bs_reply := r, bs_read := 0\<rparr>)"
| arrive: "w < worker_total bd \<Longrightarrow> strife_step fuel bd V s (worker_arrive w s)"
| store: "w < worker_total bd \<Longrightarrow> strife_step fuel bd V s (worker_store w n s)"
| run: "w < worker_total bd \<Longrightarrow> strife_step fuel bd V s (worker_run w s)"

inductive_cases strife_stepE: "strife_step fuel bd V s s'"

definition strife_run :: "nat \<Rightarrow> build \<Rightarrow> 'h verbs \<Rightarrow> 'h barrier \<Rightarrow> 'h barrier \<Rightarrow> bool" where
  "strife_run fuel bd V = (strife_step fuel bd V)\<^sup>*\<^sup>*"

subsection \<open>What the reply thread's half does to the phase\<close>

lemma worker_flag: "fold (\<lambda>i flag. flag \<and> p i = q) [0..<n] b = (b \<and> (\<forall>i<n. p i = q))"
  by (induction n) (auto simp: less_Suc_eq)

lemma fold_alive_stuck: "(\<And>t. r \<noteq> Some (Some t)) \<Longrightarrow> fold (\<lambda>x r. alive (f x) r) xs r = r"
  by (induction xs) (auto simp: alive_def split: option.split)

lemma fold_alive_keeps:
  assumes step: "\<And>x s s'. P s \<Longrightarrow> f x s = Some (Some s') \<Longrightarrow> P s'"
  shows "fold (\<lambda>x r. alive (f x) r) xs (Some (Some s)) = Some (Some s') \<Longrightarrow> P s \<Longrightarrow> P s'"
proof (induction xs arbitrary: s)
  case (Cons x xs)
  show ?case
  proof (cases "\<exists>s1. f x s = Some (Some s1)")
    case True
    then obtain s1 where s1: "f x s = Some (Some s1)" by blast
    with Cons.prems(1) have "fold (\<lambda>x r. alive (f x) r) xs (Some (Some s1)) = Some (Some s')" by (simp add: alive_def)
    then show ?thesis by (rule Cons.IH) (rule step [OF Cons.prems(2) s1])
  next
    case False
    then have "fold (\<lambda>x r. alive (f x) r) xs (f x s) = f x s" by (intro fold_alive_stuck) simp
    then show ?thesis using Cons.prems(1) False by (simp add: alive_def)
  qed
qed simp

lemma fold_credit_phase: "rp_now_phase (fold (credit bd) ids s) = rp_now_phase s"
  by (rule fold_keeps [of "\<lambda>t. rp_now_phase t = rp_now_phase s"]) (simp_all add: credit_def)

declare poll_loop.simps(2) [simp del]

lemma poll_loop_phase:
  "poll_loop fuel bd V d i pf sy ids n s = Some (ok, s') \<Longrightarrow> rp_now_phase s' = rp_now_phase s"
proof (induction fuel arbitrary: ids n s)
  case (Suc fuel)
  define s1 where "s1 = (fold (credit bd) ids s)\<lparr>rp_signalNum := (rp_signalNum (fold (credit bd) ids s))
      (d := rp_signalNum (fold (credit bd) ids s) d - of_nat n)\<rparr>"
  have s1: "rp_now_phase s1 = rp_now_phase s" by (simp add: s1_def fold_credit_phase)
  have "poll_loop (Suc fuel) bd V d i pf sy ids n s = Some (True, s1)
    \<or> poll_loop (Suc fuel) bd V d i pf sy ids n s = (case pollWithCQN fuel V d 1 (rp_hw s1) of
          None \<Rightarrow> None
        | Some (None, h) \<Rightarrow> Some (False, s1\<lparr>rp_hw := h\<rparr>)
        | Some (Some ids, h) \<Rightarrow> poll_loop fuel bd V d i pf sy ids 1 (s1\<lparr>rp_hw := h\<rparr>))"
    unfolding poll_loop.simps(2) Let_def s1_def [symmetric] by simp
  then show ?case
  proof
    assume "poll_loop (Suc fuel) bd V d i pf sy ids n s = Some (True, s1)"
    then show ?thesis using Suc.prems s1 by simp
  next
    assume "poll_loop (Suc fuel) bd V d i pf sy ids n s = (case pollWithCQN fuel V d 1 (rp_hw s1) of
          None \<Rightarrow> None
        | Some (None, h) \<Rightarrow> Some (False, s1\<lparr>rp_hw := h\<rparr>)
        | Some (Some ids, h) \<Rightarrow> poll_loop fuel bd V d i pf sy ids 1 (s1\<lparr>rp_hw := h\<rparr>))"
    with Suc.prems show ?thesis
      by (auto split: option.splits simp: s1 simp flip: One_nat_def dest!: sym [of "Some _"]) (drule Suc.IH, simp add: s1)
  qed
qed simp

lemma poll_first_phase:
  assumes "(case pollWithCQN fuel V d k (rp_hw s) of
      None \<Rightarrow> None
    | Some (None, h) \<Rightarrow> Some (False, s\<lparr>rp_hw := h\<rparr>)
    | Some (Some ids, h) \<Rightarrow> poll_loop fuel bd V d i pf sy ids k (s\<lparr>rp_hw := h\<rparr>)) = Some (ok, s')"
  shows "rp_now_phase s' = rp_now_phase s"
proof (cases "pollWithCQN fuel V d k (rp_hw s)")
  case (Some a)
  then show ?thesis using assms by (cases a; cases "fst a") (auto dest: poll_loop_phase)
qed (use assms in simp)

lemma poll_signal_phase: "poll_signal fuel bd V d i pf sy s = Some (ok, s') \<Longrightarrow> rp_now_phase s' = rp_now_phase s"
  unfolding poll_signal_def Let_def 
  by (cases "pf \<or> sy \<or> 2 * BatchSignalSend \<le> rp_signalNum s d") (simp_all only: if_True if_False option.inject prod.inject, erule poll_first_phase)

lemma write_phase: "rdma_write_reply_nictx fuel bd V d i w fl s = Some (Some s') \<Longrightarrow> rp_now_phase s' = rp_now_phase s"
  by (auto simp: rdma_write_reply_nictx_def Let_def split: prod.splits bool.splits if_splits dest!: poll_signal_phase)

lemma strife_phase: "reply_write_strife fuel bd V s = Some (Some s') \<Longrightarrow> rp_now_phase s' = rp_now_phase s"
  unfolding reply_write_strife_def
  by (erule fold_alive_keeps [where P = "\<lambda>t. rp_now_phase t = rp_now_phase s", rotated]) (auto dest: write_phase)

lemma sync_phase:
  assumes "phase_sync_strife fuel bd V p full s = Some (Some s')"
  shows "rp_now_phase s' = rp_now_phase s \<or> (\<forall>i<worker_total bd. p i = rp_now_phase s)
    \<and> (rp_now_phase s = 0 \<and> rp_now_phase s' = 1 \<or> rp_now_phase s = 1 \<and> rp_now_phase s' = 2 \<or> rp_now_phase s = 2 \<and> rp_now_phase s' = 0)"
  using assms unfolding phase_sync_strife_def worker_flag
  by (auto simp: alive_def Let_def split: if_splits option.splits)

subsection \<open>The invariant\<close>

definition phase_before :: "u64 \<Rightarrow> u64" where
  "phase_before p = (if p = 0 then 2 else p - 1)"

definition barrier_inv :: "build \<Rightarrow> 'h barrier \<Rightarrow> bool" where
  "barrier_inv bd s \<longleftrightarrow> bs_now s \<in> {0, 1, 2}
     \<and> (\<forall>w<worker_total bd. bs_phase s w = bs_now s \<or> bs_phase s w = phase_before (bs_now s))
     \<and> (\<forall>w<worker_total bd. bs_phase s w = 0 \<longrightarrow> bs_batch s w = 0)
     \<and> (\<forall>k<bs_read s. k < worker_total bd \<and> bs_seen s k = bs_now s \<longrightarrow> bs_phase s k = bs_now s)"

lemma barrier_worker:
  assumes "barrier_inv bd s"
  shows "barrier_inv bd (worker_arrive w s)" "barrier_inv bd (worker_store w n s)" "barrier_inv bd (worker_run w s)"
  using assms by (auto simp: barrier_inv_def worker_arrive_def worker_store_def worker_run_def phase_before_def)

lemma barrier_sync:
  assumes inv: "barrier_inv bd s" and full_scan: "bs_read s = worker_total bd"
    and r: "phase_sync_strife fuel bd V (bs_seen s) full (bs_reply s) = Some (Some r)"
  shows "barrier_inv bd (s\<lparr>bs_reply := r, bs_read := 0\<rparr>)"
    "rp_now_phase r \<noteq> bs_now s \<Longrightarrow> w < worker_total bd \<Longrightarrow> bs_phase s w = bs_now s"
proof -
  note ph = sync_phase [OF r]
  have all: "\<forall>w<worker_total bd. bs_phase s w = bs_now s" if "rp_now_phase r \<noteq> bs_now s"
    using that ph inv full_scan unfolding barrier_inv_def by metis
  then show "rp_now_phase r \<noteq> bs_now s \<Longrightarrow> w < worker_total bd \<Longrightarrow> bs_phase s w = bs_now s" by blast
  show "barrier_inv bd (s\<lparr>bs_reply := r, bs_read := 0\<rparr>)"
    using ph all inv by (auto simp: barrier_inv_def phase_before_def)
qed

lemma barrier_step: "strife_step fuel bd V s s' \<Longrightarrow> barrier_inv bd s \<Longrightarrow> barrier_inv bd s'"
proof (induction rule: strife_step.induct)
  case (read s)
  then show ?case by (auto simp: barrier_inv_def less_Suc_eq)
qed (auto intro: barrier_worker barrier_sync)

lemma barrier_run: "strife_run fuel bd V s s' \<Longrightarrow> barrier_inv bd s \<Longrightarrow> barrier_inv bd s'"
  unfolding strife_run_def by (induction rule: rtranclp_induct) (auto intro: barrier_step)

lemma init_barrier:
  assumes "\<And>w. w < worker_total bd \<Longrightarrow> bs_batch s w = 0" "bs_read s = 0"
  shows "barrier_inv bd (init_strife_phase bd s)"
proof -
  have "fold (\<lambda>i p. p(i := 0)) [0..<n] q = (\<lambda>i. if i < n then 0 else q i)" for n and q :: "nat \<Rightarrow> u64"
    by (induction n) (auto simp: fun_eq_iff)
  then show ?thesis using assms by (auto simp: barrier_inv_def init_strife_phase_def worker_total_def)
qed

text \<open>C12: The reply thread sends the replies of a batch only when the whole batch has been executed.
  In every interleaving of the workers' steps with the thread's reads of their phase words, when the
  thread leaves phase 0 (the step in which it writes the replies), every worker is back in phase 0
  with nothing of its batch left; and whenever a worker may execute, no worker is in phase 1.
  Hypotheses: the run starts from the initialised phases with empty batches.\<close>

theorem strife_replies_after_batch:
  assumes "strife_run fuel bd V (init_strife_phase bd s0) s"
    and "\<And>w. w < worker_total bd \<Longrightarrow> bs_batch s0 w = 0" "bs_read s0 = 0"
  shows "(strife_step fuel bd V s s' \<and> bs_now s = 0 \<and> bs_now s' \<noteq> 0 \<longrightarrow>
            (\<forall>w<worker_total bd. bs_phase s w = 0 \<and> bs_batch s w = 0))
    \<and> (bs_now s = 0 \<and> v < worker_total bd \<and> bs_phase s v = 2 \<longrightarrow>
            (\<forall>w<worker_total bd. bs_phase s w = 2 \<or> bs_phase s w = 0))"
proof -
  have inv: "barrier_inv bd s" using barrier_run [OF assms(1) init_barrier] assms(2,3) by blast
  have "\<forall>w<worker_total bd. bs_phase s w = 0 \<and> bs_batch s w = 0"
    if step: "strife_step fuel bd V s s'" "bs_now s = 0" "bs_now s' \<noteq> 0"
    using step(1)
  proof cases
    case (sync full r)
    have "bs_phase s w = 0" if "w < worker_total bd" for w
      using barrier_sync(2) [OF inv sync(2,3) _ that] sync(1) step(2,3) by simp
    then show ?thesis using inv by (simp add: barrier_inv_def)
  qed (use step(2,3) in \<open>auto simp: worker_arrive_def worker_store_def worker_run_def split: if_splits\<close>)
  moreover have "bs_phase s w = 2 \<or> bs_phase s w = 0" if "bs_now s = 0" "w < worker_total bd" for w
    using inv that by (auto simp: barrier_inv_def phase_before_def)
  ultimately show ?thesis by blast
qed

definition strife_build :: build where
  "strife_build = default_build\<lparr>MAX_THREAD := 1, ycsb_plus_t := True, cpubased := 3\<rparr>"

definition sample_barrier :: "fifo_nic barrier" where
  "sample_barrier = \<lparr>bs_reply = reply_init_strife strife_build (reply_write_init strife_build sample_reply),
     bs_phase = (\<lambda>_. 9), bs_batch = (\<lambda>_. 0), bs_seen = (\<lambda>_. 7), bs_read = 0\<rparr>"

definition scanned_barrier :: "fifo_nic barrier" where
  "scanned_barrier = (init_strife_phase strife_build sample_barrier)\<lparr>bs_seen := (\<lambda>_. 7)(0 := 0), bs_read := 1\<rparr>"

theorem strife_replies_after_batch_witness:
  "\<exists>s'. strife_step 100 strife_build fifo_verbs scanned_barrier s' \<and> bs_now scanned_barrier = 0 \<and> bs_now s' \<noteq> 0
      \<and> bs_phase scanned_barrier 0 = 0 \<and> bs_batch scanned_barrier 0 = 0"
proof -
  let ?bd = strife_build and ?s = "init_strife_phase strife_build sample_barrier"
  have bd: "worker_total ?bd = 1" "client_total ?bd = 48" "CLIENT_THREAD ?bd = 24"
    by (simp_all add: strife_build_def worker_total_def client_total_def default_build_def)
  have s: "bs_read ?s = 0" "bs_phase ?s 0 = 0" "bs_seen ?s = (\<lambda>_. 7)" "bs_now ?s = 0"
    by (simp_all add: init_strife_phase_def sample_barrier_def strife_build_def default_build_def)
  have "strife_step 100 ?bd fifo_verbs ?s scanned_barrier"
    using strife_step.read [of ?s ?bd 100 fifo_verbs] by (simp add: s bd scanned_barrier_def)
  then have run: "strife_run 100 ?bd fifo_verbs ?s scanned_barrier" by (simp add: strife_run_def)
  have reply: "bs_reply scanned_barrier = (reply_init_strife ?bd (reply_write_init ?bd sample_reply))\<lparr>rp_now_phase := 0\<rparr>"
    by (simp add: scanned_barrier_def init_strife_phase_def sample_barrier_def)
  have "window_ok ?bd fifo_view (\<lambda>_. 46) (bs_reply scanned_barrier)" "wr_ok ?bd (bs_reply scanned_barrier)"
    using sample_window [of ?bd] same_wires_window [OF init_wires [of sample_reply ?bd], of ?bd fifo_view "\<lambda>_. 46"] init_wr_ok [of ?bd sample_reply]
    by (simp_all add: reply window_ok_def pending_of_def wr_ok_def)
  from reply_write_strife_ok [OF fifo_laws _ _ _ this, of 100]
  obtain r where "reply_write_strife 100 ?bd fifo_verbs (bs_reply scanned_barrier) = Some (Some r)" by (auto simp: bd)
  then have "phase_sync_strife 100 ?bd fifo_verbs (bs_seen scanned_barrier) True (bs_reply scanned_barrier) = Some (Some (r\<lparr>rp_now_phase := 1\<rparr>))"
    by (simp add: phase_sync_strife_def bd reply alive_def) (simp add: scanned_barrier_def)
  from strife_step.sync [OF _ this]
  have step: "strife_step 100 ?bd fifo_verbs scanned_barrier (scanned_barrier\<lparr>bs_reply := r\<lparr>rp_now_phase := 1\<rparr>, bs_read := 0\<rparr>)"
    by (simp add: bd scanned_barrier_def)
  have "bs_phase scanned_barrier 0 = 0 \<and> bs_batch scanned_barrier 0 = 0"
    using strife_replies_after_batch [OF run, of "scanned_barrier\<lparr>bs_reply := r\<lparr>rp_now_phase := 1\<rparr>, bs_read := 0\<rparr>"] step
    by (simp add: sample_barrier_def reply bd)
  then show ?thesis using step by (intro exI conjI) (assumption, simp_all add: reply)
qed

end
