(* ===== verification/Rcu_Set.thy ===== *)
theory Rcu_Set
  imports Prelude
begin

text \<open>
  Deferred frees of the transaction runtime (\<open>sto-core/TRcu.hh\<close>, \<open>sto-core/TRcu.cc\<close>): the queue of
  callbacks each thread keeps until no other thread can reach the memory they release.  A group is an
  array of elements; an element with a null function is an epoch mark for the calls behind it, so the
  word \<open>el_u\<close> is the union of a mark's epoch and a call's argument.  The groups of a set are a linked
  list, here the list of groups from \<open>first_\<close> on, with \<open>current_\<close> as a position in it.  A failing
  assertion is \<open>None\<close>.  A callback is recorded as its function and argument when it is called; callbacks
  that register further callbacks while the queue is being cleaned are outside the model.

  The abstract contract is a first-in first-out queue of calls tagged with epochs, stated as the locale
  \<open>deferred_calls\<close> and interpreted for \<open>rcu_add\<close> and \<open>rcu_clean_until\<close>.
\<close>

subsection \<open>Groups\<close>

record 'f rcu_element =
  el_function :: "'f option"
  el_u :: u64

record 'f rcu_group =
  rg_head :: nat
  rg_tail :: nat
  rg_capacity :: nat
  rg_epoch :: u64
  rg_e :: "nat \<Rightarrow> 'f rcu_element"

text \<open>The constructor leaves \<open>epoch_\<close> unset; it is read only once a first call has stored it.\<close>

definition group_make :: "nat \<Rightarrow> 'f rcu_group" where
  "group_make cap =
     \<lparr>rg_head = 0, rg_tail = 0, rg_capacity = cap, rg_epoch = 0,
      rg_e = (\<lambda>_. \<lparr>el_function = None, el_u = 0\<rparr>)\<rparr>"

definition group_empty :: "'f rcu_group \<Rightarrow> bool" where
  "group_empty g \<longleftrightarrow> rg_head g = rg_tail g"

definition put_element :: "'f option \<Rightarrow> u64 \<Rightarrow> 'f rcu_group \<Rightarrow> 'f rcu_group" where
  "put_element f u g =
     g\<lparr>rg_e := (rg_e g)(rg_tail g := \<lparr>el_function = f, el_u = u\<rparr>), rg_tail := rg_tail g + 1\<rparr>"

definition group_add :: "u64 \<Rightarrow> 'f \<Rightarrow> u64 \<Rightarrow> 'f rcu_group \<Rightarrow> 'f rcu_group option" where
  "group_add epoch f arg g =
     (if rg_tail g + 2 \<le> rg_capacity g then
        let g = (if rg_head g = rg_tail g \<or> rg_epoch g \<noteq> epoch
                 then (put_element None epoch g)\<lparr>rg_epoch := epoch\<rparr> else g)
        in Some (put_element (Some f) arg g)
      else None)"

text \<open>
  The two nested loops of \<open>TRcuGroup::clean_until\<close>.  The source compares \<open>head_ != tail_\<close>; since
  \<open>head_\<close> never passes \<open>tail_\<close> (\<open>group_ok\<close>) this is \<open>head_ < tail_\<close>.
\<close>

function run_calls :: "(nat \<Rightarrow> 'f rcu_element) \<Rightarrow> nat \<Rightarrow> nat \<Rightarrow> ('f \<times> u64) list \<times> nat" where
  "run_calls e h t =
     (if h < t then
        (case el_function (e h) of
           None \<Rightarrow> ([], h)
         | Some f \<Rightarrow> (let (cs, h') = run_calls e (Suc h) t in ((f, el_u (e h)) # cs, h')))
      else ([], h))"
  by pat_completeness auto
termination by (relation "measure (\<lambda>(e, h, t). t - h)") auto

declare run_calls.simps [simp del]

lemma run_calls_ge: "h \<le> snd (run_calls e h t)"
  by (induction e h t rule: run_calls.induct)
    (subst run_calls.simps, auto split: option.splits prod.splits)

definition epoch_due :: "u64 \<Rightarrow> u64 \<Rightarrow> bool" where
  "epoch_due max_epoch epoch \<longleftrightarrow> 0 < sint (max_epoch - epoch)"

function clean_loop ::
  "u64 \<Rightarrow> (nat \<Rightarrow> 'f rcu_element) \<Rightarrow> nat \<Rightarrow> nat \<Rightarrow> ('f \<times> u64) list \<times> nat" where
  "clean_loop max_epoch e h t =
     (if h < t \<and> epoch_due max_epoch (el_u (e h)) then
        let r = run_calls e (Suc h) t; q = clean_loop max_epoch e (snd r) t
        in (fst r @ fst q, snd q)
      else ([], h))"
  by pat_completeness auto
termination
  by (relation "measure (\<lambda>(m, e, h, t). t - h)")
    (auto, use run_calls_ge in \<open>metis Suc_le_lessD diff_less_mono2 order_less_le_trans\<close>)

declare clean_loop.simps [simp del]

definition group_clean_until ::
  "u64 \<Rightarrow> 'f rcu_group \<Rightarrow> ('f \<times> u64) list \<times> bool \<times> 'f rcu_group" where
  "group_clean_until max_epoch g =
     (let (cs, h) = clean_loop max_epoch (rg_e g) (rg_head g) (rg_tail g)
      in if h = rg_tail g then (cs, True, g\<lparr>rg_head := 0, rg_tail := 0\<rparr>)
         else (cs, False, g\<lparr>rg_head := h\<rparr>))"

subsection \<open>Sets\<close>

record 'f rcu_set =
  rs_groups :: "'f rcu_group list"
  rs_current :: nat
  rs_clean_epoch :: u64

definition sizeof_group :: nat where "sizeof_group = 48"
definition sizeof_element :: nat where "sizeof_element = 16"

definition rcu_new :: "'f rcu_set" where
  "rcu_new = \<lparr>rs_groups = [group_make ((4080 - sizeof_group) div sizeof_element)],
     rs_current = 0, rs_clean_epoch = 0\<rparr>"

definition rcu_empty :: "'f rcu_set \<Rightarrow> bool" where
  "rcu_empty s \<longleftrightarrow> group_empty (hd (rs_groups s))"

definition rcu_grow :: "'f rcu_set \<Rightarrow> 'f rcu_set option" where
  "rcu_grow s =
     (let gs = (if rs_current s + 1 = length (rs_groups s)
                then rs_groups s @ [group_make ((16368 - sizeof_group) div sizeof_element)]
                else rs_groups s);
          c = rs_current s + 1
      in if rg_head (gs ! c) = 0 \<and> rg_tail (gs ! c) = 0
         then Some (s\<lparr>rs_groups := gs, rs_current := c\<rparr>) else None)"

definition rcu_add :: "u64 \<Rightarrow> 'f \<Rightarrow> u64 \<Rightarrow> 'f rcu_set \<Rightarrow> 'f rcu_set option" where
  "rcu_add epoch f arg s =
     (let g = rs_groups s ! rs_current s
      in case (if rg_tail g + 2 > rg_capacity g then rcu_grow s else Some s) of
           None \<Rightarrow> None
         | Some s \<Rightarrow>
             map_option (\<lambda>g. s\<lparr>rs_groups := (rs_groups s)[rs_current s := g]\<rparr>)
               (group_add epoch f arg (rs_groups s ! rs_current s)))"

text \<open>
  The loop over \<open>[first_, current_]\<close>: the calls made, the groups it emptied, what \<open>first_\<close> then heads,
  the distance to \<open>current_\<close>, and whether the loop left through the \<open>return\<close>.
\<close>

fun clean_groups ::
  "u64 \<Rightarrow> nat \<Rightarrow> 'f rcu_group list \<Rightarrow>
   ('f \<times> u64) list \<times> 'f rcu_group list \<times> 'f rcu_group list \<times> nat \<times> bool" where
  "clean_groups m c [] = ([], [], [], c, False)"
| "clean_groups m c (g # gs) =
     (let (cs, emptied, g') = group_clean_until m g
      in if \<not> emptied then (cs, [], g' # gs, c, False)
         else if c = 0 then (cs, [g'], gs, 0, True)
         else (let (ds, es, rest, c', ret) = clean_groups m (c - 1) gs
               in (cs @ ds, g' # es, rest, c', ret)))"

definition hard_clean_until :: "u64 \<Rightarrow> 'f rcu_set \<Rightarrow> ('f \<times> u64) list \<times> 'f rcu_set" where
  "hard_clean_until m s =
     (let (cs, es, rest, c, ret) = clean_groups m (rs_current s) (rs_groups s)
      in (cs, if ret then s\<lparr>rs_groups := es @ rest, rs_current := 0\<rparr>
              else s\<lparr>rs_groups := take (Suc c) rest @ es @ drop (Suc c) rest, rs_current := c\<rparr>))"

definition rcu_clean_until :: "u64 \<Rightarrow> 'f rcu_set \<Rightarrow> ('f \<times> u64) list \<times> 'f rcu_set" where
  "rcu_clean_until m s =
     (let (cs, s) = (if rs_clean_epoch s \<noteq> m then hard_clean_until m s else ([], s))
      in (cs, s\<lparr>rs_clean_epoch := m\<rparr>))"

subsection \<open>The queue a set stands for\<close>

type_synonym 'f deferred = "u64 \<times> 'f \<times> u64"

primrec elements_view :: "u64 \<Rightarrow> 'f rcu_element list \<Rightarrow> 'f deferred list" where
  "elements_view ep [] = []"
| "elements_view ep (x # xs) =
     (case el_function x of
        None \<Rightarrow> elements_view (el_u x) xs
      | Some f \<Rightarrow> (ep, f, el_u x) # elements_view ep xs)"

primrec last_mark :: "u64 \<Rightarrow> 'f rcu_element list \<Rightarrow> u64" where
  "last_mark ep [] = ep"
| "last_mark ep (x # xs) =
     last_mark (case el_function x of None \<Rightarrow> el_u x | Some f \<Rightarrow> ep) xs"

definition live :: "'f rcu_group \<Rightarrow> 'f rcu_element list" where
  "live g = map (rg_e g) [rg_head g..<rg_tail g]"

definition group_view :: "'f rcu_group \<Rightarrow> 'f deferred list" where
  "group_view g = elements_view 0 (live g)"

text \<open>Every mark is followed by a call of its epoch.\<close>

primrec marks_used :: "'f rcu_element list \<Rightarrow> bool" where
  "marks_used [] = True"
| "marks_used (x # xs) =
     ((el_function x = None \<longrightarrow> xs \<noteq> [] \<and> el_function (hd xs) \<noteq> None) \<and> marks_used xs)"

definition group_ok :: "'f rcu_group \<Rightarrow> bool" where
  "group_ok g \<longleftrightarrow> rg_head g \<le> rg_tail g \<and> rg_tail g \<le> rg_capacity g \<and> 2 \<le> rg_capacity g \<and>
     marks_used (live g) \<and> (rg_head g = rg_tail g \<longrightarrow> rg_tail g = 0) \<and>
     (rg_head g < rg_tail g \<longrightarrow> el_function (rg_e g (rg_head g)) = None \<and> last_mark 0 (live g) = rg_epoch g)"

definition group_fresh :: "'f rcu_group \<Rightarrow> bool" where
  "group_fresh g \<longleftrightarrow> rg_head g = 0 \<and> rg_tail g = 0"

text \<open>What \<open>TRcuSet::check\<close> asserts: groups before the current one hold calls, those after it are reset.\<close>

definition set_check :: "'f rcu_set \<Rightarrow> bool" where
  "set_check s \<longleftrightarrow> rs_current s < length (rs_groups s) \<and> list_all group_ok (rs_groups s) \<and>
     list_all (\<lambda>g. \<not> group_empty g) (take (rs_current s) (rs_groups s)) \<and>
     list_all group_fresh (drop (Suc (rs_current s)) (rs_groups s))"

definition set_view :: "'f rcu_set \<Rightarrow> 'f deferred list" where
  "set_view s = concat (map group_view (rs_groups s))"

definition call_due :: "u64 \<Rightarrow> 'f deferred \<Rightarrow> bool" where
  "call_due m d \<longleftrightarrow> epoch_due m (fst d)"

subsection \<open>Groups implement the queue\<close>

lemma upt_elements: "h < t \<Longrightarrow> map e [h..<t] = e h # map e [Suc h..<t]"
  by (simp add: upt_conv_Cons)

definition is_call :: "'f rcu_element \<Rightarrow> bool" where
  "is_call x \<longleftrightarrow> el_function x \<noteq> None"

definition call_of :: "'f rcu_element \<Rightarrow> 'f \<times> u64" where
  "call_of x = (the (el_function x), el_u x)"

lemma call_simps:
  "el_function x = None \<Longrightarrow> \<not> is_call x"
  "el_function x = Some f \<Longrightarrow> is_call x"
  "el_function x = Some f \<Longrightarrow> call_of x = (f, el_u x)"
  by (simp_all add: is_call_def call_of_def)

lemma run_calls_list:
  "h \<le> t \<Longrightarrow> run_calls e h t =
     (map call_of (takeWhile is_call (map e [h..<t])), h + length (takeWhile is_call (map e [h..<t])))"
proof (induction e h t rule: run_calls.induct)
  case (1 e h t)
  show ?case
  proof (cases "h < t")
    case True
    with 1 show ?thesis
      by (subst run_calls.simps)
        (auto simp: upt_elements call_simps split: option.splits)
  next
    case False
    then show ?thesis by (subst run_calls.simps) simp
  qed
qed

lemma calls_view:
  "elements_view ep xs =
     map (Pair ep) (map call_of (takeWhile is_call xs)) @ elements_view z (dropWhile is_call xs)"
  by (induction xs) (auto simp: call_simps split: option.splits)

lemma calls_mark:
  "last_mark ep xs = (if dropWhile is_call xs = [] then ep else last_mark z (dropWhile is_call xs))"
  by (induction xs) (auto simp: call_simps split: option.splits)

lemma marks_used_drop: "marks_used xs \<Longrightarrow> marks_used (drop n xs)"
  by (induction xs arbitrary: n) (auto simp: drop_Cons split: nat.splits)

text \<open>The state of the live elements: they start with a mark, and every mark is used.\<close>

definition blocks :: "'f rcu_element list \<Rightarrow> bool" where
  "blocks xs \<longleftrightarrow> marks_used xs \<and> (xs \<noteq> [] \<longrightarrow> \<not> is_call (hd xs))"

lemma blocks_rest: "blocks (x # xs) \<Longrightarrow> blocks (dropWhile is_call xs)"
  using marks_used_drop [of xs "length (takeWhile is_call xs)"] hd_dropWhile [of is_call xs]
  by (simp add: blocks_def dropWhile_eq_drop)

lemma blocks_first:
  assumes "blocks (x # xs)"
  shows "elements_view ep (x # xs) =
    map (Pair (el_u x)) (map call_of (takeWhile is_call xs)) @ elements_view z (dropWhile is_call xs)"
    and "takeWhile is_call xs \<noteq> []"
  using assms calls_view [of "el_u x" xs z]
  by (auto simp: blocks_def is_call_def neq_Nil_conv split: option.splits)

lemma blocks_head: "blocks (x # xs) \<Longrightarrow> el_function x = None"
  by (simp add: blocks_def is_call_def)

lemma blocks_mark:
  assumes "blocks (x # xs)"
  shows "last_mark ep (x # xs) =
    (if dropWhile is_call xs = [] then el_u x else last_mark z (dropWhile is_call xs))"
  using assms calls_mark [of "el_u x" xs z]
  by (auto simp: blocks_def call_simps split: option.splits)

text \<open>The due prefix of a queue is what \<open>clean_loop\<close> calls; the rest stays live.\<close>

lemma clean_loop_view:
  assumes "h \<le> t" "blocks (map e [h..<t])" "clean_loop m e h t = (cs, h')"
  shows "h \<le> h' \<and> h' \<le> t \<and> blocks (map e [h'..<t]) \<and>
    cs = map snd (takeWhile (call_due m) (elements_view ep (map e [h..<t]))) \<and>
    elements_view z (map e [h'..<t]) = dropWhile (call_due m) (elements_view ep (map e [h..<t])) \<and>
    (h' < t \<longrightarrow> last_mark z (map e [h'..<t]) = last_mark ep (map e [h..<t]))"
  using assms
proof (induction m e h t arbitrary: cs h' ep rule: clean_loop.induct)
  case (1 m e h t)
  let ?xs = "map e [Suc h..<t]"
  show ?case
  proof (cases "h < t \<and> epoch_due m (el_u (e h))")
    case False
    then have q: "cs = []" "h' = h"
      using 1(4) by (auto simp: clean_loop.simps [of m e h t])
    show ?thesis
    proof (cases "h < t")
      case True
      have b: "blocks (e h # ?xs)" using 1(3) True by (simp add: upt_elements)
      then show ?thesis
        using False True q blocks_first(1) [OF b, of ep z] blocks_first(2) [OF b] 1(2,3) blocks_head [OF b]
        by (auto simp: upt_elements neq_Nil_conv call_due_def)
    qed (use q 1(2,3) in \<open>simp add: blocks_def\<close>)
  next
    case True
    then have b: "blocks (e h # ?xs)" using 1(3) by (simp add: upt_elements)
    define k where "k = Suc h + length (takeWhile is_call ?xs)"
    define C where "C = map call_of (takeWhile is_call ?xs)"
    define W where "W = elements_view z (map e [k..<t])"
    have rest: "map e [k..<t] = dropWhile is_call ?xs"
      by (simp add: k_def dropWhile_eq_drop drop_map)
    have k: "k \<le> t"
      using True length_takeWhile_le [of is_call ?xs] by (auto simp: k_def)
    have r: "run_calls e (Suc h) t = (C, k)"
      using True by (simp add: run_calls_list C_def k_def)
    obtain ds where q: "clean_loop m e k t = (ds, h')" "cs = C @ ds"
      using 1(4) [unfolded clean_loop.simps [of m e h t]] True
      by (cases "clean_loop m e k t") (auto simp: r Let_def)
    have V: "elements_view ep (map e [h..<t]) = map (Pair (el_u (e h))) C @ W"
      using blocks_first(1) [OF b, of ep z] True by (simp add: upt_elements C_def W_def rest)
    have due: "takeWhile (call_due m) (map (Pair (el_u (e h))) C @ W) =
        map (Pair (el_u (e h))) C @ takeWhile (call_due m) W"
      "dropWhile (call_due m) (map (Pair (el_u (e h))) C @ W) = dropWhile (call_due m) W"
      using True by (auto simp: call_due_def takeWhile_append dropWhile_append)
    have mark: "last_mark ep (map e [h..<t]) = last_mark z (map e [k..<t])" if "k < t"
      using that blocks_mark [OF b, of ep z] True rest [symmetric] by (simp add: upt_elements)
    have IH: "k \<le> h' \<and> h' \<le> t \<and> blocks (map e [h'..<t]) \<and> ds = map snd (takeWhile (call_due m) W) \<and>
        elements_view z (map e [h'..<t]) = dropWhile (call_due m) W \<and>
        (h' < t \<longrightarrow> last_mark z (map e [h'..<t]) = last_mark z (map e [k..<t]))"
      using 1(1) [OF True refl, of ds h' z] k blocks_rest [OF b] q(1) by (simp add: r W_def rest)
    have hk: "h \<le> k" by (simp add: k_def)
    have "map snd (map (Pair (el_u (e h))) C) = C" by (simp add: comp_def)
    with IH hk k mark q(2) show ?thesis unfolding V due map_append
      by (metis order_le_less_trans order_trans)
  qed
qed

lemma live_blocks: "group_ok g \<Longrightarrow> blocks (live g)"
  by (auto simp: group_ok_def blocks_def live_def is_call_def upt_conv_Cons)

lemma group_clean_view:
  assumes ok: "group_ok g" and c: "group_clean_until m g = (cs, emptied, g')"
  shows "cs = map snd (takeWhile (call_due m) (group_view g))"
    and "group_view g' = dropWhile (call_due m) (group_view g)"
    and "group_ok g'"
    and "emptied \<longleftrightarrow> group_fresh g'"
    and "emptied \<longleftrightarrow> group_view g' = []"
    and "\<not> emptied \<Longrightarrow> \<not> group_empty g'"
proof -
  obtain h where h: "clean_loop m (rg_e g) (rg_head g) (rg_tail g) = (cs, h)"
    using c by (auto simp: group_clean_until_def Let_def split: prod.splits if_splits)
  have ht: "rg_head g \<le> rg_tail g" using ok by (simp add: group_ok_def)
  have v: "rg_head g \<le> h" "h \<le> rg_tail g" "blocks (map (rg_e g) [h..<rg_tail g])"
    "cs = map snd (takeWhile (call_due m) (group_view g))"
    "elements_view 0 (map (rg_e g) [h..<rg_tail g]) = dropWhile (call_due m) (group_view g)"
    "h < rg_tail g \<Longrightarrow> last_mark 0 (map (rg_e g) [h..<rg_tail g]) = last_mark 0 (live g)"
    using clean_loop_view [OF ht _ h, of 0 0] live_blocks [OF ok]
    by (auto simp: group_view_def live_def)
  have g': "emptied \<longleftrightarrow> h = rg_tail g"
    "g' = (if h = rg_tail g then g\<lparr>rg_head := 0, rg_tail := 0\<rparr> else g\<lparr>rg_head := h\<rparr>)"
    using c h by (auto simp: group_clean_until_def split: if_splits)
  show "cs = map snd (takeWhile (call_due m) (group_view g))" by (fact v(4))
  show "group_view g' = dropWhile (call_due m) (group_view g)"
    using v(5) g' by (auto simp: group_view_def live_def)
  show "group_ok g'"
  proof (cases "h = rg_tail g")
    case False
    then have "el_function (rg_e g h) = None" "marks_used (map (rg_e g) [h..<rg_tail g])"
      using v(2,3) by (auto simp: blocks_def is_call_def upt_elements simp del: marks_used.simps)
    moreover have "last_mark 0 (map (rg_e g) [h..<rg_tail g]) = rg_epoch g"
      using v(1,2,6) ok False by (auto simp: group_ok_def)
    ultimately show ?thesis
      using ok v(2) False g' by (simp add: group_ok_def live_def)
  qed (use ok g' in \<open>simp add: group_ok_def live_def\<close>)
  show "emptied \<longleftrightarrow> group_fresh g'"
    using v(1,2) g' ok by (auto simp: group_fresh_def group_ok_def)
  show "\<not> emptied \<Longrightarrow> \<not> group_empty g'"
    using v(1,2) g' by (auto simp: group_empty_def)
  have "h < rg_tail g \<Longrightarrow> elements_view 0 (map (rg_e g) [h..<rg_tail g]) \<noteq> []"
    using v(3) blocks_first(1) [of "rg_e g h" "map (rg_e g) [Suc h..<rg_tail g]" 0 0]
      blocks_first(2) [of "rg_e g h" "map (rg_e g) [Suc h..<rg_tail g]"]
    by (simp add: upt_elements)
  then show "emptied \<longleftrightarrow> group_view g' = []"
    using v(2) g' by (auto simp: group_view_def live_def)
qed

lemma elements_view_append:
  "elements_view ep (xs @ ys) = elements_view ep xs @ elements_view (last_mark ep xs) ys"
  by (induction xs arbitrary: ep) (auto split: option.splits)

lemma last_mark_append: "last_mark ep (xs @ ys) = last_mark (last_mark ep xs) ys"
  by (induction xs arbitrary: ep) auto

lemma marks_used_append:
  "marks_used xs \<Longrightarrow> marks_used ys \<Longrightarrow> marks_used (xs @ ys)"
  by (induction xs) auto

lemma live_put:
  "rg_head g \<le> rg_tail g \<Longrightarrow> live (put_element f u g) = live g @ [\<lparr>el_function = f, el_u = u\<rparr>]"
  by (simp add: live_def put_element_def)

lemma group_add_view:
  assumes "group_ok g" "rg_tail g + 2 \<le> rg_capacity g"
  shows "\<exists>g'. group_add epoch f arg g = Some g' \<and> group_ok g' \<and> \<not> group_empty g' \<and>
    group_view g' = group_view g @ [(epoch, f, arg)]"
proof -
  let ?new = "rg_head g = rg_tail g \<or> rg_epoch g \<noteq> epoch"
  let ?h = "if ?new then (put_element None epoch g)\<lparr>rg_epoch := epoch\<rparr> else g"
  let ?g = "put_element (Some f) arg ?h"
  let ?xs = "(if ?new then [\<lparr>el_function = None, el_u = epoch\<rparr>] else []) @
    [\<lparr>el_function = Some f, el_u = arg\<rparr>]"
  have ht: "rg_head g \<le> rg_tail g" using assms by (simp add: group_ok_def)
  have bounds: "rg_head ?g = rg_head g" "rg_tail ?g \<le> rg_tail g + 2" "rg_tail g < rg_tail ?g"
    "rg_capacity ?g = rg_capacity g" "rg_epoch ?g = epoch"
    by (auto simp: put_element_def)
  have head: "el_function (rg_e ?g (rg_head g)) = None"
    using assms ht by (auto simp: put_element_def group_ok_def)
  have live: "live ?g = live g @ ?xs"
    using ht by (auto simp: live_put) (simp_all add: live_def put_element_def)
  have mark: "last_mark 0 (live g) = epoch" if "\<not> ?new"
    using that assms ht by (auto simp: group_ok_def)
  show ?thesis
    using assms bounds head mark ht
    by (auto simp: group_add_def group_ok_def group_view_def live group_empty_def Let_def
        elements_view_append last_mark_append intro!: marks_used_append)
qed

subsection \<open>Sets implement the queue\<close>

definition groups_view :: "'f rcu_group list \<Rightarrow> 'f deferred list" where
  "groups_view gs = concat (map group_view gs)"

lemma groups_view_simps [simp]:
  "groups_view [] = []"
  "groups_view (g # gs) = group_view g @ groups_view gs"
  "groups_view (gs @ hs) = groups_view gs @ groups_view hs"
  by (simp_all add: groups_view_def)

lemma fresh_view [simp]: "group_fresh g \<Longrightarrow> group_view g = []"
  by (simp add: group_fresh_def group_view_def live_def)

lemma fresh_groups_view: "list_all group_fresh gs \<Longrightarrow> groups_view gs = []"
  by (induction gs) auto

definition groups_check :: "nat \<Rightarrow> 'f rcu_group list \<Rightarrow> bool" where
  "groups_check c gs \<longleftrightarrow> c < length gs \<and> list_all group_ok gs \<and>
     list_all (\<lambda>g. \<not> group_empty g) (take c gs) \<and> list_all group_fresh (drop (Suc c) gs)"

lemma set_check_groups: "set_check s = groups_check (rs_current s) (rs_groups s)"
  by (simp add: set_check_def groups_check_def)

lemma groups_check_Cons:
  "groups_check c (g # gs) \<longleftrightarrow> group_ok g \<and>
     (case c of 0 \<Rightarrow> list_all group_ok gs \<and> list_all group_fresh gs
      | Suc c \<Rightarrow> \<not> group_empty g \<and> groups_check c gs)"
  by (auto simp: groups_check_def split: nat.splits)

lemma clean_groups_view:
  assumes "groups_check c gs" "clean_groups m c gs = (cs, es, rest, c', ret)"
  shows "cs = map snd (takeWhile (call_due m) (groups_view gs)) \<and>
    groups_view rest = dropWhile (call_due m) (groups_view gs) \<and>
    list_all group_fresh es \<and> list_all group_ok es \<and> list_all group_ok rest \<and>
    (if ret then es \<noteq> [] \<and> list_all group_fresh rest else groups_check c' rest)"
  using assms
proof (induction gs arbitrary: c cs es rest c' ret)
  case Nil
  then show ?case by (simp add: groups_check_def)
next
  case (Cons g gs)
  obtain bs emptied g' where b: "group_clean_until m g = (bs, emptied, g')"
    by (cases "group_clean_until m g") auto
  have ok: "group_ok g" using Cons.prems by (simp add: groups_check_Cons)
  note v = group_clean_view [OF ok b]
  show ?case
  proof (cases emptied)
    case False
    then have "cs = bs" "es = []" "rest = g' # gs" "c' = c" "\<not> ret"
      using Cons.prems(2) b by auto
    moreover have "dropWhile (call_due m) (group_view g) \<noteq> []"
      using v(2,5) False by simp
    moreover have "groups_check c (g' # gs)"
      using Cons.prems(1) v(3,6) False by (auto simp: groups_check_Cons split: nat.splits)
    ultimately show ?thesis
      using v False
      by (auto simp: groups_check_def takeWhile_append dropWhile_append)
  next
    case True
    then have all: "\<forall>x\<in>set (group_view g). call_due m x"
      using v(2,5) by simp
    then have bs: "bs = map snd (group_view g)"
      using v(1) by (metis takeWhile_eq_all_conv)
    show ?thesis
    proof (cases c)
      case 0
      with True Cons.prems b v(1-4) show ?thesis
        by (auto simp: groups_check_Cons fresh_groups_view)
    next
      case (Suc n)
      with Cons.prems True b obtain ds es' where
        r: "clean_groups m n gs = (ds, es', rest, c', ret)" "cs = bs @ ds" "es = g' # es'"
        by (auto split: prod.splits)
      show ?thesis
        using Cons.IH [OF _ r(1)] Cons.prems(1) Suc True all v(3,4) bs r(2,3)
        by (auto simp: groups_check_Cons takeWhile_append dropWhile_append split: if_splits)
    qed
  qed
qed

lemma groups_check_hook:
  "groups_check c rest \<Longrightarrow> list_all group_fresh es \<Longrightarrow> list_all group_ok es \<Longrightarrow>
   groups_check c (take (Suc c) rest @ es @ drop (Suc c) rest)"
  by (auto simp: groups_check_def min_def list_all_iff dest: in_set_takeD in_set_dropD)

lemma set_view_groups: "set_view s = groups_view (rs_groups s)"
  by (simp add: set_view_def groups_view_def)

lemma rcu_clean_view:
  assumes "set_check s"
  shows "set_check (snd (rcu_clean_until m s)) \<and>
    (rs_clean_epoch s \<noteq> m \<longrightarrow>
      fst (rcu_clean_until m s) = map snd (takeWhile (call_due m) (set_view s)) \<and>
      set_view (snd (rcu_clean_until m s)) = dropWhile (call_due m) (set_view s))"
proof (cases "rs_clean_epoch s = m")
  case True
  then show ?thesis using assms by (simp add: rcu_clean_until_def set_check_groups)
next
  case False
  obtain cs es rest c ret where q: "clean_groups m (rs_current s) (rs_groups s) = (cs, es, rest, c, ret)"
    by (cases "clean_groups m (rs_current s) (rs_groups s)") auto
  note v = clean_groups_view [OF assms [unfolded set_check_groups] q]
  have hook: "groups_check c (take (Suc c) rest @ es @ drop (Suc c) rest)" if "\<not> ret"
    by (rule groups_check_hook) (use v that in simp_all)
  have "groups_view (take (Suc c) rest @ es @ drop (Suc c) rest) =
      groups_view (take (Suc c) rest @ drop (Suc c) rest)"
    using v by (simp only: groups_view_simps fresh_groups_view) simp
  then have "groups_view (take (Suc c) rest @ es @ drop (Suc c) rest) = groups_view rest"
    by (simp only: append_take_drop_id)
  moreover have "groups_check 0 (es @ rest)" if ret
    using v that by (auto simp: groups_check_def list_all_iff dest: in_set_dropD)
  ultimately show ?thesis
    using False v hook q fresh_groups_view
    by (cases ret) (auto simp: rcu_clean_until_def hard_clean_until_def set_check_groups set_view_groups)
qed

lemma groups_view_split:
  "c < length gs \<Longrightarrow> list_all group_fresh (drop (Suc c) gs) \<Longrightarrow>
   groups_view gs = groups_view (take c gs) @ group_view (gs ! c)"
  using id_take_nth_drop [of c gs] groups_view_simps(3) [of "take c gs" "gs ! c # drop (Suc c) gs"]
  by (simp add: fresh_groups_view)

lemma full_nonempty: "group_ok g \<Longrightarrow> rg_capacity g < rg_tail g + 2 \<Longrightarrow> \<not> group_empty g"
  by (auto simp: group_ok_def group_empty_def)

lemma make_ok: "2 \<le> cap \<Longrightarrow> group_ok (group_make cap)" "group_fresh (group_make cap)"
  by (simp_all add: group_make_def group_ok_def group_fresh_def live_def)

lemma groups_check_next:
  assumes "groups_check c gs" "\<not> group_empty (gs ! c)" "Suc c < length gs"
  shows "groups_check (Suc c) gs" "group_fresh (gs ! Suc c)"
  using assms
proof (induction gs arbitrary: c)
  case (Cons g gs)
  { case 1 with Cons show ?case by (cases c; cases gs) (auto simp: groups_check_Cons) }
  { case 2 with Cons show ?case by (cases c; cases gs) (auto simp: groups_check_Cons) }
qed simp_all

lemma groups_check_grown:
  "groups_check c gs \<Longrightarrow> group_ok g \<Longrightarrow> group_fresh g \<Longrightarrow> groups_check c (gs @ [g])"
  by (auto simp: groups_check_def list_all_iff)

lemma grow_view:
  assumes "set_check s" "rg_tail (rs_groups s ! rs_current s) + 2 > rg_capacity (rs_groups s ! rs_current s)"
  shows "\<exists>s'. rcu_grow s = Some s' \<and> set_check s' \<and> rs_clean_epoch s' = rs_clean_epoch s \<and>
    set_view s' = set_view s \<and> group_fresh (rs_groups s' ! rs_current s') \<and>
    2 \<le> rg_capacity (rs_groups s' ! rs_current s')"
proof -
  let ?c = "rs_current s"
  let ?new = "group_make ((16368 - sizeof_group) div sizeof_element) :: 'a rcu_group"
  let ?gs = "if ?c + 1 = length (rs_groups s) then rs_groups s @ [?new] else rs_groups s"
  have s: "groups_check ?c (rs_groups s)" using assms(1) by (simp add: set_check_groups)
  have new: "group_ok ?new" "group_fresh ?new"
    by (rule make_ok, simp add: sizeof_group_def sizeof_element_def, rule make_ok)
  have gs: "groups_check ?c ?gs" "Suc ?c < length ?gs" "?gs ! ?c = rs_groups s ! ?c"
    using s new groups_check_grown [of ?c "rs_groups s" ?new]
    by (auto simp: groups_check_def nth_append)
  have "\<not> group_empty (?gs ! ?c)"
    unfolding gs(3) by (rule full_nonempty [OF _ assms(2)])
      (use s in \<open>simp add: groups_check_def list_all_length\<close>)
  note n = groups_check_next [OF gs(1) this gs(2)]
  have "groups_view ?gs = groups_view (rs_groups s)" using new by auto
  moreover have "2 \<le> rg_capacity (?gs ! Suc ?c)"
    using n(1) by (auto simp: groups_check_def list_all_length group_ok_def)
  ultimately show ?thesis
    using n by (simp add: rcu_grow_def set_check_groups set_view_groups group_fresh_def Let_def)
qed

lemma add_here_view:
  assumes "set_check s" "rg_tail (rs_groups s ! rs_current s) + 2 \<le> rg_capacity (rs_groups s ! rs_current s)"
  shows "\<exists>g. group_add epoch f arg (rs_groups s ! rs_current s) = Some g \<and>
    set_check (s\<lparr>rs_groups := (rs_groups s)[rs_current s := g]\<rparr>) \<and>
    set_view (s\<lparr>rs_groups := (rs_groups s)[rs_current s := g]\<rparr>) = set_view s @ [(epoch, f, arg)]"
proof -
  have s: "groups_check (rs_current s) (rs_groups s)" using assms(1) by (simp add: set_check_groups)
  then have "group_ok (rs_groups s ! rs_current s)" by (simp add: groups_check_def list_all_length)
  from group_add_view [OF this assms(2), of epoch f arg] obtain g where
    g: "group_add epoch f arg (rs_groups s ! rs_current s) = Some g" "group_ok g"
       "group_view g = group_view (rs_groups s ! rs_current s) @ [(epoch, f, arg)]"
    by auto
  have "groups_check (rs_current s) ((rs_groups s)[rs_current s := g])"
    using s g(2) by (auto simp: groups_check_def list_all_length nth_list_update)
  moreover have "groups_view ((rs_groups s)[rs_current s := g]) =
      groups_view (rs_groups s) @ [(epoch, f, arg)]"
    using s g(3) groups_view_split [of "rs_current s" "rs_groups s"]
      groups_view_split [of "rs_current s" "(rs_groups s)[rs_current s := g]"]
    by (simp add: groups_check_def)
  ultimately show ?thesis using g(1) by (simp add: set_check_groups set_view_groups)
qed

lemma rcu_add_view:
  assumes "set_check s"
  shows "\<exists>s'. rcu_add epoch f arg s = Some s' \<and> set_check s' \<and> rs_clean_epoch s' = rs_clean_epoch s \<and>
    set_view s' = set_view s @ [(epoch, f, arg)]"
proof (cases "rg_tail (rs_groups s ! rs_current s) + 2 > rg_capacity (rs_groups s ! rs_current s)")
  case True
  from grow_view [OF assms True] obtain t where t: "rcu_grow s = Some t" "set_check t"
    "rs_clean_epoch t = rs_clean_epoch s" "set_view t = set_view s"
    "rg_tail (rs_groups t ! rs_current t) + 2 \<le> rg_capacity (rs_groups t ! rs_current t)"
    by (auto simp: group_fresh_def)
  with add_here_view [OF t(2,5), of epoch f arg] True show ?thesis
    by (auto simp: rcu_add_def Let_def)
next
  case False
  with add_here_view [OF assms, of epoch f arg] show ?thesis
    by (auto simp: rcu_add_def Let_def)
qed

subsection \<open>The contract, and what follows from it\<close>

datatype 'f deferred_op = Register u64 'f u64 | Clean u64

fun deferred_run ::
  "(u64 \<Rightarrow> 'f \<Rightarrow> u64 \<Rightarrow> 's \<Rightarrow> 's option) \<Rightarrow> (u64 \<Rightarrow> 's \<Rightarrow> ('f \<times> u64) list \<times> 's) \<Rightarrow>
   'f deferred_op list \<Rightarrow> 's \<Rightarrow> (('f \<times> u64) list \<times> 's) option" where
  "deferred_run add clean [] s = Some ([], s)"
| "deferred_run add clean (Register ep f a # ops) s =
     (case add ep f a s of None \<Rightarrow> None | Some s \<Rightarrow> deferred_run add clean ops s)"
| "deferred_run add clean (Clean m # ops) s =
     (let (cs, s) = clean m s
      in map_option (\<lambda>(ds, s). (cs @ ds, s)) (deferred_run add clean ops s))"

fun registered :: "'f deferred_op list \<Rightarrow> ('f \<times> u64) list" where
  "registered [] = []"
| "registered (Register ep f a # ops) = (f, a) # registered ops"
| "registered (Clean m # ops) = registered ops"

locale deferred_calls =
  fixes ok :: "'s \<Rightarrow> bool"
    and view :: "'s \<Rightarrow> 'f deferred list"
    and add :: "u64 \<Rightarrow> 'f \<Rightarrow> u64 \<Rightarrow> 's \<Rightarrow> 's option"
    and clean :: "u64 \<Rightarrow> 's \<Rightarrow> ('f \<times> u64) list \<times> 's"
  assumes add_law: "ok s \<Longrightarrow> \<exists>s'. add ep f a s = Some s' \<and> ok s' \<and> view s' = view s @ [(ep, f, a)]"
    and clean_law: "ok s \<Longrightarrow> ok (snd (clean m s)) \<and>
      (\<exists>n. fst (clean m s) = map snd (take n (view s)) \<and> view (snd (clean m s)) = drop n (view s))"
begin

lemma run_once:
  "ok s \<Longrightarrow> \<exists>cs s'. deferred_run add clean ops s = Some (cs, s') \<and> ok s' \<and>
     cs @ map snd (view s') = map snd (view s) @ registered ops"
proof (induction ops arbitrary: s rule: registered.induct)
  case 1
  then show ?case by simp
next
  case (2 ep f a ops)
  from add_law [OF 2(2), of ep f a] obtain t where
    t: "add ep f a s = Some t" "ok t" "view t = view s @ [(ep, f, a)]" by auto
  from 2(1) [OF t(2)] t show ?case by auto
next
  case (3 m ops)
  obtain bs t where c: "clean m s = (bs, t)" by (cases "clean m s")
  with clean_law [OF 3(2), of m] obtain n where
    n: "ok t" "bs = map snd (take n (view s))" "view t = drop n (view s)" by auto
  from 3(1) [OF n(1)] obtain cs s' where
    r: "deferred_run add clean ops t = Some (cs, s')" "ok s'"
       "cs @ map snd (view s') = map snd (view t) @ registered ops" by auto
  have whole: "map snd (take n (view s)) @ map snd (drop n (view s)) = map snd (view s)"
    by (simp flip: map_append)
  have "(bs @ cs) @ map snd (view s') = bs @ (cs @ map snd (view s'))" by (rule append_assoc)
  also have "\<dots> = (bs @ map snd (view t)) @ registered ops" using r(3) by (simp only: append_assoc)
  also have "bs @ map snd (view t) = map snd (view s)" using whole n(2,3) by simp
  finally show ?case using r(1,2) c by simp
qed

end

lemma takeWhile_take: "\<exists>n. takeWhile P xs = take n xs \<and> dropWhile P xs = drop n xs"
  by (rule exI [of _ "length (takeWhile P xs)"]) (simp add: takeWhile_eq_take [symmetric] dropWhile_eq_drop)

interpretation rcu: deferred_calls set_check set_view rcu_add rcu_clean_until
proof
  fix s :: "'a rcu_set" and ep f a m
  assume s: "set_check s"
  show "\<exists>s'. rcu_add ep f a s = Some s' \<and> set_check s' \<and> set_view s' = set_view s @ [(ep, f, a)]"
    using rcu_add_view [OF s] by blast
  have "\<exists>n. fst (rcu_clean_until m s) = map snd (take n (set_view s)) \<and>
      set_view (snd (rcu_clean_until m s)) = drop n (set_view s)"
  proof (cases "rs_clean_epoch s = m")
    case True
    then show ?thesis by (intro exI [of _ 0]) (simp add: rcu_clean_until_def set_view_def)
  next
    case False
    obtain n where "takeWhile (call_due m) (set_view s) = take n (set_view s)"
      "dropWhile (call_due m) (set_view s) = drop n (set_view s)"
      using takeWhile_take by blast
    with rcu_clean_view [OF s, of m] False show ?thesis by auto
  qed
  with rcu_clean_view [OF s, of m]
  show "set_check (snd (rcu_clean_until m s)) \<and>
      (\<exists>n. fst (rcu_clean_until m s) = map snd (take n (set_view s)) \<and>
        set_view (snd (rcu_clean_until m s)) = drop n (set_view s))" by blast
qed

lemma rcu_new_check: "set_check rcu_new" "set_view rcu_new = []"
  by (simp_all add: rcu_new_def set_check_def set_view_def make_ok sizeof_group_def sizeof_element_def)

text \<open>C31: Deferred frees (\<open>TRcuSet\<close>).  Whatever sequence of registrations and cleanings a thread makes on
  a new set, no assertion of the groups fails, and the calls made so far followed by the calls still
  queued are exactly the registered ones, in order: nothing is lost, run twice or reordered, however
  the groups grow and are recycled.  The structure \<open>TRcuSet::check\<close> asserts is kept.\<close>

theorem rcu_calls_exactly_once:
  "\<exists>cs s. deferred_run rcu_add rcu_clean_until ops rcu_new = Some (cs, s) \<and> set_check s \<and>
     cs @ map snd (set_view s) = registered ops"
  using rcu.run_once [OF rcu_new_check(1), of ops] by (simp add: rcu_new_check)

text \<open>C18: Cleaning refines the abstract queue.  On a well-formed set whose last cleaning was for another
  epoch, \<open>clean_until\<close> runs exactly the longest prefix of the queue whose epochs lie before the given
  one (in the signed, wrap-around comparison of epochs) and keeps the rest.\<close>

theorem rcu_clean_refines:
  assumes "set_check s" "rs_clean_epoch s \<noteq> m"
  shows "fst (rcu_clean_until m s) = map snd (takeWhile (call_due m) (set_view s)) \<and>
    set_view (snd (rcu_clean_until m s)) = dropWhile (call_due m) (set_view s) \<and>
    set_check (snd (rcu_clean_until m s)) \<and> rs_clean_epoch (snd (rcu_clean_until m s)) = m"
  using rcu_clean_view [OF assms(1), of m] assms(2)
  by (auto simp: rcu_clean_until_def hard_clean_until_def split: prod.splits)

lemma rcu_add_the:
  assumes "set_check s"
  shows "set_check (the (rcu_add epoch f arg s))"
    "rs_clean_epoch (the (rcu_add epoch f arg s)) = rs_clean_epoch s"
    "set_view (the (rcu_add epoch f arg s)) = set_view s @ [(epoch, f, arg)]"
  using rcu_add_view [OF assms, of epoch f arg] by auto

definition rcu_example :: "nat rcu_set" where
  "rcu_example = the (rcu_add 6 9 3 (the (rcu_add 4 8 2 (the (rcu_add 4 7 1 rcu_new)))))"

lemma rcu_example_eval:
  "set_check rcu_example" "rs_clean_epoch rcu_example = 0"
  "set_view rcu_example = [(4, 7, 1), (4, 8, 2), (6, 9, 3)]"
  by (simp_all add: rcu_example_def rcu_add_the rcu_new_check) (simp add: rcu_new_def)

theorem rcu_clean_refines_witness:
  "fst (rcu_clean_until 5 rcu_example) = [(7, 1), (8, 2)] \<and>
   set_view (snd (rcu_clean_until 5 rcu_example)) = [(6, 9, 3)]"
proof -
  have "rs_clean_epoch rcu_example \<noteq> 5" by (simp add: rcu_example_eval)
  from rcu_clean_refines [OF rcu_example_eval(1) this] show ?thesis
    by (simp add: rcu_example_eval call_due_def epoch_due_def)
qed

end
