(* ===== verification/Epochs.thy ===== *)
theory Epochs
  imports Rcu_Set
begin

text \<open>
  Epoch-based reclamation (\<open>Transaction::epoch_advancer\<close>, \<open>Transaction::start\<close>, \<open>Transaction::rcu_call\<close> of
  \<open>sto-core/Transaction.cc\<close> and \<open>Transaction.hh\<close>) on top of the callback queues of \<open>Rcu_Set\<close>.

  One advancer thread and \<open>N\<close> worker threads share \<open>global_epoch\<close>, \<open>read_epoch\<close> and \<open>active_epoch\<close>.  The
  step relation \<open>epoch_step\<close> interleaves their individual loads and stores, one per step, in the order of
  the code; every load is sequentially consistent.  A worker's program counter says how far its \<open>start\<close>
  has come.  The entries of \<open>tinfo\<close> no thread uses are zero and skipped by the advancer, so only the
  \<open>N\<close> used ones appear; every worker has run one \<open>start\<close> before the advancer's first pass.

  A clock that ticks when a callback is registered and when a worker loads its read epoch orders these
  events: a callback is identified by its registration time, and \<open>th_begin\<close> is the time of the load that
  gave \<open>th_epoch\<close>.  They are bookkeeping of the model and influence no operation.
\<close>

subsection \<open>The advancer's computations\<close>

text \<open>\<open>signed_epoch_type(a - b) < 0\<close>\<close>

definition epoch_before :: "u64 \<Rightarrow> u64 \<Rightarrow> bool" where
  "epoch_before a b \<longleftrightarrow> sint (a - b) < 0"

definition scan_thread :: "u64 \<Rightarrow> u64 \<Rightarrow> u64 \<times> u64 \<Rightarrow> u64 \<times> u64" where
  "scan_thread twepoch trepoch = (\<lambda>(re, ae).
     (if twepoch \<noteq> 0 \<and> epoch_before twepoch re then twepoch else re,
      if trepoch \<noteq> 0 \<and> epoch_before trepoch ae then trepoch else ae))"

definition next_global :: "u64 \<Rightarrow> u64" where
  "next_global ge = max (ge + 1) 1"

subsection \<open>State\<close>

datatype advancer_pc =
    Adv_idle
  | Adv_scan nat u64 u64
  | Adv_store_read u64 u64
  | Adv_store_active u64

datatype worker_pc =
    W_idle
  | W_loaded_global u64
  | W_stored_write
  | W_loaded_read u64 nat
  | W_stored_epoch
  | W_loaded_active u64
  | W_running

record worker_thread =
  th_wse :: u64
  th_epoch :: u64
  th_rcu :: "nat rcu_set"
  th_pc :: worker_pc
  th_begin :: nat

record epoch_state =
  es_global :: u64
  es_read :: u64
  es_active :: u64
  es_advancer :: advancer_pc
  es_threads :: "nat \<Rightarrow> worker_thread"
  es_clock :: nat

definition upd_thread :: "nat \<Rightarrow> (worker_thread \<Rightarrow> worker_thread) \<Rightarrow> epoch_state \<Rightarrow> epoch_state" where
  "upd_thread i f s = s\<lparr>es_threads := (es_threads s)(i := f (es_threads s i))\<rparr>"

definition epoch_initial :: epoch_state where
  "epoch_initial = \<lparr>es_global = 2, es_read = 1, es_active = 0, es_advancer = Adv_idle,
     es_threads = (\<lambda>_. \<lparr>th_wse = 2, th_epoch = 1, th_rcu = rcu_new, th_pc = W_running, th_begin = 0\<rparr>),
     es_clock = 1\<rparr>"

subsection \<open>Steps\<close>

definition rcu_call :: "nat \<Rightarrow> u64 \<Rightarrow> worker_thread \<Rightarrow> worker_thread option" where
  "rcu_call f argument t = map_option (\<lambda>r. t\<lparr>th_rcu := r\<rparr>) (rcu_add (th_wse t) f argument (th_rcu t))"

definition start_clean :: "u64 \<Rightarrow> worker_thread \<Rightarrow> worker_thread" where
  "start_clean ae t = t\<lparr>th_rcu := snd (rcu_clean_until ae (th_rcu t)), th_pc := W_running\<rparr>"

inductive epoch_step :: "nat \<Rightarrow> epoch_state \<Rightarrow> epoch_state \<Rightarrow> bool" for N where
  adv_begin:
    "es_advancer s = Adv_idle \<Longrightarrow>
     epoch_step N s (s\<lparr>es_advancer := Adv_scan 0 (es_global s) (es_read s)\<rparr>)"
| adv_scan:
    "es_advancer s = Adv_scan k re ae \<Longrightarrow> k < N \<Longrightarrow>
     scan_thread (th_wse (es_threads s k)) (th_epoch (es_threads s k)) (re, ae) = (re', ae') \<Longrightarrow>
     epoch_step N s (s\<lparr>es_advancer := Adv_scan (Suc k) re' ae'\<rparr>)"
| adv_global:
    "es_advancer s = Adv_scan N re ae \<Longrightarrow>
     epoch_step N s (s\<lparr>es_global := next_global (es_global s), es_advancer := Adv_store_read re ae\<rparr>)"
| adv_read:
    "es_advancer s = Adv_store_read re ae \<Longrightarrow>
     epoch_step N s (s\<lparr>es_read := re, es_advancer := Adv_store_active ae\<rparr>)"
| adv_active:
    "es_advancer s = Adv_store_active ae \<Longrightarrow>
     epoch_step N s (s\<lparr>es_active := ae, es_advancer := Adv_idle\<rparr>)"
| start_load_global:
    "i < N \<Longrightarrow> th_pc (es_threads s i) = W_idle \<Longrightarrow>
     epoch_step N s (upd_thread i (\<lambda>t. t\<lparr>th_pc := W_loaded_global (es_global s)\<rparr>) s)"
| start_store_write:
    "i < N \<Longrightarrow> th_pc (es_threads s i) = W_loaded_global g \<Longrightarrow>
     epoch_step N s (upd_thread i (\<lambda>t. t\<lparr>th_wse := g, th_pc := W_stored_write\<rparr>) s)"
| start_load_read:
    "i < N \<Longrightarrow> th_pc (es_threads s i) = W_stored_write \<Longrightarrow>
     epoch_step N s (upd_thread i (\<lambda>t. t\<lparr>th_pc := W_loaded_read (es_read s) (es_clock s)\<rparr>)
       (s\<lparr>es_clock := Suc (es_clock s)\<rparr>))"
| start_store_epoch:
    "i < N \<Longrightarrow> th_pc (es_threads s i) = W_loaded_read r b \<Longrightarrow>
     epoch_step N s (upd_thread i (\<lambda>t. t\<lparr>th_epoch := r, th_begin := b, th_pc := W_stored_epoch\<rparr>) s)"
| start_load_active:
    "i < N \<Longrightarrow> th_pc (es_threads s i) = W_stored_epoch \<Longrightarrow>
     epoch_step N s (upd_thread i (\<lambda>t. t\<lparr>th_pc := W_loaded_active (es_active s)\<rparr>) s)"
| start_clean_until:
    "i < N \<Longrightarrow> th_pc (es_threads s i) = W_loaded_active a \<Longrightarrow>
     epoch_step N s (upd_thread i (start_clean a) s)"
| register:
    "i < N \<Longrightarrow> th_pc (es_threads s i) = W_running \<Longrightarrow>
     rcu_call (es_clock s) argument (es_threads s i) = Some t \<Longrightarrow>
     epoch_step N s (upd_thread i (\<lambda>_. t) (s\<lparr>es_clock := Suc (es_clock s)\<rparr>))"
| stop:
    "i < N \<Longrightarrow> th_pc (es_threads s i) = W_running \<Longrightarrow>
     epoch_step N s (upd_thread i (\<lambda>t. t\<lparr>th_pc := W_idle\<rparr>) s)"

text \<open>The same operations run without interference: one pass of the advancer's loop, and \<open>start\<close>.\<close>

definition epoch_pass :: "nat \<Rightarrow> epoch_state \<Rightarrow> epoch_state" where
  "epoch_pass N s =
     (let (re, ae) = fold (\<lambda>i. scan_thread (th_wse (es_threads s i)) (th_epoch (es_threads s i))) [0..<N]
                       (es_global s, es_read s)
      in s\<lparr>es_global := next_global (es_global s), es_read := re, es_active := ae\<rparr>)"

definition start_load :: "nat \<Rightarrow> epoch_state \<Rightarrow> epoch_state" where
  "start_load i s =
     upd_thread i (\<lambda>t. t\<lparr>th_wse := es_global s, th_epoch := es_read s, th_begin := es_clock s,
         th_pc := W_loaded_active (es_active s)\<rparr>)
       (s\<lparr>es_clock := Suc (es_clock s)\<rparr>)"

definition start_thread :: "nat \<Rightarrow> epoch_state \<Rightarrow> epoch_state" where
  "start_thread i s = upd_thread i (start_clean (es_active s)) (start_load i s)"

text \<open>Executions of fewer than \<open>2^63\<close> epochs; at the default 10 ms an epoch this is over a billion years.\<close>

definition epoch_bound :: nat where "epoch_bound = 2 ^ 63"

definition epoch_run :: "nat \<Rightarrow> epoch_state \<Rightarrow> epoch_state \<Rightarrow> bool" where
  "epoch_run N = (\<lambda>s s'. epoch_step N s s' \<and> unat (es_global s') < epoch_bound)\<^sup>*\<^sup>*"

subsection \<open>Signed comparison of epochs in range\<close>

lemma epoch_uint: "unat (a :: u64) < epoch_bound \<longleftrightarrow> uint a < 2 ^ 63"
proof -
  have "unat a < 2 ^ 63 \<longleftrightarrow> int (unat a) < int (2 ^ 63)" by (simp only: of_nat_less_iff)
  also have "int (2 ^ 63) = 2 ^ 63" by (simp only: of_nat_power of_nat_numeral)
  also have "int (unat a) = uint a" by simp
  finally show ?thesis unfolding epoch_bound_def .
qed

lemma sint_small: "unat a < epoch_bound \<Longrightarrow> sint (a :: u64) = uint a"
  unfolding epoch_uint sint_uint
  by (rule signed_take_bit_int_eq_self) (simp_all add: order_trans [OF _ uint_ge_0])

lemma sint_diff_small:
  assumes "unat a < epoch_bound" "unat b < epoch_bound"
  shows "sint (a - b :: u64) = uint a - uint b"
proof -
  have "uint a < 2 ^ 63" "uint b < 2 ^ 63" using assms by (simp_all only: epoch_uint)
  with uint_ge_0 [of a] uint_ge_0 [of b]
  have "- (2 ^ 63) \<le> uint a - uint b" "uint a - uint b < 2 ^ 63" by linarith+
  then show ?thesis
    unfolding sint_word_diff sint_small [OF assms(1)] sint_small [OF assms(2)]
    by (intro signed_take_bit_int_eq_self) simp_all
qed

lemma epoch_before_less:
  "unat a < epoch_bound \<Longrightarrow> unat b < epoch_bound \<Longrightarrow> epoch_before a b \<longleftrightarrow> a < b"
  by (simp add: epoch_before_def sint_diff_small word_less_def)

lemma epoch_due_less:
  "unat a < epoch_bound \<Longrightarrow> unat b < epoch_bound \<Longrightarrow> epoch_due a b \<longleftrightarrow> b < a"
  by (simp add: epoch_due_def sint_diff_small word_less_def)

lemma scan_thread_min:
  assumes "unat tw < epoch_bound" "unat tr < epoch_bound" "unat re < epoch_bound" "unat ae < epoch_bound"
    "tw \<noteq> 0" "tr \<noteq> 0"
  shows "scan_thread tw tr (re, ae) = (min tw re, min tr ae)"
  using assms by (auto simp: scan_thread_def epoch_before_less min_def)

lemma next_global_grows: "unat g < epoch_bound \<Longrightarrow> g < next_global g"
  by (auto simp: next_global_def epoch_bound_def word_less_nat_alt unat_word_ariths max_def word_le_nat_alt)

subsection \<open>Invariant\<close>

definition shared_inv :: "epoch_state \<Rightarrow> bool" where
  "shared_inv s \<longleftrightarrow> unat (es_global s) < epoch_bound \<and> es_active s \<le> es_read s \<and> es_read s \<le> es_global s"

definition thread_inv :: "epoch_state \<Rightarrow> worker_thread \<Rightarrow> bool" where
  "thread_inv s t \<longleftrightarrow> es_read s \<le> th_wse t \<and> th_wse t \<le> es_global s \<and> th_wse t \<noteq> 0 \<and>
     es_active s \<le> th_epoch t \<and> th_epoch t \<le> es_read s \<and> th_epoch t \<noteq> 0 \<and>
     set_check (th_rcu t) \<and>
     (case th_pc t of
        W_loaded_global g \<Rightarrow> th_wse t \<le> g \<and> g \<le> es_global s
      | W_loaded_read r b \<Rightarrow> th_epoch t \<le> r \<and> r \<le> es_read s
      | W_loaded_active a \<Rightarrow> a \<le> es_active s
      | _ \<Rightarrow> True)"

definition advancer_inv :: "nat \<Rightarrow> epoch_state \<Rightarrow> bool" where
  "advancer_inv N s \<longleftrightarrow>
     (case es_advancer s of
        Adv_idle \<Rightarrow> True
      | Adv_scan k re ae \<Rightarrow> k \<le> N \<and> es_read s \<le> re \<and> re \<le> es_global s \<and> es_active s \<le> ae \<and> ae \<le> es_read s \<and>
          (\<forall>i<k. re \<le> th_wse (es_threads s i) \<and> ae \<le> th_epoch (es_threads s i))
      | Adv_store_read re ae \<Rightarrow> es_read s \<le> re \<and> re \<le> es_global s \<and> es_active s \<le> ae \<and> ae \<le> es_read s \<and>
          (\<forall>i<N. re \<le> th_wse (es_threads s i) \<and> ae \<le> th_epoch (es_threads s i))
      | Adv_store_active ae \<Rightarrow> es_active s \<le> ae \<and> ae \<le> es_read s \<and>
          (\<forall>i<N. ae \<le> th_epoch (es_threads s i)))"

text \<open>
  A queued callback of epoch \<open>w\<close> was registered before every transaction whose read epoch exceeds \<open>w\<close> began.
\<close>

definition order_inv :: "nat \<Rightarrow> epoch_state \<Rightarrow> bool" where
  "order_inv N s \<longleftrightarrow>
     (\<forall>i w f arg. i < N \<longrightarrow> (w, f, arg) \<in> set (set_view (th_rcu (es_threads s i))) \<longrightarrow>
       w \<le> es_global s \<and> f < es_clock s \<and>
       (\<forall>j<N. (w < th_epoch (es_threads s j) \<longrightarrow> f < th_begin (es_threads s j)) \<and>
         (\<forall>r b. th_pc (es_threads s j) = W_loaded_read r b \<longrightarrow> w < r \<longrightarrow> f < b)))"

definition epoch_inv :: "nat \<Rightarrow> epoch_state \<Rightarrow> bool" where
  "epoch_inv N s \<longleftrightarrow> shared_inv s \<and> (\<forall>i<N. thread_inv s (es_threads s i)) \<and> advancer_inv N s \<and> order_inv N s"

lemma upd_thread_simps [simp]:
  "es_global (upd_thread i f s) = es_global s"
  "es_read (upd_thread i f s) = es_read s"
  "es_active (upd_thread i f s) = es_active s"
  "es_advancer (upd_thread i f s) = es_advancer s"
  "es_clock (upd_thread i f s) = es_clock s"
  "es_threads (upd_thread i f s) = (es_threads s)(i := f (es_threads s i))"
  by (simp_all add: upd_thread_def)

lemma epoch_initial_inv: "epoch_inv N epoch_initial"
  by (simp add: epoch_inv_def shared_inv_def thread_inv_def advancer_inv_def order_inv_def epoch_initial_def
      rcu_new_check epoch_bound_def)

lemma rcu_clean_subset:
  "set_check r \<Longrightarrow> set (set_view (snd (rcu_clean_until a r))) \<subseteq> set (set_view r)"
  using rcu.clean_law [of r a] by (auto dest: in_set_dropD)

lemma rcu_call_view:
  assumes "set_check (th_rcu t)" "rcu_call f arg t = Some t'"
  shows "\<exists>r. t' = t\<lparr>th_rcu := r\<rparr> \<and> set_check r \<and> set_view r = set_view (th_rcu t) @ [(th_wse t, f, arg)]"
  using rcu.add_law [OF assms(1), of "th_wse t" f arg] assms(2) by (auto simp: rcu_call_def)

lemma register_view:
  assumes "epoch_inv N s" "i < N" "rcu_call f arg (es_threads s i) = Some t"
  shows "\<exists>r. t = (es_threads s i)\<lparr>th_rcu := r\<rparr> \<and> set_check r \<and>
    set_view r = set_view (th_rcu (es_threads s i)) @ [(th_wse (es_threads s i), f, arg)]"
  by (rule rcu_call_view [OF _ assms(3)]) (use assms(1,2) in \<open>simp add: epoch_inv_def thread_inv_def\<close>)

lemma shared_step:
  assumes "epoch_step N s s'" "epoch_inv N s" "unat (es_global s') < epoch_bound"
  shows "shared_inv s'"
  using assms next_global_grows [of "es_global s"]
  by (cases rule: epoch_step.cases) (auto simp: epoch_inv_def shared_inv_def advancer_inv_def)

lemma in_epoch_range: "unat g < epoch_bound \<Longrightarrow> a \<le> g \<Longrightarrow> unat a < epoch_bound"
  by (simp add: word_le_nat_alt)

lemma thread_step:
  assumes "epoch_step N s s'" "epoch_inv N s" "i < N"
  shows "thread_inv s' (es_threads s' i)"
proof -
  have sh: "shared_inv s" and th: "thread_inv s (es_threads s i)" and adv: "advancer_inv N s"
    using assms(2,3) by (auto simp: epoch_inv_def)
  from assms(1) show ?thesis
  proof cases
    case adv_global
    then show ?thesis using sh th next_global_grows [of "es_global s"]
      by (auto simp: shared_inv_def thread_inv_def split: worker_pc.splits)
  next
    case adv_read
    then show ?thesis using adv th assms(3)
      by (auto simp: advancer_inv_def thread_inv_def split: worker_pc.splits)
  next
    case adv_active
    then show ?thesis using adv th assms(3)
      by (auto simp: advancer_inv_def thread_inv_def split: worker_pc.splits)
  next
    case (start_clean_until j a)
    then show ?thesis using th rcu.clean_law [of "th_rcu (es_threads s i)" a]
      by (auto simp: thread_inv_def start_clean_def split: worker_pc.splits)
  next
    case (register j arg t)
    obtain r where r: "t = (es_threads s j)\<lparr>th_rcu := r\<rparr>" "set_check r"
      using register_view [OF assms(2) register(2,4)] by blast
    with register th show ?thesis
      by (auto simp: thread_inv_def split: worker_pc.splits)
  qed (use sh th in \<open>auto simp: shared_inv_def thread_inv_def split: worker_pc.splits\<close>)
qed

lemma advancer_step:
  assumes "epoch_step N s s'" "epoch_inv N s"
  shows "advancer_inv N s'"
proof -
  have sh: "shared_inv s" and th: "\<And>i. i < N \<Longrightarrow> thread_inv s (es_threads s i)" and adv: "advancer_inv N s"
    using assms(2) by (auto simp: epoch_inv_def)
  from assms(1) show ?thesis
  proof cases
    case (adv_scan k re ae re' ae')
    let ?t = "es_threads s k"
    have g: "unat (es_global s) < epoch_bound" using sh by (simp add: shared_inv_def)
    have t: "es_read s \<le> th_wse ?t" "th_wse ?t \<le> es_global s" "th_wse ?t \<noteq> 0"
      "es_active s \<le> th_epoch ?t" "th_epoch ?t \<le> es_read s" "th_epoch ?t \<noteq> 0"
      using th [OF adv_scan(3)] by (simp_all add: thread_inv_def)
    have a: "es_read s \<le> re" "re \<le> es_global s" "es_active s \<le> ae" "ae \<le> es_read s"
      "\<forall>i<k. re \<le> th_wse (es_threads s i) \<and> ae \<le> th_epoch (es_threads s i)"
      using adv adv_scan(2) by (simp_all add: advancer_inv_def)
    have r: "es_read s \<le> es_global s" using sh by (simp add: shared_inv_def)
    have "scan_thread (th_wse ?t) (th_epoch ?t) (re, ae) = (min (th_wse ?t) re, min (th_epoch ?t) ae)"
      using g t a r by (intro scan_thread_min) (auto intro: in_epoch_range order_trans)
    then show ?thesis using adv_scan t a r
      by (auto simp: advancer_inv_def less_Suc_eq min_le_iff_disj)
  next
    case adv_global
    then show ?thesis using sh adv next_global_grows [of "es_global s"]
      by (auto simp: shared_inv_def advancer_inv_def)
  next
    case (start_store_write j g)
    then show ?thesis using adv th [of j]
      by (auto simp: advancer_inv_def thread_inv_def split: advancer_pc.splits) 
  next
    case (start_store_epoch j r b)
    then show ?thesis using adv th [of j]
      by (auto simp: advancer_inv_def thread_inv_def split: advancer_pc.splits)
  next
    case (start_clean_until j a)
    then show ?thesis using adv 
      by (auto simp: advancer_inv_def start_clean_def split: advancer_pc.splits)
  next
    case (register j arg t)
    obtain r where r: "t = (es_threads s j)\<lparr>th_rcu := r\<rparr>" "set_check r"
      using register_view [OF assms(2) register(2,4)] by blast
    with register adv th [of j] show ?thesis
      by (auto simp: advancer_inv_def thread_inv_def split: advancer_pc.splits)
  qed (use sh adv in \<open>auto simp: shared_inv_def advancer_inv_def split: advancer_pc.splits\<close>)
qed

lemma order_invD:
  assumes "order_inv N s" "i < N" "(w, f, arg) \<in> set (set_view (th_rcu (es_threads s i)))"
  shows "w \<le> es_global s" "f < es_clock s"
    "j < N \<Longrightarrow> w < th_epoch (es_threads s j) \<Longrightarrow> f < th_begin (es_threads s j)"
    "j < N \<Longrightarrow> th_pc (es_threads s j) = W_loaded_read r b \<Longrightarrow> w < r \<Longrightarrow> f < b"
  using assms unfolding order_inv_def by blast+

lemma order_invI:
  assumes "\<And>i w f arg. i < N \<Longrightarrow> (w, f, arg) \<in> set (set_view (th_rcu (es_threads s i))) \<Longrightarrow>
      w \<le> es_global s \<and> f < es_clock s"
    and "\<And>i j w f arg. i < N \<Longrightarrow> (w, f, arg) \<in> set (set_view (th_rcu (es_threads s i))) \<Longrightarrow> j < N \<Longrightarrow>
      w < th_epoch (es_threads s j) \<Longrightarrow> f < th_begin (es_threads s j)"
    and "\<And>i j w f arg r b. i < N \<Longrightarrow> (w, f, arg) \<in> set (set_view (th_rcu (es_threads s i))) \<Longrightarrow> j < N \<Longrightarrow>
      th_pc (es_threads s j) = W_loaded_read r b \<Longrightarrow> w < r \<Longrightarrow> f < b"
  shows "order_inv N s"
  unfolding order_inv_def
  by (intro allI impI conjI) (use assms(1) in blast, use assms(1) in blast, (rule assms(2,3); assumption)+)

lemma order_keep:
  assumes "order_inv N s" "es_global s' = es_global s" "es_clock s' = es_clock s"
    and "\<And>i. i < N \<Longrightarrow> th_rcu (es_threads s' i) = th_rcu (es_threads s i) \<and>
      th_epoch (es_threads s' i) = th_epoch (es_threads s i) \<and> th_begin (es_threads s' i) = th_begin (es_threads s i) \<and>
      (\<forall>r b. th_pc (es_threads s' i) = W_loaded_read r b \<longrightarrow> th_pc (es_threads s i) = W_loaded_read r b)"
  shows "order_inv N s'"
proof (rule order_invI)
  fix i w f arg
  assume i: "i < N" "(w, f, arg) \<in> set (set_view (th_rcu (es_threads s' i)))"
  then have q: "(w, f, arg) \<in> set (set_view (th_rcu (es_threads s i)))" using assms(4) by simp
  note D = order_invD [OF assms(1) i(1) q]
  show "w \<le> es_global s' \<and> f < es_clock s'" using D(1,2) assms(2,3) by simp
  show "f < th_begin (es_threads s' j)" if "j < N" "w < th_epoch (es_threads s' j)" for j
    using D(3) [of j] that assms(4) by simp
  show "f < b" if "j < N" "th_pc (es_threads s' j) = W_loaded_read r b" "w < r" for j r b
    by (rule D(4) [of j r]) (use that assms(4) in auto)
qed

lemma order_step:
  assumes "epoch_step N s s'" "epoch_inv N s"
  shows "order_inv N s'"
proof -
  have sh: "shared_inv s" and th: "\<And>i. i < N \<Longrightarrow> thread_inv s (es_threads s i)" and ord: "order_inv N s"
    using assms(2) by (auto simp: epoch_inv_def)
  note D = order_invD [OF ord]
  from assms(1) show ?thesis
  proof cases
    case adv_global
    then show ?thesis using sh next_global_grows [of "es_global s"]
      by (intro order_invI) (auto simp: shared_inv_def intro: D order_trans)
  next
    case (start_load_read j)
    then show ?thesis by (intro order_invI) (auto split: if_splits intro: D less_SucI)
  next
    case (start_store_epoch j r b)
    then show ?thesis by (intro order_invI) (auto split: if_splits intro: D)
  next
    case (start_clean_until j a)
    then show ?thesis
      using th [of j] rcu_clean_subset [of "th_rcu (es_threads s j)" a]
      by (intro order_invI) (auto simp: start_clean_def thread_inv_def split: if_splits intro: D)
  next
    case (register j arg t)
    obtain r where r: "t = (es_threads s j)\<lparr>th_rcu := r\<rparr>"
        "set_view r = set_view (th_rcu (es_threads s j)) @ [(th_wse (es_threads s j), es_clock s, arg)]"
      using register_view [OF assms(2) register(2,4)] by blast
    have w: "th_wse (es_threads s j) \<le> es_global s" "es_read s \<le> th_wse (es_threads s j)"
      using th [OF register(2)] by (simp_all add: thread_inv_def)
    have late: "\<not> th_wse (es_threads s j) < th_epoch (es_threads s k)"
      "th_pc (es_threads s k) = W_loaded_read e b \<Longrightarrow> \<not> th_wse (es_threads s j) < e" if "k < N" for k e b
      using th [OF that] w(2) by (auto simp: thread_inv_def)
    from register r w late show ?thesis
      by (intro order_invI) (auto split: if_splits intro: D less_SucI)
  qed (auto intro!: order_keep [OF ord] split: if_splits)
qed

lemma epoch_run_inv:
  assumes "epoch_run N epoch_initial s"
  shows "epoch_inv N s"
  using assms unfolding epoch_run_def
proof (induction rule: rtranclp_induct)
  case base
  show ?case by (rule epoch_initial_inv)
next
  case (step s t)
  then have st: "epoch_step N s t" "epoch_inv N s" "unat (es_global t) < epoch_bound" by auto
  show ?case
    unfolding epoch_inv_def [of N t]
    using shared_step [OF st] thread_step [OF st(1,2)] advancer_step [OF st(1,2)] order_step [OF st(1,2)]
    by simp
qed

subsection \<open>Safety of reclamation\<close>


subsection \<open>Uninterrupted operations are runs\<close>

lemma epoch_run_step:
  "epoch_run N s t \<Longrightarrow> epoch_step N t t' \<Longrightarrow> unat (es_global t') < epoch_bound \<Longrightarrow> epoch_run N s t'"
  unfolding epoch_run_def by (erule rtranclp.rtrancl_into_rtrancl) simp

lemma start_load_run:
  assumes "epoch_run N s t" "i < N" "th_pc (es_threads t i) = W_running" "unat (es_global t) < epoch_bound"
  shows "epoch_run N s (start_load i t)"
proof -
  let ?w = "\<lambda>pc. upd_thread i (\<lambda>t. t\<lparr>th_pc := pc\<rparr>)"
  let ?t1 = "?w W_idle t"
  let ?t2 = "?w (W_loaded_global (es_global t)) ?t1"
  let ?t3 = "upd_thread i (\<lambda>u. u\<lparr>th_wse := es_global t, th_pc := W_stored_write\<rparr>) ?t2"
  let ?t4 = "?w (W_loaded_read (es_read t) (es_clock t)) (?t3\<lparr>es_clock := Suc (es_clock t)\<rparr>)"
  let ?t5 = "upd_thread i (\<lambda>u. u\<lparr>th_epoch := es_read t, th_begin := es_clock t, th_pc := W_stored_epoch\<rparr>) ?t4"
  let ?t6 = "?w (W_loaded_active (es_active t)) ?t5"
  have 1: "epoch_run N s ?t1"
    by (rule epoch_run_step [OF assms(1) epoch_step.stop]) (use assms in simp_all)
  have 2: "epoch_run N s ?t2"
    by (rule epoch_run_step [OF 1], rule epoch_step.start_load_global [of i N ?t1, simplified])
      (use assms in simp_all)
  have 3: "epoch_run N s ?t3"
    by (rule epoch_run_step [OF 2], rule epoch_step.start_store_write) (use assms in simp_all)
  have 4: "epoch_run N s ?t4"
    by (rule epoch_run_step [OF 3], rule epoch_step.start_load_read [of i N ?t3, simplified])
      (use assms in simp_all)
  have 5: "epoch_run N s ?t5"
    by (rule epoch_run_step [OF 4], rule epoch_step.start_store_epoch) (use assms in simp_all)
  have 6: "epoch_run N s ?t6"
    by (rule epoch_run_step [OF 5], rule epoch_step.start_load_active [of i N ?t5, simplified])
      (use assms in simp_all)
  have "?t6 = start_load i t" by (simp add: start_load_def upd_thread_def)
  with 6 show ?thesis by simp
qed

lemma start_thread_run:
  assumes "epoch_run N s t" "i < N" "th_pc (es_threads t i) = W_running" "unat (es_global t) < epoch_bound"
  shows "epoch_run N s (start_thread i t)"
  unfolding start_thread_def
  by (rule epoch_run_step [OF start_load_run [OF assms] epoch_step.start_clean_until])
    (use assms in \<open>simp_all add: start_load_def\<close>)

lemma epoch_pass_run:
  assumes "epoch_run N s t" "es_advancer t = Adv_idle" "unat (next_global (es_global t)) < epoch_bound"
    "unat (es_global t) < epoch_bound"
  shows "epoch_run N s (epoch_pass N t)"
proof -
  let ?f = "\<lambda>k. fold (\<lambda>i. scan_thread (th_wse (es_threads t i)) (th_epoch (es_threads t i))) [0..<k]
    (es_global t, es_read t)"
  have scan: "k \<le> N \<Longrightarrow> epoch_run N s (t\<lparr>es_advancer := Adv_scan k (fst (?f k)) (snd (?f k))\<rparr>)" for k
  proof (induction k)
    case 0
    then show ?case
      using epoch_run_step [OF assms(1) adv_begin [OF assms(2)]] assms(4) by simp
  next
    case (Suc k)
    then have "epoch_run N s (t\<lparr>es_advancer := Adv_scan k (fst (?f k)) (snd (?f k))\<rparr>)" by simp
    from epoch_run_step [OF this adv_scan [where re' = "fst (?f (Suc k))" and ae' = "snd (?f (Suc k))"]]
    show ?case using Suc.prems assms(4) by simp
  qed
  obtain re ae where f: "?f N = (re, ae)" by (cases "?f N")
  with scan [of N] have 1: "epoch_run N s (t\<lparr>es_advancer := Adv_scan N re ae\<rparr>)" by simp
  have 2: "epoch_run N s (t\<lparr>es_global := next_global (es_global t), es_advancer := Adv_store_read re ae\<rparr>)"
    using epoch_run_step [OF 1 adv_global] assms(3) by simp
  have 3: "epoch_run N s (t\<lparr>es_global := next_global (es_global t), es_read := re,
      es_advancer := Adv_store_active ae\<rparr>)"
    using epoch_run_step [OF 2 adv_read] assms(3) by simp
  have "epoch_run N s (t\<lparr>es_global := next_global (es_global t), es_read := re, es_active := ae,
      es_advancer := Adv_idle\<rparr>)"
    using epoch_run_step [OF 3 adv_active] assms(3) by simp
  then show ?thesis using f assms(2) by (cases t) (simp add: epoch_pass_def)
qed

subsection \<open>An execution in which a callback becomes due\<close>

definition ex_rcu :: "nat rcu_set" where "ex_rcu = the (rcu_add 2 1 77 rcu_new)"

definition ex_registered :: epoch_state where
  "ex_registered = upd_thread 0 (\<lambda>t. t\<lparr>th_rcu := ex_rcu\<rparr>) (epoch_initial\<lparr>es_clock := 2\<rparr>)"

definition ex_round :: "epoch_state \<Rightarrow> epoch_state" where
  "ex_round s = start_thread 1 (start_thread 0 (epoch_pass 2 s))"

definition ex_state :: epoch_state where
  "ex_state = start_load 0 (epoch_pass 2 (ex_round (ex_round ex_registered)))"

lemma ex_registered_run: "epoch_run 2 epoch_initial ex_registered"
proof -
  have "rcu_call 1 77 (es_threads epoch_initial 0) = Some ((es_threads epoch_initial 0)\<lparr>th_rcu := ex_rcu\<rparr>)"
    using rcu.add_law [OF rcu_new_check(1), of 2 "1::nat" 77]
    by (auto simp: rcu_call_def epoch_initial_def ex_rcu_def simp del: One_nat_def)
  then have "epoch_step 2 epoch_initial ex_registered"
    using epoch_step.register [of 0 2 epoch_initial 77 "(es_threads epoch_initial 0)\<lparr>th_rcu := ex_rcu\<rparr>"]
    by (simp add: ex_registered_def epoch_initial_def upd_thread_def numeral_2_eq_2)
  then show ?thesis
    unfolding epoch_run_def
    by (intro r_into_rtranclp) (simp add: ex_registered_def epoch_initial_def epoch_bound_def)
qed

lemma upt_two: "[0..<2] = [0, 1 :: nat]"
  by (simp add: upt_conv_Cons)

lemma word_le_evals: "\<not> (3::u64) \<le> 1" "\<not> (4::u64) \<le> 1" "\<not> (5::u64) \<le> 1"
  by (simp_all add: word_le_nat_alt)

lemmas ex_eval = ex_state_def ex_round_def ex_registered_def start_load_def start_thread_def start_clean_def
  epoch_pass_def epoch_initial_def scan_thread_def epoch_before_def next_global_def upt_two max_def word_le_evals epoch_bound_def

lemma ex_run: "epoch_run 2 epoch_initial ex_state"
proof -
  let ?s1 = "epoch_pass 2 ex_registered" and ?s2 = "ex_round ex_registered"
  let ?s3 = "epoch_pass 2 ?s2" and ?s4 = "ex_round ?s2"
  have 1: "epoch_run 2 epoch_initial ?s1"
    by (rule epoch_pass_run [OF ex_registered_run]) (simp_all add: ex_eval)
  have 2: "epoch_run 2 epoch_initial ?s2"
    unfolding ex_round_def
    by (intro start_thread_run 1) (simp_all add: ex_eval)
  have 3: "epoch_run 2 epoch_initial ?s3"
    by (rule epoch_pass_run [OF 2]) (simp_all add: ex_eval)
  have 4: "epoch_run 2 epoch_initial ?s4"
    unfolding ex_round_def [of ?s2]
    by (intro start_thread_run 3) (simp_all add: ex_eval)
  have 5: "epoch_run 2 epoch_initial (epoch_pass 2 ?s4)"
    by (rule epoch_pass_run [OF 4]) (simp_all add: ex_eval)
  show ?thesis
    unfolding ex_state_def
    by (intro start_load_run 5) (simp_all add: ex_eval)
qed

lemma ex_rcu_view:
  "set_check ex_rcu" "set_view ex_rcu = [(2, 1, 77)]" "rs_clean_epoch ex_rcu = 0"
  using rcu_add_the [OF rcu_new_check(1), of 2 "1::nat" 77]
  by (simp_all add: ex_rcu_def rcu_new_check) (simp add: rcu_new_def)

lemma ex_state_eval:
  "th_pc (es_threads ex_state 0) = W_loaded_active 3"
  "th_rcu (es_threads ex_state 0) = snd (rcu_clean_until 2 (snd (rcu_clean_until 1 ex_rcu)))"
  "th_pc (es_threads ex_state 1) = W_running"
  "th_begin (es_threads ex_state 1) = 5"
  by (simp_all add: ex_eval)

lemma clean_epoch_set: "rs_clean_epoch (snd (rcu_clean_until m r)) = m"
  by (simp add: rcu_clean_until_def split: prod.splits)

lemma ex_due: "(1, 77) \<in> set (fst (rcu_clean_until 3 (th_rcu (es_threads ex_state 0))))"
proof -
  have due: "\<not> call_due 1 (2, x, 77)" "\<not> call_due 2 (2, x, 77)" "call_due 3 (2, x, 77)" for x :: nat
    by (simp_all add: call_due_def epoch_due_def)
  let ?r1 = "snd (rcu_clean_until 1 ex_rcu)" and ?r2 = "snd (rcu_clean_until 2 (snd (rcu_clean_until 1 ex_rcu)))"
  have 1: "set_check ?r1" "set_view ?r1 = [(2, 1, 77)]"
    using rcu_clean_view [OF ex_rcu_view(1), of 1] due by (simp_all add: ex_rcu_view)
  have 2: "set_check ?r2" "set_view ?r2 = [(2, 1, 77)]"
    using rcu_clean_view [OF 1(1), of 2] due 1(2) by (simp_all add: clean_epoch_set)
  show ?thesis
    using rcu_clean_view [OF 2(1), of 3] due 2(2) by (simp add: ex_state_eval clean_epoch_set)
qed


subsection \<open>Releasing everything at shutdown\<close>

text \<open>
  \<open>Transaction::rcu_release_all\<close>, after the advancer has been joined.  The loop may in principle run for
  ever, so it has fuel; \<open>None\<close> also stands for its failing assertion.
\<close>

definition release_one ::
  "u64 \<Rightarrow> u64 \<Rightarrow> nat \<Rightarrow> bool \<times> (nat \<times> nat \<times> u64) list \<times> (nat \<Rightarrow> worker_thread) \<Rightarrow>
   bool \<times> (nat \<times> nat \<times> u64) list \<times> (nat \<Rightarrow> worker_thread)" where
  "release_one wse ae i = (\<lambda>(more, cs, ts).
     let r = rcu_clean_until ae (th_rcu (ts i))
     in (more \<or> \<not> rcu_empty (snd r), cs @ map (Pair i) (fst r),
         ts(i := (ts i)\<lparr>th_wse := wse, th_rcu := snd r\<rparr>)))"

primrec release_loop ::
  "nat \<Rightarrow> nat \<Rightarrow> u64 \<Rightarrow> u64 \<Rightarrow> (nat \<Rightarrow> worker_thread) \<Rightarrow>
   ((nat \<times> nat \<times> u64) list \<times> (nat \<Rightarrow> worker_thread) \<times> u64) option" where
  "release_loop 0 n wse ae ts = None"
| "release_loop (Suc k) n wse ae ts =
     (let (more, cs, ts) = fold (release_one wse ae) [0..<n] (False, [], ts)
      in if more
         then map_option (\<lambda>(ds, r). (cs @ ds, r)) (release_loop k n (wse + 1) (ae + 1) ts)
         else Some (cs, ts, ae + 1))"

definition release_wse :: "nat \<Rightarrow> (nat \<Rightarrow> worker_thread) \<Rightarrow> u64" where
  "release_wse n ts = fold (\<lambda>i wse. max wse (th_wse (ts i))) [1..<n] (th_wse (ts 0) + 1)"

definition rcu_release_all ::
  "nat \<Rightarrow> nat \<Rightarrow> u64 \<Rightarrow> (nat \<Rightarrow> worker_thread) \<Rightarrow>
   ((nat \<times> nat \<times> u64) list \<times> (nat \<Rightarrow> worker_thread) \<times> u64) option" where
  "rcu_release_all fuel n ae ts =
     (if release_wse n ts > ae then release_loop fuel n (release_wse n ts) ae ts else None)"

lemma release_pass:
  "fold (release_one wse ae) [0..<n] (False, [], ts) =
     (\<exists>i<n. \<not> rcu_empty (snd (rcu_clean_until ae (th_rcu (ts i)))),
      concat (map (\<lambda>i. map (Pair i) (fst (rcu_clean_until ae (th_rcu (ts i))))) [0..<n]),
      \<lambda>i. if i < n then (ts i)\<lparr>th_wse := wse, th_rcu := snd (rcu_clean_until ae (th_rcu (ts i)))\<rparr> else ts i)"
  by (induction n) (auto simp: release_one_def Let_def less_Suc_eq fun_eq_iff)

definition calls_of :: "nat \<Rightarrow> (nat \<times> nat \<times> u64) list \<Rightarrow> (nat \<times> u64) list" where
  "calls_of i cs = map snd (filter (\<lambda>c. fst c = i) cs)"

lemma calls_of_append [simp]: "calls_of i (cs @ ds) = calls_of i cs @ calls_of i ds"
  by (simp add: calls_of_def)

lemma calls_of_pass:
  "i < n \<Longrightarrow> calls_of i (concat (map (\<lambda>i. map (Pair i) (f i)) [0..<n])) = f i"
proof (induction n)
  case (Suc n)
  have "calls_of i (concat (map (\<lambda>i. map (Pair i) (f i)) [0..<n])) = []" if "i = n"
    using that by (auto simp: calls_of_def filter_empty_conv)
  moreover have "calls_of i (map (Pair n) (f n)) = (if i = n then f n else [])"
    by (auto simp: calls_of_def filter_map comp_def)
  ultimately show ?case using Suc by (auto simp: less_Suc_eq)
qed simp

lemma group_view_Nil: "group_ok g \<Longrightarrow> group_view g = [] \<longleftrightarrow> group_empty g"
  using blocks_first [of "rg_e g (rg_head g)" "map (rg_e g) [Suc (rg_head g)..<rg_tail g]"]
    live_blocks [of g]
  by (cases "rg_head g < rg_tail g")
    (auto simp: group_view_def live_def group_empty_def group_ok_def upt_elements)

lemma rcu_empty_view:
  assumes "set_check s"
  shows "rcu_empty s \<longleftrightarrow> set_view s = []"
proof (cases "rs_groups s")
  case Nil
  with assms show ?thesis by (simp add: set_check_def)
next
  case (Cons g gs)
  with assms have ok: "group_ok g" by (simp add: set_check_def)
  show ?thesis
    using assms Cons group_view_Nil [OF ok] fresh_groups_view [of gs]
    by (auto simp: rcu_empty_def set_check_groups groups_check_Cons set_view_groups split: nat.splits)
qed

lemma clean_split:
  assumes "set_check r"
  shows "fst (rcu_clean_until m r) @ map snd (set_view (snd (rcu_clean_until m r))) = map snd (set_view r)"
    and "set (set_view (snd (rcu_clean_until m r))) \<subseteq> set (set_view r)"
proof -
  obtain k where k: "fst (rcu_clean_until m r) = map snd (take k (set_view r))"
    "set_view (snd (rcu_clean_until m r)) = drop k (set_view r)"
    using rcu.clean_law [OF assms] by blast
  then show "fst (rcu_clean_until m r) @ map snd (set_view (snd (rcu_clean_until m r))) = map snd (set_view r)"
    by (simp flip: map_append)
  show "set (set_view (snd (rcu_clean_until m r))) \<subseteq> set (set_view r)"
    using k by (simp add: set_drop_subset)
qed

text \<open>What the loop has to achieve for the first \<open>n\<close> threads.\<close>

definition released ::
  "nat \<Rightarrow> (nat \<Rightarrow> worker_thread) \<Rightarrow> ((nat \<times> nat \<times> u64) list \<times> (nat \<Rightarrow> worker_thread) \<times> u64) option \<Rightarrow> bool" where
  "released n ts r \<longleftrightarrow> (\<exists>cs ts' ae. r = Some (cs, ts', ae) \<and>
     (\<forall>i<n. calls_of i cs = map snd (set_view (th_rcu (ts i))) \<and> rcu_empty (th_rcu (ts' i))))"

definition queues_ok :: "nat \<Rightarrow> u64 \<Rightarrow> (nat \<Rightarrow> worker_thread) \<Rightarrow> bool" where
  "queues_ok n E ts \<longleftrightarrow> (\<forall>i<n. set_check (th_rcu (ts i)) \<and> (\<forall>d \<in> set (set_view (th_rcu (ts i))). fst d \<le> E))"

definition cleaned :: "nat \<Rightarrow> u64 \<Rightarrow> u64 \<Rightarrow> (nat \<Rightarrow> worker_thread) \<Rightarrow> nat \<Rightarrow> worker_thread" where
  "cleaned n wse ae ts = (\<lambda>i. if i < n
     then (ts i)\<lparr>th_wse := wse, th_rcu := snd (rcu_clean_until ae (th_rcu (ts i)))\<rparr> else ts i)"

lemma cleaned_ok: "queues_ok n E ts \<Longrightarrow> queues_ok n E (cleaned n wse ae ts)"
  using rcu.clean_law clean_split(2) by (fastforce simp: queues_ok_def cleaned_def)

lemma release_once:
  assumes "queues_ok n E ts"
    and more: "\<exists>i<n. set_view (th_rcu (cleaned n wse ae ts i)) \<noteq> [] \<Longrightarrow>
      released n (cleaned n wse ae ts) (release_loop k n (wse + 1) (ae + 1) (cleaned n wse ae ts))"
  shows "released n ts (release_loop (Suc k) n wse ae ts)"
proof -
  let ?cs = "concat (map (\<lambda>i. map (Pair i) (fst (rcu_clean_until ae (th_rcu (ts i))))) [0..<n])"
  let ?ts = "cleaned n wse ae ts"
  have ok: "set_check (th_rcu (ts i))" "set_check (th_rcu (?ts i))" if "i < n" for i
    using that assms(1) cleaned_ok [OF assms(1), of wse ae] by (auto simp: queues_ok_def)
  have whole: "calls_of i ?cs @ map snd (set_view (th_rcu (?ts i))) = map snd (set_view (th_rcu (ts i)))"
    if "i < n" for i
    using clean_split(1) [OF ok(1) [OF that], of ae] that by (simp add: calls_of_pass cleaned_def)
  have pass: "fold (release_one wse ae) [0..<n] (False, [], ts) =
      (\<exists>i<n. set_view (th_rcu (?ts i)) \<noteq> [], ?cs, ?ts)"
    using ok(2) rcu_empty_view by (auto simp: release_pass cleaned_def)
  show ?thesis
  proof (cases "\<exists>i<n. set_view (th_rcu (?ts i)) \<noteq> []")
    case True
    from more [OF True] obtain ds r where
      r: "release_loop k n (wse + 1) (ae + 1) ?ts = Some (ds, r)"
         "\<forall>i<n. calls_of i ds = map snd (set_view (th_rcu (?ts i))) \<and> rcu_empty (th_rcu (fst r i))"
      by (auto simp: released_def)
    with True pass whole show ?thesis by (cases r) (auto simp: released_def)
  next
    case False
    with pass whole ok(2) show ?thesis by (auto simp: released_def rcu_empty_view)
  qed
qed

lemma next_epoch: "unat ae < epoch_bound \<Longrightarrow> unat (ae + 1) = unat (ae :: u64) + 1"
  by (simp add: unat_word_ariths epoch_bound_def)

lemma release_fresh:
  assumes "queues_ok n E ts" "\<forall>i<n. rs_clean_epoch (th_rcu (ts i)) \<noteq> ae"
    "unat E + 1 < epoch_bound" "unat ae < epoch_bound" "0 < k" "unat E + 2 \<le> unat ae + k"
  shows "released n ts (release_loop k n wse ae ts)"
  using assms
proof (induction k arbitrary: wse ae ts)
  case (Suc k)
  show ?case
  proof (rule release_once [OF Suc.prems(1)])
    assume "\<exists>i<n. set_view (th_rcu (cleaned n wse ae ts i)) \<noteq> []"
    then obtain i where i: "i < n" "dropWhile (call_due ae) (set_view (th_rcu (ts i))) \<noteq> []"
      using Suc.prems(1,2) rcu_clean_view [of "th_rcu (ts _)" ae] 
      by (auto simp: cleaned_def queues_ok_def)
    then obtain d where d: "d \<in> set (set_view (th_rcu (ts i)))" "\<not> call_due ae d" by auto
    with Suc.prems(1) i have "fst d \<le> E" by (auto simp: queues_ok_def)
    then have "ae \<le> E"
      using d(2) Suc.prems(3,4) epoch_due_less [of ae "fst d"] in_epoch_range [of E "fst d"]
      by (auto simp: call_due_def)
    then have le: "unat ae \<le> unat E" by (simp add: word_le_nat_alt)
    have "unat (ae + 1) = unat ae + 1" by (rule next_epoch [OF Suc.prems(4)])
    with Suc.prems le show "released n (cleaned n wse ae ts) (release_loop k n (wse + 1) (ae + 1) (cleaned n wse ae ts))"
      by (intro Suc.IH cleaned_ok) (auto simp: cleaned_def clean_epoch_set)
  qed
qed simp


definition ex_threads :: "nat \<Rightarrow> worker_thread" where
  "ex_threads = (\<lambda>_. \<lparr>th_wse = 6, th_epoch = 5, th_rcu = rcu_example, th_pc = W_idle, th_begin = 0\<rparr>)"


end
