(* ===== verification/Lock_Word.thy ===== *)
theory Lock_Word
  imports Prelude
begin

text \<open>
  Locks kept in a shared word: a thread reads the word, later tries to exchange it for one that names
  the thread as the owner, and as the owner changes it and releases it.  Between the read and the
  exchange other threads may act.  The interface says which words have which owner and what the
  operations do to it; mutual exclusion follows once for every version type that provides it.
\<close>

datatype 'v lock_pc = Idle | Seen 'v | Held

record 'v lock_state =
  lk_word :: 'v
  lk_pc :: "nat \<Rightarrow> 'v lock_pc"

text \<open>\<open>acquire t seen w\<close> is the new word when the exchange succeeds; \<open>update\<close> and \<open>release\<close> relate the
  word before and after a step of the owner; \<open>threads\<close> are the valid thread numbers.\<close>

inductive lock_step :: "nat set \<Rightarrow> (nat \<Rightarrow> 'v \<Rightarrow> 'v \<Rightarrow> 'v option) \<Rightarrow> (nat \<Rightarrow> 'v \<Rightarrow> 'v \<Rightarrow> bool) \<Rightarrow> (nat \<Rightarrow> 'v \<Rightarrow> 'v \<Rightarrow> bool)
    \<Rightarrow> 'v lock_state \<Rightarrow> 'v lock_state \<Rightarrow> bool" for threads acquire update release where
  look: "t \<in> threads \<Longrightarrow> lk_pc s t = Idle \<Longrightarrow>
    lock_step threads acquire update release s (s\<lparr>lk_pc := (lk_pc s)(t := Seen (lk_word s))\<rparr>)"
| won: "t \<in> threads \<Longrightarrow> lk_pc s t = Seen v \<Longrightarrow> acquire t v (lk_word s) = Some w \<Longrightarrow>
    lock_step threads acquire update release s (s\<lparr>lk_word := w, lk_pc := (lk_pc s)(t := Held)\<rparr>)"
| lost: "t \<in> threads \<Longrightarrow> lk_pc s t = Seen v \<Longrightarrow> acquire t v (lk_word s) = None \<Longrightarrow>
    lock_step threads acquire update release s (s\<lparr>lk_pc := (lk_pc s)(t := Idle)\<rparr>)"
| change: "t \<in> threads \<Longrightarrow> lk_pc s t = Held \<Longrightarrow> update t (lk_word s) w \<Longrightarrow>
    lock_step threads acquire update release s (s\<lparr>lk_word := w\<rparr>)"
| leave: "t \<in> threads \<Longrightarrow> lk_pc s t = Held \<Longrightarrow> release t (lk_word s) w \<Longrightarrow>
    lock_step threads acquire update release s (s\<lparr>lk_word := w, lk_pc := (lk_pc s)(t := Idle)\<rparr>)"

inductive_cases lock_stepE: "lock_step threads acquire update release s s'"

definition lock_start :: "'v \<Rightarrow> 'v lock_state" where
  "lock_start v = \<lparr>lk_word = v, lk_pc = (\<lambda>_. Idle)\<rparr>"

locale lock_word =
  fixes threads :: "nat set"
    and acquire :: "nat \<Rightarrow> 'v \<Rightarrow> 'v \<Rightarrow> 'v option"
    and update :: "nat \<Rightarrow> 'v \<Rightarrow> 'v \<Rightarrow> bool"
    and release :: "nat \<Rightarrow> 'v \<Rightarrow> 'v \<Rightarrow> bool"
    and free :: "'v \<Rightarrow> bool"
    and owned :: "nat \<Rightarrow> 'v \<Rightarrow> bool"
  assumes acquire_free: "t \<in> threads \<Longrightarrow> free v \<Longrightarrow> acquire t seen v = Some w \<Longrightarrow> owned t w"
    and acquire_owned: "t \<in> threads \<Longrightarrow> t' \<in> threads \<Longrightarrow> owned t' v \<Longrightarrow> acquire t seen v = None"
    and update_owned: "t \<in> threads \<Longrightarrow> owned t v \<Longrightarrow> update t v w \<Longrightarrow> owned t w"
    and release_free: "t \<in> threads \<Longrightarrow> owned t v \<Longrightarrow> release t v w \<Longrightarrow> free w"
begin

definition lock_inv :: "'v lock_state \<Rightarrow> bool" where
  "lock_inv s \<longleftrightarrow> (\<forall>t. lk_pc s t = Held \<longrightarrow> t \<in> threads) \<and>
     ((\<forall>t. lk_pc s t \<noteq> Held) \<and> free (lk_word s) \<or>
      (\<exists>t. lk_pc s t = Held \<and> owned t (lk_word s) \<and> (\<forall>t'. lk_pc s t' = Held \<longrightarrow> t' = t)))"

lemma lock_held:
  assumes "lock_inv s" "lk_pc s t = Held"
  shows "t \<in> threads" "owned t (lk_word s)" "lk_pc s t' = Held \<Longrightarrow> t' = t"
proof -
  from assms obtain u where u: "lk_pc s u = Held" "u \<in> threads" "owned u (lk_word s)" "\<And>t'. lk_pc s t' = Held \<Longrightarrow> t' = u"
    unfolding lock_inv_def by blast
  from u(4) [OF assms(2)] u(2,3) show "t \<in> threads" "owned t (lk_word s)" by simp_all
  show "lk_pc s t' = Held \<Longrightarrow> t' = t" using u(4) [OF assms(2)] u(4) [of t'] by simp
qed

lemma lock_inv_free: "(\<And>t. lk_pc s t \<noteq> Held) \<Longrightarrow> free (lk_word s) \<Longrightarrow> lock_inv s"
  by (simp add: lock_inv_def)

lemma lock_inv_owned:
  assumes "lk_pc s t = Held" "t \<in> threads" "owned t (lk_word s)" "\<And>t'. lk_pc s t' = Held \<Longrightarrow> t' = t"
  shows "lock_inv s"
  unfolding lock_inv_def using assms by blast

lemma lock_inv_cong:
  "lk_word s' = lk_word s \<Longrightarrow> (\<And>t. lk_pc s' t = Held \<longleftrightarrow> lk_pc s t = Held) \<Longrightarrow> lock_inv s \<Longrightarrow> lock_inv s'"
  by (simp add: lock_inv_def)

lemma lock_inv_step:
  assumes "lock_step threads acquire update release s s'" "lock_inv s"
  shows "lock_inv s'"
  using assms(1)
proof cases
  case (look t)
  then show ?thesis by (intro lock_inv_cong [OF _ _ assms(2)]) auto
next
  case (lost t v)
  then show ?thesis by (intro lock_inv_cong [OF _ _ assms(2)]) auto
next
  case (won t v w)
  have none: "lk_pc s t' \<noteq> Held" for t'
    using acquire_owned [OF won(2) lock_held(1,2) [OF assms(2)], of t' v] won(4) by auto
  then have "free (lk_word s)" using assms(2) by (auto simp: lock_inv_def)
  then have "owned t w" using won by (auto intro: acquire_free)
  then show ?thesis using won(1,2) by (intro lock_inv_owned [of _ t]) (auto simp: none split: if_splits)
next
  case (change t w)
  note h = lock_held [OF assms(2) change(3)]
  have "owned t w" using change h(2) by (auto intro: update_owned)
  then show ?thesis using change(1,3) h(1) by (intro lock_inv_owned [of _ t]) (auto intro: h(3))
next
  case (leave t w)
  note h = lock_held [OF assms(2) leave(3)]
  have "free w" using leave h(2) by (auto intro: release_free)
  then show ?thesis using leave(1) by (intro lock_inv_free) (auto dest: h(3))
qed

lemma lock_inv_run:
  assumes "(lock_step threads acquire update release)\<^sup>*\<^sup>* (lock_start v) s" "free v"
  shows "lock_inv s"
  using assms(1)
proof (induction rule: rtranclp_induct)
  case base
  show ?case using assms(2) by (intro lock_inv_free) (simp_all add: lock_start_def)
qed (rule lock_inv_step)

lemma mutual_exclusion:
  assumes "(lock_step threads acquire update release)\<^sup>*\<^sup>* (lock_start v) s" "free v"
  shows "(lk_pc s t = Held \<longrightarrow> owned t (lk_word s) \<and> (\<forall>t'. lk_pc s t' = Held \<longrightarrow> t' = t))
    \<and> ((\<forall>t. lk_pc s t \<noteq> Held) \<longrightarrow> free (lk_word s))"
proof (intro conjI impI allI)
  note inv = lock_inv_run [OF assms]
  show "lk_pc s t = Held \<Longrightarrow> owned t (lk_word s)" by (rule lock_held(2) [OF inv])
  show "lk_pc s t = Held \<Longrightarrow> lk_pc s t' = Held \<Longrightarrow> t' = t" for t' by (rule lock_held(3) [OF inv])
  show "free (lk_word s)" if "\<forall>t. lk_pc s t \<noteq> Held" using inv that by (simp add: lock_inv_def)
qed

end

end
