(* ===== verification/Sto_Tid.thy ===== *)
theory Sto_Tid
  imports Lock_Word
begin

unbundle bit_operations_syntax

text \<open>
  The version words of the transaction runtime (\<open>sto-core/VersionBase.hh\<close>, class \<open>TransactionTid\<close>): 52
  bits of version, five flags and the number of the thread that holds the lock.  Operations on the
  calling thread take its number, \<open>TThread::id()\<close>, as an argument.  Failing assertions are \<open>None\<close>.
  Compare-and-swap is split from the read in front of it, so that other threads may act in between.
\<close>

subsection \<open>Layout\<close>

definition threadid_mask :: u64 where "threadid_mask = 0x7F"
definition lock_bit :: u64 where "lock_bit = 0x80"
definition nonopaque_bit :: u64 where "nonopaque_bit = 0x100"
definition user_bit :: u64 where "user_bit = 0x200"
definition dirty_bit :: u64 where "dirty_bit = 0x400"
definition opt_bit :: u64 where "opt_bit = 0x800"
definition increment_value :: u64 where "increment_value = 0x1000"
definition initialized_tid :: u64 where "initialized_tid = increment_value"

lemmas tid_consts = threadid_mask_def lock_bit_def nonopaque_bit_def user_bit_def dirty_bit_def opt_bit_def
  increment_value_def initialized_tid_def

definition is_locked :: "u64 \<Rightarrow> bool" where
  "is_locked v \<longleftrightarrow> v AND lock_bit \<noteq> 0"

definition is_dirty :: "u64 \<Rightarrow> bool" where
  "is_dirty v \<longleftrightarrow> v AND dirty_bit \<noteq> 0"

definition is_optimistic :: "u64 \<Rightarrow> bool" where
  "is_optimistic v \<longleftrightarrow> v AND opt_bit \<noteq> 0"

definition is_locked_here :: "u64 \<Rightarrow> u64 \<Rightarrow> bool" where
  "is_locked_here v here \<longleftrightarrow> v AND (lock_bit OR threadid_mask) = lock_bit OR here"

definition is_locked_elsewhere :: "u64 \<Rightarrow> u64 \<Rightarrow> bool" where
  "is_locked_elsewhere v here \<longleftrightarrow> v AND lock_bit \<noteq> 0 \<and> v AND threadid_mask \<noteq> here"

subsection \<open>Locking\<close>

definition bool_cmpxchg :: "u64 \<Rightarrow> u64 \<Rightarrow> u64 \<Rightarrow> bool \<times> u64" where
  "bool_cmpxchg v expected desired = (if v = expected then (True, desired) else (False, v))"

definition set_lock :: "u64 \<Rightarrow> u64 \<Rightarrow> u64" where
  "set_lock here v = v OR lock_bit OR here"

text \<open>\<open>try_lock here vv v\<close>: \<open>vv\<close> is what the thread read, \<open>v\<close> the word when the exchange happens.\<close>

definition try_lock :: "u64 \<Rightarrow> u64 \<Rightarrow> u64 \<Rightarrow> bool \<times> u64" where
  "try_lock here vv v = bool_cmpxchg v (vv AND NOT lock_bit) (vv OR lock_bit OR here)"

definition try_lock_val :: "u64 \<Rightarrow> u64 \<Rightarrow> u64 \<Rightarrow> u64 \<times> u64" where
  "try_lock_val here vv v =
     (let expected = vv AND NOT lock_bit; desired = vv OR lock_bit OR here
      in if v = expected then (desired, desired) else (v, v))"

text \<open>\<open>lock\<close> spins; the list gives the pairs of values the thread meets, the result is the number of
  attempts it took with the word it leaves, or \<open>None\<close> while it still spins.\<close>

fun lock :: "u64 \<Rightarrow> (u64 \<times> u64) list \<Rightarrow> (nat \<times> u64) option" where
  "lock here [] = None"
| "lock here ((vv, v) # seen) =
     (case try_lock here vv v of
        (True, w) \<Rightarrow> Some (1, w)
      | (False, _) \<Rightarrow> map_option (\<lambda>(n, w). (Suc n, w)) (lock here seen))"

definition unlocked :: "u64 \<Rightarrow> u64" where
  "unlocked v = v AND NOT (lock_bit OR threadid_mask)"

definition unlock :: "u64 \<Rightarrow> u64" where
  "unlock v = v AND NOT (lock_bit OR threadid_mask)"

definition unlock_dirty :: "u64 \<Rightarrow> u64" where
  "unlock_dirty v = v AND NOT (lock_bit OR dirty_bit OR threadid_mask)"

definition unlock_here :: "u64 \<Rightarrow> u64 \<Rightarrow> u64 option" where
  "unlock_here here v = (if is_locked_here v here then Some (v AND NOT (lock_bit OR threadid_mask)) else None)"

subsection \<open>Versions\<close>

definition set_version :: "u64 \<Rightarrow> u64 \<Rightarrow> u64 \<Rightarrow> u64 option" where
  "set_version here new_v v =
     (if is_locked_here v here \<and> new_v AND (lock_bit OR threadid_mask) = 0 then Some (new_v OR (lock_bit OR here)) else None)"

definition set_version_locked :: "u64 \<Rightarrow> u64 \<Rightarrow> u64 \<Rightarrow> u64 option" where
  "set_version_locked here new_v v = (if is_locked_here v here \<and> is_locked_here new_v here then Some new_v else None)"

definition set_version_unlock :: "u64 \<Rightarrow> u64 \<Rightarrow> u64" where
  "set_version_unlock new_v v = new_v AND NOT (lock_bit OR threadid_mask)"

definition set_version_unlock_here :: "u64 \<Rightarrow> u64 \<Rightarrow> u64 \<Rightarrow> u64 option" where
  "set_version_unlock_here here new_v v =
     (if is_locked_here v here \<and> (\<not> is_locked new_v \<or> is_locked_here new_v here)
      then Some (new_v AND NOT (lock_bit OR threadid_mask)) else None)"

definition set_version_unlock_dirty :: "u64 \<Rightarrow> u64 \<Rightarrow> u64" where
  "set_version_unlock_dirty new_v v = new_v AND NOT (lock_bit OR dirty_bit OR threadid_mask)"

definition set_nonopaque :: "u64 \<Rightarrow> u64" where
  "set_nonopaque v = v OR nonopaque_bit"

definition next_nonopaque_version :: "u64 \<Rightarrow> u64" where
  "next_nonopaque_version v = (v + increment_value) OR nonopaque_bit"

definition next_unflagged_version :: "u64 \<Rightarrow> u64" where
  "next_unflagged_version v = (v + increment_value) AND NOT (increment_value - 1)"

definition next_unflagged_nonopaque_version :: "u64 \<Rightarrow> u64" where
  "next_unflagged_nonopaque_version v = next_unflagged_version v OR nonopaque_bit"

definition inc_nonopaque_version :: "u64 \<Rightarrow> u64 \<Rightarrow> u64 option" where
  "inc_nonopaque_version here v = (if is_locked_here v here then Some ((v + increment_value) OR nonopaque_bit) else None)"

definition check_version :: "u64 \<Rightarrow> u64 \<Rightarrow> bool" where
  "check_version cur_vers old_vers \<longleftrightarrow> cur_vers AND NOT (increment_value - 1) = old_vers AND NOT (increment_value - 1)"

definition check_version_here :: "u64 \<Rightarrow> u64 \<Rightarrow> u64 \<Rightarrow> bool option" where
  "check_version_here here cur_vers old_vers =
     (if is_locked_elsewhere old_vers here then None
      else if cur_vers AND lock_bit \<noteq> 0 \<and> cur_vers AND threadid_mask \<noteq> here then Some False
      else Some (cur_vers AND NOT (increment_value - 1) = old_vers AND NOT (increment_value - 1)))"

definition try_check_opacity :: "u64 \<Rightarrow> u64 \<Rightarrow> bool" where
  "try_check_opacity start_tid v \<longleftrightarrow> 0 < sint (start_tid - v) \<and> v AND (lock_bit OR nonopaque_bit) = 0"

subsection \<open>The bits behind the masks\<close>

lemma bit_tid [simp]:
  "bit threadid_mask n \<longleftrightarrow> n < 7" "bit lock_bit n \<longleftrightarrow> n = 7" "bit nonopaque_bit n \<longleftrightarrow> n = 8" "bit user_bit n \<longleftrightarrow> n = 9"
  "bit dirty_bit n \<longleftrightarrow> n = 10" "bit opt_bit n \<longleftrightarrow> n = 11" "bit increment_value n \<longleftrightarrow> n = 12"
  "bit (increment_value - 1) n \<longleftrightarrow> n < 12"
proof -
  have c: "threadid_mask = mask 7" "lock_bit = 2 ^ 7" "nonopaque_bit = 2 ^ 8" "user_bit = 2 ^ 9" "dirty_bit = 2 ^ 10"
    "opt_bit = 2 ^ 11" "increment_value = 2 ^ 12"
    by (simp_all add: tid_consts mask_eq_exp_minus_1)
  have d: "increment_value - 1 = mask 12" by (simp add: tid_consts mask_eq_exp_minus_1)
  show "bit (increment_value - 1) n \<longleftrightarrow> n < 12"
    by (simp only: d bit_mask_iff possible_bit_word) auto
  show "bit threadid_mask n \<longleftrightarrow> n < 7" "bit lock_bit n \<longleftrightarrow> n = 7" "bit nonopaque_bit n \<longleftrightarrow> n = 8" "bit user_bit n \<longleftrightarrow> n = 9"
    "bit dirty_bit n \<longleftrightarrow> n = 10" "bit opt_bit n \<longleftrightarrow> n = 11" "bit increment_value n \<longleftrightarrow> n = 12"
    by (simp_all only: c bit_mask_iff bit_exp_iff possible_bit_word) auto
qed

lemmas word_bits = bit_and_iff bit_or_iff bit_not_iff

lemma and_bit_iff: "v AND m \<noteq> 0 \<longleftrightarrow> bit v k" if "\<And>n. bit m n \<longleftrightarrow> n = k" for v m :: u64
proof
  assume "v AND m \<noteq> 0"
  then obtain n where "bit (v AND m) n" using bit_word_eqI [of "v AND m" 0] by auto
  then show "bit v k" using that [of n] by (auto simp: bit_and_iff)
next
  assume "bit v k"
  then have "bit (v AND m) k" using that [of k] by (simp add: bit_and_iff)
  then show "v AND m \<noteq> 0" by auto
qed

lemma is_locked_bit: "is_locked v \<longleftrightarrow> bit v 7" and is_dirty_bit: "is_dirty v \<longleftrightarrow> bit v 10"
  and is_optimistic_bit: "is_optimistic v \<longleftrightarrow> bit v 11"
  by (simp_all add: is_locked_def is_dirty_def is_optimistic_def and_bit_iff)

text \<open>The holder field: thread number and lock bit.\<close>

definition holder :: "u64 \<Rightarrow> u64" where
  "holder v = take_bit 8 v"

lemma holder_bit: "bit (holder v) n \<longleftrightarrow> n < 8 \<and> bit v n"
  by (auto simp: holder_def bit_take_bit_iff)

lemma holder_and: "v AND (lock_bit OR threadid_mask) = holder v"
  by (rule bit_word_eqI) (auto simp: holder_bit word_bits)

lemma holder_simps:
  "holder (v OR w) = holder v OR holder w" "holder (v AND w) = holder v AND holder w" "holder (holder v) = holder v"
  "holder 0 = 0" "holder lock_bit = lock_bit" "holder threadid_mask = threadid_mask" "holder nonopaque_bit = 0"
  "holder dirty_bit = 0"
  by (rule bit_word_eqI; auto simp: holder_bit word_bits)+

lemma holder_clear: "holder (v AND NOT (lock_bit OR threadid_mask)) = 0"
  "holder (v AND NOT (lock_bit OR dirty_bit OR threadid_mask)) = 0"
  "holder (v AND NOT lock_bit AND NOT threadid_mask) = 0"
  "holder (v AND NOT lock_bit AND NOT dirty_bit AND NOT threadid_mask) = 0"
  by (rule bit_word_eqI; auto simp: holder_bit word_bits)+

lemma small_bits:
  assumes "t < 128" "bit (of_nat t :: u64) n"
  shows "n < 7"
proof -
  have "take_bit 7 t = t" using assms(1) by (simp add: take_bit_nat_eq_self_iff)
  then have "take_bit 7 (of_nat t :: u64) = of_nat t" by (simp add: take_bit_of_nat)
  then show ?thesis using assms(2) bit_take_bit_iff by metis
qed

lemma small_thread: "t < 128 \<Longrightarrow> holder (of_nat t) = of_nat t" "t < 128 \<Longrightarrow> (lock_bit OR of_nat t) AND threadid_mask = of_nat t"
  "t < 128 \<Longrightarrow> (lock_bit OR of_nat t) AND lock_bit = lock_bit"
  by (rule bit_word_eqI; auto simp: holder_bit word_bits dest: small_bits)+

lemma is_locked_here_holder: "is_locked_here v here \<longleftrightarrow> holder v = lock_bit OR here"
  by (simp only: is_locked_here_def holder_and)

lemma seen_free:
  assumes "holder (s AND NOT lock_bit) = 0"
  shows "holder (s OR lock_bit OR w) = lock_bit OR holder w"
proof (rule bit_word_eqI)
  fix n
  have "\<not> (n < 8 \<and> n < 64 \<and> bit s n \<and> n \<noteq> 7)"
    using arg_cong [OF assms, of "\<lambda>x. bit x n"] by (auto simp: holder_bit word_bits)
  then show "bit (holder (s OR lock_bit OR w)) n \<longleftrightarrow> bit (lock_bit OR holder w) n"
    by (auto simp: holder_bit word_bits dest: bit_imp_le_length)
qed

lemma holder_add: "holder (v + increment_value) = holder v"
proof -
  have "(unat v + 16 * 256) mod 256 = unat v mod 256" by (rule mod_mult_self1)
  then have "(unat v + 4096) mod 2 ^ 64 mod 2 ^ 8 = unat v mod (2 ^ 8 :: nat)" by (simp add: mod_mod_cancel)
  then have "unat (take_bit 8 (v + increment_value)) = unat (take_bit 8 v)"
    by (simp add: unsigned_take_bit_eq take_bit_eq_mod increment_value_def unat_word_ariths)
  then show ?thesis by (simp only: holder_def word_unat_eq_iff)
qed

subsection \<open>Mutual exclusion\<close>

definition tid_acquire :: "nat \<Rightarrow> u64 \<Rightarrow> u64 \<Rightarrow> u64 option" where
  "tid_acquire t seen v = (case try_lock (of_nat t) seen v of (True, w) \<Rightarrow> Some w | (False, _) \<Rightarrow> None)"

text \<open>What the owner may do to the word while it keeps the lock, and with what it gives it up.\<close>

definition tid_update :: "nat \<Rightarrow> u64 \<Rightarrow> u64 \<Rightarrow> bool" where
  "tid_update t v w \<longleftrightarrow> inc_nonopaque_version (of_nat t) v = Some w \<or> w = set_nonopaque v \<or> w = v OR dirty_bit
     \<or> (\<exists>new_v. set_version (of_nat t) new_v v = Some w \<or> set_version_locked (of_nat t) new_v v = Some w)"

definition tid_release :: "nat \<Rightarrow> u64 \<Rightarrow> u64 \<Rightarrow> bool" where
  "tid_release t v w \<longleftrightarrow> w = unlock v \<or> w = unlock_dirty v \<or> unlock_here (of_nat t) v = Some w
     \<or> (\<exists>new_v. w = set_version_unlock new_v v \<or> set_version_unlock_here (of_nat t) new_v v = Some w
          \<or> w = set_version_unlock_dirty new_v v)"

interpretation tid_lock: lock_word "{..<128}" tid_acquire tid_update tid_release
  "\<lambda>v. holder v = 0" "\<lambda>t v. is_locked_here v (of_nat t)"
proof
  fix t t' v seen w
  assume t: "t \<in> {..<128 :: nat}"
  show "is_locked_here w (of_nat t)" if "holder v = 0" "tid_acquire t seen v = Some w"
    using that t seen_free [of seen "of_nat t"]
    by (auto simp: tid_acquire_def try_lock_def bool_cmpxchg_def is_locked_here_holder small_thread split: if_splits)
  show "tid_acquire t seen v = None" if "t' \<in> {..<128}" "is_locked_here v (of_nat t')"
  proof -
    have "bit v 7"
      using arg_cong [OF that(2) [unfolded is_locked_here_holder], of "\<lambda>x. bit x 7"] by (simp add: holder_bit bit_or_iff)
    then have "v \<noteq> seen AND NOT lock_bit" by (auto simp: bit_and_iff bit_not_iff)
    then show ?thesis by (simp add: tid_acquire_def try_lock_def bool_cmpxchg_def)
  qed
  show "is_locked_here w (of_nat t)" if "is_locked_here v (of_nat t)" "tid_update t v w"
    using that(2) that(1) t unfolding tid_update_def
    by (elim disjE exE) (auto simp: inc_nonopaque_version_def set_version_def set_version_locked_def set_nonopaque_def
        is_locked_here_holder holder_simps holder_add holder_and small_thread split: if_splits)
  show "holder w = 0" if "is_locked_here v (of_nat t)" "tid_release t v w"
    using that by (auto simp: tid_release_def unlock_def unlock_dirty_def unlock_here_def set_version_unlock_def
        set_version_unlock_here_def set_version_unlock_dirty_def holder_clear split: if_splits)
qed

text \<open>C30: The lock of a version word excludes.  Threads with numbers below 128 try to lock by reading
  the word and exchanging it later, update the word while they hold the lock and release it, in any
  interleaving, from a word nobody holds.  Then at most one thread holds the lock; the word names this
  thread, and every other thread sees the word locked elsewhere; when nobody holds the lock the word
  is unlocked and carries no thread number.\<close>

theorem tid_mutual_exclusion:
  assumes "(lock_step {..<128} tid_acquire tid_update tid_release)\<^sup>*\<^sup>* (lock_start v) s"
    and "v AND (lock_bit OR threadid_mask) = 0"
  shows "(lk_pc s t = Held \<longrightarrow> is_locked_here (lk_word s) (of_nat t) \<and>
            (\<forall>t'<128. t' \<noteq> t \<longrightarrow> lk_pc s t' \<noteq> Held \<and> is_locked_elsewhere (lk_word s) (of_nat t')))
    \<and> ((\<forall>t. lk_pc s t \<noteq> Held) \<longrightarrow> \<not> is_locked (lk_word s) \<and> lk_word s AND threadid_mask = 0)"
proof -
  have v: "holder v = 0" using assms(2) by (simp only: holder_and)
  note me = tid_lock.mutual_exclusion [OF assms(1) v] and inv = tid_lock.lock_inv_run [OF assms(1) v]
  have "is_locked_elsewhere (lk_word s) (of_nat t')" if held: "lk_pc s t = Held" and t': "t' < 128" "t' \<noteq> t" for t'
  proof -
    have t: "t < 128" using tid_lock.lock_held(1) [OF inv held] by simp
    have h: "holder (lk_word s) = lock_bit OR of_nat t" using me held by (simp add: is_locked_here_holder)
    have "lk_word s AND threadid_mask = holder (lk_word s) AND threadid_mask" "lk_word s AND lock_bit = holder (lk_word s) AND lock_bit"
      by (rule bit_word_eqI; auto simp: holder_bit word_bits)+
    moreover have "(of_nat t :: u64) \<noteq> of_nat t'" 
      using t t' unat_of_nat_small [of t, where 'a = 64] unat_of_nat_small [of t', where 'a = 64] by auto
    ultimately show ?thesis
      using small_thread(2,3) [OF t] by (simp add: is_locked_elsewhere_def h) (simp add: lock_bit_def)
  qed
  moreover have "\<not> is_locked (lk_word s) \<and> lk_word s AND threadid_mask = 0" if "\<forall>t. lk_pc s t \<noteq> Held"
  proof -
    have h: "holder (lk_word s) = 0" using me that by blast
    have b: "\<not> bit (lk_word s) n" if "n < 8" for n using arg_cong [OF h, of "\<lambda>x. bit x n"] that by (simp add: holder_bit)
    have "lk_word s AND threadid_mask = 0" by (rule bit_word_eqI) (use b in \<open>auto simp: word_bits\<close>)
    then show ?thesis using b [of 7] by (simp add: is_locked_bit)
  qed
  ultimately show ?thesis using me by blast
qed

theorem tid_mutual_exclusion_witness:
  "(lock_step {..<128} tid_acquire tid_update tid_release)\<^sup>*\<^sup>* (lock_start 0x1000)
     \<lparr>lk_word = 0x1085, lk_pc = (\<lambda>_. Idle)(5 := Held, 9 := Seen 0x1000)\<rparr>
   \<and> is_locked_elsewhere 0x1085 9"
proof -
  let ?step = "lock_step {..<128} tid_acquire tid_update tid_release"
  let ?s1 = "\<lparr>lk_word = 0x1000, lk_pc = (\<lambda>_. Idle)(9 := Seen 0x1000)\<rparr> :: u64 lock_state"
  let ?s2 = "\<lparr>lk_word = 0x1000, lk_pc = (\<lambda>_. Idle)(5 := Seen 0x1000, 9 := Seen 0x1000)\<rparr> :: u64 lock_state"
  let ?s3 = "\<lparr>lk_word = 0x1085, lk_pc = (\<lambda>_. Idle)(5 := Held, 9 := Seen 0x1000)\<rparr> :: u64 lock_state"
  have "?step (lock_start 0x1000) ?s1"
    using lock_step.look [of 9 "{..<128}" "lock_start (0x1000 :: u64)"] by (simp add: lock_start_def)
  moreover have "?step ?s1 ?s2"
    using lock_step.look [of 5 "{..<128}" ?s1] by (simp add: fun_upd_twist)
  moreover have "tid_acquire 5 0x1000 0x1000 = Some 0x1085"
    by (simp add: tid_acquire_def try_lock_def bool_cmpxchg_def lock_bit_def)
  then have "?step ?s2 ?s3"
    using lock_step.won [of 5 "{..<128}" ?s2 "0x1000" tid_acquire "0x1085"] by (simp add: fun_upd_twist)
  ultimately have run: "?step\<^sup>*\<^sup>* (lock_start 0x1000) ?s3" by (meson converse_rtranclp_into_rtranclp rtranclp.rtrancl_refl)
  have "(0x1000 :: u64) AND (lock_bit OR threadid_mask) = 0" by (simp add: lock_bit_def threadid_mask_def)
  from tid_mutual_exclusion [OF run this, of 5] have "\<forall>t'<128. t' \<noteq> 5 \<longrightarrow> is_locked_elsewhere 0x1085 (of_nat t')" by auto
  from this [rule_format, of 9] show ?thesis using run by simp
qed

subsection \<open>Versions\<close>

definition version_number :: "u64 \<Rightarrow> nat" where
  "version_number v = unat v div 4096"

lemma check_version_number: "check_version v w \<longleftrightarrow> version_number v = version_number w"
proof -
  have e: "x AND NOT (increment_value - 1) = push_bit 12 (drop_bit 12 x)"
    "drop_bit 12 (x AND NOT (increment_value - 1)) = drop_bit 12 x" for x :: u64
    by (rule bit_word_eqI; auto simp: word_bits bit_push_bit_iff bit_drop_bit_eq dest: bit_imp_le_length)+
  have "check_version v w \<longleftrightarrow> drop_bit 12 v = drop_bit 12 w"
    unfolding check_version_def using e by metis
  also have "\<dots> \<longleftrightarrow> unat (drop_bit 12 v) = unat (drop_bit 12 w)" by (rule word_unat_eq_iff)
  also have "\<dots> \<longleftrightarrow> version_number v = version_number w"
    by (simp add: version_number_def unat_drop_bit_eq drop_bit_eq_div unat_div_distrib)
  finally show ?thesis .
qed

lemma version_number_cong: "(\<And>n. 12 \<le> n \<Longrightarrow> bit v n = bit w n) \<Longrightarrow> version_number v = version_number w"
proof -
  assume "\<And>n. 12 \<le> n \<Longrightarrow> bit v n = bit w n"
  then have "drop_bit 12 v = drop_bit 12 w" by (intro bit_word_eqI) (auto simp: bit_drop_bit_eq)
  then have "unat (drop_bit 12 v) = unat (drop_bit 12 w)" by simp
  then show ?thesis by (simp add: version_number_def unat_drop_bit_eq drop_bit_eq_div unat_div_distrib)
qed

lemma version_number_bits:
  assumes "\<And>n. bit w n \<Longrightarrow> n < 12"
  shows "version_number (v OR w) = version_number v" "version_number (v AND NOT w) = version_number v"
proof -
  have "\<not> bit w n" if "12 \<le> n" for n using assms [of n] that by auto
  then show "version_number (v OR w) = version_number v" "version_number (v AND NOT w) = version_number v"
    by (auto simp: word_bits intro!: version_number_cong) (use bit_imp_le_length [of v] in auto)
qed

lemma version_number_next: "version_number (v + increment_value) = (version_number v + 1) mod 2 ^ 52"
proof -
  have "x mod (4096 * 2 ^ 52) div 4096 = x div 4096 mod 2 ^ 52" for x :: nat by (simp only: mod_mult2_eq)
  from this [of "unat v + 4096"] have that0: "(unat v + 4096) mod 2 ^ 64 div 4096 = (unat v + 4096) div 4096 mod (2 ^ 52 :: nat)" by simp
  moreover have "(unat v + 4096) div 4096 = unat v div 4096 + 1" by (rule div_add_self2) simp
  ultimately have "(unat v + 4096) mod 2 ^ 64 div 4096 = (unat v div 4096 + 1) mod (2 ^ 52 :: nat)"
    by (simp only:)
  then show ?thesis by (simp add: version_number_def increment_value_def unat_word_ariths)
qed

text \<open>Validation sees every new version and no other change.  Two words pass \<open>check_version\<close> exactly
  when their 52-bit version numbers agree.  Locking, unlocking and setting flags keep the number; the
  functions that make the next version add one to it, modulo \<open>2^52\<close>, so the result never passes the
  check against the version it replaces.\<close>

theorem tid_versions_change:
  fixes t :: "7 word"
  shows "(check_version v w \<longleftrightarrow> version_number v = version_number w)
    \<and> version_number (unlock v) = version_number v \<and> version_number (unlock_dirty v) = version_number v
    \<and> version_number (set_nonopaque v) = version_number v \<and> version_number (set_lock (ucast t) v) = version_number v
    \<and> version_number (next_nonopaque_version v) = (version_number v + 1) mod 2 ^ 52
    \<and> version_number (next_unflagged_version v) = (version_number v + 1) mod 2 ^ 52
    \<and> version_number (next_unflagged_nonopaque_version v) = (version_number v + 1) mod 2 ^ 52
    \<and> \<not> check_version (next_nonopaque_version v) v \<and> \<not> check_version (next_unflagged_version v) v"
proof -
  have flags: "bit (lock_bit OR ucast t) n \<Longrightarrow> n < 12" "bit (lock_bit OR threadid_mask) n \<Longrightarrow> n < 12"
    "bit (lock_bit OR dirty_bit OR threadid_mask) n \<Longrightarrow> n < 12" "bit nonopaque_bit n \<Longrightarrow> n < 12" "bit (increment_value - 1) n \<Longrightarrow> n < 12" for n
    by (auto simp: word_bits bit_ucast_iff dest: bit_imp_le_length)
  have "version_number v < 2 ^ 52" using unat_bound [of v] by (simp add: version_number_def)
  then have next_neq: "(version_number v + 1) mod 2 ^ 52 \<noteq> version_number v"
    by (cases "version_number v + 1 = 2 ^ 52") auto
  note bits = flags [THEN version_number_bits(1)] flags [THEN version_number_bits(2)]
  show ?thesis
    unfolding check_version_number unlock_def unlock_dirty_def set_nonopaque_def set_lock_def next_nonopaque_version_def
      next_unflagged_version_def next_unflagged_nonopaque_version_def
    by (intro conjI) (simp_all only: bits version_number_next next_neq simp_thms)
qed

end
