(* ===== verification/Sto_TicToc.thy ===== *)
theory Sto_TicToc
  imports Sto_Tid
begin

unbundle bit_operations_syntax

text \<open>
  Timestamp versions of the TicToc protocol (\<open>sto-core/TicTocVersions.hh\<close>): the two-word layout, where
  one version word holds the read timestamp with the lock and a second one the write timestamp, and
  the compressed layout, where one word holds the write timestamp and the distance to the read timestamp.

  The validation loops race with other threads.  An iteration is a function of the values the thread
  reads and of the word when the exchange happens; the loop takes the list of these values, one triple or
  pair per iteration, and is \<open>None\<close> while it has not returned.  The result carries the word the exchange
  leaves.
\<close>

subsection \<open>Two words\<close>

definition ts_shift :: nat where "ts_shift = 12"

definition timestamp :: "u64 \<Rightarrow> u64" where
  "timestamp ts = drop_bit ts_shift ts"

definition set_timestamp_locked :: "u64 \<Rightarrow> u64 \<Rightarrow> u64 \<Rightarrow> u64 \<Rightarrow> u64 option" where
  "set_timestamp_locked here new_ts flags ts =
     (if is_locked_here ts here then Some ((push_bit ts_shift new_ts OR lock_bit OR here) OR flags) else None)"

definition set_timestamp_unlock :: "u64 \<Rightarrow> u64 \<Rightarrow> u64 \<Rightarrow> u64 \<Rightarrow> u64 option" where
  "set_timestamp_unlock here new_ts flags ts =
     (if is_locked_here ts here then Some (push_bit ts_shift new_ts OR flags) else None)"

definition set_timestamp :: "u64 \<Rightarrow> u64 \<Rightarrow> u64" where
  "set_timestamp new_ts flags = push_bit ts_shift new_ts OR flags"

text \<open>One turn of the loop: \<open>Inl w\<close> to go round again with the word \<open>w\<close>, \<open>Inr (result, w)\<close> on return.\<close>

definition validate_turn ::
  "u64 \<Rightarrow> u64 \<Rightarrow> u64 \<Rightarrow> u64 \<Rightarrow> u64 \<times> u64 \<times> u64 \<Rightarrow> u64 + bool \<times> u64" where
  "validate_turn here read_wts read_rts commit_ts = (\<lambda>(t_wts, t_rts, cur).
     if timestamp read_rts \<ge> commit_ts then Inr (True, cur)
     else if timestamp t_wts \<noteq> timestamp read_wts \<or> (timestamp t_rts < commit_ts \<and> is_locked_elsewhere t_rts here)
     then Inr (False, cur)
     else if timestamp t_rts < commit_ts then
       (let v = push_bit ts_shift commit_ts OR (t_rts AND (increment_value - 1)) in
        case bool_cmpxchg cur t_rts v of (True, w) \<Rightarrow> Inr (True, w) | (False, w) \<Rightarrow> Inl w)
     else Inr (True, cur))"

fun validate_timestamps ::
  "u64 \<Rightarrow> u64 \<Rightarrow> u64 \<Rightarrow> u64 \<Rightarrow> (u64 \<times> u64 \<times> u64) list \<Rightarrow> (bool \<times> u64 \<times> u64 \<times> u64 \<times> u64) option" where
  "validate_timestamps here read_wts read_rts commit_ts [] = None"
| "validate_timestamps here read_wts read_rts commit_ts (seen # later) =
     (case validate_turn here read_wts read_rts commit_ts seen of
        Inl w \<Rightarrow> validate_timestamps here read_wts read_rts commit_ts later
      | Inr (b, w) \<Rightarrow> Some (b, w, seen))"

definition validate_timestamps_noext :: "u64 \<Rightarrow> u64 \<Rightarrow> u64 \<Rightarrow> u64 \<Rightarrow> u64 \<Rightarrow> u64 \<Rightarrow> bool" where
  "validate_timestamps_noext here read_wts read_rts commit_ts t_wts t_rts \<longleftrightarrow>
     timestamp read_rts \<ge> commit_ts \<or>
     \<not> (timestamp t_wts \<noteq> timestamp read_wts \<or> (timestamp t_rts < commit_ts \<and> is_locked_elsewhere t_rts here))"

record wide_tid =
  wide_v0 :: u64
  wide_v1 :: u64

definition pack_wide :: "u64 \<Rightarrow> u64 \<Rightarrow> wide_tid" where
  "pack_wide rts wts = \<lparr>wide_v0 = rts, wide_v1 = wts\<rparr>"

definition unpack_wide :: "wide_tid \<Rightarrow> u64 \<times> u64" where
  "unpack_wide ts = (wide_v0 ts, wide_v1 ts)"

subsection \<open>One word\<close>

definition delta_shift :: nat where "delta_shift = 12"
definition wts_shift :: nat where "wts_shift = 20"
definition delta_mask :: u64 where "delta_mask = push_bit delta_shift 0xFF"

definition wts_value :: "u64 \<Rightarrow> u64" where
  "wts_value t = drop_bit wts_shift t"

definition rts_value :: "u64 \<Rightarrow> u64" where
  "rts_value t = wts_value t + drop_bit delta_shift (t AND delta_mask)"

definition set_timestamps :: "u64 \<Rightarrow> u64 \<Rightarrow> u64 \<Rightarrow> u64 \<Rightarrow> u64 option" where
  "set_timestamps here commit_ts flags t =
     (if is_locked_here t here then Some ((push_bit wts_shift commit_ts OR lock_bit OR here) OR flags) else None)"

definition set_timestamps_unlock :: "u64 \<Rightarrow> u64 \<Rightarrow> u64" where
  "set_timestamps_unlock commit_ts flags = push_bit wts_shift commit_ts OR flags"

text \<open>
  The word with an extended read timestamp.  In \<open>delta & 0xff << delta_shift\<close> the shift binds tighter
  than the conjunction, so the field receives \<open>delta & 0xff000\<close>.
\<close>

definition extend_word :: "u64 \<Rightarrow> u64 \<Rightarrow> u64" where
  "extend_word commit_ts v =
     (let delta = commit_ts - wts_value v;
          shift = delta - (delta AND 0xFF);
          vv = v + push_bit wts_shift shift;
          vv = vv AND NOT delta_mask
      in vv OR (delta AND push_bit delta_shift 0xFF))"

definition validate_word_turn :: "u64 \<Rightarrow> u64 \<Rightarrow> u64 \<Rightarrow> u64 \<times> u64 \<times> u64 \<Rightarrow> u64 + bool \<times> u64" where
  "validate_word_turn here read_tss commit_ts = (\<lambda>(v, t, cur).
     if rts_value read_tss \<ge> commit_ts then Inr (True, cur)
     else if wts_value v \<noteq> wts_value read_tss \<or> (rts_value v < commit_ts \<and> is_locked_elsewhere t here)
     then Inr (False, cur)
     else if rts_value v < commit_ts then
       (case bool_cmpxchg cur v (extend_word commit_ts v) of (True, w) \<Rightarrow> Inr (True, w) | (False, w) \<Rightarrow> Inl w)
     else Inr (True, cur))"

fun validate_word :: "u64 \<Rightarrow> u64 \<Rightarrow> u64 \<Rightarrow> (u64 \<times> u64 \<times> u64) list \<Rightarrow> (bool \<times> u64) option" where
  "validate_word here read_tss commit_ts [] = None"
| "validate_word here read_tss commit_ts (seen # later) =
     (case validate_word_turn here read_tss commit_ts seen of
        Inl w \<Rightarrow> validate_word here read_tss commit_ts later
      | Inr r \<Rightarrow> Some r)"

definition validate_word_noext :: "u64 \<Rightarrow> u64 \<Rightarrow> u64 \<Rightarrow> u64 \<Rightarrow> u64 \<Rightarrow> bool" where
  "validate_word_noext here read_tss commit_ts v t \<longleftrightarrow>
     rts_value read_tss \<ge> commit_ts \<or>
     \<not> (wts_value v \<noteq> wts_value read_tss \<or> (rts_value v < commit_ts \<and> is_locked_elsewhere t here))"

subsection \<open>Versions\<close>

text \<open>\<open>tictoc_compute_commit_ts_step\<close>, given the version's two timestamps.\<close>

definition tictoc_compute_commit_ts_step :: "u64 \<Rightarrow> u64 \<Rightarrow> bool \<Rightarrow> u64 \<Rightarrow> u64" where
  "tictoc_compute_commit_ts_step read_ts write_ts is_write tictoc_ts =
     (if is_write then max tictoc_ts (read_ts + 1) else max tictoc_ts write_ts)"

record tictoc_version =
  tt_v :: u64
  tt_wts :: u64

definition tt_initial :: tictoc_version where
  "tt_initial = \<lparr>tt_v = initialized_tid, tt_wts = initialized_tid\<rparr>"

definition tt_read_timestamp :: "tictoc_version \<Rightarrow> u64" where
  "tt_read_timestamp x = timestamp (tt_v x)"

definition tt_write_timestamp :: "tictoc_version \<Rightarrow> u64" where
  "tt_write_timestamp x = timestamp (tt_wts x)"

definition tt_set_version_unlock :: "u64 \<Rightarrow> u64 \<Rightarrow> tictoc_version \<Rightarrow> tictoc_version option" where
  "tt_set_version_unlock here new_ts x =
     map_option (\<lambda>v. \<lparr>tt_v = v, tt_wts = set_timestamp new_ts 0\<rparr>) (set_timestamp_unlock here new_ts 0 (tt_v x))"

definition tt_set_version :: "u64 \<Rightarrow> u64 \<Rightarrow> tictoc_version \<Rightarrow> tictoc_version option" where
  "tt_set_version here new_ts x =
     map_option (\<lambda>v. \<lparr>tt_v = v, tt_wts = set_timestamp new_ts 0\<rparr>) (set_timestamp_locked here new_ts 0 (tt_v x))"

definition compressed_initial :: u64 where
  "compressed_initial = push_bit wts_shift 1"

definition compressed_of :: "u64 \<Rightarrow> u64" where
  "compressed_of v = push_bit wts_shift (v div increment_value)"

subsection \<open>Fields\<close>

lemma bit_delta_mask [simp]: "bit delta_mask n \<longleftrightarrow> 12 \<le> n \<and> n < 20"
proof -
  have "delta_mask = push_bit 12 (mask 8)" by (simp add: delta_mask_def delta_shift_def mask_eq_exp_minus_1)
  then have "bit delta_mask n \<longleftrightarrow> bit (push_bit 12 (mask 8) :: u64) n" by (simp only:)
  then show ?thesis by (simp only: bit_push_bit_iff bit_mask_iff possible_bit_word) auto
qed

lemma timestamp_number: "unat (timestamp v) = version_number v"
  by (simp add: timestamp_def ts_shift_def version_number_def unat_drop_bit_eq drop_bit_eq_div unat_div_distrib)

lemma push_drop:
  assumes "\<And>n. bit flags n \<Longrightarrow> n < k" "k < 64"
  shows "drop_bit k (push_bit k c OR flags :: u64) = take_bit (64 - k) c"
  by (rule bit_word_eqI)
    (use assms(1) in \<open>auto simp: bit_drop_bit_eq word_bits bit_push_bit_iff bit_take_bit_iff dest: bit_imp_le_length\<close>)

lemma unat_take: "unat (take_bit k c :: u64) = unat c mod 2 ^ k"
  by (simp only: unsigned_take_bit_eq) (simp only: take_bit_eq_mod)

lemma low_flags: "bit (t AND (increment_value - 1)) n \<Longrightarrow> n < 12" for t :: u64
  by (simp add: bit_and_iff)

lemma extended_timestamp:
  assumes "unat c < 2 ^ 52"
  shows "timestamp (push_bit ts_shift c OR (t AND (increment_value - 1))) = c"
proof -
  have "timestamp (push_bit ts_shift c OR (t AND (increment_value - 1))) = take_bit 52 c"
    using push_drop [of "t AND (increment_value - 1)" 12 c] low_flags by (simp add: timestamp_def ts_shift_def)
  also have "take_bit 52 c = c" using assms by (simp add: word_unat_eq_iff unat_take)
  finally show ?thesis .
qed

lemma extended_flags:
  "(push_bit ts_shift c OR (t AND (increment_value - 1))) AND (increment_value - 1) = t AND (increment_value - 1)"
  for t :: u64
  by (rule bit_word_eqI) (auto simp: word_bits bit_push_bit_iff ts_shift_def)

subsection \<open>Validation\<close>



lemma small_delta:
  assumes "unat d < 256"
  shows "d AND 0xFF = (d :: u64)" "d AND push_bit delta_shift 0xFF = 0"
proof -
  have t: "take_bit 8 d = d" using assms by (simp add: word_unat_eq_iff unat_take)
  then show "d AND 0xFF = d" by (simp add: take_bit_eq_mask mask_eq_exp_minus_1)
  have "bit d n \<Longrightarrow> n < 8" for n using t bit_take_bit_iff [of 8 d n] by simp
  then show "d AND push_bit delta_shift 0xFF = 0"
    unfolding delta_mask_def [symmetric] by (intro bit_word_eqI) (fastforce simp: bit_and_iff)
qed

lemma cleared_delta:
  "wts_value (v AND NOT delta_mask) = wts_value v" "rts_value (v AND NOT delta_mask) = wts_value v"
proof -
  show w: "wts_value (v AND NOT delta_mask) = wts_value v"
    by (rule bit_word_eqI)
      (auto simp: wts_value_def wts_shift_def bit_drop_bit_eq word_bits dest: bit_imp_le_length)
  have "(v AND NOT delta_mask) AND delta_mask = 0" by (rule bit_word_eqI) (auto simp: word_bits)
  then show "rts_value (v AND NOT delta_mask) = wts_value v" by (simp only: rts_value_def w drop_bit_of_0 add_0_right)
qed

lemma wts_le_rts: "wts_value v \<le> rts_value v"
proof -
  have w: "unat (wts_value v) < 2 ^ 44"
    using unat_bound [of v] by (simp add: wts_value_def wts_shift_def unat_drop_bit_eq drop_bit_eq_div unat_div_distrib)
  have "drop_bit delta_shift (v AND delta_mask) = take_bit 8 (drop_bit 12 v)"
    by (rule bit_word_eqI) (auto simp: delta_shift_def bit_drop_bit_eq word_bits bit_take_bit_iff)
  then have "unat (drop_bit delta_shift (v AND delta_mask)) < 2 ^ 8" by (simp only: unat_take) simp
  with w show ?thesis
    by (simp add: rts_value_def word_le_nat_alt unat_word_ariths)
qed

text \<open>The compressed layout loses the extension.  When a read of an unlocked tuple is validated at a
  commit timestamp less than 256 above its write timestamp, and its read timestamp has to be raised
  for that, the uninterrupted loop accepts the read but leaves the read timestamp at the write
  timestamp, below the commit timestamp (and possibly below what it was): a later writer may then
  commit between the version read and the reader's commit timestamp.\<close>

theorem compressed_extension_is_lost:
  assumes "wts_value v = wts_value read_tss" "\<not> is_locked_elsewhere v here"
    and "rts_value read_tss < commit_ts" "rts_value v < commit_ts"
    and "commit_ts - wts_value v < 256"
  shows "\<exists>w. validate_word here read_tss commit_ts [(v, v, v)] = Some (True, w) \<and>
    wts_value w = wts_value v \<and> rts_value w = wts_value v \<and> rts_value w < commit_ts"
proof -
  let ?d = "commit_ts - wts_value v"
  have d: "unat ?d < 256" using assms(5) by (simp add: word_less_nat_alt)
  have e: "extend_word commit_ts v = v AND NOT delta_mask"
    using small_delta [OF d] by (simp add: extend_word_def Let_def)
  have "validate_word_turn here read_tss commit_ts (v, v, v) = Inr (True, v AND NOT delta_mask)"
    using assms not_le [THEN iffD2, OF assms(3)] by (simp add: validate_word_turn_def bool_cmpxchg_def e)
  moreover have "wts_value v < commit_ts" using wts_le_rts [of v] assms(4) by (rule order_le_less_trans)
  ultimately show ?thesis by (simp add: cleared_delta)
qed

theorem compressed_extension_is_lost_witness:
  "\<exists>w. validate_word 0 0x500000 7 [(0x500000, 0x500000, 0x500000)] = Some (True, w) \<and> rts_value w = 5"
  using compressed_extension_is_lost [of "0x500000" "0x500000" 0 7]
  by (auto simp: wts_value_def wts_shift_def rts_value_def delta_mask_def delta_shift_def is_locked_elsewhere_def
      lock_bit_def simp del: validate_word.simps)

text \<open>Timestamps survive the layouts.  Writing a timestamp and reading it back gives the timestamp
  modulo the width of its field (52 bits, or 44 in the compressed word); a version installed by a
  committing owner has both timestamps equal to the commit timestamp and is unlocked, and in the compressed
  word the read timestamp starts at the write timestamp; a packed pair unpacks to itself.\<close>

theorem timestamps_round_trip:
  "unat (timestamp (set_timestamp ts 0)) = unat ts mod 2 ^ 52 \<and>
   (is_locked_here (tt_v x) here \<longrightarrow>
     (\<exists>y. tt_set_version_unlock here ts x = Some y \<and> tt_read_timestamp y = tt_write_timestamp y \<and>
       unat (tt_write_timestamp y) = unat ts mod 2 ^ 52 \<and> \<not> is_locked (tt_v y))) \<and>
   (\<not> is_locked_here (tt_v x) here \<longrightarrow> tt_set_version_unlock here ts x = None) \<and>
   unat (wts_value (set_timestamps_unlock ts 0)) = unat ts mod 2 ^ 44 \<and>
   rts_value (set_timestamps_unlock ts 0) = wts_value (set_timestamps_unlock ts 0) \<and>
   \<not> is_locked (set_timestamps_unlock ts 0) \<and>
   unpack_wide (pack_wide r w) = (r, w)"
proof -
  have p: "drop_bit k (push_bit k ts) = take_bit (64 - k) ts" if "k < 64" for k
    using push_drop [of 0 k ts] that by simp
  have a: "unat (timestamp (push_bit ts_shift ts)) = unat ts mod 2 ^ 52"
    using p [of 12] by (simp add: timestamp_def ts_shift_def unat_take)
  have b: "unat (wts_value (push_bit wts_shift ts)) = unat ts mod 2 ^ 44"
    using p [of 20] by (simp add: wts_value_def wts_shift_def unat_take)
  have c: "\<not> is_locked (push_bit ts_shift ts)" "\<not> is_locked (push_bit wts_shift ts)"
    by (simp_all add: is_locked_bit bit_push_bit_iff ts_shift_def wts_shift_def)
  have "push_bit wts_shift ts AND delta_mask = 0"
    by (rule bit_word_eqI) (auto simp: word_bits bit_push_bit_iff wts_shift_def)
  then have d: "rts_value (push_bit wts_shift ts) = wts_value (push_bit wts_shift ts)"
    by (simp only: rts_value_def) simp
  show ?thesis
    using a b c d
    by (auto simp: set_timestamp_def tt_set_version_unlock_def set_timestamp_unlock_def set_timestamps_unlock_def
        tt_read_timestamp_def tt_write_timestamp_def pack_wide_def unpack_wide_def)
qed

theorem timestamps_round_trip_witness:
  "\<exists>y. tt_set_version_unlock 3 9 \<lparr>tt_v = 0x5083, tt_wts = 0x4000\<rparr> = Some y \<and>
     unat (tt_write_timestamp y) = 9 \<and> \<not> is_locked (tt_v y)"
  using timestamps_round_trip [of 9 "\<lparr>tt_v = 0x5083, tt_wts = 0x4000\<rparr>" 3 0 0]
  by (auto simp: is_locked_here_def lock_bit_def threadid_mask_def)

end
