(* ===== verification/Txn_Item.thy ===== *)
theory Txn_Item
  imports Sto_TicToc
begin

unbundle bit_operations_syntax

text \<open>
  Items of a transaction's read and write set (\<open>sto-core/TransItem.hh\<close>, classes \<open>TransItem\<close> and
  \<open>TransProxy\<close>; \<open>sto-core/ConcurrencyControl.hh\<close>).  The word \<open>it_s\<close> packs the owner's 48-bit address with
  the flags of the item.  Failing assertions are \<open>None\<close>.  Pointers to packed read and write data are
  words; the packing buffer itself is outside the model.
\<close>

subsection \<open>Layout\<close>

definition write_bit :: u64 where "write_bit = 2 ^ 63"
definition read_bit :: u64 where "read_bit = 2 ^ 62"
definition item_lock_bit :: u64 where "item_lock_bit = 2 ^ 61"
definition predicate_bit :: u64 where "predicate_bit = 2 ^ 60"
definition stash_bit :: u64 where "stash_bit = 2 ^ 59"
definition cl_bit :: u64 where "cl_bit = 2 ^ 58"
definition commute_bit :: u64 where "commute_bit = 2 ^ 57"
definition mvhistory_bit :: u64 where "mvhistory_bit = 2 ^ 56"
definition pointer_mask :: u64 where "pointer_mask = 2 ^ 48 - 1"
definition userf_shift :: nat where "userf_shift = 48"
definition shifted_userf_mask :: u64 where "shifted_userf_mask = 0x7FF"

definition special_mask :: u64 where
  "special_mask = pointer_mask OR cl_bit OR read_bit OR write_bit OR item_lock_bit OR predicate_bit OR stash_bit
     OR commute_bit OR mvhistory_bit"

datatype cc_mode = Mode_none | Mode_opt | Mode_lock | Mode_tictoc

record trans_item =
  it_s :: u64
  it_key :: u64
  it_rdata :: wide_tid
  it_wdata :: u64
  it_ts_origin :: u64
  it_mode :: cc_mode

definition new_trans_item :: "u64 \<Rightarrow> u64 \<Rightarrow> trans_item" where
  "new_trans_item owner k = \<lparr>it_s = owner, it_key = k, it_rdata = \<lparr>wide_v0 = 0, wide_v1 = 0\<rparr>, it_wdata = 0,
     it_ts_origin = 0, it_mode = Mode_none\<rparr>"

definition owner :: "trans_item \<Rightarrow> u64" where
  "owner x = it_s x AND pointer_mask"

subsection \<open>Flags\<close>

definition has_flag :: "u64 \<Rightarrow> trans_item \<Rightarrow> bool" where
  "has_flag f x \<longleftrightarrow> it_s x AND f \<noteq> 0"

definition has_write :: "trans_item \<Rightarrow> bool" where "has_write x \<longleftrightarrow> it_s x AND write_bit \<noteq> 0"
definition has_read :: "trans_item \<Rightarrow> bool" where "has_read x \<longleftrightarrow> it_s x AND read_bit \<noteq> 0"
definition has_predicate :: "trans_item \<Rightarrow> bool" where "has_predicate x \<longleftrightarrow> it_s x AND predicate_bit \<noteq> 0"
definition has_stash :: "trans_item \<Rightarrow> bool" where "has_stash x \<longleftrightarrow> it_s x AND stash_bit \<noteq> 0"
definition has_commute :: "trans_item \<Rightarrow> bool" where "has_commute x \<longleftrightarrow> it_s x AND commute_bit \<noteq> 0"
definition has_mvhistory :: "trans_item \<Rightarrow> bool" where "has_mvhistory x \<longleftrightarrow> it_s x AND mvhistory_bit \<noteq> 0"
definition needs_unlock :: "trans_item \<Rightarrow> bool" where "needs_unlock x \<longleftrightarrow> it_s x AND item_lock_bit \<noteq> 0"
definition locked_at_commit :: "trans_item \<Rightarrow> bool" where "locked_at_commit x \<longleftrightarrow> it_s x AND cl_bit \<noteq> 0"

definition or_flags :: "u64 \<Rightarrow> trans_item \<Rightarrow> trans_item" where
  "or_flags f x = x\<lparr>it_s := it_s x OR f\<rparr>"

definition rm_flags :: "u64 \<Rightarrow> trans_item \<Rightarrow> trans_item" where
  "rm_flags f x = x\<lparr>it_s := it_s x AND NOT f\<rparr>"

definition clear_needs_unlock :: "trans_item \<Rightarrow> trans_item" where
  "clear_needs_unlock x = rm_flags item_lock_bit x"

definition shifted_user_flags :: "trans_item \<Rightarrow> u64" where
  "shifted_user_flags x = drop_bit userf_shift (it_s x) AND shifted_userf_mask"

definition assign_flags :: "u64 \<Rightarrow> trans_item \<Rightarrow> trans_item option" where
  "assign_flags f x = (if f AND special_mask = 0 then Some (x\<lparr>it_s := (it_s x AND special_mask) OR f\<rparr>) else None)"

definition clear_flags :: "u64 \<Rightarrow> trans_item \<Rightarrow> trans_item option" where
  "clear_flags f x = (if f AND special_mask = 0 then Some (rm_flags f x) else None)"

definition add_flags :: "u64 \<Rightarrow> trans_item \<Rightarrow> trans_item option" where
  "add_flags f x = (if f AND special_mask = 0 then Some (or_flags f x) else None)"

subsection \<open>Comparison\<close>

definition same_item :: "trans_item \<Rightarrow> trans_item \<Rightarrow> bool" where
  "same_item x y \<longleftrightarrow> (it_s x XOR it_s y) AND pointer_mask = 0 \<and> it_key x = it_key y"

definition item_less :: "trans_item \<Rightarrow> trans_item \<Rightarrow> bool" where
  "item_less x y \<longleftrightarrow> it_key x < it_key y \<or> (it_key x = it_key y \<and> it_s x AND pointer_mask < it_s y AND pointer_mask)"

subsection \<open>Concurrency-control mode\<close>

definition observe_mode :: "cc_mode \<Rightarrow> trans_item \<Rightarrow> trans_item" where
  "observe_mode m x = (if it_mode x = Mode_none then x\<lparr>it_mode := m\<rparr> else x)"

definition cc_mode_check_tictoc :: "u64 \<Rightarrow> bool \<Rightarrow> trans_item \<Rightarrow> trans_item option" where
  "cc_mode_check_tictoc ts_origin compressed x =
     (let x = (if it_mode x = Mode_none
               then x\<lparr>it_mode := Mode_tictoc, it_ts_origin := (if compressed then ts_origin OR 1 else ts_origin)\<rparr>
               else x)
      in if it_mode x = Mode_tictoc \<and> it_ts_origin x \<noteq> 0 then Some x else None)"

definition cc_mode_is_optimistic :: "bool \<Rightarrow> trans_item \<Rightarrow> bool \<times> trans_item" where
  "cc_mode_is_optimistic version_optimistic x =
     (let x = (if it_mode x = Mode_none then x\<lparr>it_mode := (if version_optimistic then Mode_opt else Mode_lock)\<rparr> else x)
      in (it_mode x = Mode_opt, x))"

definition is_tictoc_compressed :: "trans_item \<Rightarrow> bool option" where
  "is_tictoc_compressed x = (if it_mode x = Mode_tictoc then Some (it_ts_origin x AND 1 \<noteq> 0) else None)"

definition extract_write_timestamp :: "trans_item \<Rightarrow> u64" where
  "extract_write_timestamp x =
     (if it_ts_origin x AND 1 \<noteq> 0 then wts_value (wide_v0 (it_rdata x)) else timestamp (wide_v1 (it_rdata x)))"

subsection \<open>Registering reads and writes\<close>

text \<open>The result of \<open>TransProxy\<close>'s operations is the item with the transaction's \<open>any_writes_\<close> or
  \<open>any_nonopaque_\<close>; the argument \<open>packed\<close> is the pointer the packer returns.\<close>

definition add_write :: "u64 \<Rightarrow> trans_item \<times> bool \<Rightarrow> trans_item \<times> bool" where
  "add_write packed = (\<lambda>(x, any_writes).
     let x = (if has_commute x then rm_flags commute_bit x else x)
     in if \<not> has_write x then ((or_flags write_bit x)\<lparr>it_wdata := packed\<rparr>, True)
        else (x\<lparr>it_wdata := packed\<rparr>, any_writes))"

definition add_commute :: "u64 \<Rightarrow> trans_item \<times> bool \<Rightarrow> trans_item \<times> bool" where
  "add_commute packed = (\<lambda>(x, any_writes).
     let x = (if has_write x \<and> \<not> has_commute x then rm_flags write_bit x else x);
         (x, any_writes) = add_write packed (x, any_writes)
     in (or_flags commute_bit x, any_writes))"

definition add_mvhistory :: "u64 \<Rightarrow> trans_item \<times> bool \<Rightarrow> trans_item \<times> bool" where
  "add_mvhistory packed = (\<lambda>(x, any_writes).
     let x = (if has_commute x then rm_flags commute_bit x else x);
         (x, any_writes) = add_write packed (x, any_writes)
     in (or_flags mvhistory_bit x, any_writes))"

definition add_read :: "u64 \<Rightarrow> trans_item \<times> bool \<Rightarrow> (trans_item \<times> bool) option" where
  "add_read packed = (\<lambda>(x, any_nonopaque).
     if has_stash x then None
     else if \<not> has_read x then Some ((or_flags read_bit x)\<lparr>it_rdata := (it_rdata x)\<lparr>wide_v0 := packed\<rparr>\<rparr>, True)
     else Some (x, any_nonopaque))"

definition set_predicate :: "u64 \<Rightarrow> trans_item \<Rightarrow> trans_item option" where
  "set_predicate packed x =
     (if has_read x then None
      else Some ((or_flags predicate_bit x)\<lparr>it_rdata := (it_rdata x)\<lparr>wide_v0 := packed\<rparr>\<rparr>))"

definition set_stash :: "u64 \<Rightarrow> trans_item \<Rightarrow> trans_item option" where
  "set_stash packed x =
     (if has_read x then None
      else Some ((or_flags stash_bit x)\<lparr>it_rdata := (it_rdata x)\<lparr>wide_v0 := packed\<rparr>\<rparr>))"

text \<open>\<open>TNonopaqueVersion::observe_read_impl\<close>: the flag says whether the read was observed.\<close>

definition observe_read_nonopaque :: "u64 \<Rightarrow> bool \<Rightarrow> trans_item \<times> bool \<Rightarrow> (bool \<times> trans_item \<times> bool) option" where
  "observe_read_nonopaque version add = (\<lambda>(x, any_nonopaque).
     if has_stash x then None
     else if is_locked version then Some (False, x, any_nonopaque)
     else if add \<and> \<not> has_read x
     then Some (True, (or_flags read_bit x)\<lparr>it_rdata := (it_rdata x)\<lparr>wide_v0 := version\<rparr>\<rparr>, True)
     else Some (True, x, any_nonopaque))"

text \<open>\<open>TicTocVersion::observe_read_impl\<close> and \<open>acquire_write_impl\<close>, not opaque.\<close>

definition observe_read_tictoc ::
  "u64 \<Rightarrow> u64 \<Rightarrow> tictoc_version \<Rightarrow> bool \<Rightarrow> trans_item \<times> bool \<Rightarrow> (bool \<times> trans_item \<times> bool) option" where
  "observe_read_tictoc here addr vers add = (\<lambda>(x, any_nonopaque).
     case cc_mode_check_tictoc addr False x of
       None \<Rightarrow> None
     | Some x \<Rightarrow>
         if has_stash x then None
         else if is_locked_elsewhere (tt_v vers) here then Some (False, x, any_nonopaque)
         else if add \<and> \<not> has_read x
         then Some (True, (or_flags read_bit x)\<lparr>it_rdata := pack_wide (tt_v vers) (tt_wts vers)\<rparr>, True)
         else Some (True, x, any_nonopaque))"

definition acquire_write_tictoc ::
  "u64 \<Rightarrow> tictoc_version \<Rightarrow> u64 \<Rightarrow> trans_item \<times> bool \<Rightarrow> (trans_item \<times> bool) option" where
  "acquire_write_tictoc addr vers packed = (\<lambda>(x, any_writes).
     case cc_mode_check_tictoc addr False x of
       None \<Rightarrow> None
     | Some x \<Rightarrow>
         if \<not> has_write x then
           let x = or_flags write_bit x;
               x = (if \<not> has_read x then x\<lparr>it_rdata := pack_wide (tt_v vers) (tt_wts vers)\<rparr> else x)
           in Some (x\<lparr>it_wdata := packed\<rparr>, True)
         else Some (x\<lparr>it_wdata := packed\<rparr>, any_writes))"

subsection \<open>The bits behind the flags\<close>

lemma bit_item [simp]:
  "bit write_bit n \<longleftrightarrow> n = 63" "bit read_bit n \<longleftrightarrow> n = 62" "bit item_lock_bit n \<longleftrightarrow> n = 61"
  "bit predicate_bit n \<longleftrightarrow> n = 60" "bit stash_bit n \<longleftrightarrow> n = 59" "bit cl_bit n \<longleftrightarrow> n = 58"
  "bit commute_bit n \<longleftrightarrow> n = 57" "bit mvhistory_bit n \<longleftrightarrow> n = 56" "bit pointer_mask n \<longleftrightarrow> n < 48"
proof -
  have "pointer_mask = mask 48" by (simp add: pointer_mask_def mask_eq_exp_minus_1)
  then have "bit pointer_mask n \<longleftrightarrow> bit (mask 48 :: u64) n" by (simp only:)
  then show "bit pointer_mask n \<longleftrightarrow> n < 48" by (simp only: bit_mask_iff possible_bit_word) auto
qed (simp_all only: write_bit_def read_bit_def item_lock_bit_def predicate_bit_def stash_bit_def cl_bit_def
    commute_bit_def mvhistory_bit_def bit_exp_iff possible_bit_word, auto)

lemma flag_bits:
  "has_write x \<longleftrightarrow> bit (it_s x) 63" "has_read x \<longleftrightarrow> bit (it_s x) 62" "needs_unlock x \<longleftrightarrow> bit (it_s x) 61"
  "has_predicate x \<longleftrightarrow> bit (it_s x) 60" "has_stash x \<longleftrightarrow> bit (it_s x) 59" "locked_at_commit x \<longleftrightarrow> bit (it_s x) 58"
  "has_commute x \<longleftrightarrow> bit (it_s x) 57" "has_mvhistory x \<longleftrightarrow> bit (it_s x) 56"
  by (simp_all add: has_write_def has_read_def needs_unlock_def has_predicate_def has_stash_def locked_at_commit_def
      has_commute_def has_mvhistory_def and_bit_iff)

lemma bit_s_flags:
  "bit (it_s (or_flags f x)) n \<longleftrightarrow> bit (it_s x) n \<or> bit f n"
  "bit (it_s (rm_flags f x)) n \<longleftrightarrow> bit (it_s x) n \<and> \<not> bit f n"
  by (auto simp: or_flags_def rm_flags_def word_bits dest: bit_imp_le_length)

lemma item_fields [simp]:
  "it_key (or_flags f x) = it_key x" "it_key (rm_flags f x) = it_key x"
  "it_rdata (or_flags f x) = it_rdata x" "it_rdata (rm_flags f x) = it_rdata x"
  "it_wdata (or_flags f x) = it_wdata x" "it_wdata (rm_flags f x) = it_wdata x"
  "it_mode (or_flags f x) = it_mode x" "it_mode (rm_flags f x) = it_mode x"
  "it_ts_origin (or_flags f x) = it_ts_origin x" "it_ts_origin (rm_flags f x) = it_ts_origin x"
  by (simp_all add: or_flags_def rm_flags_def)

end
