(* ===== verification/Txn_Set.thy ===== *)
theory Txn_Set
  imports Txn_Item
begin

unbundle bit_operations_syntax

text \<open>
  The set of items of a transaction and the hash table in front of it (\<open>sto-core/Transaction.hh\<close> and
  \<open>Transaction.cc\<close>, class \<open>Transaction\<close>, with \<open>TRANSACTION_HASHTABLE\<close> 1).  The items live in chunks of 512,
  \<open>tset_[i / 512][i % 512]\<close>; the model addresses them by \<open>i\<close>.  The hash table holds 16-bit positions
  counted from \<open>hash_base_\<close>, so that starting a transaction invalidates all of them at once.  Items of
  earlier transactions stay in memory behind the first \<open>tset_size_\<close>.  The capacity assertion of
  \<open>refresh_tset_chunk\<close> failing is \<open>None\<close>.
\<close>

subsection \<open>State\<close>

definition tset_chunk :: nat where "tset_chunk = 512"
definition tset_max_capacity :: nat where "tset_max_capacity = 32768"
definition hash_size :: nat where "hash_size = 32779"

record txn_set =
  ts_hash_base :: u16
  ts_hashtable :: "nat \<Rightarrow> u16"
  ts_size :: nat
  ts_items :: "nat \<Rightarrow> trans_item"
  ts_may_duplicate :: bool
  ts_any_writes :: bool
  ts_any_nonopaque :: bool

definition initialize :: "(nat \<Rightarrow> trans_item) \<Rightarrow> txn_set" where
  "initialize memory = \<lparr>ts_hash_base = 32768, ts_hashtable = (\<lambda>_. 0), ts_size = 0, ts_items = memory,
     ts_may_duplicate = False, ts_any_writes = False, ts_any_nonopaque = False\<rparr>"

text \<open>The part of \<open>start\<close> that resets the set.\<close>

definition start_set :: "txn_set \<Rightarrow> txn_set" where
  "start_set t =
     (let base = ts_hash_base t + of_nat (ts_size t) + 1;
          t = t\<lparr>ts_hash_base := base, ts_size := 0\<rparr>;
          t = (if unat base \<ge> hash_size then t\<lparr>ts_hashtable := (\<lambda>_. 0), ts_hash_base := 0\<rparr> else t)
      in t\<lparr>ts_any_writes := False, ts_any_nonopaque := False, ts_may_duplicate := False\<rparr>)"

subsection \<open>Lookup\<close>

definition hash_regular :: "u64 \<Rightarrow> u64 \<Rightarrow> nat" where
  "hash_regular obj key =
     (let n = key + 0x4000000;
          n = n + ((- (if n < 0x8000000 then 1 else 0)) AND drop_bit 4 obj)
      in unat (n + drop_bit 16 n * 9) mod hash_size)"

definition matches :: "u64 \<Rightarrow> u64 \<Rightarrow> trans_item \<Rightarrow> bool" where
  "matches obj key x \<longleftrightarrow> owner x = obj \<and> it_key x = key"

definition find_item_scan :: "u64 \<Rightarrow> u64 \<Rightarrow> txn_set \<Rightarrow> nat option" where
  "find_item_scan obj key t = List.find (\<lambda>i. matches obj key (ts_items t i)) [0..<ts_size t]"

definition find_item :: "u64 \<Rightarrow> u64 \<Rightarrow> txn_set \<Rightarrow> nat option" where
  "find_item obj key t =
     (let hi = hash_regular obj key
      in if ts_hashtable t hi \<le> ts_hash_base t then None
         else let tidx = unat (ts_hashtable t hi) - unat (ts_hash_base t) - 1
              in if matches obj key (ts_items t tidx) then Some tidx
                 else find_item_scan obj key t)"

subsection \<open>Insertion\<close>

definition refresh_ok :: "txn_set \<Rightarrow> bool" where
  "refresh_ok t \<longleftrightarrow> (ts_size t \<noteq> 0 \<and> ts_size t mod tset_chunk = 0 \<longrightarrow> ts_size t < tset_max_capacity)"

definition allocate_item_update_hash :: "u64 \<Rightarrow> u64 \<Rightarrow> txn_set \<Rightarrow> txn_set" where
  "allocate_item_update_hash obj key t =
     (let hi = hash_regular obj key
      in if ts_hashtable t hi \<le> ts_hash_base t
         then t\<lparr>ts_hashtable := (ts_hashtable t)(hi := ts_hash_base t + of_nat (ts_size t))\<rparr> else t)"

definition allocate_item :: "u64 \<Rightarrow> u64 \<Rightarrow> txn_set \<Rightarrow> (nat \<times> txn_set) option" where
  "allocate_item obj key t =
     (if refresh_ok t then
        let i = ts_size t;
            t = t\<lparr>ts_size := i + 1, ts_items := (ts_items t)(i := new_trans_item obj key)\<rparr>
        in Some (i, allocate_item_update_hash obj key t)
      else None)"

definition txn_item :: "u64 \<Rightarrow> u64 \<Rightarrow> txn_set \<Rightarrow> (nat \<times> txn_set) option" where
  "txn_item obj key t =
     (case find_item obj key t of Some i \<Rightarrow> Some (i, t) | None \<Rightarrow> allocate_item obj key t)"

definition new_item :: "u64 \<Rightarrow> u64 \<Rightarrow> txn_set \<Rightarrow> (nat \<times> txn_set) option" where
  "new_item obj key t = allocate_item obj key t"

definition fresh_item :: "u64 \<Rightarrow> u64 \<Rightarrow> txn_set \<Rightarrow> (nat \<times> txn_set) option" where
  "fresh_item obj key t = allocate_item obj key (t\<lparr>ts_may_duplicate := ts_size t > 0\<rparr>)"

definition read_item :: "u64 \<Rightarrow> u64 \<Rightarrow> txn_set \<Rightarrow> (nat \<times> txn_set) option" where
  "read_item obj key t =
     (let (r, t) = (if ts_any_writes t then (find_item obj key t, t)
                    else (None, t\<lparr>ts_may_duplicate := ts_size t > 0\<rparr>))
      in case r of Some i \<Rightarrow> Some (i, t) | None \<Rightarrow> allocate_item obj key t)"

definition item_inlined :: "u64 \<Rightarrow> u64 \<Rightarrow> txn_set \<Rightarrow> (nat \<times> txn_set) option" where
  "item_inlined obj key t =
     (let hi = hash_regular obj key;
          found = (if ts_hashtable t hi > ts_hash_base t then
                     let tidx = unat (ts_hashtable t hi) - unat (ts_hash_base t) - 1
                     in if matches obj key (ts_items t tidx) then Some tidx
                        else List.find (\<lambda>i. matches obj key (ts_items t i)) [0..<ts_size t]
                   else None)
      in case found of
           Some i \<Rightarrow> Some (i, t)
         | None \<Rightarrow>
             if refresh_ok t then
               let i = ts_size t;
                   t = t\<lparr>ts_size := i + 1, ts_items := (ts_items t)(i := new_trans_item obj key)\<rparr>;
                   t = (if ts_hashtable t hi \<le> ts_hash_base t
                        then t\<lparr>ts_hashtable := (ts_hashtable t)(hi := ts_hash_base t + of_nat (ts_size t))\<rparr> else t)
               in Some (i, t)
             else None)"

text \<open>The pointer walk of \<open>preceding_duplicate_read\<close> ends at the item itself.\<close>

definition preceding_duplicate_read :: "nat \<Rightarrow> (nat \<Rightarrow> trans_item) \<Rightarrow> bool" where
  "preceding_duplicate_read k items \<longleftrightarrow>
     list_ex (\<lambda>i. owner (items i) = owner (items k) \<and> it_key (items i) = it_key (items k) \<and> has_read (items i)) [0..<k]"

lemma item_inlined_item: "item_inlined obj key t = txn_item obj key t"
  by (auto simp: item_inlined_def txn_item_def find_item_def find_item_scan_def allocate_item_def
      allocate_item_update_hash_def Let_def not_less split: option.splits)

subsection \<open>Invariant\<close>

text \<open>
  Positions in use stay below 16 bits, valid entries point to items, and the entry of every item's hash is valid.
\<close>

definition set_inv :: "txn_set \<Rightarrow> bool" where
  "set_inv t \<longleftrightarrow> unat (ts_hash_base t) < hash_size \<and>
     (\<forall>h. unat (ts_hashtable t h) \<le> unat (ts_hash_base t) + ts_size t) \<and>
     (\<forall>i<ts_size t. ts_hash_base t < ts_hashtable t (hash_regular (owner (ts_items t i)) (it_key (ts_items t i))))"

definition small_set :: "txn_set \<Rightarrow> bool" where
  "small_set t \<longleftrightarrow> ts_size t \<le> 32756"

definition distinct_items :: "txn_set \<Rightarrow> bool" where
  "distinct_items t \<longleftrightarrow> (\<forall>i<ts_size t. \<forall>j<ts_size t. same_item (ts_items t i) (ts_items t j) \<longrightarrow> i = j)"

lemma find_upt: "List.find P [0..<n] = Some i \<longleftrightarrow> i < n \<and> P i \<and> (\<forall>j<i. \<not> P j)"
  by (auto simp: find_Some_iff)

lemma find_upt_None: "List.find P [0..<n] = None \<longleftrightarrow> (\<forall>i<n. \<not> P i)"
  by (auto simp: find_None_iff)

lemma hit_in_range:
  assumes "set_inv t" "\<not> ts_hashtable t h \<le> ts_hash_base t"
  shows "unat (ts_hashtable t h) - unat (ts_hash_base t) - 1 < ts_size t"
proof -
  have "unat (ts_hashtable t h) \<le> unat (ts_hash_base t) + ts_size t" using assms(1) by (simp add: set_inv_def)
  moreover have "unat (ts_hash_base t) < unat (ts_hashtable t h)" using assms(2) by (simp add: word_le_nat_alt)
  ultimately show ?thesis by linarith
qed

lemma find_item_Some:
  assumes "set_inv t" "find_item obj key t = Some i"
  shows "i < ts_size t \<and> matches obj key (ts_items t i)"
proof -
  have h: "\<not> ts_hashtable t (hash_regular obj key) \<le> ts_hash_base t"
    using assms(2) by (auto simp: find_item_def Let_def split: if_splits)
  show ?thesis
    using assms(2) h hit_in_range [OF assms(1) h]
    by (auto simp: find_item_def Let_def find_item_scan_def find_upt split: if_splits)
qed

lemma find_item_None:
  assumes "set_inv t" "find_item obj key t = None" "i < ts_size t"
  shows "\<not> matches obj key (ts_items t i)"
  using assms
  by (auto simp: find_item_def find_item_scan_def Let_def find_upt_None set_inv_def matches_def split: if_splits)

lemma owner_new: "obj AND pointer_mask = obj \<Longrightarrow> owner (new_trans_item obj key) = obj"
  by (simp add: owner_def new_trans_item_def)

lemma base_plus:
  assumes "set_inv t" "n \<le> 32757"
  shows "unat (ts_hash_base t + of_nat n) = unat (ts_hash_base t) + n"
  using assms by (simp add: set_inv_def hash_size_def unat_word_ariths unat_of_nat)

lemma allocate_inv:
  assumes inv: "set_inv t" and fit: "ts_size t < 32756" and obj: "obj AND pointer_mask = obj"
  shows "\<exists>t'. allocate_item obj key t = Some (ts_size t, t') \<and> set_inv t' \<and> ts_size t' = ts_size t + 1 \<and>
    ts_items t' = (ts_items t)(ts_size t := new_trans_item obj key)"
proof -
  let ?n = "ts_size t" and ?h = "hash_regular obj key" and ?x = "new_trans_item obj key"
  define tab where "tab = (if ts_hashtable t ?h \<le> ts_hash_base t
    then (ts_hashtable t)(?h := ts_hash_base t + of_nat (Suc ?n)) else ts_hashtable t)"
  let ?t = "t\<lparr>ts_size := ?n + 1, ts_items := (ts_items t)(?n := ?x), ts_hashtable := tab\<rparr>"
  have a: "allocate_item obj key t = Some (?n, ?t)"
    using fit by (simp add: allocate_item_def refresh_ok_def tset_max_capacity_def allocate_item_update_hash_def
        Let_def tab_def)
  have pos: "unat (ts_hash_base t + of_nat (Suc ?n)) = unat (ts_hash_base t) + Suc ?n"
    using base_plus [OF inv, of "Suc ?n"] fit by simp
  have le: "unat (tab h) \<le> unat (ts_hash_base t) + Suc ?n" for h
    using inv pos by (auto simp: set_inv_def tab_def intro: le_SucI)
  have keep: "ts_hash_base t < tab h" if "ts_hash_base t < ts_hashtable t h \<or> h = ?h" for h
    using that pos by (auto simp: word_less_nat_alt word_le_nat_alt tab_def)
  have "ts_hash_base t < tab (hash_regular (owner (ts_items ?t i)) (it_key (ts_items ?t i)))" if "i < Suc ?n" for i
    using that inv owner_new [OF obj, of key]
    by (intro keep) (auto simp: set_inv_def less_Suc_eq new_trans_item_def)
  then have "set_inv ?t"
    using inv le unfolding set_inv_def by simp
  with a show ?thesis by auto
qed

lemma start_inv:
  assumes "set_inv t" "small_set t"
  shows "set_inv (start_set t) \<and> ts_size (start_set t) = 0"
proof -
  let ?b = "ts_hash_base t + of_nat (ts_size t) + 1"
  have b: "unat ?b = unat (ts_hash_base t) + ts_size t + 1"
    using base_plus [OF assms(1), of "Suc (ts_size t)"] assms(2) by (simp add: small_set_def algebra_simps)
  show ?thesis
    using assms(1) b by (auto simp: start_set_def Let_def set_inv_def hash_size_def not_le intro: le_SucI)
qed

lemma same_item_iff: "same_item x y \<longleftrightarrow> owner x = owner y \<and> it_key x = it_key y"
proof -
  have "(it_s x XOR it_s y) AND pointer_mask = 0 \<longleftrightarrow> owner x = owner y"
  proof
    assume "(it_s x XOR it_s y) AND pointer_mask = 0"
    then have "\<not> bit ((it_s x XOR it_s y) AND pointer_mask) n" for n by simp
    then show "owner x = owner y"
      unfolding owner_def by (intro bit_word_eqI) (auto simp: bit_and_iff bit_xor_iff)
  next
    assume "owner x = owner y"
    then have "bit (it_s x AND pointer_mask) n = bit (it_s y AND pointer_mask) n" for n by (simp add: owner_def)
    then show "(it_s x XOR it_s y) AND pointer_mask = 0"
      by (intro bit_word_eqI) (auto simp: bit_and_iff bit_xor_iff)
  qed
  then show ?thesis by (simp add: same_item_def)
qed

subsection \<open>Lookups are exact\<close>

text \<open>
  What a thread does to its set: \<open>start\<close>, \<open>item\<close>, and changes to an item it has been given, which keep
  its owner and key.  Transactions hold at most 32756 items.
\<close>

inductive set_step :: "txn_set \<Rightarrow> txn_set \<Rightarrow> bool" where
  op_start: "set_step t (start_set t)"
| op_item: "obj AND pointer_mask = obj \<Longrightarrow> txn_item obj key t = Some (i, t') \<Longrightarrow> small_set t' \<Longrightarrow> set_step t t'"
| op_update:
    "i < ts_size t \<Longrightarrow> owner x = owner (ts_items t i) \<Longrightarrow> it_key x = it_key (ts_items t i) \<Longrightarrow>
     set_step t (t\<lparr>ts_items := (ts_items t)(i := x), ts_any_writes := w, ts_any_nonopaque := r\<rparr>)"

definition exact :: "txn_set \<Rightarrow> bool" where
  "exact t \<longleftrightarrow> set_inv t \<and> small_set t \<and> distinct_items t"

lemma exact_start: "exact t \<Longrightarrow> exact (start_set t)"
  using start_inv [of t] by (simp add: exact_def distinct_items_def small_set_def)

lemma exact_item:
  assumes "exact t" "obj AND pointer_mask = obj" "txn_item obj key t = Some (i, t')" "small_set t'"
  shows "exact t' \<and> i < ts_size t' \<and> matches obj key (ts_items t' i)"
proof (cases "find_item obj key t")
  case None
  have a: "allocate_item obj key t = Some (i, t')" using assms(3) None by (simp add: txn_item_def)
  then have "ts_size t' = ts_size t + 1"
    by (auto simp: allocate_item_def allocate_item_update_hash_def Let_def split: if_splits)
  then have room: "ts_size t < 32756" using assms(4) by (simp add: small_set_def)
  have inv: "set_inv t" using assms(1) by (simp add: exact_def)
  from allocate_inv [OF inv room assms(2), of key] a
  have t': "i = ts_size t" "set_inv t'" "ts_size t' = ts_size t + 1"
    "ts_items t' = (ts_items t)(ts_size t := new_trans_item obj key)" by auto
  have new: "owner (new_trans_item obj key) = obj" "it_key (new_trans_item obj key) = key"
    using owner_new [OF assms(2)] by (simp_all add: new_trans_item_def)
  have "distinct_items t'"
    using assms(1) find_item_None [OF inv None] new
    by (auto simp: distinct_items_def exact_def t'(3,4) same_item_iff matches_def less_Suc_eq)
  with t' new assms(4) show ?thesis by (simp add: exact_def matches_def)
next
  case (Some j)
  with assms find_item_Some [of t obj key j] show ?thesis by (auto simp: txn_item_def exact_def)
qed

lemma exact_update:
  assumes "exact t" "owner x = owner (ts_items t i)" "it_key x = it_key (ts_items t i)"
  shows "exact (t\<lparr>ts_items := (ts_items t)(i := x), ts_any_writes := w, ts_any_nonopaque := r\<rparr>)"
proof -
  have "owner (((ts_items t)(i := x)) j) = owner (ts_items t j)" "it_key (((ts_items t)(i := x)) j) = it_key (ts_items t j)" for j
    using assms(2,3) by simp_all
  with assms(1) show ?thesis
    by (simp add: exact_def set_inv_def small_set_def distinct_items_def same_item_iff del: fun_upd_apply)
qed

lemma exact_run:
  assumes "set_step\<^sup>*\<^sup>* (start_set (initialize memory)) t"
  shows "exact t"
  using assms
proof (induction rule: rtranclp_induct)
  case base
  have "set_inv (initialize memory)" by (simp add: set_inv_def initialize_def hash_size_def)
  then have "exact (initialize memory)" by (simp add: exact_def small_set_def distinct_items_def initialize_def)
  then show ?case by (rule exact_start)
next
  case (step t t')
  from step.hyps(2) show ?case
  proof cases
    case op_start
    then show ?thesis using exact_start [OF step.IH] by simp
  next
    case (op_item obj key i)
    then show ?thesis using exact_item [OF step.IH op_item] by simp
  next
    case (op_update i x w r)
    then show ?thesis using exact_update [OF step.IH op_update(3,4)] by simp
  qed
qed





end
