(* ===== verification/Txn_Commit.thy ===== *)
theory Txn_Commit
  imports Txn_Set
begin

unbundle bit_operations_syntax

text \<open>
  The commit protocol (\<open>Transaction::try_commit\<close>, \<open>stop\<close>, \<open>abort\<close> and \<open>compute_tictoc_commit_ts\<close> of
  \<open>sto-core/Transaction.cc\<close>, \<open>Transaction.hh\<close> and \<open>ConcurrencyControl.hh\<close>), with the write set unsorted
  (\<open>STO_SORT_WRITESET\<close> 0).

  The transactional objects are virtual classes: a \<open>tobject\<close> is the record of the callbacks of
  \<open>sto-core/Interface.hh\<close>, functions of the item and of everything outside it, which includes
  the shared memory with whatever other threads do to it before the callback takes effect, and the
  transaction's commit timestamps.  \<open>objs\<close> gives the object at an owner's address.  The log records the
  callbacks in the order they are made and is read by nothing.  Performance counters, the end-of-transaction
  callback, the back-off after an abort and the scratch allocator are left out of \<open>stop\<close>.
\<close>

subsection \<open>Objects and transactions\<close>

record 'm txn_world =
  tw_mem :: 'm
  tw_commit_tid :: u64
  tw_tictoc_tid :: u64
  tw_wtid :: u64

record 'm tobject =
  ob_lock :: "trans_item \<Rightarrow> 'm txn_world \<Rightarrow> bool \<times> trans_item \<times> 'm txn_world"
  ob_check_predicate :: "trans_item \<Rightarrow> 'm txn_world \<Rightarrow> bool \<times> trans_item \<times> 'm txn_world"
  ob_check :: "trans_item \<Rightarrow> 'm txn_world \<Rightarrow> bool \<times> 'm txn_world"
  ob_install :: "trans_item \<Rightarrow> 'm txn_world \<Rightarrow> trans_item \<times> 'm txn_world"
  ob_unlock :: "trans_item \<Rightarrow> 'm txn_world \<Rightarrow> 'm txn_world"
  ob_cleanup :: "bool \<Rightarrow> trans_item \<Rightarrow> 'm txn_world \<Rightarrow> 'm txn_world"

datatype txn_phase = In_progress | Opacity_check | Committing | Committing_locked | Aborted | Committed

datatype txn_event =
    Lock_try nat bool
  | Predicate_check nat bool
  | Read_check nat bool
  | Installed nat
  | Cleaned nat
  | Unlocked nat

record 'm commit =
  cm_items :: "trans_item list"
  cm_state :: txn_phase
  cm_any_writes :: bool
  cm_any_nonopaque :: bool
  cm_may_duplicate :: bool
  cm_first_write :: nat
  cm_restarted :: bool
  cm_world :: "'m txn_world"
  cm_log :: "txn_event list"

type_synonym 'm objects = "u64 \<Rightarrow> 'm tobject"

subsection \<open>Phase 1: lock the write set, check predicates\<close>

definition lock_item :: "'m objects \<Rightarrow> nat \<Rightarrow> 'm commit \<Rightarrow> bool \<times> 'm commit" where
  "lock_item objs i c =
     (let x = cm_items c ! i
      in if needs_unlock x then (True, c)
         else let (ok, x', w) = ob_lock (objs (owner x)) x (cm_world c)
              in (ok, c\<lparr>cm_items := (cm_items c)[i := x'], cm_world := w, cm_log := cm_log c @ [Lock_try i ok]\<rparr>))"

definition predicate_item :: "'m objects \<Rightarrow> nat \<Rightarrow> 'm commit \<Rightarrow> bool \<times> 'm commit" where
  "predicate_item objs i c =
     (let x = cm_items c ! i;
          (ok, x', w) = ob_check_predicate (objs (owner x)) x (cm_world c)
      in (ok, c\<lparr>cm_items := (cm_items c)[i := x'], cm_world := w, cm_log := cm_log c @ [Predicate_check i ok]\<rparr>))"

definition read_timestamp_step :: "trans_item \<Rightarrow> 'm commit \<Rightarrow> 'm commit" where
  "read_timestamp_step x c =
     (if it_mode x = Mode_tictoc
      then c\<lparr>cm_world := (cm_world c)\<lparr>tw_tictoc_tid :=
        tictoc_compute_commit_ts_step 0 (extract_write_timestamp x) False (tw_tictoc_tid (cm_world c))\<rparr>\<rparr>
      else c)"

definition lock_write_item :: "'m objects \<Rightarrow> nat \<Rightarrow> nat list \<times> 'm commit \<Rightarrow> bool \<times> nat list \<times> 'm commit" where
  "lock_write_item objs i = (\<lambda>(ws, c).
     if has_write (cm_items c ! i) then
       let ws = ws @ [i];
           c = (if length ws = 1 then c\<lparr>cm_first_write := i, cm_state := Committing_locked\<rparr> else c);
           (ok, c) = lock_item objs i c
       in (ok, ws, if ok then c\<lparr>cm_items := (cm_items c)[i := or_flags cl_bit (or_flags item_lock_bit (cm_items c ! i))]\<rparr>
                   else c)
     else (True, ws, c))"

definition phase1_item :: "'m objects \<Rightarrow> nat \<Rightarrow> nat list \<times> 'm commit \<Rightarrow> bool \<times> nat list \<times> 'm commit" where
  "phase1_item objs i s =
     (let (ok, ws, c) = lock_write_item objs i s
      in if \<not> ok then (False, ws, c)
         else if has_read (cm_items c ! i) then (True, ws, read_timestamp_step (cm_items c ! i) c)
         else if has_predicate (cm_items c ! i)
         then (let (ok, c) = predicate_item objs i c in (ok, ws, c))
         else (True, ws, c))"

fun phase1 :: "'m objects \<Rightarrow> nat list \<Rightarrow> nat list \<times> 'm commit \<Rightarrow> bool \<times> nat list \<times> 'm commit" where
  "phase1 objs [] (ws, c) = (True, ws, c)"
| "phase1 objs (i # is) s =
     (case phase1_item objs i s of (False, s) \<Rightarrow> (False, s) | (True, s) \<Rightarrow> phase1 objs is s)"

subsection \<open>Phase 2: validate the read set\<close>

definition phase2_item :: "'m objects \<Rightarrow> nat \<Rightarrow> 'm commit \<Rightarrow> bool \<times> 'm commit" where
  "phase2_item objs i c =
     (let x = cm_items c ! i
      in if has_read x \<and> (locked_at_commit x \<or> \<not> needs_unlock x) then
           let (ok, w) = ob_check (objs (owner x)) x (cm_world c);
               c = c\<lparr>cm_world := w, cm_log := cm_log c @ [Read_check i ok]\<rparr>
           in (ok \<or> (cm_may_duplicate c \<and> preceding_duplicate_read i (\<lambda>j. cm_items c ! j)), c)
         else (True, c))"

fun phase2 :: "'m objects \<Rightarrow> nat list \<Rightarrow> 'm commit \<Rightarrow> bool \<times> 'm commit" where
  "phase2 objs [] c = (True, c)"
| "phase2 objs (i # is) c =
     (case phase2_item objs i c of (False, c) \<Rightarrow> (False, c) | (True, c) \<Rightarrow> phase2 objs is c)"

subsection \<open>Phase 3: install\<close>

definition install_item :: "'m objects \<Rightarrow> nat \<Rightarrow> 'm commit \<Rightarrow> 'm commit" where
  "install_item objs i c =
     (let x = cm_items c ! i;
          (x', w) = ob_install (objs (owner x)) x (cm_world c)
      in c\<lparr>cm_items := (cm_items c)[i := x'], cm_world := w, cm_log := cm_log c @ [Installed i]\<rparr>)"

subsection \<open>Stopping\<close>

definition cleanup_item :: "'m objects \<Rightarrow> bool \<Rightarrow> nat \<Rightarrow> 'm commit \<Rightarrow> 'm commit" where
  "cleanup_item objs committed i c =
     (let x = cm_items c ! i
      in if has_write x
         then c\<lparr>cm_world := ob_cleanup (objs (owner x)) committed x (cm_world c), cm_log := cm_log c @ [Cleaned i]\<rparr>
         else c)"

definition unlock_item :: "'m objects \<Rightarrow> nat \<Rightarrow> 'm commit \<Rightarrow> 'm commit" where
  "unlock_item objs i c =
     (let x = cm_items c ! i
      in if needs_unlock x
         then c\<lparr>cm_world := ob_unlock (objs (owner x)) x (cm_world c), cm_log := cm_log c @ [Unlocked i]\<rparr>
         else c)"

definition stop :: "'m objects \<Rightarrow> bool \<Rightarrow> nat list \<Rightarrow> 'm commit \<Rightarrow> 'm commit" where
  "stop objs committed ws c =
     (let c = (if cm_any_writes c
               then fold (cleanup_item objs committed)
                      (if committed then rev ws else rev [cm_first_write c..<length (cm_items c)]) c
               else c);
          c = fold (unlock_item objs) (rev [0..<length (cm_items c)]) c
      in c\<lparr>cm_world := (cm_world c)\<lparr>tw_wtid := 0\<rparr>, cm_state := (if committed then Committed else Aborted), cm_restarted := True\<rparr>)"

definition in_progress :: "'m commit \<Rightarrow> bool" where
  "in_progress c \<longleftrightarrow> cm_state c \<noteq> Aborted \<and> cm_state c \<noteq> Committed"

definition silent_abort :: "'m objects \<Rightarrow> 'm commit \<Rightarrow> 'm commit" where
  "silent_abort objs c = (if in_progress c then stop objs False [] c else c)"

definition try_commit :: "'m objects \<Rightarrow> 'm commit \<Rightarrow> bool \<times> 'm commit" where
  "try_commit objs c =
     (if \<not> in_progress c then (cm_state c = Committed, c)
      else if \<not> cm_any_writes c \<and> \<not> cm_any_nonopaque c then (True, stop objs True [] c)
      else
        let n = length (cm_items c);
            (ok, ws, c) = phase1 objs [0..<n] ([], c\<lparr>cm_state := Committing\<rparr>)
        in if \<not> ok then (False, stop objs False [] c)
           else
             let c = c\<lparr>cm_first_write := (if ws = [] then n else hd ws)\<rparr>;
                 (ok, c) = phase2 objs [0..<n] c
             in if \<not> ok then (False, stop objs False [] c)
                else (True, stop objs True ws (fold (install_item objs) ws c)))"

text \<open>\<open>compute_tictoc_commit_ts\<close>; \<open>origin\<close> gives the read timestamp of the version an item was read from.\<close>

definition compute_tictoc_commit_ts :: "(trans_item \<Rightarrow> u64) \<Rightarrow> trans_item list \<Rightarrow> u64" where
  "compute_tictoc_commit_ts origin xs =
     fold (\<lambda>x ts. if it_mode x = Mode_tictoc
                  then max ts (if has_write x then origin x + 1 else extract_write_timestamp x) else ts) xs 0"

definition write_set :: "'m commit \<Rightarrow> nat list" where
  "write_set c = filter (\<lambda>i. has_write (cm_items c ! i)) [0..<length (cm_items c)]"

text \<open>Reads that are validated: all but those of items that are only read and locked since then.\<close>

definition read_set :: "'m commit \<Rightarrow> nat list" where
  "read_set c = filter (\<lambda>i. has_read (cm_items c ! i) \<and> (has_write (cm_items c ! i) \<or> \<not> needs_unlock (cm_items c ! i)))
     [0..<length (cm_items c)]"

subsection \<open>What the protocol relies on\<close>

text \<open>
  Callbacks may change an item's mode and data, but of its flags only \<open>install\<close> may clear the lock bit.
\<close>

locale tobjects =
  fixes objs :: "'m objects"
  assumes lock_keeps: "it_s (fst (snd (ob_lock (objs a) x w))) = it_s x"
    and predicate_keeps: "it_s (fst (snd (ob_check_predicate (objs a) x w))) = it_s x"
    and install_clears: "it_s (fst (ob_install (objs a) x w)) \<in> {it_s x, it_s x AND NOT item_lock_bit}"

definition locked_s :: "u64 \<Rightarrow> u64" where
  "locked_s v = (v OR item_lock_bit) OR cl_bit"

text \<open>What phase 1 does to the flags of the item it passes, and the events it logs.\<close>

definition phase1_effect :: "nat \<Rightarrow> bool \<Rightarrow> u64 \<Rightarrow> u64 \<Rightarrow> txn_event list \<Rightarrow> bool" where
  "phase1_effect i b v v' A \<longleftrightarrow>
     (v' = v \<or> bit v 63 \<and> v' = locked_s v) \<and>
     (b \<longrightarrow> (if bit v 63 then v' = locked_s v \<and> (bit v 61 \<or> Lock_try i True \<in> set A) else v' = v) \<and>
        set A \<subseteq> {Lock_try i True, Predicate_check i True}) \<and>
     set A \<subseteq> {Lock_try i True, Lock_try i False, Predicate_check i True, Predicate_check i False} \<and>
     (Lock_try i True \<in> set A \<longrightarrow> v' = locked_s v)"

definition same_frame :: "'m commit \<Rightarrow> 'm commit \<Rightarrow> bool" where
  "same_frame c c' \<longleftrightarrow> length (cm_items c') = length (cm_items c) \<and> cm_any_writes c' = cm_any_writes c \<and>
     cm_may_duplicate c' = cm_may_duplicate c"

lemma has_write_s: "has_write x \<longleftrightarrow> bit (it_s x) 63"
  by (rule flag_bits)

fun phase1_event :: "txn_event \<Rightarrow> bool" where
  "phase1_event (Lock_try i p) = True"
| "phase1_event (Predicate_check i p) = True"
| "phase1_event _ = False"

definition phase1_flags :: "nat list \<Rightarrow> bool \<Rightarrow> trans_item list \<Rightarrow> trans_item list \<Rightarrow> bool" where
  "phase1_flags is b xs xs' \<longleftrightarrow>
     (\<forall>j. j \<notin> set is \<longrightarrow> xs' ! j = xs ! j) \<and>
     (\<forall>j. it_s (xs' ! j) = it_s (xs ! j) \<or> has_write (xs ! j) \<and> it_s (xs' ! j) = locked_s (it_s (xs ! j))) \<and>
     (b \<longrightarrow> (\<forall>j\<in>set is. it_s (xs' ! j) = (if has_write (xs ! j) then locked_s (it_s (xs ! j)) else it_s (xs ! j))))"

definition phase1_log :: "nat list \<Rightarrow> bool \<Rightarrow> trans_item list \<Rightarrow> trans_item list \<Rightarrow> txn_event list \<Rightarrow> bool" where
  "phase1_log is b xs xs' A \<longleftrightarrow>
     (\<forall>e\<in>set A. phase1_event e) \<and>
     (\<forall>j p. Lock_try j p \<in> set A \<longrightarrow> j \<in> set is \<and> (b \<longrightarrow> p) \<and> (p \<longrightarrow> it_s (xs' ! j) = locked_s (it_s (xs ! j)))) \<and>
     (\<forall>j p. Predicate_check j p \<in> set A \<longrightarrow> b \<longrightarrow> p) \<and>
     (b \<longrightarrow> (\<forall>j\<in>set is. has_write (xs ! j) \<longrightarrow> needs_unlock (xs ! j) \<or> Lock_try j True \<in> set A))"

definition phase1_summary :: "nat list \<Rightarrow> bool \<Rightarrow> trans_item list \<Rightarrow> trans_item list \<Rightarrow> txn_event list \<Rightarrow> bool" where
  "phase1_summary is b xs xs' A \<longleftrightarrow> phase1_flags is b xs xs' \<and> phase1_log is b xs xs' A"

lemma summary_one:
  assumes "\<forall>j. j \<noteq> i \<longrightarrow> xs' ! j = xs ! j" "phase1_effect i b (it_s (xs ! i)) (it_s (xs' ! i)) A"
  shows "phase1_summary [i] b xs xs' A"
proof -
  have "phase1_flags [i] b xs xs'"
    unfolding phase1_flags_def
  proof (intro conjI allI impI)
    show "it_s (xs' ! j) = it_s (xs ! j) \<or> has_write (xs ! j) \<and> it_s (xs' ! j) = locked_s (it_s (xs ! j))" for j
      using assms by (cases "j = i") (auto simp: phase1_effect_def flag_bits)
  qed (use assms in \<open>auto simp: phase1_effect_def flag_bits\<close>)
  moreover have "phase1_event e" if "e \<in> set A" for e
    using assms(2) that by (auto simp: phase1_effect_def)
  ultimately show ?thesis
    using assms(2) by (auto simp: phase1_summary_def phase1_log_def phase1_effect_def flag_bits)
qed

lemma summary_widen:
  "phase1_summary is False xs xs' A \<Longrightarrow> set is \<subseteq> set js \<Longrightarrow> phase1_summary js False xs xs' A"
  by (auto simp: phase1_summary_def phase1_log_def phase1_flags_def)

lemma flags_append:
  assumes "phase1_flags is True xs ys" "phase1_flags js b ys zs" "set is \<inter> set js = {}"
  shows "phase1_flags (is @ js) b xs zs"
proof -
  have out: "zs ! j = ys ! j" if "j \<notin> set js" for j using assms(2) that by (simp add: phase1_flags_def)
  have in_: "ys ! j = xs ! j" if "j \<notin> set is" for j using assms(1) that by (simp add: phase1_flags_def)
  show ?thesis
    unfolding phase1_flags_def
  proof (intro conjI allI ballI impI)
    fix j
    show "j \<notin> set (is @ js) \<Longrightarrow> zs ! j = xs ! j" using out in_ by simp
    show "it_s (zs ! j) = it_s (xs ! j) \<or> has_write (xs ! j) \<and> it_s (zs ! j) = locked_s (it_s (xs ! j))"
    proof (cases "j \<in> set js")
      case True
      then have "ys ! j = xs ! j" using in_ assms(3) by auto
      then show ?thesis using assms(2) unfolding phase1_flags_def by metis
    next
      case False
      then show ?thesis using out assms(1) by (simp add: phase1_flags_def)
    qed
    assume b: b and j: "j \<in> set (is @ js)"
    show "it_s (zs ! j) = (if has_write (xs ! j) then locked_s (it_s (xs ! j)) else it_s (xs ! j))"
    proof (cases "j \<in> set js")
      case True
      then have "ys ! j = xs ! j" using in_ assms(3) by auto
      then show ?thesis using assms(2) b True unfolding phase1_flags_def by metis
    next
      case False
      then show ?thesis using out [of j] assms(1) j unfolding phase1_flags_def by simp
    qed
  qed
qed

lemma summary_append:
  assumes "phase1_summary is True xs ys A" "phase1_summary js b ys zs B" "set is \<inter> set js = {}"
  shows "phase1_summary (is @ js) b xs zs (A @ B)"
proof -
  have f: "phase1_flags is True xs ys" "phase1_flags js b ys zs" and l: "phase1_log is True xs ys A" "phase1_log js b ys zs B"
    using assms(1,2) by (simp_all add: phase1_summary_def)
  have out: "zs ! j = ys ! j" if "j \<in> set is" for j using f(2) assms(3) that by (auto simp: phase1_flags_def)
  have in_: "ys ! j = xs ! j" if "j \<in> set js" for j using f(1) assms(3) that by (auto simp: phase1_flags_def)
  have "phase1_log (is @ js) b xs zs (A @ B)"
    unfolding phase1_log_def
  proof (intro conjI allI impI ballI)
    fix j p assume e: "Lock_try j p \<in> set (A @ B)"
    show "j \<in> set (is @ js)" using e l by (auto simp: phase1_log_def)
    show p if b using e l that by (auto simp: phase1_log_def)
    show "it_s (zs ! j) = locked_s (it_s (xs ! j))" if p
    proof (cases "Lock_try j p \<in> set A")
      case True
      then show ?thesis using l(1) out [of j] that by (simp add: phase1_log_def)
    next
      case False
      then show ?thesis using l(2) in_ [of j] that e by (simp add: phase1_log_def)
    qed
  next
    fix j assume b: b and j: "j \<in> set (is @ js)" "has_write (xs ! j)"
    show "needs_unlock (xs ! j) \<or> Lock_try j True \<in> set (A @ B)"
    proof (cases "j \<in> set js")
      case True
      then show ?thesis using l(2) b j(2) in_ [OF True] by (auto simp: phase1_log_def)
    next
      case False
      then show ?thesis using l(1) j by (auto simp: phase1_log_def)
    qed
  qed (use l in \<open>auto simp: phase1_log_def\<close>)
  then show ?thesis using flags_append [OF f assms(3)] by (simp add: phase1_summary_def)
qed

lemma phase2_list:
  assumes "phase2 objs is c = (b, c')"
  shows "cm_items c' = cm_items c \<and> same_frame c c' \<and>
    (\<exists>B. cm_log c' = cm_log c @ B \<and> (\<forall>e\<in>set B. \<exists>i p. e = Read_check i p) \<and>
      (b \<longrightarrow> (\<forall>i\<in>set is. has_read (cm_items c ! i) \<and> (locked_at_commit (cm_items c ! i) \<or> \<not> needs_unlock (cm_items c ! i)) \<longrightarrow>
        (\<exists>p. Read_check i p \<in> set B \<and>
          (p \<or> cm_may_duplicate c \<and> preceding_duplicate_read i (\<lambda>j. cm_items c ! j))))))"
  using assms
proof (induction "is" arbitrary: c)
  case Nil
  then show ?case by (auto simp: same_frame_def)
next
  case (Cons i js)
  obtain b1 c1 where l: "phase2_item objs i c = (b1, c1)" by (cases "phase2_item objs i c")
  let ?checked = "has_read (cm_items c ! i) \<and> (locked_at_commit (cm_items c ! i) \<or> \<not> needs_unlock (cm_items c ! i))"
  obtain A where e: "cm_items c1 = cm_items c" "same_frame c c1" "cm_log c1 = cm_log c @ A"
      "\<forall>e\<in>set A. \<exists>p. e = Read_check i p"
      "b1 \<longrightarrow> ?checked \<longrightarrow> (\<exists>p. Read_check i p \<in> set A \<and> (p \<or> cm_may_duplicate c \<and> preceding_duplicate_read i (\<lambda>j. cm_items c ! j)))"
  proof (cases ?checked)
    case True
    obtain ok w where o: "ob_check (objs (owner (cm_items c ! i))) (cm_items c ! i) (cm_world c) = (ok, w)"
      by (cases "ob_check (objs (owner (cm_items c ! i))) (cm_items c ! i) (cm_world c)")
    show ?thesis
      by (rule that [of "[Read_check i ok]"])
        (use l True o in \<open>auto simp: phase2_item_def Let_def same_frame_def\<close>)
  next
    case False
    show ?thesis by (rule that [of "[]"]) (use l False in \<open>auto simp: phase2_item_def Let_def same_frame_def\<close>)
  qed
  show ?case
  proof (cases b1)
    case False
    then have "b = False" "c' = c1" using Cons.prems l by auto
    with e show ?thesis by (intro conjI exI [of _ A]) auto
  next
    case True
    then have r: "phase2 objs js c1 = (b, c')" using Cons.prems l by simp
    from Cons.IH [OF r] obtain B where
      q: "cm_items c' = cm_items c1" "same_frame c1 c'" "cm_log c' = cm_log c1 @ B" "\<forall>e\<in>set B. \<exists>i p. e = Read_check i p"
         "b \<longrightarrow> (\<forall>i\<in>set js. has_read (cm_items c1 ! i) \<and> (locked_at_commit (cm_items c1 ! i) \<or> \<not> needs_unlock (cm_items c1 ! i)) \<longrightarrow>
            (\<exists>p. Read_check i p \<in> set B \<and> (p \<or> cm_may_duplicate c1 \<and> preceding_duplicate_read i (\<lambda>j. cm_items c1 ! j))))"
      by blast
    have d: "cm_may_duplicate c1 = cm_may_duplicate c" using e(2) by (simp add: same_frame_def)
    show ?thesis
    proof (intro conjI exI [of _ "A @ B"])
      show "cm_items c' = cm_items c" "same_frame c c'" "cm_log c' = cm_log c @ A @ B"
        using e(1-3) q(1-3) by (auto simp: same_frame_def)
      show "\<forall>e\<in>set (A @ B). \<exists>i p. e = Read_check i p" using e(4) q(4) by auto
      show "b \<longrightarrow> (\<forall>i\<in>set (i # js). has_read (cm_items c ! i) \<and> (locked_at_commit (cm_items c ! i) \<or> \<not> needs_unlock (cm_items c ! i)) \<longrightarrow>
        (\<exists>p. Read_check i p \<in> set (A @ B) \<and>
          (p \<or> cm_may_duplicate c \<and> preceding_duplicate_read i (\<lambda>j. cm_items c ! j))))"
        using e(5) q(5) True unfolding d e(1) by (auto split: if_splits)
    qed
  qed
qed

lemma cleanup_list:
  "cm_items (fold (cleanup_item objs b) is c) = cm_items c \<and> same_frame c (fold (cleanup_item objs b) is c) \<and>
   (\<exists>D. cm_log (fold (cleanup_item objs b) is c) = cm_log c @ D \<and> set D \<subseteq> range Cleaned)"
proof (induction "is" arbitrary: c)
  case Nil
  show ?case by (simp add: same_frame_def)
next
  case (Cons i js)
  obtain D where "cm_items (cleanup_item objs b i c) = cm_items c" "same_frame c (cleanup_item objs b i c)"
      "cm_log (cleanup_item objs b i c) = cm_log c @ D" "set D \<subseteq> range Cleaned"
    by (cases "has_write (cm_items c ! i)") (auto simp: cleanup_item_def Let_def same_frame_def)
  with Cons.IH [of "cleanup_item objs b i c"] show ?case by (auto simp: same_frame_def)
qed

lemma unlock_list:
  "cm_items (fold (unlock_item objs) is c) = cm_items c \<and>
   cm_log (fold (unlock_item objs) is c) = cm_log c @ map Unlocked (filter (\<lambda>i. needs_unlock (cm_items c ! i)) is)"
  by (induction "is" arbitrary: c) (auto simp: unlock_item_def Let_def)

text \<open>\<open>stop\<close> unlocks every item whose lock flag is set, once, from the last to the first.\<close>

lemma stop_log:
  "\<exists>D. cm_log (stop objs b ws c) = cm_log c @ D @
       map Unlocked (filter (\<lambda>i. needs_unlock (cm_items c ! i)) (rev [0..<length (cm_items c)])) \<and>
     set D \<subseteq> range Cleaned"
proof -
  let ?c = "if cm_any_writes c then fold (cleanup_item objs b) (if b then rev ws else rev [cm_first_write c..<length (cm_items c)]) c else c"
  have "\<exists>D. cm_items ?c = cm_items c \<and> cm_log ?c = cm_log c @ D \<and> set D \<subseteq> range Cleaned"
    using cleanup_list [of objs b "if b then rev ws else rev [cm_first_write c..<length (cm_items c)]" c] by auto
  then obtain D where d: "cm_items ?c = cm_items c" "cm_log ?c = cm_log c @ D" "set D \<subseteq> range Cleaned" by blast
  have "cm_log (stop objs b ws c) = cm_log (fold (unlock_item objs) (rev [0..<length (cm_items ?c)]) ?c)"
    by (simp add: stop_def Let_def)
  also have "\<dots> = cm_log ?c @ map Unlocked (filter (\<lambda>i. needs_unlock (cm_items ?c ! i)) (rev [0..<length (cm_items ?c)]))"
    using unlock_list by blast
  finally show ?thesis using d by auto
qed

lemma stop_state: "cm_state (stop objs b ws c) = (if b then Committed else Aborted)"
  by (simp add: stop_def Let_def)

context tobjects
begin

lemma lock_item_effect:
  assumes "lock_item objs i c = (ok, c')" "i < length (cm_items c)"
  shows "same_frame c c'" "\<forall>j. j \<noteq> i \<longrightarrow> cm_items c' ! j = cm_items c ! j"
    "it_s (cm_items c' ! i) = it_s (cm_items c ! i)"
    "cm_log c' = cm_log c @ (if needs_unlock (cm_items c ! i) then [] else [Lock_try i ok])"
    "needs_unlock (cm_items c ! i) \<Longrightarrow> ok"
  using assms lock_keeps [of "owner (cm_items c ! i)" "cm_items c ! i" "cm_world c"]
  by (auto simp: lock_item_def Let_def same_frame_def split: if_splits prod.splits)

lemma predicate_item_effect:
  assumes "predicate_item objs i c = (ok, c')" "i < length (cm_items c)"
  shows "same_frame c c'" "\<forall>j. j \<noteq> i \<longrightarrow> cm_items c' ! j = cm_items c ! j"
    "it_s (cm_items c' ! i) = it_s (cm_items c ! i)" "cm_log c' = cm_log c @ [Predicate_check i ok]"
  using assms predicate_keeps [of "owner (cm_items c ! i)" "cm_items c ! i" "cm_world c"]
  by (auto simp: predicate_item_def Let_def same_frame_def split: prod.splits)

lemma lock_write_item_effect:
  assumes "lock_write_item objs i (ws, c) = (b, ws', c')" "i < length (cm_items c)"
  shows "same_frame c c' \<and> (\<forall>j. j \<noteq> i \<longrightarrow> cm_items c' ! j = cm_items c ! j) \<and>
    ws' = (if has_write (cm_items c ! i) then ws @ [i] else ws) \<and>
    (\<exists>A. cm_log c' = cm_log c @ A \<and> phase1_effect i b (it_s (cm_items c ! i)) (it_s (cm_items c' ! i)) A \<and>
      (\<forall>p. Predicate_check i p \<notin> set A))"
proof (cases "has_write (cm_items c ! i)")
  case False
  with assms show ?thesis
    by (auto simp: lock_write_item_def same_frame_def phase1_effect_def has_write_s intro!: exI [of _ "[]"])
next
  case True
  let ?c1 = "if length (ws @ [i]) = 1 then c\<lparr>cm_first_write := i, cm_state := Committing_locked\<rparr> else c"
  obtain ok c2 where l: "lock_item objs i ?c1 = (ok, c2)" by (cases "lock_item objs i ?c1")
  have c': "b = ok" "ws' = ws @ [i]"
    "c' = (if ok then c2\<lparr>cm_items := (cm_items c2)[i := or_flags cl_bit (or_flags item_lock_bit (cm_items c2 ! i))]\<rparr> else c2)"
    using assms(1) True l by (auto simp: lock_write_item_def Let_def split: prod.splits)
  have c1: "cm_items ?c1 = cm_items c" "cm_log ?c1 = cm_log c" "same_frame c ?c1" by (simp_all add: same_frame_def)
  note e = lock_item_effect [OF l, unfolded c1(1,2), OF assms(2)]
  have n: "length (cm_items c2) = length (cm_items c)" using e(1) c1(3) by (simp add: same_frame_def)
  have s': "it_s (cm_items c' ! i) = (if ok then locked_s (it_s (cm_items c ! i)) else it_s (cm_items c ! i))"
    using c'(3) e(3) n assms(2) by (simp add: locked_s_def or_flags_def)
  have fr: "same_frame c c'" using e(1) c1(3) c'(3) by (auto simp: same_frame_def)
  have others: "\<forall>j. j \<noteq> i \<longrightarrow> cm_items c' ! j = cm_items c ! j" using e(2) c'(3) by auto
  have log: "cm_log c' = cm_log c @ (if needs_unlock (cm_items c ! i) then [] else [Lock_try i ok])"
    using e(4) c'(3) by simp
  have "phase1_effect i b (it_s (cm_items c ! i)) (it_s (cm_items c' ! i))
      (if needs_unlock (cm_items c ! i) then [] else [Lock_try i ok])"
    using True s' e(5) c'(1) by (auto simp: phase1_effect_def flag_bits)
  then show ?thesis using fr others c'(2) True log by auto
qed

lemma phase1_item_effect:
  assumes "phase1_item objs i (ws, c) = (b, ws', c')" "i < length (cm_items c)"
  shows "same_frame c c' \<and> (\<forall>j. j \<noteq> i \<longrightarrow> cm_items c' ! j = cm_items c ! j) \<and>
    ws' = (if has_write (cm_items c ! i) then ws @ [i] else ws) \<and>
    (\<exists>A. cm_log c' = cm_log c @ A \<and> phase1_effect i b (it_s (cm_items c ! i)) (it_s (cm_items c' ! i)) A)"
proof -
  obtain ok ws1 c1 where l: "lock_write_item objs i (ws, c) = (ok, ws1, c1)"
    by (cases "lock_write_item objs i (ws, c)") auto
  from lock_write_item_effect [OF l assms(2)] obtain A where
    e: "same_frame c c1" "\<forall>j. j \<noteq> i \<longrightarrow> cm_items c1 ! j = cm_items c ! j"
       "ws1 = (if has_write (cm_items c ! i) then ws @ [i] else ws)" "cm_log c1 = cm_log c @ A"
       "phase1_effect i ok (it_s (cm_items c ! i)) (it_s (cm_items c1 ! i)) A"
       "\<forall>p. Predicate_check i p \<notin> set A"
    by blast
  have n: "i < length (cm_items c1)" using e(1) assms(2) by (simp add: same_frame_def)
  have ws': "ws' = ws1"
    using assms(1) l by (auto simp: phase1_item_def Let_def split: if_splits prod.splits)
  show ?thesis
  proof (cases "ok \<and> \<not> has_read (cm_items c1 ! i) \<and> has_predicate (cm_items c1 ! i)")
    case False
    then have "b = ok" "cm_items c' = cm_items c1" "cm_log c' = cm_log c1" "same_frame c1 c'"
      using assms(1) l
      by (auto simp: phase1_item_def Let_def read_timestamp_step_def same_frame_def split: if_splits prod.splits)
    with e ws' show ?thesis by (auto simp: same_frame_def)
  next
    case True
    then have p: "predicate_item objs i c1 = (b, c')"
      using assms(1) l by (auto simp: phase1_item_def Let_def split: prod.splits)
    note q = predicate_item_effect [OF p n]
    have "phase1_effect i b (it_s (cm_items c ! i)) (it_s (cm_items c' ! i)) (A @ [Predicate_check i b])"
      using e(5) True q(3) by (cases b) (auto simp: phase1_effect_def split: if_splits)
    moreover have "cm_log c' = cm_log c @ (A @ [Predicate_check i b])" using e(4) q(4) by simp
    moreover have "same_frame c c'" "\<forall>j. j \<noteq> i \<longrightarrow> cm_items c' ! j = cm_items c ! j"
      using e(1,2) q(1,2) by (auto simp: same_frame_def)
    ultimately show ?thesis using e(3) ws' by blast
  qed
qed

lemma phase1_list:
  assumes "phase1 objs is (ws, c) = (b, ws', c')" "distinct is" "\<forall>i\<in>set is. i < length (cm_items c)"
  shows "same_frame c c' \<and> (b \<longrightarrow> ws' = ws @ filter (\<lambda>i. has_write (cm_items c ! i)) is) \<and>
    (\<exists>A. cm_log c' = cm_log c @ A \<and> phase1_summary is b (cm_items c) (cm_items c') A)"
  using assms
proof (induction "is" arbitrary: ws c)
  case Nil
  then show ?case by (auto simp: same_frame_def phase1_summary_def phase1_flags_def phase1_log_def)
next
  case (Cons i js)
  obtain b1 ws1 c1 where l: "phase1_item objs i (ws, c) = (b1, ws1, c1)"
    by (cases "phase1_item objs i (ws, c)") auto
  from phase1_item_effect [OF l] Cons.prems(3) obtain A where
    e: "same_frame c c1" "\<forall>j. j \<noteq> i \<longrightarrow> cm_items c1 ! j = cm_items c ! j"
       "ws1 = (if has_write (cm_items c ! i) then ws @ [i] else ws)" "cm_log c1 = cm_log c @ A"
       "phase1_effect i b1 (it_s (cm_items c ! i)) (it_s (cm_items c1 ! i)) A"
    by auto
  show ?case
  proof (cases b1)
    case False
    then have "b = False" "ws' = ws1" "c' = c1" using Cons.prems(1) l by auto
    moreover have "phase1_summary (i # js) False (cm_items c) (cm_items c1) A"
      using summary_widen [OF summary_one [OF e(2)], of A "i # js"] e(5) False by simp
    ultimately show ?thesis using e by auto
  next
    case True
    then have r: "phase1 objs js (ws1, c1) = (b, ws', c')" using Cons.prems(1) l by simp
    from Cons.IH [OF r] Cons.prems(2,3) e(1) obtain B where
      q: "same_frame c1 c'" "b \<longrightarrow> ws' = ws1 @ filter (\<lambda>i. has_write (cm_items c1 ! i)) js"
         "cm_log c' = cm_log c1 @ B" "phase1_summary js b (cm_items c1) (cm_items c') B"
      by (auto simp: same_frame_def)
    have same: "cm_items c1 ! j = cm_items c ! j" if "j \<in> set js" for j
      using e(2) that Cons.prems(2) by auto
    have "filter (\<lambda>i. has_write (cm_items c1 ! i)) js = filter (\<lambda>i. has_write (cm_items c ! i)) js"
      using same by (intro filter_cong) auto
    moreover have "phase1_summary (i # js) b (cm_items c) (cm_items c') (A @ B)"
      using summary_append [OF summary_one [OF e(2)] q(4), of A] e(5) True Cons.prems(2) by simp
    moreover have "same_frame c c'" using e(1) q(1) by (simp add: same_frame_def)
    ultimately show ?thesis using e(3,4) q(2,3) by auto
  qed
qed

lemma install_list:
  "\<forall>i\<in>set is. i < length (cm_items c) \<Longrightarrow>
   cm_log (fold (install_item objs) is c) = cm_log c @ map Installed is \<and>
   length (cm_items (fold (install_item objs) is c)) = length (cm_items c)"
  by (induction "is" arbitrary: c) (auto simp: install_item_def Let_def split: prod.splits)

lemma locked_s_bits: "bit (locked_s v) n \<longleftrightarrow> bit v n \<or> n = 61 \<or> n = 58"
  by (auto simp: locked_s_def word_bits)

text \<open>After a completed phase 1 the validated reads are the ones of \<open>read_set\<close>.\<close>

lemma phase1_reads:
  assumes "phase1_flags [0..<length (cm_items c)] True (cm_items c) xs'" "i \<in> set (read_set c)"
  shows "has_read (xs' ! i) \<and> (locked_at_commit (xs' ! i) \<or> \<not> needs_unlock (xs' ! i))"
  using assms by (auto simp: phase1_flags_def read_set_def flag_bits locked_s_bits)

lemma commit_phases:
  assumes "cm_state c = In_progress" "cm_any_writes c \<or> cm_any_nonopaque c" "cm_log c = []"
    "try_commit objs c = (True, c')"
  shows "\<exists>A B D. cm_log c' = A @ B @ map Installed (write_set c) @ D \<and>
    (\<forall>e\<in>set A. \<exists>i. e = Lock_try i True \<or> e = Predicate_check i True) \<and>
    (\<forall>i\<in>set (write_set c). needs_unlock (cm_items c ! i) \<or> Lock_try i True \<in> set A) \<and>
    (\<forall>e\<in>set B. \<exists>i p. e = Read_check i p) \<and>
    (\<forall>i\<in>set (read_set c). \<exists>p. Read_check i p \<in> set B \<and> (p \<or> cm_may_duplicate c)) \<and>
    set D \<subseteq> range Cleaned \<union> range Unlocked"
proof -
  let ?n = "length (cm_items c)"
  let ?c = "c\<lparr>cm_state := Committing\<rparr>"
  obtain ok ws c1 where p1: "phase1 objs [0..<?n] ([], ?c) = (ok, ws, c1)"
    by (cases "phase1 objs [0..<?n] ([], ?c)") auto
  let ?c1 = "c1\<lparr>cm_first_write := (if ws = [] then ?n else hd ws)\<rparr>"
  obtain ok2 c2 where p2: "phase2 objs [0..<?n] ?c1 = (ok2, c2)" by (cases "phase2 objs [0..<?n] ?c1")
  have ok: ok ok2 and c': "c' = stop objs True ws (fold (install_item objs) ws c2)"
    using assms p1 p2 by (auto simp: try_commit_def in_progress_def Let_def split: if_splits)
  from phase1_list [OF p1] obtain A where a: "same_frame ?c c1" "ws = write_set c" "cm_log c1 = A"
      "phase1_flags [0..<?n] True (cm_items c) (cm_items c1)" "phase1_log [0..<?n] True (cm_items c) (cm_items c1) A"
    using ok assms(3) by (auto simp: write_set_def phase1_summary_def)
  from phase2_list [OF p2] obtain B where b: "cm_items c2 = cm_items c1" "same_frame ?c1 c2" "cm_log c2 = A @ B"
      "\<forall>e\<in>set B. \<exists>i p. e = Read_check i p"
      "\<forall>i\<in>set [0..<?n]. has_read (cm_items c1 ! i) \<and> (locked_at_commit (cm_items c1 ! i) \<or> \<not> needs_unlock (cm_items c1 ! i)) \<longrightarrow>
        (\<exists>p. Read_check i p \<in> set B \<and> (p \<or> cm_may_duplicate c1 \<and> preceding_duplicate_read i (\<lambda>j. cm_items c1 ! j)))"
    using ok a(3) by auto
  have n: "\<forall>i\<in>set ws. i < length (cm_items c2)"
    using a(1,2) b(1) by (auto simp: write_set_def same_frame_def)
  obtain D U where d: "cm_log c' = cm_log (fold (install_item objs) ws c2) @ D @ map Unlocked U" "set D \<subseteq> range Cleaned"
    using stop_log [of objs True ws "fold (install_item objs) ws c2"] unfolding c' by blast
  show ?thesis
  proof (intro exI conjI)
    show "cm_log c' = A @ B @ map Installed (write_set c) @ (D @ map Unlocked U)"
      using d(1) install_list [OF n] b(3) a(2) by simp
    show "\<forall>e\<in>set A. \<exists>i. e = Lock_try i True \<or> e = Predicate_check i True"
    proof
      fix e assume e: "e \<in> set A"
      then have "phase1_event e" using a(5) by (simp add: phase1_log_def)
      then show "\<exists>i. e = Lock_try i True \<or> e = Predicate_check i True"
        using a(5) e by (cases e) (auto simp: phase1_log_def)
    qed
    show "\<forall>i\<in>set (write_set c). needs_unlock (cm_items c ! i) \<or> Lock_try i True \<in> set A"
      using a(5) by (auto simp: phase1_log_def write_set_def)
    show "\<forall>e\<in>set B. \<exists>i p. e = Read_check i p" by (fact b(4))
    show "\<forall>i\<in>set (read_set c). \<exists>p. Read_check i p \<in> set B \<and> (p \<or> cm_may_duplicate c)"
    proof
      fix i assume i: "i \<in> set (read_set c)"
      then have "i \<in> set [0..<?n]" by (simp add: read_set_def)
      with b(5) phase1_reads [OF a(4) i] a(1)
      show "\<exists>p. Read_check i p \<in> set B \<and> (p \<or> cm_may_duplicate c)" by (auto simp: same_frame_def)
    qed
    show "set (D @ map Unlocked U) \<subseteq> range Cleaned \<union> range Unlocked" using d(2) by auto
  qed
qed

text \<open>Stopping with the locks of a whole or partial phase 1 releases each of them.\<close>

lemma stop_releases:
  assumes "phase1_summary js b (cm_items c) (cm_items c1) A" "length (cm_items c1) = length (cm_items c)"
    "cm_log c1 = A @ B" "\<forall>e\<in>set B. \<exists>i p. e = Read_check i p"
  shows "cm_state (stop objs False [] c1) = Aborted \<and> (\<forall>i. Installed i \<notin> set (cm_log (stop objs False [] c1))) \<and>
    (\<exists>A L. cm_log (stop objs False [] c1) = A @ map Unlocked L \<and> set A \<inter> range Unlocked = {} \<and> distinct L \<and>
      (\<forall>i<length (cm_items c). needs_unlock (cm_items c ! i) \<or> Lock_try i True \<in> set A \<longrightarrow> i \<in> set L))"
proof -
  define L where "L = filter (\<lambda>i. needs_unlock (cm_items c1 ! i)) (rev [0..<length (cm_items c1)])"
  obtain D where d: "cm_log (stop objs False [] c1) = (A @ B) @ D @ map Unlocked L" "set D \<subseteq> range Cleaned"
    using stop_log [of objs False "[]" c1] unfolding L_def assms(3) by blast
  have f: "phase1_flags js b (cm_items c) (cm_items c1)" and l: "phase1_log js b (cm_items c) (cm_items c1) A"
    using assms(1) by (simp_all add: phase1_summary_def)
  have ev: "phase1_event e \<or> (\<exists>i p. e = Read_check i p) \<or> e \<in> range Cleaned" if "e \<in> set (A @ B @ D)" for e
    using that l assms(4) d(2) unfolding phase1_log_def by auto
  have no: "Installed i \<notin> set (A @ B @ D)" "Unlocked i \<notin> set (A @ B @ D)" for i
    using ev [of "Installed i"] ev [of "Unlocked i"] by auto
  have held: "i \<in> set L"
    if "i < length (cm_items c)" "needs_unlock (cm_items c ! i) \<or> Lock_try i True \<in> set (A @ B @ D)" for i
  proof -
    have "Lock_try i True \<notin> set B" "Lock_try i True \<notin> set D" using assms(4) d(2) by auto
    then have "needs_unlock (cm_items c ! i) \<or> it_s (cm_items c1 ! i) = locked_s (it_s (cm_items c ! i))"
      using that(2) l by (auto simp: phase1_log_def)
    moreover have "it_s (cm_items c1 ! i) = it_s (cm_items c ! i) \<or> it_s (cm_items c1 ! i) = locked_s (it_s (cm_items c ! i))"
      using f by (auto simp: phase1_flags_def)
    ultimately have "needs_unlock (cm_items c1 ! i)"
      by (cases "it_s (cm_items c1 ! i) = locked_s (it_s (cm_items c ! i))") (simp_all add: flag_bits locked_s_bits)
    then show ?thesis using that(1) assms(2) by (simp add: L_def)
  qed
  have "cm_log (stop objs False [] c1) = (A @ B @ D) @ map Unlocked L" using d(1) by simp
  moreover have "set (A @ B @ D) \<inter> range Unlocked = {}" using no(2) by blast
  moreover have "distinct L" by (simp add: L_def)
  ultimately show ?thesis using held no(1) by (intro conjI exI [of _ "A @ B @ D"] exI [of _ L]) (auto simp: stop_state)
qed

lemma abort_releases:
  assumes "cm_state c = In_progress" "cm_log c = []" "try_commit objs c = (False, c')"
  shows "cm_state c' = Aborted \<and> (\<forall>i. Installed i \<notin> set (cm_log c')) \<and>
    (\<exists>A L. cm_log c' = A @ map Unlocked L \<and> set A \<inter> range Unlocked = {} \<and> distinct L \<and>
      (\<forall>i<length (cm_items c). needs_unlock (cm_items c ! i) \<or> Lock_try i True \<in> set A \<longrightarrow> i \<in> set L))"
proof -
  let ?n = "length (cm_items c)"
  let ?c = "c\<lparr>cm_state := Committing\<rparr>"
  obtain ok ws c1 where p1: "phase1 objs [0..<?n] ([], ?c) = (ok, ws, c1)"
    by (cases "phase1 objs [0..<?n] ([], ?c)") auto
  let ?c1 = "c1\<lparr>cm_first_write := (if ws = [] then ?n else hd ws)\<rparr>"
  obtain ok2 c2 where p2: "phase2 objs [0..<?n] ?c1 = (ok2, c2)" by (cases "phase2 objs [0..<?n] ?c1")
  from phase1_list [OF p1] obtain A where a: "same_frame ?c c1" "cm_log c1 = A"
      "phase1_summary [0..<?n] ok (cm_items c) (cm_items c1) A"
    using assms(2) by auto
  have n: "length (cm_items c1) = ?n" using a(1) by (simp add: same_frame_def)
  show ?thesis
  proof (cases ok)
    case False
    then have "c' = stop objs False [] c1"
      using assms p1 by (auto simp: try_commit_def in_progress_def Let_def split: if_splits)
    then show ?thesis using stop_releases [OF a(3) n, of "[]"] a(2) by simp
  next
    case True
    have c': "c' = stop objs False [] c2"
      using assms p1 p2 True by (auto simp: try_commit_def in_progress_def Let_def split: if_splits)
    from phase2_list [OF p2] obtain B where b: "cm_items c2 = cm_items c1" "cm_log c2 = A @ B"
        "\<forall>e\<in>set B. \<exists>i p. e = Read_check i p"
      using a(2) by auto
    show ?thesis
      unfolding c' by (rule stop_releases [OF _ _ b(2,3)]) (use a(3) n b(1) in simp_all)
  qed
qed

end

end
