(* ===== verification/Sto_Rwlock.thy ===== *)
theory Sto_Rwlock
  imports Sto_Tid
begin

unbundle bit_operations_syntax

text \<open>
  The reader/writer lock of the two-phase-locking versions (\<open>sto-core/EagerVersions.hh\<close>, class
  \<open>TLockVersion\<close>).  The bits that hold the owner's thread number in other versions count readers here.
  A turn of a loop takes the value \<open>vv\<close> the thread read and the word \<open>v\<close> at the time of the exchange, and
  is \<open>None\<close> when the loop goes round; the random choices of the adaptive variant are arguments.
\<close>

subsection \<open>Operations\<close>

datatype lock_response = Locked | Failed | Optimistic | Spin

definition rlock_cnt_max :: u64 where "rlock_cnt_max = 0x10"

definition try_lock_read_turn :: "u64 \<Rightarrow> u64 \<Rightarrow> (lock_response \<times> u64 \<times> u64) option" where
  "try_lock_read_turn vv v =
     (let write_locked = vv AND lock_bit \<noteq> 0;
          rlock_cnt = vv AND threadid_mask;
          rlock_avail = rlock_cnt < rlock_cnt_max
      in if write_locked then Some (Spin, 0, v)
         else if \<not> rlock_avail then Some (Optimistic, vv, v)
         else case bool_cmpxchg v vv ((vv AND NOT threadid_mask) OR (rlock_cnt + 1)) of
                (True, w) \<Rightarrow> Some (Locked, 0, w)
              | (False, _) \<Rightarrow> None)"

definition try_lock_write_turn :: "u64 \<Rightarrow> u64 \<Rightarrow> (lock_response \<times> u64) option" where
  "try_lock_write_turn vv v =
     (if vv AND lock_bit \<noteq> 0 \<or> vv AND threadid_mask \<noteq> 0 then Some (Spin, v)
      else case bool_cmpxchg v vv (vv OR lock_bit) of (True, w) \<Rightarrow> Some (Locked, w) | (False, _) \<Rightarrow> None)"

text \<open>A failing assertion of \<open>try_upgrade\<close> is \<open>None\<close>.\<close>

definition try_upgrade :: "u64 \<Rightarrow> u64 \<Rightarrow> (lock_response \<times> u64) option" where
  "try_upgrade vv v =
     (let rlock_cnt = vv AND threadid_mask
      in if \<not> is_locked vv \<and> rlock_cnt \<ge> 1 then
           if rlock_cnt = 1 then
             (case bool_cmpxchg v vv ((vv - 1) OR lock_bit) of (True, w) \<Rightarrow> Some (Locked, w) | (False, w) \<Rightarrow> Some (Spin, w))
           else Some (Spin, v)
         else None)"

definition unlock_read :: "bool \<Rightarrow> bool \<Rightarrow> u64 \<Rightarrow> u64" where
  "unlock_read adaptive reset_opt_bit v = (if adaptive \<and> reset_opt_bit then (v - 1) OR opt_bit else v - 1)"

definition unlock_write :: "bool \<Rightarrow> bool \<Rightarrow> u64 \<Rightarrow> u64" where
  "unlock_write adaptive chance v =
     (if \<not> adaptive then v AND NOT (lock_bit OR dirty_bit OR opt_bit)
      else let new_v = v AND NOT (lock_bit OR dirty_bit)
           in if new_v AND opt_bit \<noteq> 0 \<and> chance then new_v AND NOT opt_bit else new_v)"

definition hint_optimistic :: "u64 \<Rightarrow> bool" where
  "hint_optimistic v \<longleftrightarrow> v AND opt_bit \<noteq> 0"

definition lv_cp_try_lock :: "u64 \<Rightarrow> u64" where
  "lv_cp_try_lock v = v OR dirty_bit"

definition lv_cp_unlock :: "bool \<Rightarrow> bool \<Rightarrow> bool \<Rightarrow> u64 \<Rightarrow> u64" where
  "lv_cp_unlock adaptive chance has_write v =
     (if has_write then unlock_write adaptive chance v else unlock_read adaptive chance v)"

definition lv_cp_check_version :: "bool \<Rightarrow> u64 \<Rightarrow> bool" where
  "lv_cp_check_version has_write v \<longleftrightarrow> \<not> (is_dirty v \<and> \<not> has_write)"

subsection \<open>Bounded spinning\<close>

text \<open>
  The callers in \<open>ConcurrencyControl.hh\<close> repeat an attempt until it answers or \<open>2^STO_SPIN_BOUND_WRITE\<close>
  answers said \<open>spin\<close>.  The list holds the answers the attempts give; \<open>None\<close> means the list was too short.
\<close>

definition spin_bound :: nat where "spin_bound = 8"

fun try_lock_write_with_spin :: "nat \<Rightarrow> lock_response list \<Rightarrow> bool option" where
  "try_lock_write_with_spin n [] = None"
| "try_lock_write_with_spin n (r # rs) =
     (if r = Locked then Some True
      else if r = Spin then (if Suc n = spin_bound then Some False else try_lock_write_with_spin (Suc n) rs)
      else Some False)"

fun try_lock_read_with_spin :: "nat \<Rightarrow> (lock_response \<times> u64) list \<Rightarrow> (lock_response \<times> u64) option" where
  "try_lock_read_with_spin n [] = None"
| "try_lock_read_with_spin n (r # rs) =
     (if fst r \<noteq> Spin then Some r
      else if Suc n = spin_bound then Some (Failed, 0) else try_lock_read_with_spin (Suc n) rs)"

fun try_upgrade_with_spin :: "nat \<Rightarrow> lock_response list \<Rightarrow> bool option" where
  "try_upgrade_with_spin n [] = None"
| "try_upgrade_with_spin n (r # rs) =
     (if r = Locked then Some True
      else if Suc n = spin_bound then Some False else try_upgrade_with_spin (Suc n) rs)"

lemma write_spin_bounded:
  "length rs \<ge> spin_bound - n \<Longrightarrow> n < spin_bound \<Longrightarrow> try_lock_write_with_spin n rs \<noteq> None"
  by (induction n rs rule: try_lock_write_with_spin.induct) (auto simp: spin_bound_def)

lemma read_spin_bounded:
  "length rs \<ge> spin_bound - n \<Longrightarrow> n < spin_bound \<Longrightarrow> try_lock_read_with_spin n rs \<noteq> None"
  by (induction n rs rule: try_lock_read_with_spin.induct) (auto simp: spin_bound_def)

lemma upgrade_spin_bounded:
  "length rs \<ge> spin_bound - n \<Longrightarrow> n < spin_bound \<Longrightarrow> try_upgrade_with_spin n rs \<noteq> None"
  by (induction n rs rule: try_upgrade_with_spin.induct) (auto simp: spin_bound_def)

subsection \<open>The word\<close>

definition readers_of :: "u64 \<Rightarrow> nat" where
  "readers_of v = unat v mod 128"

lemma and_mask_readers: "unat (v AND threadid_mask) = readers_of v"
proof -
  have "threadid_mask = mask 7" by (simp add: threadid_mask_def mask_eq_exp_minus_1)
  then have "v AND threadid_mask = take_bit 7 v" by (simp add: take_bit_eq_mask)
  then have "unat (v AND threadid_mask) = unat (take_bit 7 v)" by simp
  also have "\<dots> = take_bit 7 (unat v)" by (simp only: unsigned_take_bit_eq)
  finally show ?thesis by (simp add: readers_of_def take_bit_eq_mod)
qed

lemma readers_cong: "(\<And>n. n < 7 \<Longrightarrow> bit v n = bit w n) \<Longrightarrow> readers_of v = readers_of w"
proof -
  assume "\<And>n. n < 7 \<Longrightarrow> bit v n = bit w n"
  then have "v AND threadid_mask = w AND threadid_mask" by (intro bit_word_eqI) (auto simp: bit_and_iff)
  then show ?thesis using and_mask_readers by metis
qed

lemma readers_flag [simp]:
  "readers_of (v OR lock_bit) = readers_of v" "readers_of (v OR dirty_bit) = readers_of v"
  "readers_of (v OR opt_bit) = readers_of v"
  "readers_of (v AND NOT (lock_bit OR dirty_bit OR opt_bit)) = readers_of v"
  "readers_of (v AND NOT (lock_bit OR dirty_bit)) = readers_of v"
  "readers_of (v AND NOT opt_bit) = readers_of v"
  by (rule readers_cong; simp add: word_bits)+

lemma bit_seven: "bit v 7 \<longleftrightarrow> odd (unat (v :: u64) div 128)"
proof -
  have "bit v 7 \<longleftrightarrow> bit (unat v) 7" by (simp add: bit_unsigned_iff)
  then show ?thesis by (simp add: bit_iff_odd)
qed

lemma mod_div_dec:
  fixes a :: nat
  assumes "1 \<le> a mod 128"
  shows "(a - 1) mod 128 = a mod 128 - 1" "(a - 1) div 128 = a div 128"
proof -
  have "a - 1 = a mod 128 - 1 + 128 * (a div 128)"
    using assms mod_mult_div_eq [of a 128] by linarith
  moreover have "a mod 128 - 1 < 128" by simp
  ultimately show "(a - 1) mod 128 = a mod 128 - 1" "(a - 1) div 128 = a div 128"
    by (simp_all only: mod_mult_self2 mod_less div_mult_self2 div_less)
qed

lemma readers_dec:
  assumes "1 \<le> readers_of v"
  shows "readers_of (v - 1) = readers_of v - 1" "bit (v - 1) 7 = bit v 7"
proof -
  have "unat v \<noteq> 0" using assms by (auto simp: readers_of_def intro: Nat.gr0I)
  then have "unat (v - 1) = unat v - 1" by (simp add: unat_sub word_le_nat_alt)
  then show "readers_of (v - 1) = readers_of v - 1" "bit (v - 1) 7 = bit v 7"
    using mod_div_dec [of "unat v"] assms by (simp_all add: readers_of_def bit_seven)
qed

lemma readers_inc:
  assumes "readers_of v < 16"
  shows "readers_of ((v AND NOT threadid_mask) OR ((v AND threadid_mask) + 1)) = readers_of v + 1"
    "bit ((v AND NOT threadid_mask) OR ((v AND threadid_mask) + 1)) 7 = bit v 7"
proof -
  let ?b = "(v AND threadid_mask) + 1"
  have u: "unat ?b = readers_of v + 1" using assms by (simp add: unat_word_ariths and_mask_readers)
  then have b: "?b = of_nat (readers_of v + 1)" by (metis of_nat_unat ucast_id)
  have small: "bit ?b n \<Longrightarrow> n < 7" for n
    using small_bits [of "readers_of v + 1" n] assms b by auto
  have "readers_of ((v AND NOT threadid_mask) OR ?b) = readers_of ?b"
    by (rule readers_cong) (simp add: word_bits)
  also have "\<dots> = readers_of v + 1" using u assms by (simp add: readers_of_def)
  finally show "readers_of ((v AND NOT threadid_mask) OR ?b) = readers_of v + 1" .
  show "bit ((v AND NOT threadid_mask) OR ?b) 7 = bit v 7"
    using small [of 7] by (auto simp: word_bits)
qed

subsection \<open>The protocol\<close>

datatype rw_pc = Rw_idle | Read_seen u64 | Reading | Write_seen u64 | Writing | Upgrade_seen u64

record rw_state =
  rw_word :: u64
  rw_pc :: "nat \<Rightarrow> rw_pc"

definition rw_set :: "nat \<Rightarrow> rw_pc \<Rightarrow> u64 \<Rightarrow> rw_state \<Rightarrow> rw_state" where
  "rw_set t pc w s = s\<lparr>rw_word := w, rw_pc := (rw_pc s)(t := pc)\<rparr>"

inductive rw_step :: "nat \<Rightarrow> rw_state \<Rightarrow> rw_state \<Rightarrow> bool" for n where
  look_read: "t < n \<Longrightarrow> rw_pc s t = Rw_idle \<Longrightarrow> rw_step n s (rw_set t (Read_seen (rw_word s)) (rw_word s) s)"
| turn_read:
    "t < n \<Longrightarrow> rw_pc s t = Read_seen vv \<Longrightarrow> try_lock_read_turn vv (rw_word s) = Some (r, x, w) \<Longrightarrow>
     rw_step n s (rw_set t (if r = Locked then Reading else Rw_idle) w s)"
| again_read:
    "t < n \<Longrightarrow> rw_pc s t = Read_seen vv \<Longrightarrow> try_lock_read_turn vv (rw_word s) = None \<Longrightarrow>
     rw_step n s (rw_set t (Read_seen (rw_word s)) (rw_word s) s)"
| look_write: "t < n \<Longrightarrow> rw_pc s t = Rw_idle \<Longrightarrow> rw_step n s (rw_set t (Write_seen (rw_word s)) (rw_word s) s)"
| turn_write:
    "t < n \<Longrightarrow> rw_pc s t = Write_seen vv \<Longrightarrow> try_lock_write_turn vv (rw_word s) = Some (r, w) \<Longrightarrow>
     rw_step n s (rw_set t (if r = Locked then Writing else Rw_idle) w s)"
| again_write:
    "t < n \<Longrightarrow> rw_pc s t = Write_seen vv \<Longrightarrow> try_lock_write_turn vv (rw_word s) = None \<Longrightarrow>
     rw_step n s (rw_set t (Write_seen (rw_word s)) (rw_word s) s)"
| look_upgrade: "t < n \<Longrightarrow> rw_pc s t = Reading \<Longrightarrow> rw_step n s (rw_set t (Upgrade_seen (rw_word s)) (rw_word s) s)"
| turn_upgrade:
    "t < n \<Longrightarrow> rw_pc s t = Upgrade_seen vv \<Longrightarrow> try_upgrade vv (rw_word s) = Some (r, w) \<Longrightarrow>
     rw_step n s (rw_set t (if r = Locked then Writing else Reading) w s)"
| done_read:
    "t < n \<Longrightarrow> rw_pc s t = Reading \<Longrightarrow>
     rw_step n s (rw_set t Rw_idle (unlock_read adaptive chance (rw_word s)) s)"
| dirty:
    "t < n \<Longrightarrow> rw_pc s t = Writing \<Longrightarrow> rw_step n s (rw_set t Writing (lv_cp_try_lock (rw_word s)) s)"
| done_write:
    "t < n \<Longrightarrow> rw_pc s t = Writing \<Longrightarrow>
     rw_step n s (rw_set t Rw_idle (unlock_write adaptive chance (rw_word s)) s)"
| commit_write:
    "t < n \<Longrightarrow> rw_pc s t = Writing \<Longrightarrow>
     rw_step n s (rw_set t Rw_idle (set_version_unlock_dirty new_v (rw_word s)) s)"

definition rw_start :: "u64 \<Rightarrow> rw_state" where
  "rw_start v = \<lparr>rw_word = v, rw_pc = (\<lambda>_. Rw_idle)\<rparr>"

definition holds_read :: "rw_pc \<Rightarrow> bool" where
  "holds_read pc \<longleftrightarrow> (case pc of Reading \<Rightarrow> True | Upgrade_seen _ \<Rightarrow> True | _ \<Rightarrow> False)"

definition readers :: "nat \<Rightarrow> rw_state \<Rightarrow> nat set" where
  "readers n s = {t. t < n \<and> holds_read (rw_pc s t)}"

definition writers :: "nat \<Rightarrow> rw_state \<Rightarrow> nat set" where
  "writers n s = {t. t < n \<and> rw_pc s t = Writing}"

definition rw_inv :: "nat \<Rightarrow> rw_state \<Rightarrow> bool" where
  "rw_inv n s \<longleftrightarrow> card (readers n s) = readers_of (rw_word s) \<and> card (readers n s) \<le> 16 \<and>
     (if is_locked (rw_word s) then (\<exists>t. writers n s = {t}) \<and> readers n s = {} else writers n s = {})"

lemma readers_set:
  "readers n (rw_set t pc w s) = (if t < n \<and> holds_read pc then insert t (readers n s) else readers n s - {t})"
  by (auto simp: readers_def rw_set_def)

lemma writers_set:
  "writers n (rw_set t pc w s) = (if t < n \<and> pc = Writing then insert t (writers n s) else writers n s - {t})"
  by (auto simp: writers_def rw_set_def)

lemma word_set [simp]: "rw_word (rw_set t pc w s) = w"
  by (simp add: rw_set_def)

lemma finite_readers [simp]: "finite (readers n s)"
  by (simp add: readers_def)

lemma not_in_sets:
  "rw_pc s t = pc \<Longrightarrow> \<not> holds_read pc \<Longrightarrow> t \<notin> readers n s"
  "rw_pc s t = pc \<Longrightarrow> pc \<noteq> Writing \<Longrightarrow> t \<notin> writers n s"
  "t < n \<Longrightarrow> rw_pc s t = pc \<Longrightarrow> holds_read pc \<Longrightarrow> t \<in> readers n s"
  "t < n \<Longrightarrow> rw_pc s t = Writing \<Longrightarrow> t \<in> writers n s"
  by (auto simp: readers_def writers_def)

lemma holds_read_simps [simp]:
  "\<not> holds_read Rw_idle" "\<not> holds_read (Read_seen v)" "holds_read Reading" "\<not> holds_read (Write_seen v)"
  "\<not> holds_read Writing" "holds_read (Upgrade_seen v)"
  by (simp_all add: holds_read_def)

text \<open>A step that leaves the word and what the thread holds.\<close>

lemma rw_inv_same:
  assumes "rw_inv n s" "t < n" "holds_read pc \<longleftrightarrow> holds_read (rw_pc s t)" "pc = Writing \<longleftrightarrow> rw_pc s t = Writing"
  shows "rw_inv n (rw_set t pc (rw_word s) s)"
proof -
  have "readers n (rw_set t pc (rw_word s) s) = readers n s" "writers n (rw_set t pc (rw_word s) s) = writers n s"
    using assms(2-4) by (auto simp: readers_def writers_def rw_set_def)
  with assms(1) show ?thesis by (simp add: rw_inv_def)
qed

lemma rw_inv_read_locked:
  assumes inv: "rw_inv n s" and t: "t < n" "rw_pc s t = Read_seen vv"
    and r: "try_lock_read_turn vv (rw_word s) = Some (Locked, x, w)"
  shows "rw_inv n (rw_set t Reading w s)"
proof -
  let ?v = "rw_word s"
  have v: "vv = ?v" "\<not> is_locked ?v" "?v AND threadid_mask < rlock_cnt_max"
    "w = (?v AND NOT threadid_mask) OR ((?v AND threadid_mask) + 1)"
    using r by (auto simp: try_lock_read_turn_def Let_def bool_cmpxchg_def is_locked_def split: if_splits)
  have few: "readers_of ?v < 16"
    using v(3) by (simp add: word_less_nat_alt and_mask_readers rlock_cnt_max_def)
  have w: "readers_of w = readers_of ?v + 1" "\<not> is_locked w"
    using readers_inc [OF few] v(2) unfolding v(4) by (simp_all add: is_locked_bit)
  show ?thesis
    using inv t v(2) w few not_in_sets(1,2) [OF t(2), of n]
    by (simp add: rw_inv_def readers_set writers_set)
qed

lemma rw_inv_write_locked:
  assumes inv: "rw_inv n s" and t: "t < n" "rw_pc s t = Write_seen vv"
    and r: "try_lock_write_turn vv (rw_word s) = Some (Locked, w)"
  shows "rw_inv n (rw_set t Writing w s)"
proof -
  let ?v = "rw_word s"
  have v: "\<not> is_locked ?v" "?v AND threadid_mask = 0" "w = ?v OR lock_bit"
    using r by (auto simp: try_lock_write_turn_def bool_cmpxchg_def is_locked_def split: if_splits)
  have "readers_of ?v = 0" using v(2) and_mask_readers [of ?v] by simp
  moreover have "is_locked w" by (simp add: v(3) is_locked_bit bit_or_iff)
  ultimately show ?thesis
    using inv t v(1,3) not_in_sets(1,2) [OF t(2), of n]
    by (auto simp: rw_inv_def readers_set writers_set)
qed

lemma rw_inv_upgraded:
  assumes inv: "rw_inv n s" and t: "t < n" "rw_pc s t = Upgrade_seen vv"
    and r: "try_upgrade vv (rw_word s) = Some (Locked, w)"
  shows "rw_inv n (rw_set t Writing w s)"
proof -
  let ?v = "rw_word s"
  have v: "\<not> is_locked ?v" "?v AND threadid_mask = 1" "w = (?v - 1) OR lock_bit"
    using r by (auto simp: try_upgrade_def Let_def bool_cmpxchg_def split: if_splits)
  have one: "readers_of ?v = 1" using v(2) and_mask_readers [of ?v] by simp
  then have "readers n s = {t}"
    using inv not_in_sets(3) [OF t] by (auto simp: rw_inv_def card_1_singleton_iff)
  moreover have "is_locked w" "readers_of w = 0"
    using readers_dec [of ?v] one by (simp_all add: v(3) is_locked_bit bit_or_iff)
  ultimately show ?thesis
    using inv t v(1) by (auto simp: rw_inv_def readers_set writers_set)
qed

lemma rw_inv_read_done:
  assumes inv: "rw_inv n s" and t: "t < n" "rw_pc s t = Reading"
  shows "rw_inv n (rw_set t Rw_idle (unlock_read a c (rw_word s)) s)"
proof -
  let ?v = "rw_word s" and ?w = "unlock_read a c (rw_word s)"
  have mem: "t \<in> readers n s" using not_in_sets(3) [OF t] by simp
  then have "card (readers n s) \<ge> 1" using card_gt_0_iff [of "readers n s"] by (auto simp: Suc_le_eq)
  then have r: "1 \<le> readers_of ?v" using inv by (simp add: rw_inv_def)
  have u: "\<not> is_locked ?v" using inv mem by (auto simp: rw_inv_def)
  have w: "readers_of ?w = readers_of ?v - 1" "\<not> is_locked ?w"
    using readers_dec [OF r] u by (auto simp: unlock_read_def is_locked_bit bit_or_iff)
  show ?thesis
    using inv t u w mem not_in_sets(2) [OF t(2), of n] by (auto simp: rw_inv_def readers_set writers_set)
qed

lemma rw_inv_write_done:
  assumes inv: "rw_inv n s" and t: "t < n" "rw_pc s t = Writing" and w: "readers_of w = 0" "\<not> is_locked w"
  shows "rw_inv n (rw_set t Rw_idle w s)"
proof -
  have mem: "t \<in> writers n s" by (rule not_in_sets(4) [OF t])
  then have "writers n s = {t}" "readers n s = {}" using inv by (auto simp: rw_inv_def split: if_splits)
  with inv w t show ?thesis by (simp add: rw_inv_def readers_set writers_set)
qed

lemma writer_word:
  assumes "rw_inv n s" "t < n" "rw_pc s t = Writing"
  shows "is_locked (rw_word s)" "readers_of (rw_word s) = 0" "readers n s = {}" "writers n s = {t}"
  using assms not_in_sets(4) [OF assms(2,3)] by (auto simp: rw_inv_def split: if_splits)

lemma released_words:
  "readers_of v = 0 \<Longrightarrow> readers_of (unlock_write a c v) = 0" "\<not> is_locked (unlock_write a c v)"
  "readers_of (set_version_unlock_dirty new_v v) = 0" "\<not> is_locked (set_version_unlock_dirty new_v v)"
proof -
  have "readers_of (unlock_write a c v) = readers_of v"
    by (rule readers_cong) (simp add: unlock_write_def Let_def word_bits)
  then show "readers_of v = 0 \<Longrightarrow> readers_of (unlock_write a c v) = 0" by simp
  show "\<not> is_locked (unlock_write a c v)" by (simp add: unlock_write_def Let_def is_locked_bit word_bits)
  have "readers_of (set_version_unlock_dirty new_v v) = readers_of 0"
    by (rule readers_cong) (simp add: set_version_unlock_dirty_def word_bits)
  then show "readers_of (set_version_unlock_dirty new_v v) = 0" by (simp add: readers_of_def)
  show "\<not> is_locked (set_version_unlock_dirty new_v v)" by (simp add: set_version_unlock_dirty_def is_locked_bit word_bits)
qed

lemma refused_word:
  "try_lock_read_turn vv v = Some (r, x, w) \<Longrightarrow> r \<noteq> Locked \<Longrightarrow> w = v"
  "try_lock_write_turn vv v = Some (q, w) \<Longrightarrow> q \<noteq> Locked \<Longrightarrow> w = v"
  "try_upgrade vv v = Some (q, w) \<Longrightarrow> q \<noteq> Locked \<Longrightarrow> w = v"
  by (auto simp: try_lock_read_turn_def try_lock_write_turn_def try_upgrade_def bool_cmpxchg_def Let_def
      split: if_splits)

lemma rw_inv_step:
  assumes "rw_step n s s'" "rw_inv n s"
  shows "rw_inv n s'"
  using assms(1)
proof cases
  case (turn_read t vv r x w)
  show ?thesis
  proof (cases "r = Locked")
    case True
    with turn_read rw_inv_read_locked [OF assms(2)] show ?thesis by auto
  next
    case False
    with turn_read refused_word(1) [OF turn_read(4)] rw_inv_same [OF assms(2)] show ?thesis by auto
  qed
next
  case (turn_write t vv r w)
  show ?thesis
  proof (cases "r = Locked")
    case True
    with turn_write rw_inv_write_locked [OF assms(2)] show ?thesis by auto
  next
    case False
    with turn_write refused_word(2) [OF turn_write(4)] rw_inv_same [OF assms(2)] show ?thesis by auto
  qed
next
  case (turn_upgrade t vv r w)
  show ?thesis
  proof (cases "r = Locked")
    case True
    with turn_upgrade rw_inv_upgraded [OF assms(2)] show ?thesis by auto
  next
    case False
    with turn_upgrade refused_word(3) [OF turn_upgrade(4)] rw_inv_same [OF assms(2)] show ?thesis by auto
  qed
next
  case (done_read t a c)
  then show ?thesis using rw_inv_read_done [OF assms(2)] by simp
next
  case (dirty t)
  have "is_locked (lv_cp_try_lock (rw_word s))" "readers_of (lv_cp_try_lock (rw_word s)) = 0"
    using writer_word [OF assms(2) dirty(2,3)] by (simp_all add: lv_cp_try_lock_def is_locked_bit bit_or_iff)
  then show ?thesis
    using writer_word [OF assms(2) dirty(2,3)] dirty
    by (auto simp: rw_inv_def readers_set writers_set)
next
  case (done_write t a c)
  then show ?thesis
    using rw_inv_write_done [OF assms(2) done_write(2,3)] released_words writer_word [OF assms(2) done_write(2,3)]
    by simp
next
  case (commit_write t new_v)
  then show ?thesis
    using rw_inv_write_done [OF assms(2) commit_write(2,3)] released_words by simp
qed (use rw_inv_same [OF assms(2)] in auto)

text \<open>C19: The reader/writer lock of \<open>TLockVersion\<close> excludes.  Any number of threads read, try to lock for
  reading or writing, upgrade, mark dirty, install versions and release, in any interleaving of their
  reads and exchanges.  From an unlocked word, there is always at most one writer, no thread holds a read
  lock while one writes, the word counts the readers exactly and never more than 16 of them, and it
  carries the lock bit exactly while a thread writes.\<close>

theorem rw_lock_excludes:
  assumes "(rw_step n)\<^sup>*\<^sup>* (rw_start v) s" "\<not> is_locked v" "v AND threadid_mask = 0"
  shows "card (readers n s) = unat (rw_word s AND threadid_mask) \<and> card (readers n s) \<le> 16 \<and>
    (is_locked (rw_word s) \<longleftrightarrow> writers n s \<noteq> {}) \<and>
    (t \<in> writers n s \<longrightarrow> writers n s = {t} \<and> readers n s = {})"
proof -
  have "readers_of v = 0" using assms(3) and_mask_readers [of v] by simp
  then have "rw_inv n (rw_start v)"
    using assms(2) by (simp add: rw_inv_def rw_start_def readers_def writers_def)
  with assms(1) have "rw_inv n s"
    by (induction rule: rtranclp_induct) (auto intro: rw_inv_step)
  then show ?thesis by (auto simp: rw_inv_def and_mask_readers split: if_splits)
qed

theorem rw_lock_excludes_witness:
  "(rw_step 2)\<^sup>*\<^sup>* (rw_start 0x1000) (rw_set 1 Writing 0x1080 (rw_set 1 (Write_seen 0x1000) 0x1000 (rw_start 0x1000))) \<and>
   readers 2 (rw_set 1 Writing 0x1080 (rw_set 1 (Write_seen 0x1000) 0x1000 (rw_start 0x1000))) = {}"
proof -
  let ?s1 = "rw_set 1 (Write_seen 0x1000) 0x1000 (rw_start 0x1000)"
  have 1: "rw_step 2 (rw_start 0x1000) ?s1"
    using rw_step.look_write [of 1 2 "rw_start 0x1000"] by (simp add: rw_start_def)
  have "try_lock_write_turn 0x1000 0x1000 = Some (Locked, 0x1080)"
    by (simp add: try_lock_write_turn_def lock_bit_def threadid_mask_def bool_cmpxchg_def)
  then have 2: "rw_step 2 ?s1 (rw_set 1 Writing 0x1080 ?s1)"
    using rw_step.turn_write [of 1 2 ?s1 "0x1000" Locked "0x1080"] by (simp add: rw_set_def)
  have run: "(rw_step 2)\<^sup>*\<^sup>* (rw_start 0x1000) (rw_set 1 Writing 0x1080 ?s1)"
    using 1 2 by (meson converse_rtranclp_into_rtranclp rtranclp.rtrancl_refl)
  show ?thesis
    using rw_lock_excludes [OF run, of 1] run
    by (simp add: is_locked_def lock_bit_def threadid_mask_def writers_set)
qed

end
