(* ===== verification/Txn_Box.thy ===== *)
theory Txn_Box
  imports Txn_Commit Sto_Rwlock
begin

unbundle bit_operations_syntax

text \<open>
  Transactional boxes (\<open>datatype/TBox.hh\<close>) over the optimistic versions \<open>TVersion\<close> and
  \<open>TNonopaqueVersion\<close> (\<open>sto-core/OCCVersions.hh\<close>, \<open>BasicVersion\<close> of \<open>VersionBase.hh\<close>, the commit-id functions
  and \<open>Transaction::try_lock\<close> of \<open>ConcurrencyControl.hh\<close>): the callbacks of the commit protocol on a shared heap.

  Other threads act between any two accesses of the committing thread: \<open>settle\<close> lets them run, \<open>bm_env\<close>
  says what they do then.  Nothing is assumed of them in the definitions.  A box is named by its address;
  \<open>opq\<close> tells which boxes are opaque.
\<close>

subsection \<open>The shared heap\<close>

record box_heap =
  bh_vers :: "u64 \<Rightarrow> u64"
  bh_val :: "u64 \<Rightarrow> u64"
  bh_TID :: u64

record box_mem =
  bm_heap :: box_heap
  bm_time :: nat
  bm_env :: "nat \<Rightarrow> box_heap \<Rightarrow> box_heap"

definition settle :: "box_mem \<Rightarrow> box_mem" where
  "settle m = m\<lparr>bm_heap := bm_env m (bm_time m) (bm_heap m), bm_time := Suc (bm_time m)\<rparr>"

definition vers :: "u64 \<Rightarrow> box_mem \<Rightarrow> u64" where
  "vers a m = bh_vers (bm_heap m) a"

definition store_vers :: "u64 \<Rightarrow> u64 \<Rightarrow> box_mem \<Rightarrow> box_mem" where
  "store_vers a v m = m\<lparr>bm_heap := (bm_heap m)\<lparr>bh_vers := (bh_vers (bm_heap m))(a := v)\<rparr>\<rparr>"

definition store_val :: "u64 \<Rightarrow> u64 \<Rightarrow> box_mem \<Rightarrow> box_mem" where
  "store_val a x m = m\<lparr>bm_heap := (bm_heap m)\<lparr>bh_val := (bh_val (bm_heap m))(a := x)\<rparr>\<rparr>"

subsection \<open>Version operations of the commit protocol\<close>

definition cp_try_lock :: "u64 \<Rightarrow> u64 \<Rightarrow> box_mem \<Rightarrow> bool \<times> box_mem" where
  "cp_try_lock here a m =
     (let m = settle m; vv = vers a m; m = settle m; (ok, w) = try_lock here vv (vers a m)
      in (ok, store_vers a w m))"

primrec try_lock_spin :: "u64 \<Rightarrow> u64 \<Rightarrow> bool \<Rightarrow> nat \<Rightarrow> box_mem \<Rightarrow> bool \<times> box_mem" where
  "try_lock_spin here a has_rd 0 m = (False, m)"
| "try_lock_spin here a has_rd (Suc k) m =
     (case cp_try_lock here a m of
        (True, m) \<Rightarrow> (True, m)
      | (False, m) \<Rightarrow> if has_rd \<or> k = 0 then (False, m) else try_lock_spin here a has_rd k m)"

definition txn_try_lock :: "u64 \<Rightarrow> u64 \<Rightarrow> trans_item \<Rightarrow> box_mem \<Rightarrow> bool \<times> box_mem" where
  "txn_try_lock here a x m = try_lock_spin here a (has_read x) spin_bound m"

definition cp_check_version :: "u64 \<Rightarrow> trans_item \<Rightarrow> box_mem \<Rightarrow> bool \<times> box_mem" where
  "cp_check_version a x m =
     (let m = settle m
      in if is_locked (vers a m) \<and> \<not> has_write x then (False, m)
         else let m = settle m in (check_version (vers a m) (wide_v0 (it_rdata x)), m))"

definition cp_unlock :: "u64 \<Rightarrow> box_mem \<Rightarrow> box_mem" where
  "cp_unlock a m = (let m = settle m; new_v = unlock (vers a m); m = settle m in store_vers a new_v m)"

definition write_tid :: "box_mem txn_world \<Rightarrow> box_mem txn_world" where
  "write_tid w =
     (if tw_commit_tid w = 0
      then let m = settle (tw_mem w); tid = bh_TID (bm_heap m)
           in w\<lparr>tw_mem := m\<lparr>bm_heap := (bm_heap m)\<lparr>bh_TID := tid + increment_value\<rparr>\<rparr>,
                tw_commit_tid := tid, tw_wtid := tid\<rparr>
      else w)"

definition cp_commit_tid :: "bool \<Rightarrow> u64 \<Rightarrow> box_mem txn_world \<Rightarrow> u64 \<times> box_mem txn_world" where
  "cp_commit_tid opaque a w =
     (if opaque then let w = write_tid w in (tw_commit_tid w, w)
      else if tw_commit_tid w \<noteq> 0 then (tw_commit_tid w, w)
      else let m = settle (tw_mem w) in (next_unflagged_nonopaque_version (vers a m), w\<lparr>tw_mem := m\<rparr>))"

definition txn_set_version_unlock :: "bool \<Rightarrow> u64 \<Rightarrow> trans_item \<Rightarrow> box_mem txn_world \<Rightarrow> trans_item \<times> box_mem txn_world" where
  "txn_set_version_unlock opaque a x w =
     (let (v, w) = cp_commit_tid opaque a w; m = settle (tw_mem w)
      in (clear_needs_unlock x, w\<lparr>tw_mem := store_vers a (set_version_unlock v (vers a m)) m\<rparr>))"

subsection \<open>The callbacks of a box\<close>

definition box_lock :: "u64 \<Rightarrow> u64 \<Rightarrow> trans_item \<Rightarrow> box_mem txn_world \<Rightarrow> bool \<times> trans_item \<times> box_mem txn_world" where
  "box_lock here a x w = (let (ok, m) = txn_try_lock here a x (tw_mem w) in (ok, x, w\<lparr>tw_mem := m\<rparr>))"

definition box_check :: "u64 \<Rightarrow> trans_item \<Rightarrow> box_mem txn_world \<Rightarrow> bool \<times> box_mem txn_world" where
  "box_check a x w = (let (ok, m) = cp_check_version a x (tw_mem w) in (ok, w\<lparr>tw_mem := m\<rparr>))"

definition box_install :: "bool \<Rightarrow> u64 \<Rightarrow> trans_item \<Rightarrow> box_mem txn_world \<Rightarrow> trans_item \<times> box_mem txn_world" where
  "box_install opaque a x w =
     txn_set_version_unlock opaque a x (w\<lparr>tw_mem := store_val a (it_wdata x) (settle (tw_mem w))\<rparr>)"

definition box_unlock :: "u64 \<Rightarrow> trans_item \<Rightarrow> box_mem txn_world \<Rightarrow> box_mem txn_world" where
  "box_unlock a x w = w\<lparr>tw_mem := cp_unlock a (tw_mem w)\<rparr>"

definition box_objects :: "u64 \<Rightarrow> (u64 \<Rightarrow> bool) \<Rightarrow> box_mem objects" where
  "box_objects here opq a = \<lparr>
     ob_lock = box_lock here a,
     ob_check_predicate = (\<lambda>x w. (False, x, w)),
     ob_check = box_check a,
     ob_install = box_install (opq a) a,
     ob_unlock = box_unlock a,
     ob_cleanup = (\<lambda>committed x w. w)\<rparr>"

interpretation box: tobjects "box_objects here opq" for here opq
  by unfold_locales
    (auto simp: box_objects_def box_lock_def box_install_def txn_set_version_unlock_def clear_needs_unlock_def
      rm_flags_def Let_def split: prod.splits)

subsection \<open>What other threads may do\<close>

text \<open>They leave a box alone while the committing thread holds its lock, version numbers only grow, and an
  unlocked word carries no thread number.\<close>

definition word_ok :: "u64 \<Rightarrow> bool" where
  "word_ok v \<longleftrightarrow> (is_locked v \<or> holder v = 0)"

definition rely :: "u64 \<Rightarrow> box_heap \<Rightarrow> box_heap \<Rightarrow> bool" where
  "rely here h h' \<longleftrightarrow> (\<forall>a.
     (is_locked_here (bh_vers h a) here \<longrightarrow> bh_vers h' a = bh_vers h a \<and> bh_val h' a = bh_val h a) \<and>
     version_number (bh_vers h a) \<le> version_number (bh_vers h' a) \<and>
     (word_ok (bh_vers h a) \<longrightarrow> word_ok (bh_vers h' a)))"

definition mem_ok :: "u64 \<Rightarrow> box_mem \<Rightarrow> bool" where
  "mem_ok here m \<longleftrightarrow> (\<forall>n h. rely here h (bm_env m n h)) \<and> (\<forall>a. word_ok (vers a m)) \<and> holder here = here \<and> \<not> bit here 7"

text \<open>Locked boxes outside \<open>A\<close> are left alone; version numbers outside \<open>A\<close> only grow.\<close>

definition kept :: "u64 set \<Rightarrow> u64 \<Rightarrow> box_mem \<Rightarrow> box_mem \<Rightarrow> bool" where
  "kept A here m m' \<longleftrightarrow> mem_ok here m' \<and>
     (\<forall>a. a \<notin> A \<longrightarrow> (is_locked_here (vers a m) here \<longrightarrow>
          vers a m' = vers a m \<and> bh_val (bm_heap m') a = bh_val (bm_heap m) a) \<and>
        version_number (vers a m) \<le> version_number (vers a m'))"

lemma kept_refl: "mem_ok here m \<Longrightarrow> kept A here m m"
  by (simp add: kept_def)

lemma kept_trans: "kept A here m m' \<Longrightarrow> kept A here m' m'' \<Longrightarrow> kept A here m m''"
  unfolding kept_def by (metis le_trans)

lemma kept_mono: "kept A here m m' \<Longrightarrow> A \<subseteq> B \<Longrightarrow> kept B here m m'"
  by (auto simp: kept_def)

lemma kept_ok: "kept A here m m' \<Longrightarrow> mem_ok here m'"
  by (simp add: kept_def)

lemma keptD:
  assumes "kept A here m m'" "a \<notin> A"
  shows "is_locked_here (vers a m) here \<Longrightarrow> vers a m' = vers a m"
    "is_locked_here (vers a m) here \<Longrightarrow> bh_val (bm_heap m') a = bh_val (bm_heap m) a"
    "version_number (vers a m) \<le> version_number (vers a m')"
  using assms by (simp_all add: kept_def)

lemma settle_kept: "mem_ok here m \<Longrightarrow> kept A here m (settle m)"
  unfolding kept_def mem_ok_def rely_def settle_def vers_def by simp

lemma vers_store [simp]:
  "vers b (store_vers a v m) = (if b = a then v else vers b m)" "vers b (store_val a x m) = vers b m"
  "bm_env (store_vers a v m) = bm_env m" "bm_env (store_val a x m) = bm_env m"
  "bh_val (bm_heap (store_vers a v m)) = bh_val (bm_heap m)"
  "bh_val (bm_heap (store_val a x m)) b = (if b = a then x else bh_val (bm_heap m) b)"
  by (simp_all add: vers_def store_vers_def store_val_def)

lemma holder_locked: "is_locked_here v here \<Longrightarrow> is_locked v"
proof -
  assume "is_locked_here v here"
  then have "bit (holder v) 7" by (simp add: is_locked_here_holder bit_or_iff)
  then show ?thesis by (simp add: holder_bit is_locked_bit)
qed

lemma store_kept:
  assumes "mem_ok here m" "word_ok v" "a \<in> A"
  shows "kept A here m (store_vers a v m)" "kept A here m (store_val a x m)"
  using assms by (auto simp: kept_def mem_ok_def)

lemma try_lock_word:
  assumes "try_lock here vv v = (ok, w)" "word_ok v" "holder here = here"
  shows "version_number w = version_number v" "word_ok w" "ok \<Longrightarrow> is_locked_here w here"
    "ok \<Longrightarrow> \<not> is_locked v" "\<not> ok \<Longrightarrow> w = v"
proof -
  have free: "\<not> is_locked (vv AND NOT lock_bit)" by (simp add: is_locked_bit word_bits)
  have number: "version_number (vv OR lock_bit OR here) = version_number (vv AND NOT lock_bit)"
  proof -
    have "bit (lock_bit OR here) n \<Longrightarrow> n < 12" for n
      using arg_cong [OF assms(3), of "\<lambda>x. bit x n"] by (auto simp: bit_or_iff holder_bit)
    then have "version_number (vv OR (lock_bit OR here)) = version_number vv"
      "version_number (vv AND NOT lock_bit) = version_number vv"
      by (intro version_number_bits; simp)+
    then show ?thesis by (simp add: or.assoc)
  qed
  have locked: "is_locked_here (vv OR lock_bit OR here) here" if "holder (vv AND NOT lock_bit) = 0"
    using seen_free [OF that, of here] assms(3) by (simp add: is_locked_here_holder)
  have c: "ok = (v = vv AND NOT lock_bit)" "w = (if ok then vv OR lock_bit OR here else v)"
    using assms(1) by (auto simp: try_lock_def bool_cmpxchg_def split: if_splits)
  show "ok \<Longrightarrow> \<not> is_locked v" using c free by simp
  show "\<not> ok \<Longrightarrow> w = v" using c by simp
  show l: "ok \<Longrightarrow> is_locked_here w here" using c locked free assms(2) by (auto simp: word_ok_def)
  show "version_number w = version_number v" using c number by auto
  show "word_ok w" using c assms(2) l holder_locked by (auto simp: word_ok_def)
qed

lemma cp_try_lock_kept:
  assumes "cp_try_lock here a m = (ok, m')" "mem_ok here m"
  shows "kept {} here m m'" "ok \<Longrightarrow> is_locked_here (vers a m') here"
    "ok \<Longrightarrow> \<not> is_locked_here (vers a m) here"
proof -
  define m2 where "m2 = settle (settle m)"
  obtain w where w: "try_lock here (vers a (settle m)) (vers a m2) = (ok, w)" "m' = store_vers a w m2"
    using assms(1) by (auto simp: cp_try_lock_def Let_def m2_def split: prod.splits)
  have k: "kept {} here m m2" unfolding m2_def
    using settle_kept [OF assms(2)] settle_kept [OF kept_ok [OF settle_kept [OF assms(2)]]] kept_trans by blast
  then have ok2: "mem_ok here m2" by (rule kept_ok)
  then have wok: "word_ok (vers a m2)" "holder here = here" by (auto simp: mem_ok_def)
  note t = try_lock_word [OF w(1) wok]
  have same: "w = vers a m2" if "is_locked_here (vers a m2) here"
    using t(4,5) that holder_locked by blast
  have "kept {} here m2 m'"
    using ok2 t(1,2) same unfolding w(2) kept_def mem_ok_def by auto
  with k show "kept {} here m m'" by (rule kept_trans)
  show "ok \<Longrightarrow> is_locked_here (vers a m') here" using t(3) w(2) by simp
  show "\<not> is_locked_here (vers a m) here" if ok
  proof
    assume l: "is_locked_here (vers a m) here"
    then have "vers a m2 = vers a m" using keptD(1) [OF k] by simp
    then show False using t(4) that l holder_locked by metis
  qed
qed

lemma try_lock_spin_kept:
  assumes "try_lock_spin here a r k m = (ok, m')" "mem_ok here m"
  shows "kept {} here m m' \<and> (ok \<longrightarrow> is_locked_here (vers a m') here \<and> \<not> is_locked_here (vers a m) here)"
  using assms
proof (induction k arbitrary: m)
  case 0
  then show ?case by (auto intro: kept_refl)
next
  case (Suc k)
  obtain b m1 where l: "cp_try_lock here a m = (b, m1)" by (cases "cp_try_lock here a m")
  note e = cp_try_lock_kept [OF l Suc.prems(2)]
  show ?case
  proof (cases "b \<or> r \<or> k = 0")
    case True
    then have "b = ok" "m1 = m'" using Suc.prems(1) l by (auto split: bool.splits)
    then show ?thesis using e by simp
  next
    case False
    then have "try_lock_spin here a r k m1 = (ok, m')" using Suc.prems(1) l by simp
    from Suc.IH [OF this kept_ok [OF e(1)]]
    have "kept {} here m1 m'" "ok \<longrightarrow> is_locked_here (vers a m') here" "ok \<longrightarrow> \<not> is_locked_here (vers a m1) here"
      by simp_all
    then show ?thesis using kept_trans [OF e(1)] keptD(1) [OF e(1)] by (metis empty_iff)
  qed
qed

lemma cp_check_version_kept:
  assumes "cp_check_version a x m = (ok, m')" "mem_ok here m"
  shows "kept {} here m m'"
    "ok \<Longrightarrow> \<exists>m1. kept {} here m m1 \<and> (is_locked (vers a m1) \<longrightarrow> has_write x) \<and>
       version_number (vers a m1) \<le> version_number (wide_v0 (it_rdata x))"
proof -
  have k1: "kept {} here m (settle m)" by (rule settle_kept [OF assms(2)])
  have k: "kept {} here (settle m) (settle (settle m))" by (rule settle_kept [OF kept_ok [OF k1]])
  show "kept {} here m m'"
    using k1 kept_trans [OF k1 k] assms(1) by (auto simp: cp_check_version_def Let_def split: if_splits)
  show "\<exists>m1. kept {} here m m1 \<and> (is_locked (vers a m1) \<longrightarrow> has_write x) \<and>
      version_number (vers a m1) \<le> version_number (wide_v0 (it_rdata x))" if ok
    using assms(1) that k1 keptD(3) [OF k, of a]
    by (intro exI [of _ "settle m"]) (auto simp: cp_check_version_def Let_def check_version_number split: if_splits)
qed

subsection \<open>The phases on boxes\<close>

abbreviation mem_of :: "box_mem commit \<Rightarrow> box_mem" where
  "mem_of c \<equiv> tw_mem (cm_world c)"

abbreviation box_at :: "box_mem commit \<Rightarrow> nat \<Rightarrow> u64" where
  "box_at c i \<equiv> owner (cm_items c ! i)"

text \<open>Items that agree in everything but the flags.\<close>

definition same_data :: "trans_item \<Rightarrow> trans_item \<Rightarrow> bool" where
  "same_data x y \<longleftrightarrow> owner y = owner x \<and> it_rdata y = it_rdata x \<and> it_wdata y = it_wdata x"

lemma same_data_refl [simp]: "same_data x x"
  by (simp add: same_data_def)

lemma same_data_trans: "same_data x y \<Longrightarrow> same_data y z \<Longrightarrow> same_data x z"
  by (simp add: same_data_def)

lemma same_data_flags: "same_data x (or_flags cl_bit (or_flags item_lock_bit x))"
proof -
  have "owner (or_flags cl_bit (or_flags item_lock_bit x)) = owner x"
    unfolding owner_def or_flags_def by (rule bit_word_eqI) (auto simp: word_bits)
  then show ?thesis by (simp add: same_data_def)
qed

lemma lock_item_box:
  assumes "lock_item (box_objects here opq) i c = (ok, c')" "mem_ok here (mem_of c)" "i < length (cm_items c)"
    "\<not> needs_unlock (cm_items c ! i)"
  shows "kept {} here (mem_of c) (mem_of c') \<and> cm_items c' = cm_items c \<and>
    (ok \<longrightarrow> is_locked_here (vers (box_at c i) (mem_of c')) here \<and> \<not> is_locked_here (vers (box_at c i) (mem_of c)) here)"
proof -
  obtain m where m: "txn_try_lock here (box_at c i) (cm_items c ! i) (mem_of c) = (ok, m)"
      "mem_of c' = m" "cm_items c' = cm_items c"
    using assms(1,4) by (auto simp: lock_item_def box_objects_def box_lock_def Let_def split: prod.splits)
  from try_lock_spin_kept [OF m(1) [unfolded txn_try_lock_def] assms(2)] m(2,3) show ?thesis by simp
qed

lemma lock_write_item_box:
  assumes "lock_write_item (box_objects here opq) i (ws, c) = (ok, ws', c')" "mem_ok here (mem_of c)"
    "i < length (cm_items c)" "\<not> needs_unlock (cm_items c ! i)"
  shows "kept {} here (mem_of c) (mem_of c') \<and> (\<forall>j. same_data (cm_items c ! j) (cm_items c' ! j)) \<and>
    (ok \<longrightarrow> has_write (cm_items c ! i) \<longrightarrow>
      is_locked_here (vers (box_at c i) (mem_of c')) here \<and> \<not> is_locked_here (vers (box_at c i) (mem_of c)) here)"
proof (cases "has_write (cm_items c ! i)")
  case False
  then show ?thesis using assms by (auto simp: lock_write_item_def intro: kept_refl)
next
  case True
  let ?c1 = "if length (ws @ [i]) = 1 then c\<lparr>cm_first_write := i, cm_state := Committing_locked\<rparr> else c"
  obtain ok2 c2 where l: "lock_item (box_objects here opq) i ?c1 = (ok2, c2)"
    by (cases "lock_item (box_objects here opq) i ?c1")
  have c': "ok = ok2"
    "c' = (if ok then c2\<lparr>cm_items := (cm_items c2)[i := or_flags cl_bit (or_flags item_lock_bit (cm_items c2 ! i))]\<rparr> else c2)"
    using assms(1) True l by (auto simp: lock_write_item_def Let_def split: prod.splits)
  have c1: "cm_items ?c1 = cm_items c" "cm_world ?c1 = cm_world c" by simp_all
  note e = lock_item_box [OF l, unfolded c1, OF assms(2-4)]
  have "mem_of c' = mem_of c2" using c'(2) by simp
  moreover have "same_data (cm_items c ! j) (cm_items c' ! j)" for j
  proof (cases "ok \<and> j = i")
    case True
    then show ?thesis using c'(2) e assms(3) by (simp add: same_data_flags)
  next
    case False
    then show ?thesis using c'(2) e by auto
  qed
  ultimately show ?thesis using e c'(1) by simp
qed

lemma phase1_item_box:
  assumes "phase1_item (box_objects here opq) i (ws, c) = (True, ws', c')" "mem_ok here (mem_of c)"
    "i < length (cm_items c)" "\<not> needs_unlock (cm_items c ! i)"
  shows "kept {} here (mem_of c) (mem_of c')" "same_data (cm_items c ! j) (cm_items c' ! j)"
    "has_write (cm_items c ! i) \<Longrightarrow>
      is_locked_here (vers (box_at c i) (mem_of c')) here \<and> \<not> is_locked_here (vers (box_at c i) (mem_of c)) here"
proof -
  obtain ok ws1 c1 where l: "lock_write_item (box_objects here opq) i (ws, c) = (ok, ws1, c1)"
    by (cases "lock_write_item (box_objects here opq) i (ws, c)") auto
  have "ok" "cm_items c' = cm_items c1" "mem_of c' = mem_of c1"
    using assms(1) l
    by (auto simp: phase1_item_def predicate_item_def box_objects_def read_timestamp_step_def Let_def split: if_splits)
  with lock_write_item_box [OF l assms(2-4)]
  show "kept {} here (mem_of c) (mem_of c')" "same_data (cm_items c ! j) (cm_items c' ! j)"
    "has_write (cm_items c ! i) \<Longrightarrow>
      is_locked_here (vers (box_at c i) (mem_of c')) here \<and> \<not> is_locked_here (vers (box_at c i) (mem_of c)) here"
    by simp_all
qed

lemma phase1_box:
  assumes "phase1 (box_objects here opq) is (ws, c) = (True, ws', c')" "mem_ok here (mem_of c)" "distinct is"
    "\<forall>i\<in>set is. i < length (cm_items c) \<and> \<not> needs_unlock (cm_items c ! i)"
  shows "kept {} here (mem_of c) (mem_of c') \<and> (\<forall>j. same_data (cm_items c ! j) (cm_items c' ! j)) \<and>
    (\<forall>i\<in>set is. has_write (cm_items c ! i) \<longrightarrow>
      is_locked_here (vers (box_at c i) (mem_of c')) here \<and> \<not> is_locked_here (vers (box_at c i) (mem_of c)) here) \<and>
    distinct (map (box_at c) (filter (\<lambda>i. has_write (cm_items c ! i)) is))"
  using assms
proof (induction "is" arbitrary: ws c)
  case Nil
  then show ?case by (auto intro: kept_refl)
next
  case (Cons i js)
  obtain b ws1 c1 where l: "phase1_item (box_objects here opq) i (ws, c) = (b, ws1, c1)"
    by (cases "phase1_item (box_objects here opq) i (ws, c)") auto
  have b: b and r: "phase1 (box_objects here opq) js (ws1, c1) = (True, ws', c')"
    using Cons.prems(1) l by (auto split: bool.splits)
  have i: "i < length (cm_items c)" "\<not> needs_unlock (cm_items c ! i)" using Cons.prems(4) by auto
  have l': "phase1_item (box_objects here opq) i (ws, c) = (True, ws1, c1)" using l b by simp
  note e = phase1_item_box [OF l' Cons.prems(2) i]
  from box.phase1_item_effect [OF l i(1)]
  have f: "length (cm_items c1) = length (cm_items c)" "\<And>j. j \<noteq> i \<Longrightarrow> cm_items c1 ! j = cm_items c ! j"
    by (auto simp: same_frame_def)
  have js: "cm_items c1 ! j = cm_items c ! j" if "j \<in> set js" for j using that Cons.prems(3) f(2) [of j] by auto
  have "\<forall>i\<in>set js. i < length (cm_items c1) \<and> \<not> needs_unlock (cm_items c1 ! i)"
    using Cons.prems(4) f(1) js by auto
  note q = Cons.IH [OF r kept_ok [OF e(1)] _ this]
  have k: "kept {} here (mem_of c1) (mem_of c')" "\<And>j. same_data (cm_items c1 ! j) (cm_items c' ! j)"
    and lk: "\<And>j. j \<in> set js \<Longrightarrow> has_write (cm_items c ! j) \<Longrightarrow>
      is_locked_here (vers (box_at c j) (mem_of c')) here \<and> \<not> is_locked_here (vers (box_at c j) (mem_of c1)) here"
    and d: "distinct (map (box_at c1) (filter (\<lambda>i. has_write (cm_items c1 ! i)) js))"
    using q Cons.prems(3) js by auto
  have d': "distinct (map (box_at c) (filter (\<lambda>i. has_write (cm_items c ! i)) js))"
  proof -
    have "filter (\<lambda>i. has_write (cm_items c1 ! i)) js = filter (\<lambda>i. has_write (cm_items c ! i)) js"
      using js by (intro filter_cong) auto
    moreover have "map (box_at c1) (filter (\<lambda>i. has_write (cm_items c ! i)) js) = map (box_at c) (filter (\<lambda>i. has_write (cm_items c ! i)) js)"
      using js by (intro map_cong) auto
    ultimately show ?thesis using d by metis
  qed
  have one: "is_locked_here (vers (box_at c i) (mem_of c')) here" if "has_write (cm_items c ! i)"
    using e(3) [OF that] keptD(1) [OF k(1)] by simp
  have later: "\<not> is_locked_here (vers (box_at c j) (mem_of c)) here" if "j \<in> set js" "has_write (cm_items c ! j)" for j
    using lk [OF that] keptD(1) [OF e(1)] by fastforce
  have apart: "box_at c j \<noteq> box_at c i" if "j \<in> set js" "has_write (cm_items c ! j)" "has_write (cm_items c ! i)" for j
    using lk [OF that(1,2)] e(3) [OF that(3)] by auto
  have "distinct (map (box_at c) (filter (\<lambda>i. has_write (cm_items c ! i)) (i # js)))"
    using d' apart by force
  moreover have "kept {} here (mem_of c) (mem_of c')" using kept_trans [OF e(1) k(1)] .
  moreover have "\<forall>j. same_data (cm_items c ! j) (cm_items c' ! j)" using same_data_trans [OF e(2) k(2)] by blast
  moreover have "\<forall>j\<in>set (i # js). has_write (cm_items c ! j) \<longrightarrow>
      is_locked_here (vers (box_at c j) (mem_of c')) here \<and> \<not> is_locked_here (vers (box_at c j) (mem_of c)) here"
    using one e(3) lk later by auto
  ultimately show ?case by blast
qed

definition read_current :: "u64 \<Rightarrow> box_mem \<Rightarrow> trans_item \<Rightarrow> bool" where
  "read_current here m x \<longleftrightarrow> (\<exists>m1. kept {} here m m1 \<and> (is_locked (vers (owner x) m1) \<longrightarrow> has_write x) \<and>
     version_number (vers (owner x) m1) \<le> version_number (wide_v0 (it_rdata x)))"

lemma read_current_earlier: "kept {} here m m' \<Longrightarrow> read_current here m' x \<Longrightarrow> read_current here m x"
  unfolding read_current_def using kept_trans by blast

lemma phase2_box:
  assumes "phase2 (box_objects here opq) is c = (True, c')" "mem_ok here (mem_of c)" "\<not> cm_may_duplicate c"
  shows "kept {} here (mem_of c) (mem_of c') \<and>
    (\<forall>i\<in>set is. has_read (cm_items c ! i) \<and> (locked_at_commit (cm_items c ! i) \<or> \<not> needs_unlock (cm_items c ! i)) \<longrightarrow>
      read_current here (mem_of c) (cm_items c ! i))"
  using assms
proof (induction "is" arbitrary: c)
  case Nil
  then show ?case by (auto intro: kept_refl)
next
  case (Cons i js)
  obtain b c1 where l: "phase2_item (box_objects here opq) i c = (b, c1)" by (cases "phase2_item (box_objects here opq) i c")
  have b: b and r: "phase2 (box_objects here opq) js c1 = (True, c')" using Cons.prems(1) l by (auto split: bool.splits)
  let ?checked = "\<lambda>i. has_read (cm_items c ! i) \<and> (locked_at_commit (cm_items c ! i) \<or> \<not> needs_unlock (cm_items c ! i))"
  have e: "kept {} here (mem_of c) (mem_of c1) \<and> cm_items c1 = cm_items c \<and> cm_may_duplicate c1 = cm_may_duplicate c \<and>
    (?checked i \<longrightarrow> read_current here (mem_of c) (cm_items c ! i))"
  proof (cases "?checked i")
    case False
    then show ?thesis using l Cons.prems(2) by (auto simp: phase2_item_def Let_def intro: kept_refl)
  next
    case True
    obtain ok m where m: "cp_check_version (box_at c i) (cm_items c ! i) (mem_of c) = (ok, m)"
      by (cases "cp_check_version (box_at c i) (cm_items c ! i) (mem_of c)")
    have "ok" "mem_of c1 = m" "cm_items c1 = cm_items c" "cm_may_duplicate c1 = cm_may_duplicate c"
      using l m True b Cons.prems(3) by (auto simp: phase2_item_def box_objects_def box_check_def Let_def)
    with cp_check_version_kept [OF m Cons.prems(2)] show ?thesis by (simp add: read_current_def)
  qed
  then have k: "kept {} here (mem_of c) (mem_of c1)" and s: "cm_items c1 = cm_items c" "cm_may_duplicate c1 = cm_may_duplicate c"
    by simp_all
  have q: "kept {} here (mem_of c1) (mem_of c')" "\<And>j. j \<in> set js \<Longrightarrow> ?checked j \<Longrightarrow> read_current here (mem_of c1) (cm_items c ! j)"
    using Cons.IH [OF r kept_ok [OF k]] s Cons.prems(3) by auto
  show ?case
    using kept_trans [OF k q(1)] e q(2) read_current_earlier [OF k] by auto
qed

text \<open>Installing frees the item's box with the new value and leaves the other boxes that are held alone.\<close>

lemma write_tid_kept:
  assumes "mem_ok here (tw_mem w)"
  shows "kept A here (tw_mem w) (tw_mem (write_tid w))"
proof -
  define m where "m = settle (tw_mem w)"
  have k: "kept A here (tw_mem w) m" unfolding m_def by (rule settle_kept [OF assms])
  have "kept A here m (m\<lparr>bm_heap := (bm_heap m)\<lparr>bh_TID := tid\<rparr>\<rparr>)" for tid
    using kept_ok [OF k] by (simp add: kept_def mem_ok_def vers_def)
  with kept_trans [OF k] show ?thesis
    using kept_refl [OF assms] by (simp add: write_tid_def Let_def m_def)
qed

lemma cp_commit_tid_kept:
  assumes "cp_commit_tid opaque a w = (v, w')" "mem_ok here (tw_mem w)"
  shows "kept A here (tw_mem w) (tw_mem w')"
  using assms(1) write_tid_kept [OF assms(2)] settle_kept [OF assms(2)] kept_refl [OF assms(2)]
  by (auto simp: cp_commit_tid_def Let_def split: if_splits)

lemma box_install_kept:
  assumes "box_install opaque a x w = (x', w')" "mem_ok here (tw_mem w)" "is_locked_here (vers a (tw_mem w)) here"
  shows "kept {a} here (tw_mem w) (tw_mem w')" "bh_val (bm_heap (tw_mem w')) a = it_wdata x"
    "\<not> is_locked (vers a (tw_mem w'))"
proof -
  define m1 where "m1 = settle (tw_mem w)"
  define m2 where "m2 = store_val a (it_wdata x) m1"
  obtain v w3 where t: "cp_commit_tid opaque a (w\<lparr>tw_mem := m2\<rparr>) = (v, w3)"
    by (cases "cp_commit_tid opaque a (w\<lparr>tw_mem := m2\<rparr>)")
  define m4 where "m4 = settle (tw_mem w3)"
  have w': "tw_mem w' = store_vers a (set_version_unlock v (vers a m4)) m4"
    using assms(1) t by (auto simp: box_install_def txn_set_version_unlock_def Let_def m1_def m2_def m4_def)
  have k1: "kept {} here (tw_mem w) m1" unfolding m1_def by (rule settle_kept [OF assms(2)])
  have k2: "kept {a} here m1 m2" unfolding m2_def by (rule store_kept(2) [OF kept_ok [OF k1], of 0]) (simp_all add: word_ok_def holder_simps)
  have k3: "kept {} here m2 (tw_mem w3)" using cp_commit_tid_kept [OF t] kept_ok [OF k2] by simp
  have k4: "kept {} here (tw_mem w3) m4" unfolding m4_def by (rule settle_kept [OF kept_ok [OF k3]])
  have free: "\<not> is_locked (set_version_unlock v u)" "word_ok (set_version_unlock v u)" for u
    by (auto simp: set_version_unlock_def is_locked_bit word_bits word_ok_def holder_clear)
  have k5: "kept {a} here m4 (tw_mem w')" unfolding w' by (rule store_kept(1) [OF kept_ok [OF k4] free(2)]) simp
  show "kept {a} here (tw_mem w) (tw_mem w')"
    using kept_mono [OF k1] k2 kept_mono [OF k3] kept_mono [OF k4] k5 kept_trans by (metis empty_subsetI)
  have "vers a m2 = vers a (tw_mem w)" using keptD(1) [OF k1] assms(3) by (simp add: m2_def)
  then have "bh_val (bm_heap m4) a = bh_val (bm_heap m2) a"
    using keptD(1,2) [OF kept_trans [OF k3 k4], of a] assms(3) by simp
  then show "bh_val (bm_heap (tw_mem w')) a = it_wdata x" by (simp add: w' m2_def)
  show "\<not> is_locked (vers a (tw_mem w'))" by (simp add: w' free(1))
qed

lemma install_item_box:
  assumes "mem_ok here (mem_of c)" "is_locked_here (vers (box_at c i) (mem_of c)) here"
  shows "kept {box_at c i} here (mem_of c) (mem_of (install_item (box_objects here opq) i c))"
    "bh_val (bm_heap (mem_of (install_item (box_objects here opq) i c))) (box_at c i) = it_wdata (cm_items c ! i)"
    "\<not> is_locked (vers (box_at c i) (mem_of (install_item (box_objects here opq) i c)))"
    "j \<noteq> i \<Longrightarrow> cm_items (install_item (box_objects here opq) i c) ! j = cm_items c ! j"
proof -
  obtain x' w' where o: "box_install (opq (box_at c i)) (box_at c i) (cm_items c ! i) (cm_world c) = (x', w')"
    by (cases "box_install (opq (box_at c i)) (box_at c i) (cm_items c ! i) (cm_world c)")
  have c': "install_item (box_objects here opq) i c =
      c\<lparr>cm_items := (cm_items c)[i := x'], cm_world := w', cm_log := cm_log c @ [Installed i]\<rparr>"
    by (simp add: install_item_def box_objects_def o Let_def)
  show "kept {box_at c i} here (mem_of c) (mem_of (install_item (box_objects here opq) i c))"
    "bh_val (bm_heap (mem_of (install_item (box_objects here opq) i c))) (box_at c i) = it_wdata (cm_items c ! i)"
    "\<not> is_locked (vers (box_at c i) (mem_of (install_item (box_objects here opq) i c)))"
    "j \<noteq> i \<Longrightarrow> cm_items (install_item (box_objects here opq) i c) ! j = cm_items c ! j"
    unfolding c' using box_install_kept [OF o assms] by simp_all
qed

lemma install_box:
  assumes "mem_ok here (mem_of c)" "distinct is" "distinct (map (box_at c) is)"
    "\<forall>i\<in>set is. is_locked_here (vers (box_at c i) (mem_of c)) here" "k < length is"
  shows "vers (box_at c (is ! k)) (mem_of (fold (install_item (box_objects here opq)) (take k is) c)) = vers (box_at c (is ! k)) (mem_of c) \<and>
    bh_val (bm_heap (mem_of (fold (install_item (box_objects here opq)) (take (Suc k) is) c))) (box_at c (is ! k)) = it_wdata (cm_items c ! (is ! k)) \<and>
    \<not> is_locked (vers (box_at c (is ! k)) (mem_of (fold (install_item (box_objects here opq)) (take (Suc k) is) c)))"
  using assms
proof (induction "is" arbitrary: c k)
  case Nil
  then show ?case by simp
next
  case (Cons i js)
  define c1 where "c1 = install_item (box_objects here opq) i c"
  have "is_locked_here (vers (box_at c i) (mem_of c)) here" using Cons.prems(4) by simp
  note e = install_item_box [OF Cons.prems(1) this, where opq = opq, folded c1_def]
  show ?case
  proof (cases k)
    case 0
    then show ?thesis using e(2,3) by (simp add: c1_def)
  next
    case (Suc k')
    have js: "cm_items c1 ! j = cm_items c ! j" "vers (box_at c j) (mem_of c1) = vers (box_at c j) (mem_of c)" if "j \<in> set js" for j
    proof -
      show "cm_items c1 ! j = cm_items c ! j" using e(4) [of j] that Cons.prems(2) by auto
      have "box_at c j \<noteq> box_at c i" using that Cons.prems(3) by (metis (no_types, lifting) distinct.simps(2) image_eqI list.simps(9) list.set_map)
      then show "vers (box_at c j) (mem_of c1) = vers (box_at c j) (mem_of c)"
        using keptD(1) [OF e(1), of "box_at c j"] Cons.prems(4) that by simp
    qed
    have "map (box_at c1) js = map (box_at c) js" using js(1) by (intro map_cong) auto
    moreover have "distinct (map (box_at c) js)" using Cons.prems(3) by simp
    ultimately have "distinct (map (box_at c1) js)" by metis
    moreover have "\<forall>j\<in>set js. is_locked_here (vers (box_at c1 j) (mem_of c1)) here" using js Cons.prems(4) by simp
    ultimately have "vers (box_at c1 (js ! k')) (mem_of (fold (install_item (box_objects here opq)) (take k' js) c1)) = vers (box_at c1 (js ! k')) (mem_of c1) \<and>
      bh_val (bm_heap (mem_of (fold (install_item (box_objects here opq)) (take (Suc k') js) c1))) (box_at c1 (js ! k')) = it_wdata (cm_items c1 ! (js ! k')) \<and>
      \<not> is_locked (vers (box_at c1 (js ! k')) (mem_of (fold (install_item (box_objects here opq)) (take (Suc k') js) c1)))"
      using Cons.IH [of c1 k'] kept_ok [OF e(1)] Cons.prems(2,5) Suc by simp
    moreover have "js ! k' \<in> set js" using Cons.prems(5) Suc by simp
    ultimately show ?thesis using js [of "js ! k'"] Suc by (simp add: c1_def)
  qed
qed

text \<open>A validated read is current at the start of validation, and no other writer had the box in between.\<close>

lemma read_at_lock_point:
  assumes "read_current here m y" "same_data x y" "version_number (wide_v0 (it_rdata x)) \<le> version_number (vers (owner x) m)"
    "has_write y \<Longrightarrow> is_locked_here (vers (owner x) m) here"
  shows "version_number (vers (owner x) m) = version_number (wide_v0 (it_rdata x)) \<and>
    (\<exists>m1. kept {} here m m1 \<and> version_number (vers (owner x) m1) = version_number (wide_v0 (it_rdata x)) \<and>
      (is_locked (vers (owner x) m1) \<longrightarrow> is_locked_here (vers (owner x) m1) here))"
proof -
  have x: "owner y = owner x" "it_rdata y = it_rdata x" using assms(2) by (simp_all add: same_data_def)
  obtain m1 where m1: "kept {} here m m1" "is_locked (vers (owner x) m1) \<longrightarrow> has_write y"
      "version_number (vers (owner x) m1) \<le> version_number (wide_v0 (it_rdata x))"
    using assms(1) x by (auto simp: read_current_def)
  have "version_number (vers (owner x) m) \<le> version_number (vers (owner x) m1)" using keptD(3) [OF m1(1)] by simp
  moreover have "vers (owner x) m1 = vers (owner x) m" if "has_write y"
    using keptD(1) [OF m1(1)] assms(4) [OF that] by simp
  ultimately show ?thesis using m1 assms(3,4) by (metis dual_order.antisym le_trans)
qed

subsection \<open>Serialization\<close>


definition ex_heap :: box_heap where
  "ex_heap = \<lparr>bh_vers = (\<lambda>a. 0x1000), bh_val = (\<lambda>a. 1), bh_TID = 0x3000\<rparr>"

text \<open>Another thread writes box 48 unless the transaction holds it.\<close>

definition ex_env :: "nat \<Rightarrow> box_heap \<Rightarrow> box_heap" where
  "ex_env n h = (if is_locked_here (bh_vers h 48) 5 then h else h\<lparr>bh_val := (bh_val h)(48 := of_nat n)\<rparr>)"

definition ex_read :: trans_item where
  "ex_read = (or_flags read_bit (new_trans_item 16 0))\<lparr>it_rdata := \<lparr>wide_v0 = 0x1000, wide_v1 = 0\<rparr>\<rparr>"

definition ex_write :: trans_item where
  "ex_write = (or_flags write_bit (new_trans_item 32 0))\<lparr>it_wdata := 7\<rparr>"

definition ex_commit :: "box_mem commit" where
  "ex_commit = \<lparr>cm_items = [ex_read, ex_write],
     cm_state = In_progress, cm_any_writes = True, cm_any_nonopaque = False, cm_may_duplicate = False,
     cm_first_write = 0, cm_restarted = False,
     cm_world = \<lparr>tw_mem = \<lparr>bm_heap = ex_heap, bm_time = 0, bm_env = ex_env\<rparr>,
       tw_commit_tid = 0, tw_tictoc_tid = 0, tw_wtid = 0\<rparr>, cm_log = []\<rparr>"

lemma ex_commit_ok: "mem_ok 5 (mem_of ex_commit)"
proof -
  have "rely 5 h (ex_env n h)" for n h by (auto simp: rely_def ex_env_def)
  moreover have "word_ok 0x1000 \<and> holder 5 = 5 \<and> \<not> bit (5 :: u64) 7"
    by (simp add: word_ok_def is_locked_def holder_def tid_consts take_bit_eq_mod)
  ultimately show ?thesis by (simp add: mem_ok_def ex_commit_def ex_heap_def vers_def)
qed

lemma ex_words:
  "try_lock 5 0x1000 0x1000 = (True, 0x1085)" "check_version 0x1000 0x1000" "\<not> is_locked 0x1000"
  "\<not> is_locked_here 0x1000 5"
  by (simp_all add: try_lock_def bool_cmpxchg_def check_version_def is_locked_def is_locked_here_def tid_consts)

lemma ex_flags:
  "has_read ex_read" "\<not> has_write ex_read" "\<not> needs_unlock ex_read" "\<not> has_read ex_write" "has_write ex_write"
  "\<not> needs_unlock ex_write" "\<not> has_predicate ex_write" "\<not> has_predicate ex_read"
  by (simp_all add: flag_bits ex_read_def ex_write_def or_flags_def new_trans_item_def word_bits)

lemma ex_owners: "owner ex_read = 16" "owner ex_write = 32"
proof -
  have "(x OR f) AND pointer_mask = x AND pointer_mask" if "f = read_bit \<or> f = write_bit" for x f :: u64
    by (rule bit_word_eqI) (use that in \<open>auto simp: word_bits\<close>)
  then show "owner ex_read = 16" "owner ex_write = 32"
    by (simp_all add: owner_def ex_read_def ex_write_def or_flags_def new_trans_item_def pointer_mask_def)
qed

lemma ex_locked: "\<not> has_read (or_flags cl_bit (or_flags item_lock_bit ex_write))"
    "\<not> has_predicate (or_flags cl_bit (or_flags item_lock_bit ex_write))"
  using ex_flags by (simp_all add: flag_bits bit_s_flags)

lemma txn_try_lock_first:
  "txn_try_lock here a x m = cp_try_lock here a m" if free: "fst (cp_try_lock here a m)"
proof -
  have s: "spin_bound = Suc 7" by (simp add: spin_bound_def)
  obtain m' where "cp_try_lock here a m = (True, m')" using free by (cases "cp_try_lock here a m") auto
  then show ?thesis unfolding txn_try_lock_def s try_lock_spin.simps by simp
qed

lemmas ex_run = ex_commit_def ex_words ex_flags ex_owners ex_locked box_objects_def settle_def vers_def store_vers_def ex_env_def
  ex_heap_def Let_def

lemma ex_commit_succeeds: "fst (try_commit (box_objects 5 (\<lambda>a. True)) ex_commit)"
proof -
  have l: "[0..<length (cm_items ex_commit)] = [0, 1]" by (simp add: ex_commit_def)
  have r: "wide_v0 (it_rdata ex_read) = 0x1000" "it_mode ex_read = Mode_none"
    by (simp_all add: ex_read_def new_trans_item_def or_flags_def)
  show ?thesis
    unfolding try_commit_def l
    by (simp add: ex_run r txn_try_lock_first in_progress_def phase1_item_def lock_write_item_def lock_item_def read_timestamp_step_def
        box_lock_def cp_try_lock_def phase2_item_def box_check_def cp_check_version_def)
qed


subsection \<open>Aborts\<close>

text \<open>Other threads leave box \<open>a\<close> alone.\<close>

definition alone :: "u64 \<Rightarrow> box_mem \<Rightarrow> bool" where
  "alone a m \<longleftrightarrow> (\<forall>n h. bh_vers (bm_env m n h) a = bh_vers h a \<and> bh_val (bm_env m n h) a = bh_val h a)"

definition same_box :: "u64 \<Rightarrow> box_mem \<Rightarrow> box_mem \<Rightarrow> bool" where
  "same_box a m m' \<longleftrightarrow> alone a m' \<and> vers a m' = vers a m \<and> bh_val (bm_heap m') a = bh_val (bm_heap m) a"

lemma same_box_refl: "alone a m \<Longrightarrow> same_box a m m"
  by (simp add: same_box_def)

lemma same_box_trans: "same_box a m m' \<Longrightarrow> same_box a m' m'' \<Longrightarrow> same_box a m m''"
  by (simp add: same_box_def)

lemma settle_same_box [simp]: "alone a m \<Longrightarrow> same_box a m (settle m)"
  by (simp add: same_box_def alone_def settle_def vers_def)

lemma settle_twice: "alone a m \<Longrightarrow> same_box a m (settle (settle m))"
  by (simp add: same_box_def alone_def settle_def vers_def)

lemma store_other: "alone a m \<Longrightarrow> b \<noteq> a \<Longrightarrow> same_box a m (store_vers b v m)"
  by (simp add: same_box_def alone_def)

definition lock_effect :: "u64 \<Rightarrow> u64 \<Rightarrow> u64 \<Rightarrow> bool \<Rightarrow> box_mem \<Rightarrow> box_mem \<Rightarrow> bool" where
  "lock_effect here a b ok m m' \<longleftrightarrow> alone a m' \<and> bh_val (bm_heap m') a = bh_val (bm_heap m) a \<and>
     (if b = a \<and> ok then \<not> is_locked (vers a m) \<and> vers a m' = vers a m OR lock_bit OR here else vers a m' = vers a m)"

lemma try_lock_seen: "try_lock here v v = (\<not> is_locked v, if is_locked v then v else v OR lock_bit OR here)"
proof -
  have "v = v AND NOT lock_bit \<longleftrightarrow> \<not> bit v 7"
  proof
    assume "v = v AND NOT lock_bit"
    from arg_cong [OF this, of "\<lambda>x. bit x 7"] show "\<not> bit v 7" by (simp add: word_bits)
  next
    assume "\<not> bit v 7"
    then show "v = v AND NOT lock_bit" by (intro bit_word_eqI) (auto simp: word_bits)
  qed
  then show ?thesis by (auto simp: try_lock_def bool_cmpxchg_def is_locked_bit)
qed

lemma cp_try_lock_effect:
  assumes "cp_try_lock here b m = (ok, m')" "alone a m"
  shows "lock_effect here a b ok m m'"
proof (cases "b = a")
  case True
  have "vers a (settle m) = vers a m" "same_box a m (settle (settle m))"
    using settle_same_box [OF assms(2)] settle_twice [OF assms(2)] by (simp_all add: same_box_def)
  then show ?thesis
    using assms(1) True
    by (auto simp: cp_try_lock_def Let_def try_lock_seen lock_effect_def same_box_def alone_def split: if_splits)
next
  case False
  then show ?thesis
    using assms(1) settle_twice [OF assms(2)]
    by (auto simp: cp_try_lock_def Let_def lock_effect_def same_box_def alone_def split: prod.splits)
qed

lemma try_lock_spin_effect:
  "try_lock_spin here b r k m = (ok, m') \<Longrightarrow> alone a m \<Longrightarrow> lock_effect here a b ok m m'"
proof (induction k arbitrary: m)
  case 0
  then show ?case by (auto simp: lock_effect_def)
next
  case (Suc k)
  obtain ok1 m1 where l: "cp_try_lock here b m = (ok1, m1)" by (cases "cp_try_lock here b m")
  note e = cp_try_lock_effect [OF l Suc.prems(2)]
  show ?case
  proof (cases "ok1 \<or> r \<or> k = 0")
    case True
    then have "ok1 = ok" "m1 = m'" using Suc.prems(1) l by (auto split: bool.splits)
    then show ?thesis using e by simp
  next
    case False
    then have "try_lock_spin here b r k m1 = (ok, m')" using Suc.prems(1) l by simp
    from Suc.IH [OF this] e False show ?thesis by (auto simp: lock_effect_def split: if_splits)
  qed
qed

text \<open>While a transaction runs, box \<open>a\<close> has its old word, or that word locked when an item holds it.\<close>

definition holds :: "u64 \<Rightarrow> trans_item list \<Rightarrow> bool" where
  "holds a xs \<longleftrightarrow> (\<exists>x\<in>set xs. needs_unlock x \<and> owner x = a)"

definition abort_inv :: "u64 \<Rightarrow> u64 \<Rightarrow> u64 \<Rightarrow> u64 \<Rightarrow> box_mem commit \<Rightarrow> bool" where
  "abort_inv here a v x c \<longleftrightarrow> alone a (mem_of c) \<and> bh_val (bm_heap (mem_of c)) a = x \<and>
     (if holds a (cm_items c) then \<not> is_locked v \<and> vers a (mem_of c) = v OR lock_bit OR here else vers a (mem_of c) = v)"

lemma is_locked_or: "is_locked (v OR lock_bit OR here)"
  by (simp add: is_locked_bit word_bits)

lemma holds_update:
  assumes "i < length xs" "owner y = owner (xs ! i)" "needs_unlock y"
  shows "holds a (xs[i := y]) \<longleftrightarrow> holds a xs \<or> owner (xs ! i) = a"
proof -
  have "holds a xs \<longleftrightarrow> (\<exists>j<length xs. needs_unlock (xs ! j) \<and> owner (xs ! j) = a)" for xs
    unfolding holds_def by (metis in_set_conv_nth)
  then show ?thesis using assms by (auto simp: nth_list_update)
qed

lemma lock_item_abort:
  assumes "lock_item (box_objects here opq) i c = (ok, c')" "alone a (mem_of c)" "\<not> needs_unlock (cm_items c ! i)"
  shows "lock_effect here a (box_at c i) ok (mem_of c) (mem_of c')" "cm_items c' = cm_items c"
proof -
  obtain m where m: "txn_try_lock here (box_at c i) (cm_items c ! i) (mem_of c) = (ok, m)"
      "mem_of c' = m" "cm_items c' = cm_items c"
    using assms(1,3) by (auto simp: lock_item_def box_objects_def box_lock_def Let_def split: prod.splits)
  from try_lock_spin_effect [OF m(1) [unfolded txn_try_lock_def] assms(2)] m(2,3)
  show "lock_effect here a (box_at c i) ok (mem_of c) (mem_of c')" "cm_items c' = cm_items c" by simp_all
qed

lemma lock_write_item_abort:
  assumes "lock_write_item (box_objects here opq) i (ws, c) = (ok, ws', c')" "abort_inv here a v x c"
    "i < length (cm_items c)"
  shows "abort_inv here a v x c'"
proof (cases "has_write (cm_items c ! i)")
  case False
  then show ?thesis using assms by (auto simp: lock_write_item_def)
next
  case True
  let ?c1 = "if length (ws @ [i]) = 1 then c\<lparr>cm_first_write := i, cm_state := Committing_locked\<rparr> else c"
  define y where "y = or_flags cl_bit (or_flags item_lock_bit (cm_items c ! i))"
  have y: "owner y = box_at c i" "needs_unlock y"
    using same_data_flags by (auto simp: y_def same_data_def flag_bits bit_s_flags)
  obtain ok2 c2 where l: "lock_item (box_objects here opq) i ?c1 = (ok2, c2)"
    by (cases "lock_item (box_objects here opq) i ?c1")
  have c': "ok = ok2"
    "c' = (if ok then c2\<lparr>cm_items := (cm_items c2)[i := or_flags cl_bit (or_flags item_lock_bit (cm_items c2 ! i))]\<rparr> else c2)"
    using assms(1) True l by (auto simp: lock_write_item_def Let_def split: prod.splits)
  have c1: "cm_items ?c1 = cm_items c" "cm_world ?c1 = cm_world c" by simp_all
  show ?thesis
  proof (cases "needs_unlock (cm_items c ! i)")
    case n: True
    then have c2: "ok" "cm_items c2 = cm_items c" "mem_of c2 = mem_of c"
      using l c'(1) c1 by (auto simp: lock_item_def)
    have "holds a ((cm_items c)[i := y]) = holds a (cm_items c)"
      using holds_update [OF assms(3) y] n assms(3) by (auto simp: holds_def)
    then show ?thesis using c'(2) c2 assms(2) by (simp add: abort_inv_def y_def)
  next
    case n: False
    have al: "alone a (mem_of c)" using assms(2) by (simp add: abort_inv_def)
    note e = lock_item_abort [OF l, unfolded c1, OF al n]
    have h: "holds a (cm_items c') \<longleftrightarrow> holds a (cm_items c) \<or> ok \<and> box_at c i = a"
      using c'(2) e(2) holds_update [OF assms(3) y] by (auto simp: y_def)
    have "mem_of c' = mem_of c2" using c'(2) by simp
    then show ?thesis
      using e(1) assms(2) h c'(1) is_locked_or by (auto simp: abort_inv_def lock_effect_def split: if_splits)
  qed
qed

lemma phase1_item_abort:
  assumes "phase1_item (box_objects here opq) i (ws, c) = (ok, ws', c')" "abort_inv here a v x c" "i < length (cm_items c)"
  shows "abort_inv here a v x c'"
proof -
  obtain ok1 ws1 c1 where l: "lock_write_item (box_objects here opq) i (ws, c) = (ok1, ws1, c1)"
    by (cases "lock_write_item (box_objects here opq) i (ws, c)") auto
  have "cm_items c' = cm_items c1" "mem_of c' = mem_of c1"
    using assms(1) l
    by (auto simp: phase1_item_def predicate_item_def box_objects_def read_timestamp_step_def Let_def split: if_splits)
  with lock_write_item_abort [OF l assms(2,3)] show ?thesis by (simp add: abort_inv_def)
qed

lemma phase1_abort:
  assumes "phase1 (box_objects here opq) is (ws, c) = (ok, ws', c')" "abort_inv here a v x c" "\<forall>i\<in>set is. i < length (cm_items c)"
  shows "abort_inv here a v x c'"
  using assms
proof (induction "is" arbitrary: ws c)
  case Nil
  then show ?case by simp
next
  case (Cons i js)
  obtain b ws1 c1 where l: "phase1_item (box_objects here opq) i (ws, c) = (b, ws1, c1)"
    by (cases "phase1_item (box_objects here opq) i (ws, c)") auto
  have i: "i < length (cm_items c)" using Cons.prems(3) by simp
  note e = phase1_item_abort [OF l Cons.prems(2) i]
  have "length (cm_items c1) = length (cm_items c)" using box.phase1_item_effect [OF l i] by (simp add: same_frame_def)
  with Cons e l show ?case by (cases b) auto
qed

lemma phase2_abort:
  assumes "phase2 (box_objects here opq) is c = (ok, c')" "abort_inv here a v x c"
  shows "abort_inv here a v x c'"
  using assms
proof (induction "is" arbitrary: c)
  case Nil
  then show ?case by simp
next
  case (Cons i js)
  obtain b c1 where l: "phase2_item (box_objects here opq) i c = (b, c1)" by (cases "phase2_item (box_objects here opq) i c")
  have "alone a (mem_of c)" using Cons.prems(2) by (simp add: abort_inv_def)
  from settle_same_box [OF this] settle_twice [OF this]
  have "same_box a (mem_of c) (mem_of c1) \<and> cm_items c1 = cm_items c"
    using l same_box_refl [OF \<open>alone a (mem_of c)\<close>]
    by (auto simp: phase2_item_def box_objects_def box_check_def cp_check_version_def Let_def split: if_splits)
  then have "abort_inv here a v x c1" using Cons.prems(2) by (auto simp: abort_inv_def same_box_def)
  with Cons l show ?case by (cases b) auto
qed

text \<open>Unlocking gives the old word back.\<close>

lemma unlock_word:
  assumes "word_ok v" "\<not> is_locked v" "holder here = here"
  shows "unlock (v OR lock_bit OR here) = v" "unlock v = v"
proof -
  have h: "8 \<le> n" if "bit v n" for n
    using holder_bit [of v n] assms(1,2) that by (auto simp: word_ok_def)
  have l: "bit here n \<Longrightarrow> n < 8" for n using arg_cong [OF assms(3), of "\<lambda>x. bit x n"] by (auto simp: holder_bit)
  show "unlock (v OR lock_bit OR here) = v"
    unfolding unlock_def by (rule bit_word_eqI) (auto simp: word_bits dest: l h)
  show "unlock v = v" unfolding unlock_def by (rule bit_word_eqI) (auto simp: word_bits dest: h)
qed

lemma unlock_item_box:
  assumes "alone a (mem_of c)"
  shows "alone a (mem_of (unlock_item (box_objects here opq) i c))"
    "bh_val (bm_heap (mem_of (unlock_item (box_objects here opq) i c))) a = bh_val (bm_heap (mem_of c)) a"
    "vers a (mem_of (unlock_item (box_objects here opq) i c)) =
       (if needs_unlock (cm_items c ! i) \<and> box_at c i = a then unlock (vers a (mem_of c)) else vers a (mem_of c))"
    "cm_items (unlock_item (box_objects here opq) i c) = cm_items c"
  using assms settle_same_box [OF assms] settle_twice [OF assms]
  by (auto simp: unlock_item_def box_objects_def box_unlock_def cp_unlock_def Let_def same_box_def alone_def)

lemma unlock_items_box:
  assumes "alone a (mem_of c)" "word_ok v" "\<not> is_locked v" "holder here = here"
    "vers a (mem_of c) = v \<or> vers a (mem_of c) = v OR lock_bit OR here"
  shows "bh_val (bm_heap (mem_of (fold (unlock_item (box_objects here opq)) is c))) a = bh_val (bm_heap (mem_of c)) a \<and>
    vers a (mem_of (fold (unlock_item (box_objects here opq)) is c)) =
      (if \<exists>i\<in>set is. needs_unlock (cm_items c ! i) \<and> box_at c i = a then v else vers a (mem_of c))"
  using assms
proof (induction "is" arbitrary: c)
  case Nil
  then show ?case by simp
next
  case (Cons i js)
  note e = unlock_item_box [OF Cons.prems(1), of here opq i]
  note w = unlock_word [OF Cons.prems(2-4)]
  have "vers a (mem_of (unlock_item (box_objects here opq) i c)) =
      (if needs_unlock (cm_items c ! i) \<and> box_at c i = a then v else vers a (mem_of c))"
    using e(3) Cons.prems(5) w by auto
  then show ?case using Cons.IH [OF e(1) Cons.prems(2-4)] Cons.prems(5) e(2,4) by auto
qed

lemma unlock_nothing:
  assumes "alone a (mem_of c)" "\<forall>i\<in>set is. \<not> (needs_unlock (cm_items c ! i) \<and> box_at c i = a)"
  shows "bh_val (bm_heap (mem_of (fold (unlock_item (box_objects here opq)) is c))) a = bh_val (bm_heap (mem_of c)) a \<and>
    vers a (mem_of (fold (unlock_item (box_objects here opq)) is c)) = vers a (mem_of c)"
  using assms
proof (induction "is" arbitrary: c)
  case Nil
  then show ?case by simp
next
  case (Cons i js)
  note e = unlock_item_box [OF Cons.prems(1), of here opq i]
  show ?case using Cons.IH [OF e(1)] Cons.prems(2) e(2-4) by auto
qed

lemma stop_box:
  assumes "abort_inv here a v x c" "word_ok v" "holder here = here"
  shows "vers a (mem_of (stop (box_objects here opq) b ws c)) = v \<and>
    bh_val (bm_heap (mem_of (stop (box_objects here opq) b ws c))) a = x"
proof -
  define c1 where "c1 = (if cm_any_writes c
    then fold (cleanup_item (box_objects here opq) b) (if b then rev ws else rev [cm_first_write c..<length (cm_items c)]) c else c)"
  have "cm_world (fold (cleanup_item (box_objects here opq) b) is c) = cm_world c" for "is"
    by (induction "is" arbitrary: c) (auto simp: cleanup_item_def box_objects_def Let_def)
  then have c1: "cm_items c1 = cm_items c" "cm_world c1 = cm_world c"
    using cleanup_list [of "box_objects here opq" b] by (auto simp: c1_def)
  have s: "mem_of (stop (box_objects here opq) b ws c) =
      mem_of (fold (unlock_item (box_objects here opq)) (rev [0..<length (cm_items c1)]) c1)"
    by (simp add: stop_def Let_def c1_def)
  have h: "holds a (cm_items c) \<longleftrightarrow> (\<exists>i\<in>set (rev [0..<length (cm_items c1)]). needs_unlock (cm_items c1 ! i) \<and> box_at c1 i = a)"
    unfolding holds_def c1 by (metis atLeastLessThan_iff in_set_conv_nth less_eq_nat.simps(1) set_rev set_upt)
  show ?thesis
  proof (cases "holds a (cm_items c)")
    case True
    then have i: "alone a (mem_of c1)" "\<not> is_locked v" "vers a (mem_of c1) = v OR lock_bit OR here"
      "bh_val (bm_heap (mem_of c1)) a = x"
      using assms(1) c1 by (simp_all add: abort_inv_def)
    show ?thesis
      unfolding s using unlock_items_box [OF i(1) assms(2) i(2) assms(3), of opq "rev [0..<length (cm_items c1)]"] i h True by auto
  next
    case False
    then have i: "alone a (mem_of c1)" "vers a (mem_of c1) = v" "bh_val (bm_heap (mem_of c1)) a = x"
      using assms(1) c1 by (simp_all add: abort_inv_def)
    show ?thesis
      unfolding s using unlock_nothing [OF i(1), of "rev [0..<length (cm_items c1)]" here opq] i h False by auto
  qed
qed

text \<open>C13: An abort leaves no trace.  When a commit fails, in whichever phase, every box that other threads leave
  alone has the value and the version word it had before, whether or not the transaction had locked
  it; nothing was installed, and each lock that was taken is released exactly once, after everything
  else.\<close>

theorem occ_abort_leaves_boxes:
  assumes "try_commit (box_objects here opq) c = (False, c')" "cm_state c = In_progress" "cm_log c = []"
    and "mem_ok here (mem_of c)" "\<forall>i<length (cm_items c). \<not> needs_unlock (cm_items c ! i)" "alone a (mem_of c)"
  shows "vers a (mem_of c') = vers a (mem_of c) \<and> bh_val (bm_heap (mem_of c')) a = bh_val (bm_heap (mem_of c)) a \<and>
    cm_state c' = Aborted \<and> (\<forall>i. Installed i \<notin> set (cm_log c')) \<and>
    (\<exists>A L. cm_log c' = A @ map Unlocked L \<and> set A \<inter> range Unlocked = {} \<and> distinct L \<and>
      (\<forall>i<length (cm_items c). Lock_try i True \<in> set A \<longrightarrow> i \<in> set L))"
proof -
  let ?n = "length (cm_items c)" and ?c = "c\<lparr>cm_state := Committing\<rparr>" and ?o = "box_objects here opq"
  let ?v = "vers a (mem_of c)" and ?x = "bh_val (bm_heap (mem_of c)) a"
  obtain ok ws c1 where p1: "phase1 ?o [0..<?n] ([], ?c) = (ok, ws, c1)"
    by (cases "phase1 ?o [0..<?n] ([], ?c)") auto
  let ?c1 = "c1\<lparr>cm_first_write := (if ws = [] then ?n else hd ws)\<rparr>"
  obtain ok2 c2 where p2: "phase2 ?o [0..<?n] ?c1 = (ok2, c2)" by (cases "phase2 ?o [0..<?n] ?c1")
  have "\<not> holds a (cm_items c)" using assms(5) by (auto simp: holds_def in_set_conv_nth)
  then have "abort_inv here a ?v ?x ?c" using assms(6) by (simp add: abort_inv_def)
  from phase1_abort [OF p1 this] have i1: "abort_inv here a ?v ?x c1" by simp
  then have "abort_inv here a ?v ?x ?c1" by (simp add: abort_inv_def)
  from phase2_abort [OF p2 this] have i2: "abort_inv here a ?v ?x c2" .
  have w: "word_ok ?v" "holder here = here" using assms(4) by (simp_all add: mem_ok_def)
  have "c' = stop ?o False [] c1 \<or> c' = stop ?o False [] c2"
    using assms(1,2) p1 p2 by (auto simp: try_commit_def in_progress_def Let_def split: if_splits)
  then have "vers a (mem_of c') = ?v \<and> bh_val (bm_heap (mem_of c')) a = ?x"
    using stop_box [OF i1 w] stop_box [OF i2 w] by blast
  with box.abort_releases [OF assms(2,3,1)] show ?thesis by meson
qed

definition ex_stale :: trans_item where
  "ex_stale = ex_read\<lparr>it_rdata := \<lparr>wide_v0 = 0x2000, wide_v1 = 0\<rparr>\<rparr>"

definition ex_abort :: "box_mem commit" where
  "ex_abort = ex_commit\<lparr>cm_items := [ex_write, ex_stale]\<rparr>"

lemma ex_stale_flags: "has_read ex_stale" "\<not> has_write ex_stale" "\<not> needs_unlock ex_stale" "owner ex_stale = 16"
  using ex_flags ex_owners by (simp_all add: ex_stale_def flag_bits owner_def)

lemma ex_abort_fails: "\<not> fst (try_commit (box_objects 5 (\<lambda>a. True)) ex_abort)"
proof -
  have l: "[0..<length (cm_items ex_abort)] = [0, 1]" by (simp add: ex_abort_def)
  have r: "wide_v0 (it_rdata ex_stale) = 0x2000" "it_mode ex_stale = Mode_none" "\<not> check_version 0x1000 0x2000"
    by (simp_all add: ex_stale_def ex_read_def new_trans_item_def or_flags_def check_version_def tid_consts)
  show ?thesis
    unfolding try_commit_def l
    by (simp add: ex_abort_def ex_run r ex_stale_flags txn_try_lock_first in_progress_def phase1_item_def lock_write_item_def
        lock_item_def read_timestamp_step_def box_lock_def cp_try_lock_def phase2_item_def box_check_def cp_check_version_def)
qed

theorem occ_abort_leaves_boxes_witness:
  "\<exists>c'. try_commit (box_objects 5 (\<lambda>a. True)) ex_abort = (False, c') \<and>
     vers 32 (mem_of c') = 0x1000 \<and> bh_val (bm_heap (mem_of c')) 32 = 1 \<and> cm_state c' = Aborted"
proof -
  obtain c' where c: "try_commit (box_objects 5 (\<lambda>a. True)) ex_abort = (False, c')"
    using ex_abort_fails by (cases "try_commit (box_objects 5 (\<lambda>a. True)) ex_abort") simp
  have m: "mem_of ex_abort = mem_of ex_commit" by (simp add: ex_abort_def)
  have "\<forall>i<length (cm_items ex_abort). \<not> needs_unlock (cm_items ex_abort ! i)"
    using ex_flags ex_stale_flags by (auto simp: ex_abort_def less_Suc_eq)
  moreover have "alone 32 (mem_of ex_abort)" by (simp add: alone_def m ex_commit_def ex_env_def)
  moreover have "cm_state ex_abort = In_progress" "cm_log ex_abort = []" by (simp_all add: ex_abort_def ex_commit_def)
  moreover have "vers 32 (mem_of ex_abort) = 0x1000" "bh_val (bm_heap (mem_of ex_abort)) 32 = 1"
    by (simp_all add: m ex_commit_def ex_heap_def vers_def)
  ultimately show ?thesis
    using occ_abort_leaves_boxes [OF c, of 32] ex_commit_ok unfolding m by (intro exI [of _ c']) (simp add: c)
qed

end
