(* ===== verification/Mvcc_Chain.thy ===== *)
theory Mvcc_Chain
  imports Sto_Tid
begin

unbundle bit_operations_syntax

text \<open>
  Multi-version objects (\<open>sto-core/MVCCStructs.hh\<close>, with the integer commutator of \<open>Commutators.hh\<close>).  An
  object's chain of versions is a list, newest first; a version is named by its write timestamp, which
  no two versions of a chain share.  \<open>MVCC_INLINING\<close> is 0.  Failing assertions, null dereferences and waiting for a pending
  version that never settles have their own results.  Values are 64-bit integers and updates may be increments
  (\<open>Commutator<int64_t>\<close>).  Profile counters are left out.
\<close>

subsection \<open>Versions\<close>

type_synonym mv_status = u32

definition ABORTED :: mv_status where "ABORTED = 0x020"
definition ABORTED_WV1 :: mv_status where "ABORTED_WV1 = 0x220"
definition ABORTED_WV2 :: mv_status where "ABORTED_WV2 = 0x320"
definition ABORTED_TXNV :: mv_status where "ABORTED_TXNV = 0x420"
definition ABORTED_POISON :: mv_status where "ABORTED_POISON = 0x520"
definition DELTA :: mv_status where "DELTA = 0x008"
definition DELETED :: mv_status where "DELETED = 0x001"
definition PENDING :: mv_status where "PENDING = 0x002"
definition COMMITTED :: mv_status where "COMMITTED = 0x004"
definition PENDING_DELTA :: mv_status where "PENDING_DELTA = 0x00A"
definition COMMITTED_DELTA :: mv_status where "COMMITTED_DELTA = 0x00C"
definition COMMITTED_DELETED :: mv_status where "COMMITTED_DELETED = 0x005"
definition LOCKED :: mv_status where "LOCKED = 0x010"
definition LOCKED_COMMITTED_DELTA :: mv_status where "LOCKED_COMMITTED_DELTA = 0x01C"
definition GARBAGE :: mv_status where "GARBAGE = 0x040"
definition GARBAGE2 :: mv_status where "GARBAGE2 = 0x080"

lemmas mv_consts = ABORTED_def ABORTED_WV1_def ABORTED_WV2_def ABORTED_TXNV_def ABORTED_POISON_def DELTA_def DELETED_def
  PENDING_def COMMITTED_def PENDING_DELTA_def COMMITTED_DELTA_def COMMITTED_DELETED_def LOCKED_def
  LOCKED_COMMITTED_DELTA_def GARBAGE_def GARBAGE2_def

record mv_history =
  mh_status :: mv_status
  mh_wtid :: u64
  mh_rtid :: u64
  mh_c :: u64
  mh_v :: u64

definition history_of_value :: "u64 \<Rightarrow> u64 \<Rightarrow> mv_history" where
  "history_of_value ntid nv = \<lparr>mh_status = PENDING, mh_wtid = ntid, mh_rtid = ntid, mh_c = 0, mh_v = nv\<rparr>"

definition history_of_delta :: "u64 \<Rightarrow> u64 \<Rightarrow> mv_history" where
  "history_of_delta ntid c = \<lparr>mh_status = PENDING_DELTA, mh_wtid = ntid, mh_rtid = ntid, mh_c = c, mh_v = 0\<rparr>"

definition operate :: "u64 \<Rightarrow> u64 \<Rightarrow> u64" where
  "operate delta v = v + delta"

definition status_is :: "mv_status \<Rightarrow> mv_history \<Rightarrow> bool" where
  "status_is m h \<longleftrightarrow> mh_status h AND m = m"

definition status_is_masked :: "mv_status \<Rightarrow> mv_status \<Rightarrow> mv_history \<Rightarrow> bool" where
  "status_is_masked m expected h \<longleftrightarrow> mh_status h AND m = expected"

definition can_precede :: "mv_history \<Rightarrow> mv_history \<Rightarrow> bool" where
  "can_precede h hnext \<longleftrightarrow> \<not> status_is DELETED h \<or> \<not> status_is DELTA hnext"

definition can_precede_anything :: "mv_history \<Rightarrow> bool" where
  "can_precede_anything h \<longleftrightarrow> \<not> status_is DELETED h"

definition update_rtid :: "u64 \<Rightarrow> mv_history \<Rightarrow> mv_history" where
  "update_rtid minimum_new_rtid h = (if mh_rtid h < minimum_new_rtid then h\<lparr>mh_rtid := minimum_new_rtid\<rparr> else h)"

definition status_abort :: "mv_status \<Rightarrow> mv_history \<Rightarrow> mv_history option" where
  "status_abort reason h =
     (if mh_status h AND (PENDING OR COMMITTED) = PENDING \<and> reason AND ABORTED \<noteq> 0 then Some (h\<lparr>mh_status := reason\<rparr>) else None)"

definition status_txn_abort :: "mv_history \<Rightarrow> mv_history option" where
  "status_txn_abort h =
     (if mh_status h AND ABORTED = 0 then
        if mh_status h AND (PENDING OR COMMITTED) = PENDING then Some (h\<lparr>mh_status := ABORTED_TXNV\<rparr>) else None
      else Some h)"

definition status_commit :: "mv_history \<Rightarrow> mv_history option" where
  "status_commit h =
     (if mh_status h AND ABORTED = 0 then Some (h\<lparr>mh_status := COMMITTED OR (mh_status h AND NOT PENDING)\<rparr>) else None)"

definition status_delete :: "mv_history \<Rightarrow> mv_history option" where
  "status_delete h = (if mh_status h AND ABORTED = 0 then Some (h\<lparr>mh_status := DELETED OR mh_status h\<rparr>) else None)"

text \<open>\<open>wait_if_pending\<close> on the statuses the thread reads, one after the other.\<close>

fun wait_if_pending :: "mv_status \<Rightarrow> mv_status list \<Rightarrow> mv_status option" where
  "wait_if_pending s [] = (if s AND PENDING \<noteq> 0 then None else Some s)"
| "wait_if_pending s (s' # seen) = (if s AND PENDING \<noteq> 0 then wait_if_pending s' seen else Some s)"

subsection \<open>Objects\<close>

datatype mv_callback = Gc_committed u64 | Gc_deleted u64 | Gc_flatten

record mv_object =
  mo_chain :: "mv_history list"
  mo_cuctr :: nat
  mo_nonpoison :: bool
  mo_flattenv :: u64
  mo_rcu :: "mv_callback list"

definition gc_flattening_length :: nat where "gc_flattening_length = 257"

text \<open>No constructor sets \<open>flattenv_\<close>; \<open>fv\<close> is what the memory held.\<close>

definition mv_default :: "u64 \<Rightarrow> mv_object" where
  "mv_default fv = \<lparr>mo_chain = [\<lparr>mh_status = COMMITTED_DELETED, mh_wtid = 0, mh_rtid = 0, mh_c = 0, mh_v = 0\<rparr>],
     mo_cuctr = 0, mo_nonpoison = True, mo_flattenv = fv, mo_rcu = []\<rparr>"

definition mv_of :: "u64 \<Rightarrow> u64 \<Rightarrow> mv_object" where
  "mv_of fv value = \<lparr>mo_chain = [(history_of_value 0 value)\<lparr>mh_status := COMMITTED\<rparr>],
     mo_cuctr = 0, mo_nonpoison = True, mo_flattenv = fv, mo_rcu = []\<rparr>"

definition set_poison :: "bool \<Rightarrow> mv_object \<Rightarrow> mv_object" where
  "set_poison p ob = ob\<lparr>mo_nonpoison := \<not> p\<rparr>"

text \<open>The version of a chain with the given write timestamp replaced by a function of it.\<close>

definition upd_version :: "u64 \<Rightarrow> (mv_history \<Rightarrow> mv_history) \<Rightarrow> mv_history list \<Rightarrow> mv_history list" where
  "upd_version w f = map (\<lambda>h. if mh_wtid h = w then f h else h)"

definition version_at :: "u64 \<Rightarrow> mv_history list \<Rightarrow> mv_history option" where
  "version_at w = List.find (\<lambda>h. mh_wtid h = w)"

subsection \<open>Lookup\<close>

datatype mv_result = Found mv_history | Waits mv_history | Fails

fun find_version :: "u64 \<Rightarrow> bool \<Rightarrow> mv_history list \<Rightarrow> mv_result" where
  "find_version tid wait [] = Fails"
| "find_version tid wait (h # prevs) =
     (if mh_status h AND (PENDING OR ABORTED OR COMMITTED) = 0 then Fails
      else if wait \<and> mh_wtid h < tid \<and> mh_status h AND PENDING \<noteq> 0 then Waits h
      else if mh_wtid h \<le> tid \<and> mh_status h AND COMMITTED \<noteq> 0 then Found h
      else find_version tid wait prevs)"

fun find_latest :: "bool \<Rightarrow> mv_history list \<Rightarrow> mv_result" where
  "find_latest wait [] = Fails"
| "find_latest wait (h # prevs) =
     (if mh_status h AND (PENDING OR ABORTED OR COMMITTED) = 0 then Fails
      else if wait \<and> mh_status h AND PENDING \<noteq> 0 then Waits h
      else if mh_status h AND COMMITTED \<noteq> 0 then Found h
      else find_latest wait prevs)"

subsection \<open>Commit protocol\<close>

text \<open>The search for the place of a new version, up to the exchange that links it in; \<open>None\<close> is the early
  \<open>return false\<close>, or a null dereference at the end of the chain.\<close>

fun lock_insert :: "bool \<Rightarrow> u64 \<Rightarrow> mv_history \<Rightarrow> mv_history list \<Rightarrow> mv_history list option" where
  "lock_insert may_commute tid hw [] = None"
| "lock_insert may_commute tid hw (t # prevs) =
     (if mh_wtid t > tid then
        if may_commute \<and> \<not> can_precede hw t then None
        else map_option (\<lambda>r. t # r) (lock_insert may_commute tid hw prevs)
      else if mh_status t AND ABORTED = 0 \<and> mh_rtid t > tid then None
      else Some (hw # t # prevs))"

text \<open>The checks after the link: against the newer versions, and downwards to the first committed one.\<close>

definition newer :: "u64 \<Rightarrow> mv_history list \<Rightarrow> mv_history list" where
  "newer w = takeWhile (\<lambda>h. mh_wtid h \<noteq> w)"

definition older :: "u64 \<Rightarrow> mv_history list \<Rightarrow> mv_history list" where
  "older w chain = tl (dropWhile (\<lambda>h. mh_wtid h \<noteq> w) chain)"

definition late_check :: "bool \<Rightarrow> mv_history \<Rightarrow> mv_history list \<Rightarrow> bool" where
  "late_check may_commute hw chain \<longleftrightarrow>
     (may_commute \<and> \<not> can_precede_anything hw \<longrightarrow> list_all (can_precede hw) (newer (mh_wtid hw) chain))"

definition write_conflict :: "bool \<Rightarrow> u64 \<Rightarrow> mv_history \<Rightarrow> mv_history \<Rightarrow> bool" where
  "write_conflict may_commute tid hw h \<longleftrightarrow>
     (may_commute \<and> \<not> can_precede h hw) \<or> (status_is COMMITTED h \<and> mh_rtid h > tid)"

fun write_check :: "bool \<Rightarrow> u64 \<Rightarrow> mv_history \<Rightarrow> mv_history list \<Rightarrow> bool" where
  "write_check may_commute tid hw [] = True"
| "write_check may_commute tid hw (h # prevs) =
     (if write_conflict may_commute tid hw h then False
      else status_is COMMITTED h \<or> write_check may_commute tid hw prevs)"

definition abort_version :: "mv_status \<Rightarrow> u64 \<Rightarrow> mv_object \<Rightarrow> mv_object" where
  "abort_version reason w ob = ob\<lparr>mo_chain := upd_version w (\<lambda>h. h\<lparr>mh_status := reason\<rparr>) (mo_chain ob)\<rparr>"

definition cp_lock :: "bool \<Rightarrow> u64 \<Rightarrow> mv_history \<Rightarrow> mv_object \<Rightarrow> bool \<times> mv_object" where
  "cp_lock may_commute tid hw ob =
     (case lock_insert may_commute tid hw (mo_chain ob) of
        None \<Rightarrow> (False, ob)
      | Some chain \<Rightarrow>
          let ob = ob\<lparr>mo_chain := chain\<rparr>
          in if \<not> late_check may_commute hw chain then (False, abort_version ABORTED_WV1 (mh_wtid hw) ob)
             else if \<not> write_check may_commute tid hw (older (mh_wtid hw) chain)
             then (False, abort_version ABORTED_WV2 (mh_wtid hw) ob)
             else if mo_nonpoison ob then (True, ob)
             else (False, abort_version ABORTED_POISON (mh_wtid hw) ob))"

definition read_conflict :: "u64 \<Rightarrow> mv_history \<Rightarrow> bool" where
  "read_conflict tid h \<longleftrightarrow> \<not> status_is ABORTED h \<and> mh_wtid h < tid"

definition cp_check :: "u64 \<Rightarrow> u64 \<Rightarrow> mv_object \<Rightarrow> bool \<times> mv_object" where
  "cp_check tid hr ob =
     (let ob = ob\<lparr>mo_chain := upd_version hr (update_rtid tid) (mo_chain ob)\<rparr>
      in (\<not> list_ex (read_conflict tid) (newer hr (mo_chain ob)) \<and> mo_nonpoison ob, ob))"

definition cp_install :: "u64 \<Rightarrow> mv_object \<Rightarrow> mv_object option" where
  "cp_install w ob =
     (case version_at w (mo_chain ob) of
        None \<Rightarrow> None
      | Some h \<Rightarrow>
          let s = mh_status h
          in if s AND (PENDING OR ABORTED) \<noteq> PENDING then None
             else let ob = ob\<lparr>mo_chain := upd_version w (\<lambda>h. h\<lparr>mh_status := (s AND NOT PENDING) OR COMMITTED\<rparr>) (mo_chain ob)\<rparr>
                  in if s AND DELTA = 0
                     then Some (ob\<lparr>mo_cuctr := 0, mo_flattenv := 0, mo_rcu := mo_rcu ob @ [Gc_committed w]\<rparr>)
                     else let dc = mo_cuctr ob + 1
                          in if dc \<le> gc_flattening_length then Some (ob\<lparr>mo_cuctr := dc\<rparr>)
                             else if mo_flattenv ob = 0
                             then Some (ob\<lparr>mo_cuctr := 0, mo_flattenv := w, mo_rcu := mo_rcu ob @ [Gc_flatten]\<rparr>)
                             else Some ob)"

subsection \<open>Flattening\<close>

text \<open>\<open>flatten_trace\<close> is the loop that collects versions down to a committed value; \<open>flatten_replay\<close> the one that
  applies them, oldest first.  No version is linked in while \<open>flatten\<close> runs, so its inner loop, which looks for
  such versions, stops at once.  Waiting is \<open>None\<close>.\<close>

fun flatten_trace :: "mv_history list \<Rightarrow> mv_history list \<Rightarrow> (mv_history list \<times> mv_history) option" where
  "flatten_trace trace [] = None"
| "flatten_trace trace (cur # prevs) =
     (if status_is_masked COMMITTED_DELTA COMMITTED cur then Some (trace, cur)
      else flatten_trace (cur # trace) prevs)"

fun flatten_replay :: "u64 \<Rightarrow> mv_history list \<Rightarrow> u64 option" where
  "flatten_replay value [] = Some value"
| "flatten_replay value (h # trace) =
     (if mh_status h AND PENDING \<noteq> 0 then None
      else if mh_status h AND COMMITTED \<noteq> 0 then
        if mh_status h AND DELETED \<noteq> 0 then None
        else flatten_replay (if mh_status h AND DELTA \<noteq> 0 then operate (mh_c h) value else mh_v h) trace
      else flatten_replay value trace)"

definition flatten_value :: "mv_history list \<Rightarrow> u64 option" where
  "flatten_value chain =
     (case flatten_trace [] chain of None \<Rightarrow> None | Some (trace, cur) \<Rightarrow> flatten_replay (mh_v cur) trace)"

text \<open>The read timestamps it raises: of every committed version it reads.\<close>

fun flatten_touch :: "u64 \<Rightarrow> mv_history list \<Rightarrow> mv_history list" where
  "flatten_touch w [] = []"
| "flatten_touch w (h # prevs) =
     (if status_is_masked COMMITTED_DELTA COMMITTED h then update_rtid w h # prevs
      else (if mh_status h AND COMMITTED \<noteq> 0 then update_rtid w h else h) # flatten_touch w prevs)"

definition mv_flatten :: "bool \<Rightarrow> u64 \<Rightarrow> mv_object \<Rightarrow> mv_object option" where
  "mv_flatten fg w ob =
     (let below = dropWhile (\<lambda>h. mh_wtid h \<noteq> w) (mo_chain ob)
      in case below of
           [] \<Rightarrow> None
         | h # _ \<Rightarrow>
             if mh_status h \<noteq> COMMITTED_DELTA then None
             else case flatten_value below of
                    None \<Rightarrow> None
                  | Some value \<Rightarrow>
                      Some (ob\<lparr>mo_chain := newer w (mo_chain ob) @
                                 upd_version w (\<lambda>h. h\<lparr>mh_v := value, mh_status := COMMITTED\<rparr>) (flatten_touch w below),
                               mo_rcu := mo_rcu ob @ [Gc_committed w],
                               mo_flattenv := (if fg then 0 else mo_flattenv ob)\<rparr>))"

text \<open>\<open>v()\<close>: the value of a version, flattening a delta first (\<open>enflatten\<close>).\<close>

definition mv_value :: "u64 \<Rightarrow> mv_object \<Rightarrow> (u64 \<times> mv_object) option" where
  "mv_value w ob =
     (case version_at w (mo_chain ob) of
        None \<Rightarrow> None
      | Some h \<Rightarrow>
          if status_is DELTA h then
            if mh_status h AND ABORTED \<noteq> 0 then None
            else if mh_status h AND COMMITTED_DELTA = COMMITTED_DELTA then
              if mh_status h AND LOCKED \<noteq> 0 then None
              else (case mv_flatten True w ob of
                      None \<Rightarrow> None
                    | Some ob \<Rightarrow> map_option (\<lambda>h. (mh_v h, ob)) (version_at w (mo_chain ob)))
            else Some (mh_v h, ob)
          else Some (mh_v h, ob))"

fun gc_flatten_scan :: "u64 \<Rightarrow> mv_history list \<Rightarrow> mv_history option" where
  "gc_flatten_scan fv [] = None"
| "gc_flatten_scan fv (h # prevs) =
     (if mh_wtid h > fv \<and> mh_status h AND LOCKED_COMMITTED_DELTA \<noteq> COMMITTED
         \<and> mh_status h AND LOCKED_COMMITTED_DELTA \<noteq> LOCKED_COMMITTED_DELTA
      then gc_flatten_scan fv prevs else Some h)"

definition gc_flatten_cb :: "mv_object \<Rightarrow> mv_object option" where
  "gc_flatten_cb ob =
     (let fv = mo_flattenv ob; ob = ob\<lparr>mo_flattenv := 0\<rparr>
      in if fv = 0 then Some ob
         else case gc_flatten_scan fv (mo_chain ob) of
                None \<Rightarrow> None
              | Some h \<Rightarrow> if mh_status h = COMMITTED_DELTA then mv_flatten False (mh_wtid h) ob else Some ob)"

text \<open>\<open>gc_committed_cb\<close> hands the versions below a committed value to the next round of reclamation.\<close>

fun gc_below :: "mv_history list \<Rightarrow> mv_history list" where
  "gc_below [] = []"
| "gc_below (h # prevs) = h # (if mh_status h AND COMMITTED_DELTA = COMMITTED then [] else gc_below prevs)"

definition gc_committed_cb :: "u64 \<Rightarrow> mv_object \<Rightarrow> mv_object option" where
  "gc_committed_cb w ob =
     (case version_at w (mo_chain ob) of
        None \<Rightarrow> None
      | Some h \<Rightarrow>
          if mh_status h AND COMMITTED_DELTA \<noteq> COMMITTED then None
          else let dead = gc_below (older w (mo_chain ob))
               in if list_ex (\<lambda>h. mh_status h AND (GARBAGE OR GARBAGE2 OR LOCKED OR PENDING) \<noteq> 0) dead then None
                  else Some (ob\<lparr>mo_chain := map (\<lambda>h. if h \<in> set dead then h\<lparr>mh_status := mh_status h OR GARBAGE\<rparr> else h) (mo_chain ob),
                                mo_rcu := mo_rcu ob @ map (\<lambda>h. Gc_deleted (mh_wtid h)) dead\<rparr>))"

text \<open>\<open>nontrans_access\<close>: the newest committed version.\<close>

fun nontrans_find :: "mv_history list \<Rightarrow> mv_history option" where
  "nontrans_find [] = None"
| "nontrans_find (h # prevs) = (if status_is COMMITTED h then Some h else nontrans_find prevs)"

definition nontrans_read :: "mv_object \<Rightarrow> (u64 \<times> mv_object) option" where
  "nontrans_read ob = (case nontrans_find (mo_chain ob) of None \<Rightarrow> None | Some h \<Rightarrow> mv_value (mh_wtid h) ob)"

definition nontrans_write :: "u64 \<Rightarrow> mv_object \<Rightarrow> mv_object option" where
  "nontrans_write x ob =
     (case nontrans_find (mo_chain ob) of
        None \<Rightarrow> None
      | Some h \<Rightarrow>
          (case mv_value (mh_wtid h) ob of
             None \<Rightarrow> None
           | Some (_, ob) \<Rightarrow> Some (ob\<lparr>mo_chain := upd_version (mh_wtid h) (\<lambda>h. h\<lparr>mh_status := COMMITTED, mh_v := x\<rparr>) (mo_chain ob)\<rparr>)))"

end
