(* ===== verification/Mvcc_Reads.thy ===== *)
theory Mvcc_Reads
  imports Mvcc_Chain
begin

unbundle bit_operations_syntax

text \<open>
  Reads of multi-version objects stay valid.  Threads run \<open>cp_lock\<close>, \<open>cp_check\<close> and \<open>cp_install\<close> of \<open>MvObject\<close>
  (\<open>sto-core/MVCCStructs.hh\<close>) on one object, interleaved after every version they look at.  One step of the walk
  of \<open>cp_lock\<close> loads the status of a version and then its read timestamp, which only a committed version's needs; the
  status is loaded once more in a step of its own.  The steps allow more than the code: a version may be linked in without the early checks of
  \<open>cp_lock\<close>, and a pending version may be aborted at any time.
\<close>

subsection \<open>Steps\<close>

datatype mv_pc =
    M_idle
  | M_walk u64 u64
  | M_walked u64 u64
  | M_checked u64
  | M_scan u64 u64 "u64 option"

record mv_state =
  mv_chain :: "mv_history list"
  mv_pc :: "nat \<Rightarrow> mv_pc"
  mv_valid :: "(u64 \<times> u64) set"

text \<open>\<open>M_walk t p\<close>: the writer of version \<open>t\<close> has passed the version \<open>p\<close> on its way down.  \<open>M_walked t p\<close>: it has found no
  conflict at \<open>p\<close> and will look at its status once more.  \<open>M_scan hr r p\<close>: a reader at timestamp \<open>r\<close> of
  version \<open>hr\<close> has passed \<open>p\<close>, or nothing yet.  \<open>mv_valid\<close> collects the reads that passed the check.\<close>

definition passed :: "u64 option \<Rightarrow> u64 \<Rightarrow> bool" where
  "passed pos w \<longleftrightarrow> (case pos of None \<Rightarrow> False | Some p \<Rightarrow> p \<le> w)"

definition next_version :: "u64 option \<Rightarrow> mv_history list \<Rightarrow> mv_history option" where
  "next_version pos chain = List.find (\<lambda>h. \<not> passed pos (mh_wtid h)) chain"

definition link_version :: "mv_history \<Rightarrow> mv_history list \<Rightarrow> mv_history list" where
  "link_version hw chain =
     takeWhile (\<lambda>h. mh_wtid h > mh_wtid hw) chain @ hw # dropWhile (\<lambda>h. mh_wtid h > mh_wtid hw) chain"

abbreviation set_pc :: "nat \<Rightarrow> mv_pc \<Rightarrow> mv_state \<Rightarrow> mv_state" where
  "set_pc i c s \<equiv> s\<lparr>mv_pc := (mv_pc s)(i := c)\<rparr>"

inductive mv_step :: "mv_state \<Rightarrow> mv_state \<Rightarrow> bool" where
  link: "mv_pc s i = M_idle \<Longrightarrow> hw = history_of_value t x \<or> hw = history_of_delta t x \<or> Some hw = status_delete (history_of_value t x)
    \<Longrightarrow> t \<notin> mh_wtid ` set (mv_chain s)
    \<Longrightarrow> mv_step s (set_pc i (M_walk t t) (s\<lparr>mv_chain := link_version hw (mv_chain s)\<rparr>))"
| walk: "mv_pc s i = M_walk t p \<Longrightarrow> next_version (Some p) (mv_chain s) = Some h
    \<Longrightarrow> version_at t (mv_chain s) = Some hw \<Longrightarrow> \<not> write_conflict may_commute t hw h
    \<Longrightarrow> mv_step s (set_pc i (M_walked t (mh_wtid h)) s)"
| walk_end: "mv_pc s i = M_walk t p \<Longrightarrow> next_version (Some p) (mv_chain s) = None
    \<Longrightarrow> mv_step s (set_pc i (M_checked t) s)"
| walked: "mv_pc s i = M_walked t p \<Longrightarrow> version_at p (mv_chain s) = Some h
    \<Longrightarrow> mv_step s (set_pc i (if status_is COMMITTED h then M_checked t else M_walk t p) s)"
| give_up: "mv_pc s i \<in> {M_walk t p, M_walked t p, M_checked t} \<Longrightarrow> reason AND ABORTED \<noteq> 0 \<Longrightarrow> reason AND COMMITTED = 0
    \<Longrightarrow> mv_step s (set_pc i M_idle (s\<lparr>mv_chain := upd_version t (\<lambda>h. h\<lparr>mh_status := reason\<rparr>) (mv_chain s)\<rparr>))"
| install: "mv_pc s i = M_checked t
    \<Longrightarrow> mv_step s (set_pc i M_idle (s\<lparr>mv_chain :=
          upd_version t (\<lambda>h. h\<lparr>mh_status := (mh_status h AND NOT PENDING) OR COMMITTED\<rparr>) (mv_chain s)\<rparr>))"
| mark: "mv_pc s i = M_idle \<Longrightarrow> h \<in> set (mv_chain s) \<Longrightarrow> status_is COMMITTED h
    \<Longrightarrow> mv_step s (set_pc i (M_scan (mh_wtid h) r None) (s\<lparr>mv_chain := upd_version (mh_wtid h) (update_rtid r) (mv_chain s)\<rparr>))"
| scan: "mv_pc s i = M_scan hr r pos \<Longrightarrow> next_version pos (mv_chain s) = Some h \<Longrightarrow> mh_wtid h \<noteq> hr \<Longrightarrow> \<not> read_conflict r h
    \<Longrightarrow> mv_step s (set_pc i (M_scan hr r (Some (mh_wtid h))) s)"
| scan_fail: "mv_pc s i = M_scan hr r pos \<Longrightarrow> mv_step s (set_pc i M_idle s)"
| validate: "mv_pc s i = M_scan hr r pos \<Longrightarrow> next_version pos (mv_chain s) = Some h \<Longrightarrow> mh_wtid h = hr
    \<Longrightarrow> mv_step s (set_pc i M_idle (s\<lparr>mv_valid := insert (hr, r) (mv_valid s)\<rparr>))"
| raise: "mv_step s (s\<lparr>mv_chain := upd_version w (update_rtid r) (mv_chain s)\<rparr>)"
| flat: "mv_step s (s\<lparr>mv_chain :=
      upd_version w (\<lambda>h. if mh_status h = COMMITTED_DELTA then h\<lparr>mh_status := COMMITTED, mh_v := x\<rparr> else h) (mv_chain s)\<rparr>)"

definition mv_start :: "mv_object \<Rightarrow> mv_state" where
  "mv_start ob = \<lparr>mv_chain = mo_chain ob, mv_pc = (\<lambda>i. M_idle), mv_valid = {}\<rparr>"

subsection \<open>Chains\<close>

definition chain_sorted :: "mv_history list \<Rightarrow> bool" where
  "chain_sorted = sorted_wrt (\<lambda>a b. mh_wtid b < mh_wtid a)"

lemma bit_mv [simp]:
  "bit ABORTED n \<longleftrightarrow> n = 5" "bit COMMITTED n \<longleftrightarrow> n = 2" "bit PENDING n \<longleftrightarrow> n = 1" "bit DELTA n \<longleftrightarrow> n = 3" "bit DELETED n \<longleftrightarrow> n = 0"
proof -
  have c: "ABORTED = 2 ^ 5" "COMMITTED = 2 ^ 2" "PENDING = 2 ^ 1" "DELTA = 2 ^ 3" "DELETED = 2 ^ 0" by (simp_all add: mv_consts)
  show "bit ABORTED n \<longleftrightarrow> n = 5" "bit COMMITTED n \<longleftrightarrow> n = 2" "bit PENDING n \<longleftrightarrow> n = 1" "bit DELTA n \<longleftrightarrow> n = 3" "bit DELETED n \<longleftrightarrow> n = 0"
    by (simp_all only: c bit_exp_iff possible_bit_word) auto
qed

lemma and_bit32_iff: "v AND m \<noteq> 0 \<longleftrightarrow> bit v k" "v AND m = m \<longleftrightarrow> bit v k" if "\<And>n. bit m n \<longleftrightarrow> n = k" for v m :: u32
proof -
  have "v AND m = (if bit v k then m else 0)" by (rule bit_word_eqI) (auto simp: bit_and_iff that)
  moreover have "m \<noteq> 0" using that [of k] by auto
  ultimately show "v AND m \<noteq> 0 \<longleftrightarrow> bit v k" "v AND m = m \<longleftrightarrow> bit v k" by auto
qed

abbreviation committed :: "mv_history \<Rightarrow> bool" where "committed h \<equiv> bit (mh_status h) 2"
abbreviation aborted :: "mv_history \<Rightarrow> bool" where "aborted h \<equiv> bit (mh_status h) 5"

lemma status_is_bit: "status_is COMMITTED h \<longleftrightarrow> committed h" "status_is ABORTED h \<longleftrightarrow> aborted h"
  by (simp_all add: status_is_def and_bit32_iff)

lemma sorted_inj: "chain_sorted c \<Longrightarrow> h \<in> set c \<Longrightarrow> h' \<in> set c \<Longrightarrow> mh_wtid h = mh_wtid h' \<Longrightarrow> h = h'"
  by (induction c) (auto simp: chain_sorted_def)

lemma version_atD: "version_at w c = Some h \<Longrightarrow> h \<in> set c \<and> mh_wtid h = w"
  by (auto simp: version_at_def find_Some_iff)

lemma version_at_sorted: "chain_sorted c \<Longrightarrow> h \<in> set c \<Longrightarrow> version_at (mh_wtid h) c = Some h"
  by (induction c) (auto simp: chain_sorted_def version_at_def)

lemma set_upd_version: "h \<in> set (upd_version w f c) \<longleftrightarrow> (\<exists>g\<in>set c. h = (if mh_wtid g = w then f g else g))"
  unfolding upd_version_def set_map by (simp only: image_iff)

lemma sorted_upd: "(\<And>h. mh_wtid (f h) = mh_wtid h) \<Longrightarrow> chain_sorted (upd_version w f c) = chain_sorted c"
proof -
  assume "\<And>h. mh_wtid (f h) = mh_wtid h"
  then have "mh_wtid (if mh_wtid h = w then f h else h) = mh_wtid h" for h by simp
  then show ?thesis by (simp only: chain_sorted_def upd_version_def sorted_wrt_map)
qed

lemma set_link: "set (link_version hw c) = insert hw (set c)"
  unfolding link_version_def using takeWhile_dropWhile_id [of _ c] by (metis Un_insert_right list.simps(15) set_append)

lemma sorted_link: "chain_sorted c \<Longrightarrow> mh_wtid hw \<notin> mh_wtid ` set c \<Longrightarrow> chain_sorted (link_version hw c)"
proof (induction c)
  case Nil
  then show ?case by (simp add: chain_sorted_def link_version_def)
next
  case (Cons h c)
  then have "mh_wtid h \<noteq> mh_wtid hw" by auto
  then show ?case
    using Cons set_link [of hw c] by (cases "mh_wtid h > mh_wtid hw") (auto simp: chain_sorted_def link_version_def)
qed

text \<open>The next version is the newest of those not passed.\<close>

lemma next_versionD:
  assumes "chain_sorted c" "next_version pos c = Some h"
  shows "h \<in> set c" "\<not> passed pos (mh_wtid h)" "\<And>g. g \<in> set c \<Longrightarrow> \<not> passed pos (mh_wtid g) \<Longrightarrow> mh_wtid g \<le> mh_wtid h"
proof -
  show "h \<in> set c" "\<not> passed pos (mh_wtid h)"
    using assms(2) by (auto simp: next_version_def find_Some_iff)
  show "mh_wtid g \<le> mh_wtid h" if "g \<in> set c" "\<not> passed pos (mh_wtid g)" for g
    using assms that
  proof (induction c)
    case (Cons a c)
    then show ?case by (cases "passed pos (mh_wtid a)") (auto simp: chain_sorted_def next_version_def less_imp_le)
  qed simp
qed

lemma next_versionI: "g \<in> set c \<Longrightarrow> \<not> passed pos (mh_wtid g) \<Longrightarrow> next_version pos c \<noteq> None"
  by (auto simp: next_version_def find_None_iff)

subsection \<open>Invariant\<close>

text \<open>The version a thread is installing.\<close>

fun installing :: "mv_pc \<Rightarrow> u64 option" where
  "installing (M_walk t p) = Some t"
| "installing (M_walked t p) = Some t"
| "installing (M_checked t) = Some t"
| "installing _ = None"

fun pos_ok :: "mv_pc \<Rightarrow> bool" where
  "pos_ok (M_walk t p) = (p \<le> t)"
| "pos_ok (M_walked t p) = (p < t)"
| "pos_ok _ = True"

definition owners_inv :: "mv_state \<Rightarrow> bool" where
  "owners_inv s \<longleftrightarrow> (\<forall>i. pos_ok (mv_pc s i)) \<and>
     (\<forall>i t. installing (mv_pc s i) = Some t \<longrightarrow> (\<exists>h\<in>set (mv_chain s). mh_wtid h = t)) \<and>
     (\<forall>i t h. installing (mv_pc s i) = Some t \<longrightarrow> h \<in> set (mv_chain s) \<longrightarrow> mh_wtid h = t \<longrightarrow> \<not> committed h \<and> \<not> aborted h) \<and>
     (\<forall>i j t. installing (mv_pc s i) = Some t \<longrightarrow> installing (mv_pc s j) = Some t \<longrightarrow> i = j)"

text \<open>The writer of version \<open>t\<close> has still to pass version \<open>hr\<close>.\<close>

definition above :: "mv_state \<Rightarrow> u64 \<Rightarrow> u64 \<Rightarrow> bool" where
  "above s hr t \<longleftrightarrow> (\<exists>i p. hr < p \<and> (mv_pc s i = M_walk t p \<or> mv_pc s i = M_walked t p))"

definition doomed :: "mv_state \<Rightarrow> u64 \<Rightarrow> u64 \<Rightarrow> u64 option \<Rightarrow> bool" where
  "doomed s hr r pos \<longleftrightarrow> (\<exists>h\<in>set (mv_chain s). committed h \<and> \<not> aborted h \<and> hr < mh_wtid h \<and> mh_wtid h < r \<and> \<not> passed pos (mh_wtid h))"

definition clean :: "mv_state \<Rightarrow> u64 \<Rightarrow> u64 \<Rightarrow> u64 option \<Rightarrow> bool" where
  "clean s hr r pos \<longleftrightarrow> (\<forall>h. h \<in> set (mv_chain s) \<longrightarrow> hr < mh_wtid h \<longrightarrow> mh_wtid h < r \<longrightarrow> passed pos (mh_wtid h) \<longrightarrow>
     \<not> committed h \<and> (aborted h \<or> above s hr (mh_wtid h)))"

definition read_version :: "mv_state \<Rightarrow> u64 \<Rightarrow> u64 \<Rightarrow> bool" where
  "read_version s hr r \<longleftrightarrow> (\<exists>h\<in>set (mv_chain s). mh_wtid h = hr \<and> committed h \<and> r \<le> mh_rtid h)"

definition read_inv :: "mv_state \<Rightarrow> u64 \<Rightarrow> u64 \<Rightarrow> u64 option \<Rightarrow> bool" where
  "read_inv s hr r pos \<longleftrightarrow> read_version s hr r \<and> (doomed s hr r pos \<or> clean s hr r pos)"

text \<open>A validated read is one that has passed everything above the version it read.\<close>

definition mv_inv :: "mv_state \<Rightarrow> bool" where
  "mv_inv s \<longleftrightarrow> chain_sorted (mv_chain s) \<and> owners_inv s \<and> (\<forall>h. h \<in> set (mv_chain s) \<longrightarrow> committed h \<longrightarrow> \<not> aborted h) \<and>
     (\<forall>i hr r pos. mv_pc s i = M_scan hr r pos \<longrightarrow> read_inv s hr r pos) \<and>
     (\<forall>hr r. (hr, r) \<in> mv_valid s \<longrightarrow> read_inv s hr r (Some hr))"

lemma mv_invD:
  assumes "mv_inv s"
  shows "chain_sorted (mv_chain s)" "owners_inv s" "\<And>h. h \<in> set (mv_chain s) \<Longrightarrow> committed h \<Longrightarrow> \<not> aborted h"
    "\<And>i hr r pos. mv_pc s i = M_scan hr r pos \<Longrightarrow> read_inv s hr r pos" "\<And>hr r. (hr, r) \<in> mv_valid s \<Longrightarrow> read_inv s hr r (Some hr)"
  using assms by (auto simp: mv_inv_def)

lemma ownersD:
  assumes "owners_inv s"
  shows "pos_ok (mv_pc s i)" "installing (mv_pc s i) = Some t \<Longrightarrow> \<exists>h\<in>set (mv_chain s). mh_wtid h = t"
    "installing (mv_pc s i) = Some t \<Longrightarrow> h \<in> set (mv_chain s) \<Longrightarrow> mh_wtid h = t \<Longrightarrow> \<not> committed h \<and> \<not> aborted h"
    "installing (mv_pc s i) = Some t \<Longrightarrow> installing (mv_pc s j) = Some t \<Longrightarrow> i = j"
  using assms unfolding owners_inv_def by blast+

lemma step_inv:
  assumes "mv_inv s" "\<And>hr r pos. read_inv s hr r pos \<Longrightarrow> read_inv s' hr r pos"
    and "chain_sorted (mv_chain s')" "owners_inv s'" "\<And>h. h \<in> set (mv_chain s') \<Longrightarrow> committed h \<Longrightarrow> \<not> aborted h"
    and "\<And>i hr r pos. mv_pc s' i = M_scan hr r pos \<Longrightarrow> mv_pc s i = M_scan hr r pos \<or> read_inv s' hr r pos"
    and "\<And>hr r. (hr, r) \<in> mv_valid s' \<Longrightarrow> (hr, r) \<in> mv_valid s \<or> read_inv s' hr r (Some hr)"
  shows "mv_inv s'"
  unfolding mv_inv_def using assms mv_invD(4,5) [OF assms(1)] by blast

lemma owners_pc:
  assumes "owners_inv s" "pos_ok c" "installing c = installing (mv_pc s i) \<or> installing c = None"
  shows "owners_inv (set_pc i c s)"
proof -
  let ?s = "set_pc i c s"
  have inst: "installing (mv_pc s k) = Some t" if "installing (mv_pc ?s k) = Some t" for k t
    using that assms(3) by (cases "k = i") auto
  note o = ownersD [OF assms(1)]
  show ?thesis
    unfolding owners_inv_def
  proof (intro conjI allI impI)
    show "pos_ok (mv_pc ?s k)" for k using o(1) assms(2) by simp
    show "\<exists>h\<in>set (mv_chain ?s). mh_wtid h = t" if "installing (mv_pc ?s k) = Some t" for k t
      using o(2) [OF inst [OF that]] by simp
    show "\<not> committed h" "\<not> aborted h"
      if "installing (mv_pc ?s k) = Some t" "h \<in> set (mv_chain ?s)" "mh_wtid h = t" for k t h
      using o(3) [OF inst [OF that(1)]] that(2,3) by simp_all
    show "j = k" if "installing (mv_pc ?s j) = Some t" "installing (mv_pc ?s k) = Some t" for j k t
      using o(4) [OF inst [OF that(1)] inst [OF that(2)]] .
  qed
qed

lemma read_inv_final: "read_inv s hr r (Some hr) \<longleftrightarrow> read_version s hr r \<and> clean s hr r (Some hr)"
  by (auto simp: read_inv_def doomed_def passed_def)

text \<open>A read is undisturbed when the versions stay and every writer above the version read stays above.\<close>

lemma read_inv_pc:
  assumes "read_inv s hr r pos" "\<And>t. t < r \<Longrightarrow> read_version s hr r \<Longrightarrow> above s hr t \<Longrightarrow> above (set_pc i c s) hr t"
  shows "read_inv (set_pc i c s) hr r pos"
  using assms by (auto simp: read_inv_def read_version_def doomed_def clean_def)

lemma above_pc:
  assumes "above s hr t" "\<forall>t p. mv_pc s i \<noteq> M_walk t p \<and> mv_pc s i \<noteq> M_walked t p"
  shows "above (set_pc i c s) hr t"
proof -
  obtain j p where j: "hr < p" "mv_pc s j = M_walk t p \<or> mv_pc s j = M_walked t p" using assms(1) by (auto simp: above_def)
  then have "j \<noteq> i" using assms(2) by auto
  then have "mv_pc (set_pc i c s) j = mv_pc s j" by simp
  then show ?thesis using j unfolding above_def by metis
qed

text \<open>Steps that keep the timestamps and the commit and abort flags of all versions.\<close>

definition same_flags :: "mv_history list \<Rightarrow> mv_history list \<Rightarrow> bool" where
  "same_flags c c' \<longleftrightarrow> list_all2 (\<lambda>h h'. mh_wtid h' = mh_wtid h \<and> committed h' = committed h \<and> aborted h' = aborted h \<and> mh_rtid h \<le> mh_rtid h') c c'"

lemma same_flags_upd:
  assumes "\<And>h. mh_wtid (f h) = mh_wtid h \<and> committed (f h) = committed h \<and> aborted (f h) = aborted h \<and> mh_rtid h \<le> mh_rtid (f h)"
  shows "same_flags c (upd_version w f c)"
  using assms by (induction c) (auto simp: same_flags_def upd_version_def)

lemma same_flagsD:
  assumes "same_flags c c'"
  shows "h' \<in> set c' \<Longrightarrow> \<exists>h\<in>set c. mh_wtid h' = mh_wtid h \<and> committed h' = committed h \<and> aborted h' = aborted h \<and> mh_rtid h \<le> mh_rtid h'"
    "h \<in> set c \<Longrightarrow> \<exists>h'\<in>set c'. mh_wtid h' = mh_wtid h \<and> committed h' = committed h \<and> aborted h' = aborted h \<and> mh_rtid h \<le> mh_rtid h'"
  using assms unfolding same_flags_def by (induction rule: list_all2_induct) auto

lemma same_flags_sorted: "same_flags c c' \<Longrightarrow> chain_sorted c \<Longrightarrow> chain_sorted c'"
proof -
  assume a: "same_flags c c'" "chain_sorted c"
  have "map mh_wtid c' = map mh_wtid c" using a(1) by (auto simp: same_flags_def list_all2_conv_all_nth intro: nth_equalityI)
  then have "sorted_wrt (\<lambda>a b. b < a) (map mh_wtid c')" using a(2) by (simp add: chain_sorted_def sorted_wrt_map)
  then show ?thesis by (simp add: chain_sorted_def sorted_wrt_map)
qed

lemma same_flags_read:
  assumes "same_flags (mv_chain s) c'" "read_inv s hr r pos"
  shows "read_inv (s\<lparr>mv_chain := c'\<rparr>) hr r pos"
proof -
  let ?s = "s\<lparr>mv_chain := c'\<rparr>"
  note d = same_flagsD [OF assms(1)]
  have ab: "above ?s hr t = above s hr t" for t by (simp add: above_def)
  have v: "read_version s hr r" and w: "doomed s hr r pos \<or> clean s hr r pos" using assms(2) by (auto simp: read_inv_def)
  obtain h where h: "h \<in> set (mv_chain s)" "mh_wtid h = hr" "committed h" "r \<le> mh_rtid h" using v by (auto simp: read_version_def)
  with d(2) [OF h(1)] have "read_version ?s hr r" by (auto simp: read_version_def)
  moreover have "doomed ?s hr r pos" if dm: "doomed s hr r pos"
  proof -
    obtain h where h: "h \<in> set (mv_chain s)" "committed h" "\<not> aborted h" "hr < mh_wtid h" "mh_wtid h < r" "\<not> passed pos (mh_wtid h)"
      using dm by (auto simp: doomed_def)
    obtain h' where "h' \<in> set c'" "mh_wtid h' = mh_wtid h" "committed h' = committed h" "aborted h' = aborted h"
      using d(2) [OF h(1)] by blast
    with h show ?thesis unfolding doomed_def by (intro bexI [of _ h']) simp_all
  qed
  moreover have "clean ?s hr r pos" if c: "clean s hr r pos"
    unfolding clean_def
  proof (intro allI impI)
    fix h' assume h': "h' \<in> set (mv_chain ?s)" "hr < mh_wtid h'" "mh_wtid h' < r" "passed pos (mh_wtid h')"
    obtain h where "h \<in> set (mv_chain s)" "mh_wtid h' = mh_wtid h" "committed h' = committed h" "aborted h' = aborted h"
      using d(1) h'(1) by auto
    with c h' show "\<not> committed h' \<and> (aborted h' \<or> above ?s hr (mh_wtid h'))" unfolding clean_def ab by simp
  qed
  ultimately show ?thesis using w by (auto simp: read_inv_def)
qed

lemma same_flags_owners:
  assumes "same_flags (mv_chain s) c'" "owners_inv s"
  shows "owners_inv (s\<lparr>mv_chain := c'\<rparr>)"
proof -
  note d = same_flagsD [OF assms(1)] and o = ownersD [OF assms(2)]
  have "\<exists>h'\<in>set c'. mh_wtid h' = t" if inst: "installing (mv_pc s i) = Some t" for i t
  proof -
    obtain h where "h \<in> set (mv_chain s)" "mh_wtid h = t" using o(2) [OF inst] by blast
    then show ?thesis using d(2) [of h] by auto
  qed
  moreover have "\<not> committed h \<and> \<not> aborted h" if "installing (mv_pc s i) = Some t" "h \<in> set c'" "mh_wtid h = t" for i t h
    using d(1) [OF that(2)] o(3) [OF that(1)] that(3) by auto
  ultimately show ?thesis using o(1,4) unfolding owners_inv_def by simp
qed

lemma same_flags_inv:
  assumes "mv_inv s" "same_flags (mv_chain s) c'"
  shows "mv_inv (s\<lparr>mv_chain := c'\<rparr>)"
proof (rule step_inv [OF assms(1)])
  note i = mv_invD [OF assms(1)]
  show "chain_sorted (mv_chain (s\<lparr>mv_chain := c'\<rparr>))" using same_flags_sorted [OF assms(2) i(1)] by simp
  show "owners_inv (s\<lparr>mv_chain := c'\<rparr>)" by (rule same_flags_owners [OF assms(2) i(2)])
  show "\<not> aborted h" if "h \<in> set (mv_chain (s\<lparr>mv_chain := c'\<rparr>))" "committed h" for h
    using same_flagsD(1) [OF assms(2), of h] that i(3) by auto
qed (use same_flags_read [OF assms(2)] in auto)

subsection \<open>The invariant is kept\<close>

text \<open>Steps of a thread that only move on.\<close>

lemma pc_inv:
  assumes "mv_inv s" "pos_ok c" "installing c = installing (mv_pc s i) \<or> installing c = None"
    and "\<And>hr r pos. read_inv s hr r pos \<Longrightarrow> read_inv (set_pc i c s) hr r pos"
    and "\<And>hr r pos. c = M_scan hr r pos \<Longrightarrow> read_inv (set_pc i c s) hr r pos"
  shows "mv_inv (set_pc i c s)"
proof (rule step_inv [OF assms(1)])
  show "mv_pc s k = M_scan hr r pos \<or> read_inv (set_pc i c s) hr r pos" if "mv_pc (set_pc i c s) k = M_scan hr r pos" for k hr r pos
    using that assms(5) by (cases "k = i") auto
qed (use assms mv_invD [OF assms(1)] owners_pc [OF mv_invD(2) [OF assms(1)] assms(2,3)] in auto)

lemma walk_above:
  assumes "mv_inv s" "mv_pc s i = M_walk t p" "next_version (Some p) (mv_chain s) = Some h" "\<not> write_conflict may_commute t hw h"
    and "read_version s hr r" "t' < r" "above s hr t'"
  shows "above (set_pc i (M_walked t (mh_wtid h)) s) hr t'"
proof -
  obtain j q where j: "hr < q" "mv_pc s j = M_walk t' q \<or> mv_pc s j = M_walked t' q" using assms(7) by (auto simp: above_def)
  show ?thesis
  proof (cases "j = i")
    case False
    then have "mv_pc (set_pc i (M_walked t (mh_wtid h)) s) j = mv_pc s j" by simp
    then show ?thesis using j unfolding above_def by metis
  next
    case True
    then have q: "t' = t" "q = p" using j(2) assms(2) by auto
    obtain g where g: "g \<in> set (mv_chain s)" "mh_wtid g = hr" "committed g" "r \<le> mh_rtid g" using assms(5) by (auto simp: read_version_def)
    note n = next_versionD [OF mv_invD(1) [OF assms(1)] assms(3)]
    have "hr \<le> mh_wtid h" using n(3) [OF g(1)] g(2) j(1) q(2) by (auto simp: passed_def)
    moreover have "hr \<noteq> mh_wtid h"
    proof
      assume "hr = mh_wtid h"
      then have "g = h" using sorted_inj [OF mv_invD(1) [OF assms(1)] g(1) n(1)] g(2) by simp
      then have "status_is COMMITTED h \<and> t < mh_rtid h" using g(3,4) assms(6) q(1) by (simp add: status_is_bit)
      then show False using assms(4) by (simp add: write_conflict_def)
    qed
    ultimately have "hr < mh_wtid h" by simp
    moreover have "mv_pc (set_pc i (M_walked t (mh_wtid h)) s) i = M_walked t' (mh_wtid h)" using q by simp
    ultimately show ?thesis unfolding above_def by blast
  qed
qed

lemma walk_inv:
  assumes "mv_inv s" "mv_pc s i = M_walk t p" "next_version (Some p) (mv_chain s) = Some h" "\<not> write_conflict may_commute t hw h"
  shows "mv_inv (set_pc i (M_walked t (mh_wtid h)) s)"
proof (rule pc_inv [OF assms(1)])
  have "p \<le> t" using ownersD(1) [OF mv_invD(2) [OF assms(1)], of i] assms(2) by simp
  moreover have "mh_wtid h < p" using next_versionD(2) [OF mv_invD(1) [OF assms(1)] assms(3)] by (simp add: passed_def)
  ultimately show "pos_ok (M_walked t (mh_wtid h))" by simp
  show "read_inv (set_pc i (M_walked t (mh_wtid h)) s) hr r pos" if "read_inv s hr r pos" for hr r pos
    using read_inv_pc [OF that] walk_above [OF assms] by blast
qed (use assms(2) in simp_all)

lemma walk_end_inv:
  assumes "mv_inv s" "mv_pc s i = M_walk t p" "next_version (Some p) (mv_chain s) = None"
  shows "mv_inv (set_pc i (M_checked t) s)"
proof (rule pc_inv [OF assms(1)])
  show "read_inv (set_pc i (M_checked t) s) hr r pos" if "read_inv s hr r pos" for hr r pos
  proof (rule read_inv_pc [OF that])
    fix t' assume a: "read_version s hr r" "above s hr t'"
    obtain g where g: "g \<in> set (mv_chain s)" "mh_wtid g = hr" using a(1) by (auto simp: read_version_def)
    obtain j q where j: "hr < q" "mv_pc s j = M_walk t' q \<or> mv_pc s j = M_walked t' q" using a(2) by (auto simp: above_def)
    have "passed (Some p) (mh_wtid g)" using next_versionI [OF g(1)] assms(3) by blast
    then have "j \<noteq> i" using j assms(2) g(2) by (auto simp: passed_def)
    then have "mv_pc (set_pc i (M_checked t) s) j = mv_pc s j" by simp
    then show "above (set_pc i (M_checked t) s) hr t'" using j unfolding above_def by metis
  qed
qed (use assms(2) in simp_all)

lemma walked_inv:
  assumes "mv_inv s" "mv_pc s i = M_walked t p" "version_at p (mv_chain s) = Some h"
  shows "mv_inv (set_pc i (if status_is COMMITTED h then M_checked t else M_walk t p) s)"
proof (rule pc_inv [OF assms(1)])
  let ?c = "if status_is COMMITTED h then M_checked t else M_walk t p"
  have p: "p < t" using ownersD(1) [OF mv_invD(2) [OF assms(1)], of i] assms(2) by simp
  then show "pos_ok ?c" by auto
  have h: "h \<in> set (mv_chain s)" "mh_wtid h = p" using version_atD [OF assms(3)] by auto
  show "read_inv (set_pc i ?c s) hr r pos" if ri: "read_inv s hr r pos" for hr r pos
  proof (cases "committed h \<and> hr < p \<and> p < r \<and> \<not> passed pos p")
    case True
    then have "doomed (set_pc i ?c s) hr r pos" unfolding doomed_def using h mv_invD(3) [OF assms(1) h(1)] by auto
    then show ?thesis using ri by (simp add: read_inv_def read_version_def)
  next
    case False
    have "doomed (set_pc i ?c s) hr r pos \<longleftrightarrow> doomed s hr r pos" by (simp add: doomed_def)
    moreover have "clean (set_pc i ?c s) hr r pos" if cl: "clean s hr r pos"
      unfolding clean_def
    proof (intro allI impI)
      fix g assume g: "g \<in> set (mv_chain (set_pc i ?c s))" "hr < mh_wtid g" "mh_wtid g < r" "passed pos (mh_wtid g)"
      then have c: "\<not> committed g" "aborted g \<or> above s hr (mh_wtid g)" using cl by (simp_all add: clean_def)
      have "above (set_pc i ?c s) hr (mh_wtid g)" if "above s hr (mh_wtid g)"
      proof -
        obtain j q where j: "hr < q" "mv_pc s j = M_walk (mh_wtid g) q \<or> mv_pc s j = M_walked (mh_wtid g) q"
          using \<open>above s hr (mh_wtid g)\<close> by (auto simp: above_def)
        show ?thesis
        proof (cases "j = i")
          case True
          then have q: "mh_wtid g = t" "q = p" using j(2) assms(2) by auto
          have "\<not> committed h"
          proof
            assume "committed h"
            then have "passed pos p" using False j(1) q p g(3) by auto
            then have "\<not> committed h" using cl h j(1) q p g(3) unfolding clean_def by (metis less_trans)
            then show False using \<open>committed h\<close> by simp
          qed
          then have "mv_pc (set_pc i ?c s) i = M_walk (mh_wtid g) p" using q by (simp add: status_is_bit)
          then show ?thesis using j(1) q(2) unfolding above_def by blast
        next
          case False
          then have "mv_pc (set_pc i ?c s) j = mv_pc s j" by simp
          then show ?thesis using j unfolding above_def by metis
        qed
      qed
      then show "\<not> committed g \<and> (aborted g \<or> above (set_pc i ?c s) hr (mh_wtid g))" using c by auto
    qed
    ultimately show ?thesis using ri by (auto simp: read_inv_def read_version_def)
  qed
qed (use assms(2) in \<open>simp_all split: if_splits\<close>)

text \<open>Steps that settle the status of the version a thread is installing.\<close>

lemma settle_inv:
  assumes "mv_inv s" "installing (mv_pc s i) = Some t" "\<And>h. mh_wtid (f h) = mh_wtid h"
    and "\<And>h. h \<in> set (mv_chain s) \<Longrightarrow> mh_wtid h = t \<Longrightarrow> committed (f h) \<Longrightarrow> \<not> aborted (f h)"
    and "\<And>hr r pos. read_inv s hr r pos \<Longrightarrow>
      read_inv (set_pc i M_idle (s\<lparr>mv_chain := upd_version t f (mv_chain s)\<rparr>)) hr r pos"
  shows "mv_inv (set_pc i M_idle (s\<lparr>mv_chain := upd_version t f (mv_chain s)\<rparr>))" (is "mv_inv ?s")
proof (rule step_inv [OF assms(1)])
  note o = ownersD [OF mv_invD(2) [OF assms(1)]]
  show "chain_sorted (mv_chain ?s)" using mv_invD(1) [OF assms(1)] sorted_upd [of f, OF assms(3)] by simp
  have inst: "j \<noteq> i \<and> installing (mv_pc s j) = Some u \<and> u \<noteq> t" if "installing (mv_pc ?s j) = Some u" for j u
    using that o(4) [OF assms(2)] by (cases "j = i") auto
  show "owners_inv ?s"
    unfolding owners_inv_def
  proof (intro conjI allI impI)
    show "pos_ok (mv_pc ?s j)" for j using o(1) by simp
    show "\<exists>h\<in>set (mv_chain ?s). mh_wtid h = u" if u: "installing (mv_pc ?s j) = Some u" for j u
    proof -
      obtain h where h: "h \<in> set (mv_chain s)" "mh_wtid h = u" using o(2) inst [OF u] by blast
      then have "h \<in> set (mv_chain ?s)" using inst [OF u] by (auto simp: set_upd_version intro!: bexI [of _ h])
      then show ?thesis using h(2) by blast
    qed
    show "\<not> committed h" "\<not> aborted h" if u: "installing (mv_pc ?s j) = Some u" "h \<in> set (mv_chain ?s)" "mh_wtid h = u" for j u h
    proof -
      obtain g where g: "g \<in> set (mv_chain s)" "h = (if mh_wtid g = t then f g else g)" using u(2) by (auto simp: set_upd_version)
      then have "h = g" using u(3) inst [OF u(1)] assms(3) by (auto split: if_splits)
      then show "\<not> committed h" "\<not> aborted h" using o(3) [of j u h] inst [OF u(1)] g(1) u(3) by auto
    qed
    show "j = k" if "installing (mv_pc ?s j) = Some u" "installing (mv_pc ?s k) = Some u" for j k u
      using o(4) inst [OF that(1)] inst [OF that(2)] by blast
  qed
  show "\<not> aborted h" if "h \<in> set (mv_chain ?s)" "committed h" for h
    using that mv_invD(3) [OF assms(1)] assms(4) by (auto simp: set_upd_version split: if_splits)
qed (use assms(5) in \<open>auto split: if_splits\<close>)

lemma upd_read:
  assumes "mv_inv s" "installing (mv_pc s i) = Some t" "read_inv s hr r pos"
  shows "read_version (set_pc i M_idle (s\<lparr>mv_chain := upd_version t f (mv_chain s)\<rparr>)) hr r"
    "doomed s hr r pos \<Longrightarrow> doomed (set_pc i M_idle (s\<lparr>mv_chain := upd_version t f (mv_chain s)\<rparr>)) hr r pos"
proof -
  have keep: "h \<in> set (upd_version t f (mv_chain s))" if "h \<in> set (mv_chain s)" "committed h" for h
    using ownersD(3) [OF mv_invD(2) [OF assms(1)] assms(2) that(1)] that by (auto simp: set_upd_version intro!: bexI [of _ h])
  show "read_version (set_pc i M_idle (s\<lparr>mv_chain := upd_version t f (mv_chain s)\<rparr>)) hr r"
    using assms(3) keep by (auto simp: read_inv_def read_version_def)
  show "doomed s hr r pos \<Longrightarrow> doomed (set_pc i M_idle (s\<lparr>mv_chain := upd_version t f (mv_chain s)\<rparr>)) hr r pos"
    using keep by (auto simp: doomed_def)
qed

lemma upd_above:
  assumes "mv_inv s" "installing (mv_pc s i) = Some t" "above s hr u" "u \<noteq> t"
  shows "above (set_pc i M_idle (s\<lparr>mv_chain := c\<rparr>)) hr u"
proof -
  obtain j q where j: "hr < q" "mv_pc s j = M_walk u q \<or> mv_pc s j = M_walked u q" using assms(3) by (auto simp: above_def)
  then have "j \<noteq> i" using assms(2,4) by auto
  then have "mv_pc (set_pc i M_idle (s\<lparr>mv_chain := c\<rparr>)) j = mv_pc s j" by simp
  then show ?thesis using j unfolding above_def by metis
qed

lemma give_up_inv:
  assumes "mv_inv s" "mv_pc s i \<in> {M_walk t p, M_walked t p, M_checked t}" "reason AND ABORTED \<noteq> 0" "reason AND COMMITTED = 0"
  shows "mv_inv (set_pc i M_idle (s\<lparr>mv_chain := upd_version t (\<lambda>h. h\<lparr>mh_status := reason\<rparr>) (mv_chain s)\<rparr>))" (is "mv_inv ?s")
proof (rule settle_inv [OF assms(1)])
  show t: "installing (mv_pc s i) = Some t" using assms(2) by auto
  have bits: "bit reason 5" "\<not> bit reason 2" using assms(3,4) and_bit32_iff(1) [of ABORTED 5] and_bit32_iff(1) [of COMMITTED 2] by auto
  show "read_inv ?s hr r pos" if ri: "read_inv s hr r pos" for hr r pos
  proof -
    have "clean ?s hr r pos" if cl: "clean s hr r pos"
      unfolding clean_def
    proof (intro allI impI)
      fix h assume h: "h \<in> set (mv_chain ?s)" "hr < mh_wtid h" "mh_wtid h < r" "passed pos (mh_wtid h)"
      obtain g where g: "g \<in> set (mv_chain s)" "h = (if mh_wtid g = t then g\<lparr>mh_status := reason\<rparr> else g)"
        using h(1) by (auto simp: set_upd_version)
      show "\<not> committed h \<and> (aborted h \<or> above ?s hr (mh_wtid h))"
      proof (cases "mh_wtid g = t")
        case True
        then show ?thesis using g(2) bits by simp
      next
        case False
        then have e: "h = g" using g(2) by simp
        then have "\<not> committed h \<and> (aborted h \<or> above s hr (mh_wtid h))" using cl g(1) h(2-4) by (simp add: clean_def)
        then show ?thesis using upd_above [OF assms(1) t] False e by blast
      qed
    qed
    then show ?thesis using upd_read [OF assms(1) t ri] ri unfolding read_inv_def by blast
  qed
qed (use assms(3,4) and_bit32_iff(1) [of COMMITTED 2 reason] in auto)

lemma install_inv:
  assumes "mv_inv s" "mv_pc s i = M_checked t"
  shows "mv_inv (set_pc i M_idle (s\<lparr>mv_chain :=
    upd_version t (\<lambda>h. h\<lparr>mh_status := (mh_status h AND NOT PENDING) OR COMMITTED\<rparr>) (mv_chain s)\<rparr>))" (is "mv_inv ?s")
proof (rule settle_inv [OF assms(1)])
  show t: "installing (mv_pc s i) = Some t" using assms(2) by simp
  note o = ownersD [OF mv_invD(2) [OF assms(1)]]
  show "\<not> aborted (h\<lparr>mh_status := (mh_status h AND NOT PENDING) OR COMMITTED\<rparr>)"
    if "h \<in> set (mv_chain s)" "mh_wtid h = t" for h
    using o(3) [OF t that] by (simp add: bit_or_iff bit_and_iff)
  show "read_inv ?s hr r pos" if ri: "read_inv s hr r pos" for hr r pos
  proof (cases "doomed s hr r pos")
    case True
    then show ?thesis using upd_read [OF assms(1) t ri] by (simp add: read_inv_def)
  next
    case False
    then have cl: "clean s hr r pos" using ri by (simp add: read_inv_def)
    obtain v where v: "v \<in> set (mv_chain s)" "mh_wtid v = t" using o(2) [OF t] by blast
    have no: "\<not> above s hr t"
    proof
      assume "above s hr t"
      then obtain j q where j: "mv_pc s j = M_walk t q \<or> mv_pc s j = M_walked t q" by (auto simp: above_def)
      then have "installing (mv_pc s j) = Some t" by auto
      then show False using o(4) [OF t] j assms(2) by auto
    qed
    show ?thesis
    proof (cases "hr < t \<and> t < r \<and> \<not> passed pos t")
      case True
      define v' where "v' = v\<lparr>mh_status := (mh_status v AND NOT PENDING) OR COMMITTED\<rparr>"
      have "v' \<in> set (mv_chain ?s)" using v by (auto simp: set_upd_version v'_def intro!: bexI [of _ v])
      moreover have "committed v'" "\<not> aborted v'" "mh_wtid v' = t" using o(3) [OF t v] v by (auto simp: v'_def bit_or_iff bit_and_iff)
      ultimately have "doomed ?s hr r pos" using True unfolding doomed_def by blast
      then show ?thesis using upd_read(1) [OF assms(1) t ri] by (simp add: read_inv_def)
    next
      case False
      then have out: "\<not> (hr < t \<and> t < r \<and> passed pos t)" using cl v no o(3) [OF t v] unfolding clean_def by blast
      have "clean ?s hr r pos"
        unfolding clean_def
      proof (intro allI impI)
        fix h assume h: "h \<in> set (mv_chain ?s)" "hr < mh_wtid h" "mh_wtid h < r" "passed pos (mh_wtid h)"
        obtain g where g: "g \<in> set (mv_chain s)"
            "h = (if mh_wtid g = t then g\<lparr>mh_status := (mh_status g AND NOT PENDING) OR COMMITTED\<rparr> else g)"
          using h(1) by (auto simp: set_upd_version)
        then have "h = g" "mh_wtid g \<noteq> t" using out h(2-4) by (auto split: if_splits)
        then have "\<not> committed h \<and> (aborted h \<or> above s hr (mh_wtid h))" using cl g(1) h(2-4) by (simp add: clean_def)
        then show "\<not> committed h \<and> (aborted h \<or> above ?s hr (mh_wtid h))"
          using upd_above [OF assms(1) t] \<open>h = g\<close> \<open>mh_wtid g \<noteq> t\<close> by blast
      qed
      then show ?thesis using upd_read(1) [OF assms(1) t ri] by (simp add: read_inv_def)
    qed
  qed
qed simp

text \<open>Steps of readers.\<close>

lemma reader_pc_inv:
  assumes "mv_inv s" "\<forall>t p. mv_pc s i \<noteq> M_walk t p \<and> mv_pc s i \<noteq> M_walked t p" "installing c = None" "pos_ok c"
    and "\<And>hr r pos. c = M_scan hr r pos \<Longrightarrow> read_inv (set_pc i c s) hr r pos"
  shows "mv_inv (set_pc i c s)"
proof (rule pc_inv [OF assms(1)])
  show "read_inv (set_pc i c s) hr r pos" if "read_inv s hr r pos" for hr r pos
    by (rule read_inv_pc [OF that]) (rule above_pc [OF _ assms(2)])
qed (use assms in auto)

lemma update_rtid_flags: "same_flags c (upd_version w (update_rtid r) c)"
  by (rule same_flags_upd) (auto simp: update_rtid_def less_imp_le)

lemma mark_inv:
  assumes "mv_inv s" "mv_pc s i = M_idle" "h \<in> set (mv_chain s)" "status_is COMMITTED h"
  shows "mv_inv (set_pc i (M_scan (mh_wtid h) r None) (s\<lparr>mv_chain := upd_version (mh_wtid h) (update_rtid r) (mv_chain s)\<rparr>))"
    (is "mv_inv (set_pc i ?c ?s)")
proof (rule reader_pc_inv)
  show "mv_inv ?s" by (rule same_flags_inv [OF assms(1) update_rtid_flags])
  have "update_rtid r h \<in> set (upd_version (mh_wtid h) (update_rtid r) (mv_chain s))"
    using assms(3) by (auto simp: set_upd_version intro!: bexI [of _ h])
  moreover have "mh_wtid (update_rtid r h) = mh_wtid h" "committed (update_rtid r h)" "r \<le> mh_rtid (update_rtid r h)"
    using assms(4) by (auto simp: update_rtid_def status_is_bit)
  ultimately have "read_version (set_pc i ?c ?s) (mh_wtid h) r" unfolding read_version_def by auto
  moreover have "clean (set_pc i ?c ?s) (mh_wtid h) r None" by (simp add: clean_def passed_def)
  ultimately show "read_inv (set_pc i ?c ?s) hr r' pos" if "?c = M_scan hr r' pos" for hr r' pos
    using that by (simp add: read_inv_def)
qed (use assms(2) in simp_all)

text \<open>A reader that goes on to the next version has passed that version and no other more.\<close>

lemma passed_next:
  assumes "chain_sorted c" "next_version pos c = Some h" "g \<in> set c"
  shows "passed (Some (mh_wtid h)) (mh_wtid g) \<longleftrightarrow> passed pos (mh_wtid g) \<or> g = h"
proof
  note n = next_versionD [OF assms(1,2)]
  {
    assume "passed (Some (mh_wtid h)) (mh_wtid g)"
    then have le: "mh_wtid h \<le> mh_wtid g" by (simp add: passed_def)
    show "passed pos (mh_wtid g) \<or> g = h"
    proof (cases "passed pos (mh_wtid g)")
      case False
      then have "mh_wtid g = mh_wtid h" using n(3) [OF assms(3)] le by (simp add: order_antisym)
      then show ?thesis using sorted_inj [OF assms(1,3) n(1)] by simp
    qed simp
  }
  assume "passed pos (mh_wtid g) \<or> g = h"
  then show "passed (Some (mh_wtid h)) (mh_wtid g)"
  proof
    assume "passed pos (mh_wtid g)"
    with n(2) show ?thesis by (cases pos) (auto simp: passed_def)
  qed (simp add: passed_def)
qed

lemma scan_doomed:
  assumes "chain_sorted (mv_chain s)" "next_version pos (mv_chain s) = Some h" "mh_wtid h < r \<longrightarrow> aborted h" "doomed s hr r pos"
  shows "doomed s hr r (Some (mh_wtid h))"
proof -
  obtain g where g: "g \<in> set (mv_chain s)" "committed g" "\<not> aborted g" "hr < mh_wtid g" "mh_wtid g < r" "\<not> passed pos (mh_wtid g)"
    using assms(4) unfolding doomed_def by blast
  have "g \<noteq> h" using assms(3) g(3,5) by blast
  then have "\<not> passed (Some (mh_wtid h)) (mh_wtid g)" using passed_next [OF assms(1,2) g(1)] g(6) by blast
  with g show ?thesis unfolding doomed_def by blast
qed

lemma scan_clean:
  assumes "chain_sorted (mv_chain s)" "next_version pos (mv_chain s) = Some h" "mh_wtid h < r \<longrightarrow> aborted h \<and> \<not> committed h" "clean s hr r pos"
  shows "clean s hr r (Some (mh_wtid h))"
  unfolding clean_def
proof (intro allI impI)
  fix g assume g: "g \<in> set (mv_chain s)" "hr < mh_wtid g" "mh_wtid g < r" "passed (Some (mh_wtid h)) (mh_wtid g)"
  show "\<not> committed g \<and> (aborted g \<or> above s hr (mh_wtid g))"
  proof (cases "g = h")
    case True
    then show ?thesis using assms(3) g(3) by blast
  next
    case False
    then show ?thesis using passed_next [OF assms(1,2) g(1)] g assms(4) unfolding clean_def by blast
  qed
qed

lemma scan_inv:
  assumes "mv_inv s" "mv_pc s i = M_scan hr r pos" "next_version pos (mv_chain s) = Some h" "mh_wtid h \<noteq> hr" "\<not> read_conflict r h"
  shows "mv_inv (set_pc i (M_scan hr r (Some (mh_wtid h))) s)" (is "mv_inv (set_pc i ?c s)")
proof (rule reader_pc_inv [OF assms(1)])
  note c = mv_invD(1) [OF assms(1)]
  have "aborted h" if "mh_wtid h < r" using assms(5) that by (simp add: read_conflict_def status_is_bit)
  then have ab: "mh_wtid h < r \<longrightarrow> aborted h" "mh_wtid h < r \<longrightarrow> aborted h \<and> \<not> committed h"
    using mv_invD(3) [OF assms(1) next_versionD(1) [OF c assms(3)]] by blast+
  have "read_inv s hr r (Some (mh_wtid h))"
    using mv_invD(4) [OF assms(1,2)] scan_doomed [OF c assms(3) ab(1)] scan_clean [OF c assms(3) ab(2)] unfolding read_inv_def by blast
  then have "read_inv (set_pc i ?c s) hr r (Some (mh_wtid h))"
    by (rule read_inv_pc) (rule above_pc, use assms(2) in simp_all)
  then show "read_inv (set_pc i ?c s) hr' r' pos'" if "?c = M_scan hr' r' pos'" for hr' r' pos'
    using that by simp
qed (use assms(2) in simp_all)

lemma read_inv_valid: "read_inv (s\<lparr>mv_valid := v\<rparr>) hr r pos = read_inv s hr r pos"
  by (simp add: read_inv_def read_version_def doomed_def clean_def above_def)

lemma valid_inv:
  assumes "mv_inv s" "read_inv s hr r (Some hr)"
  shows "mv_inv (s\<lparr>mv_valid := insert (hr, r) (mv_valid s)\<rparr>)"
proof (rule step_inv [OF assms(1)])
  show "owners_inv (s\<lparr>mv_valid := insert (hr, r) (mv_valid s)\<rparr>)" using mv_invD(2) [OF assms(1)] by (simp add: owners_inv_def)
qed (use mv_invD(1,3) [OF assms(1)] assms(2) in \<open>auto simp: read_inv_valid\<close>)

lemma validate_inv:
  assumes "mv_inv s" "mv_pc s i = M_scan hr r pos" "next_version pos (mv_chain s) = Some h" "mh_wtid h = hr"
  shows "mv_inv (set_pc i M_idle (s\<lparr>mv_valid := insert (hr, r) (mv_valid s)\<rparr>))"
proof -
  note n = next_versionD [OF mv_invD(1) [OF assms(1)] assms(3)]
  have pass: "passed pos (mh_wtid g)" if "g \<in> set (mv_chain s)" "hr < mh_wtid g" for g
    using n(3) [OF that(1)] that(2) assms(4) by (metis leD)
  then have "\<not> doomed s hr r pos" unfolding doomed_def by blast
  then have "read_version s hr r" "clean s hr r pos" using mv_invD(4) [OF assms(1,2)] unfolding read_inv_def by blast+
  then have "read_inv s hr r (Some hr)" using pass unfolding read_inv_final clean_def by blast
  then have "mv_inv (s\<lparr>mv_valid := insert (hr, r) (mv_valid s)\<rparr>)" by (rule valid_inv [OF assms(1)])
  then show ?thesis by (rule reader_pc_inv) (use assms(2) in simp_all)
qed

lemma link_inv:
  assumes "mv_inv s" "mv_pc s i = M_idle" "mh_wtid hw = t" "\<not> committed hw" "\<not> aborted hw" "t \<notin> mh_wtid ` set (mv_chain s)"
  shows "mv_inv (set_pc i (M_walk t t) (s\<lparr>mv_chain := link_version hw (mv_chain s)\<rparr>))" (is "mv_inv ?s")
proof (rule step_inv [OF assms(1)])
  note o = ownersD [OF mv_invD(2) [OF assms(1)]]
  have set: "set (mv_chain ?s) = insert hw (set (mv_chain s))" by (simp add: set_link)
  show "chain_sorted (mv_chain ?s)" using sorted_link [OF mv_invD(1) [OF assms(1)]] assms(3,6) by simp
  have inst: "j = i \<and> u = t \<or> j \<noteq> i \<and> installing (mv_pc s j) = Some u \<and> u \<noteq> t" if "installing (mv_pc ?s j) = Some u" for j u
    using that o(2) [of j u] assms(6) by (cases "j = i") auto
  show "owners_inv ?s"
    unfolding owners_inv_def
  proof (intro conjI allI impI)
    show "pos_ok (mv_pc ?s j)" for j using o(1) by simp
    show "\<exists>h\<in>set (mv_chain ?s). mh_wtid h = u" if "installing (mv_pc ?s j) = Some u" for j u
      using inst [OF that] o(2) [of j u] assms(3) unfolding set by auto
    show "\<not> committed h" "\<not> aborted h" if "installing (mv_pc ?s j) = Some u" "h \<in> set (mv_chain ?s)" "mh_wtid h = u" for j u h
      using inst [OF that(1)] that(2,3) o(3) [of j u h] assms(3-6) unfolding set by (auto intro: rev_image_eqI)
    show "j = k" if "installing (mv_pc ?s j) = Some u" "installing (mv_pc ?s k) = Some u" for j k u
      using inst [OF that(1)] inst [OF that(2)] o(4) [of j u k] by auto
  qed
  have ab: "above ?s hr u" if "above s hr u" for hr u
    using above_pc [OF that, of i "M_walk t t"] assms(2) by (simp add: above_def)
  show "read_inv ?s hr r pos" if ri: "read_inv s hr r pos" for hr r pos
  proof -
    have "clean ?s hr r pos" if cl: "clean s hr r pos"
      unfolding clean_def
    proof (intro allI impI)
      fix h assume h: "h \<in> set (mv_chain ?s)" "hr < mh_wtid h" "mh_wtid h < r" "passed pos (mh_wtid h)"
      show "\<not> committed h \<and> (aborted h \<or> above ?s hr (mh_wtid h))"
      proof (cases "h = hw")
        case True
        have "mv_pc ?s i = M_walk t t" by simp
        then have "above ?s hr t" using h(2) True assms(3) unfolding above_def by blast
        then show ?thesis using True assms(3,4) by simp
      next
        case False
        then show ?thesis using cl h ab unfolding clean_def set by blast
      qed
    qed
    then show ?thesis using ri unfolding read_inv_def read_version_def doomed_def set by auto
  qed
qed (use mv_invD(3) [OF assms(1)] assms(4) in \<open>auto simp: set_link split: if_splits\<close>)

lemma new_version:
  assumes "hw = history_of_value t x \<or> hw = history_of_delta t x \<or> Some hw = status_delete (history_of_value t x)"
  shows "mh_wtid hw = t" "\<not> committed hw" "\<not> aborted hw"
proof -
  have "bit PENDING_DELTA n \<longleftrightarrow> n = 1 \<or> n = 3" for n
  proof -
    have c: "PENDING_DELTA = PENDING OR DELTA" by (simp add: mv_consts)
    show ?thesis unfolding c bit_or_iff by simp
  qed
  then show "mh_wtid hw = t" "\<not> committed hw" "\<not> aborted hw"
    using assms by (auto simp: history_of_value_def history_of_delta_def status_delete_def bit_or_iff split: if_splits)
qed

lemma flat_flags:
  "same_flags c (upd_version w (\<lambda>h. if mh_status h = COMMITTED_DELTA then h\<lparr>mh_status := COMMITTED, mh_v := x\<rparr> else h) c)"
proof -
  have c: "COMMITTED_DELTA = COMMITTED OR DELTA" by (simp add: mv_consts)
  have "bit COMMITTED_DELTA n \<longleftrightarrow> n = 2 \<or> n = 3" for n unfolding c bit_or_iff by simp
  then show ?thesis by (intro same_flags_upd) auto
qed

lemma mv_step_inv:
  assumes "mv_step s s'" "mv_inv s"
  shows "mv_inv s'"
  using assms
proof cases
  case (link i hw t x)
  show ?thesis unfolding link(1) by (rule link_inv [OF assms(2) link(2) new_version [OF link(3)] link(4)])
next
  case (walk i t p h hw may_commute)
  show ?thesis unfolding walk(1) by (rule walk_inv [OF assms(2) walk(2,3,5)])
next
  case (walk_end i t p)
  show ?thesis unfolding walk_end(1) by (rule walk_end_inv [OF assms(2) walk_end(2,3)])
next
  case (walked i t p h)
  show ?thesis unfolding walked(1) by (rule walked_inv [OF assms(2) walked(2,3)])
next
  case (give_up i t p reason)
  show ?thesis unfolding give_up(1) by (rule give_up_inv [OF assms(2) give_up(2-4)])
next
  case (install i t)
  show ?thesis unfolding install(1) by (rule install_inv [OF assms(2) install(2)])
next
  case (mark i h r)
  show ?thesis unfolding mark(1) by (rule mark_inv [OF assms(2) mark(2-4)])
next
  case (scan i hr r pos h)
  show ?thesis unfolding scan(1) by (rule scan_inv [OF assms(2) scan(2-5)])
next
  case (scan_fail i hr r pos)
  show ?thesis unfolding scan_fail(1) by (rule reader_pc_inv [OF assms(2)]) (simp_all add: scan_fail(2))
next
  case (validate i hr r pos h)
  show ?thesis unfolding validate(1) by (rule validate_inv [OF assms(2) validate(2-4)])
next
  case (raise w r)
  show ?thesis unfolding raise(1) by (rule same_flags_inv [OF assms(2) update_rtid_flags])
next
  case (flat w x)
  show ?thesis unfolding flat(1) by (rule same_flags_inv [OF assms(2) flat_flags])
qed

lemma mv_start_inv: "mv_inv (mv_start (mv_default fv))" "mv_inv (mv_start (mv_of fv x))"
  unfolding mv_inv_def owners_inv_def chain_sorted_def
  by (simp_all add: mv_start_def mv_default_def mv_of_def history_of_value_def mv_consts)

lemma mv_run_inv: "mv_step\<^sup>*\<^sup>* s s' \<Longrightarrow> mv_inv s \<Longrightarrow> mv_inv s'"
  by (induction rule: rtranclp_induct) (auto dest: mv_step_inv)

text \<open>C2: Multi-version reads stay valid.  Start from a fresh object and let any threads link, check, install or abort
  versions, raise read timestamps, flatten increments and validate reads, one step at a time in any order.  Once the validation
  of a read of version \<open>hr\<close> at timestamp \<open>r\<close> has succeeded, no version between \<open>hr\<close> and \<open>r\<close> is ever committed, and the version
  read stays committed.\<close>

theorem mv_reads_stay_valid:
  assumes "mv_step\<^sup>*\<^sup>* (mv_start ob) s" "ob = mv_default fv \<or> ob = mv_of fv x" "(hr, r) \<in> mv_valid s"
    and "h \<in> set (mv_chain s)" "hr < mh_wtid h" "mh_wtid h < r"
  shows "\<not> status_is COMMITTED h \<and> (case version_at hr (mv_chain s) of Some g \<Rightarrow> status_is COMMITTED g | None \<Rightarrow> False)"
proof -
  have inv: "mv_inv s" using mv_run_inv [OF assms(1)] mv_start_inv assms(2) by auto
  have ri: "read_version s hr r" "clean s hr r (Some hr)" using mv_invD(5) [OF inv assms(3)] unfolding read_inv_final by auto
  have "\<not> committed h" using ri(2) assms(4-6) by (simp add: clean_def passed_def)
  moreover obtain g where g: "g \<in> set (mv_chain s)" "mh_wtid g = hr" "committed g" using ri(1) unfolding read_version_def by blast
  moreover have "version_at hr (mv_chain s) = Some g" using version_at_sorted [OF mv_invD(1) [OF inv] g(1)] g(2) by simp
  ultimately show ?thesis by (simp add: status_is_bit)
qed

theorem mv_reads_stay_valid_witness:
  "\<exists>s h. mv_step\<^sup>*\<^sup>* (mv_start (mv_of 0 7)) s \<and> (0, 9) \<in> mv_valid s \<and> h \<in> set (mv_chain s) \<and> mh_wtid h = 5 \<and> \<not> status_is COMMITTED h"
proof -
  let ?v0 = "\<lparr>mh_status = COMMITTED, mh_wtid = 0, mh_rtid = 0, mh_c = 0, mh_v = 7\<rparr>"
  let ?v5 = "history_of_value 5 70"
  let ?a5 = "?v5\<lparr>mh_status := ABORTED_WV1\<rparr>"
  let ?s0 = "mv_start (mv_of 0 7)"
  let ?s1 = "\<lparr>mv_chain = [?v5, ?v0], mv_pc = (\<lambda>i. M_idle)(0 := M_walk 5 5), mv_valid = {}\<rparr>"
  let ?s2 = "\<lparr>mv_chain = [?v5, ?v0\<lparr>mh_rtid := 9\<rparr>], mv_pc = (\<lambda>i. M_idle)(0 := M_walk 5 5, 1 := M_scan 0 9 None), mv_valid = {}\<rparr>"
  let ?s3 = "\<lparr>mv_chain = [?a5, ?v0\<lparr>mh_rtid := 9\<rparr>], mv_pc = (\<lambda>i. M_idle)(0 := M_idle, 1 := M_scan 0 9 None), mv_valid = {}\<rparr>"
  let ?s4 = "\<lparr>mv_chain = [?a5, ?v0\<lparr>mh_rtid := 9\<rparr>], mv_pc = (\<lambda>i. M_idle)(0 := M_idle, 1 := M_scan 0 9 (Some 5)), mv_valid = {}\<rparr>"
  let ?s5 = "\<lparr>mv_chain = [?a5, ?v0\<lparr>mh_rtid := 9\<rparr>], mv_pc = (\<lambda>i. M_idle)(0 := M_idle, 1 := M_idle), mv_valid = {(0, 9)}\<rparr>"
  have "mv_step ?s0 ?s1"
    using mv_step.link [of ?s0 0 ?v5 5 70] by (simp add: mv_start_def mv_of_def history_of_value_def link_version_def)
  moreover have "mv_step ?s1 ?s2"
    using mv_step.mark [of ?s1 1 ?v0 9] by (simp add: upd_version_def update_rtid_def history_of_value_def status_is_def)
  moreover have "mv_step ?s2 ?s3"
    using mv_step.give_up [of ?s2 0 5 5 ABORTED_WV1] by (simp add: upd_version_def history_of_value_def mv_consts fun_upd_twist)
  moreover have "mv_step ?s3 ?s4"
    using mv_step.scan [of ?s3 1 0 9 None ?a5]
    by (simp add: next_version_def passed_def history_of_value_def read_conflict_def status_is_def mv_consts)
  moreover have "mv_step ?s4 ?s5"
    using mv_step.validate [of ?s4 1 0 9 "Some 5" "?v0\<lparr>mh_rtid := 9\<rparr>"]
    by (simp add: next_version_def passed_def history_of_value_def)
  ultimately have run: "mv_step\<^sup>*\<^sup>* ?s0 ?s5" by (meson converse_rtranclp_into_rtranclp rtranclp.rtrancl_refl)
  have "\<not> status_is COMMITTED ?a5"
    using mv_reads_stay_valid [OF run, of 0 7 0 9 ?a5] by (simp add: history_of_value_def)
  then show ?thesis using run by (intro exI [of _ ?s5] exI [of _ ?a5]) (simp add: history_of_value_def)
qed

end
