(* ===== verification/Mvcc_Flatten.thy ===== *)
theory Mvcc_Flatten
  imports Mvcc_Reads
begin

unbundle bit_operations_syntax

text \<open>
  Values of multi-version objects.  Increments are kept as versions of their own and applied when somebody reads
  (\<open>flatten\<close>, \<open>v\<close>).  The value a chain stands for is defined here by recursion over its versions; flattening computes it and
  leaves the value of every version of the object as it was.
\<close>

subsection \<open>The value of a chain\<close>

fun logical :: "mv_history list \<Rightarrow> u64 option" where
  "logical [] = None"
| "logical (h # prevs) =
     (if status_is COMMITTED h then
        if status_is DELTA h then
          if status_is PENDING h \<or> status_is DELETED h then None else map_option (operate (mh_c h)) (logical prevs)
        else Some (mh_v h)
      else if status_is PENDING h then None
      else logical prevs)"

lemma status_bit:
  "mh_status h AND COMMITTED \<noteq> 0 \<longleftrightarrow> status_is COMMITTED h" "mh_status h AND DELTA \<noteq> 0 \<longleftrightarrow> status_is DELTA h"
  "mh_status h AND PENDING \<noteq> 0 \<longleftrightarrow> status_is PENDING h" "mh_status h AND DELETED \<noteq> 0 \<longleftrightarrow> status_is DELETED h"
  "mh_status h AND ABORTED \<noteq> 0 \<longleftrightarrow> status_is ABORTED h"
  using and_bit32_iff [of COMMITTED 2 "mh_status h"] and_bit32_iff [of DELTA 3 "mh_status h"] and_bit32_iff [of PENDING 1 "mh_status h"]
    and_bit32_iff [of DELETED 0 "mh_status h"] and_bit32_iff [of ABORTED 5 "mh_status h"] by (simp_all add: status_is_def)

lemma status_value: "status_is_masked COMMITTED_DELTA COMMITTED h \<longleftrightarrow> status_is COMMITTED h \<and> \<not> status_is DELTA h"
proof -
  have c: "COMMITTED_DELTA = COMMITTED OR DELTA" by (simp add: mv_consts)
  have "mh_status h AND COMMITTED_DELTA = COMMITTED \<longleftrightarrow> bit (mh_status h) 2 \<and> \<not> bit (mh_status h) 3"
  proof
    assume a: "mh_status h AND COMMITTED_DELTA = COMMITTED"
    have "bit (mh_status h AND COMMITTED_DELTA) 2 \<longleftrightarrow> bit (mh_status h) 2" "bit (mh_status h AND COMMITTED_DELTA) 3 \<longleftrightarrow> bit (mh_status h) 3"
      by (simp_all add: c bit_and_iff bit_or_iff)
    then show "bit (mh_status h) 2 \<and> \<not> bit (mh_status h) 3" unfolding a by simp
  next
    assume "bit (mh_status h) 2 \<and> \<not> bit (mh_status h) 3"
    then show "mh_status h AND COMMITTED_DELTA = COMMITTED" by (intro bit_word_eqI) (auto simp: c bit_and_iff bit_or_iff)
  qed
  then show ?thesis
    by (simp add: status_is_masked_def status_is_def and_bit32_iff(2) [of COMMITTED 2] and_bit32_iff(2) [of DELTA 3])
qed

lemma flatten_value_logical: "flatten_value chain = logical chain"
proof -
  have "(case flatten_trace tr chain of None \<Rightarrow> None | Some (t, cur) \<Rightarrow> flatten_replay (mh_v cur) t)
      = (case logical chain of None \<Rightarrow> None | Some x \<Rightarrow> flatten_replay x tr)" for tr
  proof (induction chain arbitrary: tr)
    case (Cons h prevs)
    show ?case
    proof (cases "status_is COMMITTED h \<and> \<not> status_is DELTA h")
      case True
      then show ?thesis by (simp add: status_value)
    next
      case False
      then show ?thesis using Cons [of "h # tr"] by (auto simp: status_value status_bit split: option.split)
    qed
  qed simp
  from this [of "[]"] show ?thesis by (simp add: flatten_value_def split: option.splits)
qed

subsection \<open>Steps that keep all values\<close>

definition keeps_values :: "mv_history list \<Rightarrow> mv_history list \<Rightarrow> bool" where
  "keeps_values c c' \<longleftrightarrow> map mh_wtid c' = map mh_wtid c \<and> (\<forall>k. logical (drop k c') = logical (drop k c))"

lemma keeps_refl [simp]: "keeps_values c c"
  by (simp add: keeps_values_def)

lemma keeps_logical: "keeps_values c c' \<Longrightarrow> logical c' = logical c"
  unfolding keeps_values_def by (metis drop0)

lemma keeps_Cons:
  assumes "keeps_values c c'" "mh_wtid h' = mh_wtid h" "logical (h' # c') = logical (h # c)"
  shows "keeps_values (h # c) (h' # c')"
  unfolding keeps_values_def
proof (intro conjI allI)
  show "logical (drop k (h' # c')) = logical (drop k (h # c))" for k
    using assms(1,3) by (cases k) (simp_all only: drop0 drop_Suc_Cons keeps_values_def)
qed (use assms in \<open>simp add: keeps_values_def\<close>)

lemma keeps_append: "keeps_values c c' \<Longrightarrow> keeps_values (pre @ c) (pre @ c')"
proof (induction pre)
  case (Cons h pre)
  then show ?case using keeps_logical by (auto intro!: keeps_Cons)
qed simp

lemma logical_rtid [simp]: "logical (update_rtid w h # c) = logical (h # c)"
  by (simp add: update_rtid_def status_is_def)

lemma update_rtid_wtid [simp]: "mh_wtid (update_rtid w h) = mh_wtid h"
  by (simp add: update_rtid_def)

lemma logical_Cons_cong: "logical c' = logical c \<Longrightarrow> logical (h # c') = logical (h # c)"
  by simp

lemma keeps_touch: "keeps_values c (flatten_touch w c)"
proof (induction c)
  case (Cons h c)
  then show ?case
    using keeps_logical [OF Cons] by (auto intro!: keeps_Cons simp del: logical.simps intro: logical_Cons_cong)
qed simp

lemma upd_version_other: "w \<notin> mh_wtid ` set c \<Longrightarrow> upd_version w f c = c"
  unfolding upd_version_def by (rule map_idI) auto

subsection \<open>Flattening\<close>

abbreviation below :: "u64 \<Rightarrow> mv_history list \<Rightarrow> mv_history list" where
  "below w \<equiv> dropWhile (\<lambda>h. mh_wtid h \<noteq> w)"

lemma newer_below: "newer w c @ below w c = c"
  by (simp add: newer_def)

lemma below_at: "version_at w c = (case below w c of [] \<Rightarrow> None | h # _ \<Rightarrow> Some h)"
  by (induction c) (auto simp: version_at_def)

lemma belowD: "below w c = h # r \<Longrightarrow> mh_wtid h = w"
  by (simp add: dropWhile_eq_Cons_conv)

lemma sorted_below:
  assumes "chain_sorted c" "below w c = h # r"
  shows "w \<notin> mh_wtid ` set r" "w \<notin> mh_wtid ` set (newer w c)"
proof -
  have "chain_sorted (newer w c @ h # r)" using assms newer_below [of w c] by simp
  then show "w \<notin> mh_wtid ` set r" using belowD [OF assms(2)] by (auto simp: chain_sorted_def sorted_wrt_append)
  show "w \<notin> mh_wtid ` set (newer w c)" unfolding newer_def using set_takeWhileD by fastforce
qed

abbreviation flattened :: "u64 \<Rightarrow> u64 \<Rightarrow> mv_history list \<Rightarrow> mv_history list" where
  "flattened w value c \<equiv> upd_version w (\<lambda>h. h\<lparr>mh_v := value, mh_status := COMMITTED\<rparr>) (flatten_touch w c)"

lemma flatten_below:
  assumes "chain_sorted c" "below w c = h # r" "status_is COMMITTED h" "logical (h # r) = Some x"
  shows "keeps_values (h # r) (flattened w x (h # r))"
    and "\<exists>h' r'. flattened w x (h # r) = h' # r' \<and> mh_wtid h' = w \<and> mh_status h' = COMMITTED \<and> mh_v h' = x"
proof -
  let ?c = "flattened w x (h # r)"
  let ?f = "\<lambda>h::mv_history. h\<lparr>mh_v := x, mh_status := COMMITTED\<rparr>"
  obtain g r' where t: "flatten_touch w (h # r) = g # r'" by (cases "status_is_masked COMMITTED_DELTA COMMITTED h") simp_all
  have k: "keeps_values (h # r) (g # r')" using keeps_touch [of "h # r" w] t by simp
  have kr: "keeps_values r r'" unfolding keeps_values_def
  proof (intro conjI allI)
    show "map mh_wtid r' = map mh_wtid r" using k by (simp add: keeps_values_def)
    show "logical (drop n r') = logical (drop n r)" for n using k unfolding keeps_values_def by (metis drop_Suc_Cons)
  qed
  have w: "mh_wtid g = w" using k belowD [OF assms(2)] by (simp add: keeps_values_def)
  have "mh_wtid ` set r' = mh_wtid ` set r" using kr unfolding keeps_values_def by (metis list.set_map)
  then have "upd_version w ?f r' = r'" using sorted_below(1) [OF assms(1,2)] by (intro upd_version_other) simp
  then have c: "?c = ?f g # r'" unfolding t using w by (simp add: upd_version_def)
  have "logical (?f g # r') = Some x" by (simp add: status_is_def mv_consts)
  then show "keeps_values (h # r) ?c" unfolding c using kr w belowD [OF assms(2)] assms(4) by (intro keeps_Cons) simp_all
  show "\<exists>h' r'. ?c = h' # r' \<and> mh_wtid h' = w \<and> mh_status h' = COMMITTED \<and> mh_v h' = x" unfolding c using w by simp
qed

lemma flatten_result:
  assumes "chain_sorted (mo_chain ob)" "mv_flatten fg w ob = Some ob'"
  shows "keeps_values (mo_chain ob) (mo_chain ob')"
    and "\<exists>h. version_at w (mo_chain ob') = Some h \<and> mh_status h = COMMITTED \<and> Some (mh_v h) = logical (below w (mo_chain ob))"
proof -
  obtain h r where b: "below w (mo_chain ob) = h # r" and st: "mh_status h = COMMITTED_DELTA"
    using assms(2) by (auto simp: mv_flatten_def Let_def split: list.splits if_splits)
  then obtain x where v: "logical (h # r) = Some x"
    and ob': "mo_chain ob' = newer w (mo_chain ob) @ flattened w x (h # r)"
    using assms(2) by (auto simp del: logical.simps flatten_touch.simps simp: mv_flatten_def Let_def flatten_value_logical split: option.splits)
  have "status_is COMMITTED h" using st by (simp add: status_is_def mv_consts)
  note f = flatten_below [OF assms(1) b this v]
  have "keeps_values (newer w (mo_chain ob) @ below w (mo_chain ob)) (mo_chain ob')" unfolding ob' b by (rule keeps_append [OF f(1)])
  then show "keeps_values (mo_chain ob) (mo_chain ob')" unfolding newer_below .
  obtain h' r' where h': "mo_chain ob' = newer w (mo_chain ob) @ h' # r'" "mh_wtid h' = w" "mh_status h' = COMMITTED" "mh_v h' = x"
    using f(2) ob' by auto
  have "below w (mo_chain ob') = h' # r'"
    unfolding h'(1) by (subst dropWhile_append2) (use sorted_below(2) [OF assms(1) b] h'(2) in \<open>auto intro: rev_image_eqI\<close>)
  then show "\<exists>h. version_at w (mo_chain ob') = Some h \<and> mh_status h = COMMITTED \<and> Some (mh_v h) = logical (below w (mo_chain ob))"
    using h'(3,4) v unfolding b by (simp add: below_at del: logical.simps)
qed

text \<open>A chain with a committed value has a value once nothing above that version is pending or deleted.\<close>

lemma logical_total:
  assumes "list_all (\<lambda>h. \<not> status_is PENDING h \<and> \<not> status_is DELETED h) chain"
    and "list_ex (\<lambda>h. status_is COMMITTED h \<and> \<not> status_is DELTA h) chain"
  shows "logical chain \<noteq> None"
  using assms by (induction chain) auto

lemma flatten_progress:
  assumes "version_at w (mo_chain ob) = Some h" "mh_status h = COMMITTED_DELTA" "logical (below w (mo_chain ob)) = Some x"
  shows "\<exists>ob'. mv_flatten fg w ob = Some ob'"
proof -
  obtain r where b: "below w (mo_chain ob) = h # r" using assms(1) by (auto simp: below_at split: list.splits)
  then have "flatten_value (h # r) = Some x" using assms(3) by (simp only: flatten_value_logical)
  with assms(2) show ?thesis unfolding mv_flatten_def Let_def b by simp
qed

text \<open>C17: Reading a committed version of a multi-version object gives the value its chain stands for: the newest value at
  or below it with all committed increments above that value applied, oldest first, and aborted versions
  skipped.  Where the version is an increment the read flattens it; afterwards the chain has the same versions and each stands for
  the same value as before.\<close>

theorem mv_value_correct:
  assumes "chain_sorted (mo_chain ob)" "version_at w (mo_chain ob) = Some h" "mh_status h = COMMITTED \<or> mh_status h = COMMITTED_DELTA"
    and "logical (below w (mo_chain ob)) = Some x"
  shows "\<exists>ob'. mv_value w ob = Some (x, ob') \<and> map mh_wtid (mo_chain ob') = map mh_wtid (mo_chain ob)
     \<and> logical (drop k (mo_chain ob')) = logical (drop k (mo_chain ob))"
proof (cases "status_is DELTA h")
  case True
  then have st: "mh_status h = COMMITTED_DELTA" using assms(3) by (auto simp: status_is_def mv_consts)
  obtain ob' where f: "mv_flatten True w ob = Some ob'" using flatten_progress [OF assms(2) st assms(4)] by blast
  obtain h' where h': "version_at w (mo_chain ob') = Some h'" "Some (mh_v h') = logical (below w (mo_chain ob))"
    using flatten_result(2) [OF assms(1) f] by blast
  have "mv_value w ob = Some (x, ob')" using assms(2,4) True st f h' by (simp add: mv_value_def mv_consts)
  then show ?thesis using flatten_result(1) [OF assms(1) f] by (simp add: keeps_values_def)
next
  case False
  then have st: "mh_status h = COMMITTED" using assms(3) by (auto simp: status_is_def mv_consts)
  obtain r where b: "below w (mo_chain ob) = h # r" using assms(2) by (auto simp: below_at split: list.splits)
  then have "mh_v h = x" using assms(4) st by (simp add: status_is_def mv_consts)
  then show ?thesis using assms(2) False by (simp add: mv_value_def)
qed

theorem mv_value_correct_witness:
  "\<exists>ob'. mv_value 9 \<lparr>mo_chain =
       [\<lparr>mh_status = COMMITTED_DELTA, mh_wtid = 9, mh_rtid = 9, mh_c = 2, mh_v = 0\<rparr>,
        \<lparr>mh_status = ABORTED_WV2, mh_wtid = 7, mh_rtid = 7, mh_c = 0, mh_v = 40\<rparr>,
        \<lparr>mh_status = COMMITTED_DELTA, mh_wtid = 5, mh_rtid = 5, mh_c = 5, mh_v = 0\<rparr>,
        \<lparr>mh_status = COMMITTED, mh_wtid = 0, mh_rtid = 0, mh_c = 0, mh_v = 10\<rparr>],
      mo_cuctr = 2, mo_nonpoison = True, mo_flattenv = 0, mo_rcu = []\<rparr> = Some (17, ob')" (is "\<exists>ob'. mv_value 9 ?ob = _")
proof -
  have "chain_sorted (mo_chain ?ob)" by (simp add: chain_sorted_def)
  moreover have "version_at 9 (mo_chain ?ob) = Some (hd (mo_chain ?ob))" by (simp add: version_at_def)
  moreover have "mh_status (hd (mo_chain ?ob)) = COMMITTED_DELTA" by simp
  moreover have "logical (below 9 (mo_chain ?ob)) = Some 17" by (simp add: status_is_def operate_def mv_consts)
  ultimately show ?thesis using mv_value_correct [of ?ob 9 "hd (mo_chain ?ob)" 17] by blast
qed

end
