(* ===== verification/Mvcc_Ops.thy ===== *)
theory Mvcc_Ops
  imports Mvcc_Flatten
begin

unbundle bit_operations_syntax

text \<open>
  The operations of \<open>MvObject\<close> and the steps of the protocol.  \<open>cp_lock\<close>, \<open>cp_check\<close> and \<open>cp_install\<close>, each run
  without interference, are runs of the step relation, so what holds of all runs of the steps holds of every history in
  which some of the operations run alone.
\<close>

subsection \<open>Walking down a sorted chain\<close>

lemma next_drop: "next_version pos c = (case dropWhile (\<lambda>h. passed pos (mh_wtid h)) c of [] \<Rightarrow> None | h # _ \<Rightarrow> Some h)"
  by (induction c) (auto simp: next_version_def)

lemma drop_next:
  assumes "chain_sorted c" "dropWhile (\<lambda>h. passed pos (mh_wtid h)) c = g # r"
  shows "dropWhile (\<lambda>h. passed (Some (mh_wtid g)) (mh_wtid h)) c = r"
proof -
  let ?pre = "takeWhile (\<lambda>h. passed pos (mh_wtid h)) c"
  have c: "c = ?pre @ g # r" using assms(2) takeWhile_dropWhile_id [of "\<lambda>h. passed pos (mh_wtid h)" c] by simp
  have s: "chain_sorted (?pre @ g # r)" using assms(1) c by metis
  then have "passed (Some (mh_wtid g)) (mh_wtid h)" if "h \<in> set ?pre" for h
    using that by (auto simp: chain_sorted_def sorted_wrt_append passed_def less_imp_le)
  then have "dropWhile (\<lambda>h. passed (Some (mh_wtid g)) (mh_wtid h)) (?pre @ g # r) = dropWhile (\<lambda>h. passed (Some (mh_wtid g)) (mh_wtid h)) r"
    by (simp add: passed_def)
  moreover have "\<not> passed (Some (mh_wtid g)) (mh_wtid h)" if "h \<in> set r" for h
    using s that by (auto simp: chain_sorted_def sorted_wrt_append passed_def)
  then have "dropWhile (\<lambda>h. passed (Some (mh_wtid g)) (mh_wtid h)) r = r" by (cases r) simp_all
  ultimately show ?thesis using c by simp
qed

lemma drop_at:
  assumes "chain_sorted c" "below t c = g # r"
  shows "dropWhile (\<lambda>h. passed (Some t) (mh_wtid h)) c = r"
proof -
  have g: "mh_wtid g = t" by (rule belowD [OF assms(2)])
  have s: "chain_sorted (newer t c @ g # r)" using assms newer_below [of t c] by simp
  have "dropWhile (\<lambda>h. passed (Some t) (mh_wtid h)) (newer t c @ g # r) = dropWhile (\<lambda>h. passed (Some t) (mh_wtid h)) r"
    by (subst dropWhile_append2) (use s g in \<open>auto simp: chain_sorted_def sorted_wrt_append passed_def less_imp_le\<close>)
  moreover have "\<not> passed (Some t) (mh_wtid h)" if "h \<in> set r" for h
    using s that g by (auto simp: chain_sorted_def sorted_wrt_append passed_def)
  then have "dropWhile (\<lambda>h. passed (Some t) (mh_wtid h)) r = r" by (cases r) simp_all
  moreover have "newer t c @ g # r = c" using newer_below [of t c] unfolding assms(2) .
  ultimately show ?thesis by simp
qed

lemma upd_wtids: "(\<And>h. mh_wtid (f h) = mh_wtid h) \<Longrightarrow> mh_wtid ` set (upd_version w f c) = mh_wtid ` set c"
  unfolding upd_version_def set_map image_image by (rule image_cong) simp_all

lemma two_steps: "mv_step a b \<Longrightarrow> mv_step b c \<Longrightarrow> mv_step\<^sup>*\<^sup>* a c"
  by (blast intro: rtranclp.intros)

subsection \<open>Validation of a read\<close>

lemma scan_run:
  assumes "chain_sorted (mv_chain s)" "dropWhile (\<lambda>h. passed pos (mh_wtid h)) (mv_chain s) = pre @ h # r" "mh_wtid h = hr"
    and "mv_pc s i = M_scan hr t pos" "list_all (\<lambda>g. mh_wtid g \<noteq> hr \<and> \<not> read_conflict t g) pre"
  shows "mv_step\<^sup>*\<^sup>* s (set_pc i M_idle (s\<lparr>mv_valid := insert (hr, t) (mv_valid s)\<rparr>))"
  using assms
proof (induction pre arbitrary: pos s)
  case Nil
  then have "next_version pos (mv_chain s) = Some h" by (simp add: next_drop)
  then show ?case using mv_step.validate [OF Nil.prems(4) _ Nil.prems(3)] by blast
next
  case (Cons g pre)
  let ?s = "set_pc i (M_scan hr t (Some (mh_wtid g))) s"
  have "next_version pos (mv_chain s) = Some g" using Cons.prems(2) by (simp add: next_drop)
  then have step: "mv_step s ?s" using mv_step.scan [OF Cons.prems(4)] Cons.prems(5) by simp
  have "dropWhile (\<lambda>h. passed (Some (mh_wtid g)) (mh_wtid h)) (mv_chain s) = pre @ h # r"
    using drop_next [OF Cons.prems(1)] Cons.prems(2) by simp
  then have run: "mv_step\<^sup>*\<^sup>* ?s (set_pc i M_idle (?s\<lparr>mv_valid := insert (hr, t) (mv_valid ?s)\<rparr>))"
    using Cons.prems by (intro Cons.IH [where pos = "Some (mh_wtid g)"]) simp_all
  have eq: "set_pc i M_idle (?s\<lparr>mv_valid := insert (hr, t) (mv_valid ?s)\<rparr>) = set_pc i M_idle (s\<lparr>mv_valid := insert (hr, t) (mv_valid s)\<rparr>)"
    by simp
  show ?case using converse_rtranclp_into_rtranclp [OF step run] unfolding eq .
qed

lemma cp_check_run:
  assumes "chain_sorted (mo_chain ob)" "version_at hr (mo_chain ob) = Some h" "status_is COMMITTED h" "cp_check t hr ob = (ok, ob')"
    and "mv_chain s = mo_chain ob" "mv_pc s i = M_idle"
  shows "mv_step\<^sup>*\<^sup>* s (set_pc i M_idle (s\<lparr>mv_chain := mo_chain ob', mv_valid := (if ok then insert (hr, t) (mv_valid s) else mv_valid s)\<rparr>))"
proof -
  let ?c = "upd_version hr (update_rtid t) (mo_chain ob)"
  let ?s = "set_pc i (M_scan hr t None) (s\<lparr>mv_chain := ?c\<rparr>)"
  have h: "h \<in> set (mo_chain ob)" "mh_wtid h = hr" using version_atD [OF assms(2)] by auto
  have m: "mv_step s ?s" using mv_step.mark [OF assms(6), of h t] h assms(3,5) by simp
  have ob': "mo_chain ob' = ?c" and ok: "ok \<longrightarrow> \<not> list_ex (read_conflict t) (newer hr ?c)"
    using assms(4) by (auto simp: cp_check_def Let_def)
  show ?thesis
  proof (cases ok)
    case True
    have sc: "chain_sorted ?c" using assms(1) by (subst sorted_upd) simp_all
    have "hr \<in> mh_wtid ` set ?c" using h upd_wtids [of "update_rtid t" hr "mo_chain ob"] by auto
    then obtain g r where b: "below hr ?c = g # r" by (cases "below hr ?c") (auto simp: dropWhile_eq_Nil_conv)
    have "dropWhile (\<lambda>h. passed None (mh_wtid h)) d = d" for d by (cases d) (simp_all add: passed_def)
    moreover have "newer hr ?c @ g # r = ?c" using newer_below [of hr ?c] unfolding b .
    ultimately have c: "dropWhile (\<lambda>h. passed None (mh_wtid h)) (mv_chain ?s) = newer hr ?c @ g # r" by simp
    have p: "list_all (\<lambda>g. mh_wtid g \<noteq> hr \<and> \<not> read_conflict t g) (newer hr ?c)"
      using ok True by (auto simp: list_all_iff list_ex_iff newer_def dest: set_takeWhileD)
    have "mv_step\<^sup>*\<^sup>* ?s (set_pc i M_idle (?s\<lparr>mv_valid := insert (hr, t) (mv_valid ?s)\<rparr>))"
      by (rule scan_run [OF _ c belowD [OF b] _ p]) (simp_all add: sc)
    moreover have "set_pc i M_idle (?s\<lparr>mv_valid := insert (hr, t) (mv_valid ?s)\<rparr>) = set_pc i M_idle (s\<lparr>mv_chain := ?c, mv_valid := insert (hr, t) (mv_valid s)\<rparr>)"
      by simp
    ultimately have "mv_step\<^sup>*\<^sup>* ?s (set_pc i M_idle (s\<lparr>mv_chain := ?c, mv_valid := insert (hr, t) (mv_valid s)\<rparr>))" by argo
    then show ?thesis unfolding ob' using True m by (simp only: if_True converse_rtranclp_into_rtranclp)
  next
    case False
    have "mv_step ?s (set_pc i M_idle ?s)" by (rule mv_step.scan_fail [of _ _ hr t None]) simp
    moreover have "set_pc i M_idle ?s = set_pc i M_idle (s\<lparr>mv_chain := ?c, mv_valid := mv_valid s\<rparr>)" by simp
    ultimately have "mv_step ?s (set_pc i M_idle (s\<lparr>mv_chain := ?c, mv_valid := mv_valid s\<rparr>))" by argo
    then show ?thesis unfolding ob' using False m by (simp only: if_False two_steps)
  qed
qed

subsection \<open>Installation of a version\<close>

lemma lock_insert_link: "lock_insert may_commute (mh_wtid hw) hw c = Some c' \<Longrightarrow> c' = link_version hw c"
  by (induction c arbitrary: c') (auto simp: link_version_def split: if_splits)

lemma below_link:
  assumes "mh_wtid hw \<notin> mh_wtid ` set c"
  shows "below (mh_wtid hw) (link_version hw c) = hw # dropWhile (\<lambda>h. mh_wtid h > mh_wtid hw) c"
  unfolding link_version_def
  by (subst dropWhile_append2) (use assms in \<open>auto dest!: set_takeWhileD\<close>)

lemma walk_run:
  assumes "chain_sorted (mv_chain s)" "version_at t (mv_chain s) = Some hw" "dropWhile (\<lambda>h. passed (Some p) (mh_wtid h)) (mv_chain s) = todo"
    and "mv_pc s i = M_walk t p" "write_check may_commute t hw todo"
  shows "mv_step\<^sup>*\<^sup>* s (set_pc i (M_checked t) s)"
  using assms
proof (induction todo arbitrary: p s)
  case Nil
  have "next_version (Some p) (mv_chain s) = None" unfolding next_drop Nil.prems(3) by simp
  then show ?case using mv_step.walk_end [OF Nil.prems(4)] by blast
next
  case (Cons g todo)
  let ?w = "set_pc i (M_walked t (mh_wtid g)) s"
  let ?n = "set_pc i (if status_is COMMITTED g then M_checked t else M_walk t (mh_wtid g)) s"
  have nx: "next_version (Some p) (mv_chain s) = Some g" using Cons.prems(3) by (simp add: next_drop)
  have nc: "\<not> write_conflict may_commute t hw g" using Cons.prems(5) by (auto split: if_splits)
  have a: "mv_step s ?w" by (rule mv_step.walk [OF Cons.prems(4) nx Cons.prems(2) nc])
  have "version_at (mh_wtid g) (mv_chain ?w) = Some g"
    using version_at_sorted [OF Cons.prems(1) next_versionD(1) [OF Cons.prems(1) nx]] by simp
  then have "mv_step ?w (set_pc i (if status_is COMMITTED g then M_checked t else M_walk t (mh_wtid g)) ?w)"
    by (intro mv_step.walked [where p = "mh_wtid g"]) simp_all
  then have "mv_step ?w ?n" by simp
  note two = two_steps [OF a this]
  show ?case
  proof (cases "status_is COMMITTED g")
    case True
    then show ?thesis using two by (simp del: fun_upd_apply)
  next
    case False
    have "mv_step\<^sup>*\<^sup>* ?n (set_pc i (M_checked t) ?n)"
    proof (rule Cons.IH [where p = "mh_wtid g"])
      show "dropWhile (\<lambda>h. passed (Some (mh_wtid g)) (mh_wtid h)) (mv_chain ?n) = todo"
        using drop_next [OF Cons.prems(1,3)] by simp
      show "write_check may_commute t hw todo" using Cons.prems(5) nc False by simp
    qed (use Cons.prems False in simp_all)
    moreover have "set_pc i (M_checked t) ?n = set_pc i (M_checked t) s" by simp
    ultimately show ?thesis using rtranclp_trans [OF two] by (simp del: fun_upd_apply)
  qed
qed

lemma cp_lock_run:
  assumes "chain_sorted (mo_chain ob)" "t \<notin> mh_wtid ` set (mo_chain ob)" "mv_chain s = mo_chain ob" "mv_pc s i = M_idle"
    and hw: "hw = history_of_value t x \<or> hw = history_of_delta t x \<or> Some hw = status_delete (history_of_value t x)"
    and lock: "cp_lock may_commute t hw ob = (ok, ob')"
  shows "mv_step\<^sup>*\<^sup>* s (set_pc i (if ok then M_checked t else M_idle) (s\<lparr>mv_chain := mo_chain ob'\<rparr>))"
proof (cases "lock_insert may_commute t hw (mo_chain ob)")
  case None
  then have "set_pc i (if ok then M_checked t else M_idle) (s\<lparr>mv_chain := mo_chain ob'\<rparr>) = s"
    using lock assms(3,4) by (cases s) (auto simp: cp_lock_def fun_upd_idem)
  then show ?thesis by simp
next
  case (Some c)
  have t: "mh_wtid hw = t" by (rule new_version(1) [OF hw])
  have c: "c = link_version hw (mo_chain ob)" using lock_insert_link [of may_commute hw "mo_chain ob" c] Some t by simp
  have sc: "chain_sorted c" unfolding c by (rule sorted_link [OF assms(1)]) (simp add: t assms(2))
  have b: "below t c = hw # dropWhile (\<lambda>h. mh_wtid h > t) (mo_chain ob)" using below_link [of hw "mo_chain ob"] assms(2) unfolding c t by simp
  let ?s = "set_pc i (M_walk t t) (s\<lparr>mv_chain := c\<rparr>)"
  have l: "mv_step s ?s" using mv_step.link [OF assms(4) hw] assms(2,3) c by simp
  have ab: "mv_step\<^sup>*\<^sup>* s (set_pc i M_idle (s\<lparr>mv_chain := upd_version t (\<lambda>h. h\<lparr>mh_status := reason\<rparr>) c\<rparr>))"
    if "reason AND ABORTED \<noteq> 0" "reason AND COMMITTED = 0" for reason
  proof -
    have "mv_step ?s (set_pc i M_idle (?s\<lparr>mv_chain := upd_version t (\<lambda>h. h\<lparr>mh_status := reason\<rparr>) (mv_chain ?s)\<rparr>))"
      by (rule mv_step.give_up [of _ _ _ t]) (simp_all add: that)
    from two_steps [OF l this] show ?thesis by simp
  qed
  have wk: "mv_step\<^sup>*\<^sup>* s (set_pc i (M_checked t) (s\<lparr>mv_chain := c\<rparr>))" if "write_check may_commute t hw (older t c)"
  proof -
    have "mv_step\<^sup>*\<^sup>* ?s (set_pc i (M_checked t) ?s)"
    proof (rule walk_run [where p = t and hw = hw and todo = "older t c" and may_commute = may_commute])
      show "version_at t (mv_chain ?s) = Some hw" by (simp add: below_at b)
      have "below t c = hw # older t c" by (simp add: older_def b)
      moreover have "below t c = dropWhile (\<lambda>h. passed None (mh_wtid h)) (below t c)" by (simp add: b passed_def)
      ultimately show "dropWhile (\<lambda>h. passed (Some t) (mh_wtid h)) (mv_chain ?s) = older t c"
        using drop_at [OF sc] t by simp
    qed (use sc that in simp_all)
    with l have "mv_step\<^sup>*\<^sup>* s (set_pc i (M_checked t) ?s)" by (rule converse_rtranclp_into_rtranclp)
    then show ?thesis by simp
  qed
  show ?thesis
    using lock Some t ab [of ABORTED_WV1] ab [of ABORTED_WV2] ab [of ABORTED_POISON] wk
    by (auto simp: cp_lock_def Let_def abort_version_def mv_consts split: if_splits)
qed

lemma cp_install_run:
  assumes "chain_sorted (mo_chain ob)" "mv_chain s = mo_chain ob" "mv_pc s i = M_checked t" "cp_install t ob = Some ob'"
  shows "mv_step s (set_pc i M_idle (s\<lparr>mv_chain := mo_chain ob'\<rparr>))"
proof -
  obtain h where h: "version_at t (mo_chain ob) = Some h" using assms(4) by (auto simp: cp_install_def split: option.splits)
  have "mo_chain ob' = upd_version t (\<lambda>g. g\<lparr>mh_status := (mh_status h AND NOT PENDING) OR COMMITTED\<rparr>) (mo_chain ob)"
    using assms(4) h by (auto simp: cp_install_def Let_def split: if_splits)
  also have "\<dots> = upd_version t (\<lambda>g. g\<lparr>mh_status := (mh_status g AND NOT PENDING) OR COMMITTED\<rparr>) (mo_chain ob)"
    unfolding upd_version_def using h version_at_sorted [OF assms(1)] by (intro map_cong refl) auto
  finally show ?thesis using mv_step.install [OF assms(3)] assms(2) by simp
qed

lemma lock_sorted:
  assumes "chain_sorted (mo_chain ob)" "mh_wtid hw = t" "t \<notin> mh_wtid ` set (mo_chain ob)" "cp_lock may_commute t hw ob = (True, ob')"
  shows "chain_sorted (mo_chain ob')"
proof -
  have "mo_chain ob' = link_version hw (mo_chain ob)"
    using assms(4) lock_insert_link [of may_commute hw "mo_chain ob"] assms(2)
    by (auto simp: cp_lock_def Let_def split: option.splits if_splits)
  then show ?thesis using sorted_link [OF assms(1), of hw] assms(2,3) by simp
qed

lemma check_sorted: "chain_sorted (mo_chain ob) \<Longrightarrow> cp_check t hr ob = (ok, ob') \<Longrightarrow> chain_sorted (mo_chain ob')"
  by (auto simp: cp_check_def Let_def sorted_upd)

text \<open>C16: The operations of a multi-version object implement the protocol steps.  A transaction at timestamp \<open>t\<close> that links a
  new version with \<open>cp_lock\<close>, validates its read of version \<open>hr\<close> with \<open>cp_check\<close> and makes the new version visible with
  \<open>cp_install\<close> performs a run of protocol steps from the chain it found to the chain it leaves, which records the read as valid.\<close>

theorem mv_commit_refines_steps:
  assumes "chain_sorted (mo_chain ob)" "t \<notin> mh_wtid ` set (mo_chain ob)"
    and hw: "hw = history_of_value t x \<or> hw = history_of_delta t x \<or> Some hw = status_delete (history_of_value t x)"
    and lock: "cp_lock may_commute t hw ob = (True, ob1)"
    and read: "version_at hr (mo_chain ob1) = Some h" "status_is COMMITTED h" and check: "cp_check t hr ob1 = (True, ob2)"
    and install: "cp_install t ob2 = Some ob3"
    and s: "mv_chain s = mo_chain ob" "mv_pc s i = M_idle" "mv_pc s j = M_idle" "i \<noteq> j"
  shows "mv_step\<^sup>*\<^sup>* s (s\<lparr>mv_chain := mo_chain ob3, mv_valid := insert (hr, t) (mv_valid s)\<rparr>)"
proof -
  let ?s1 = "set_pc i (M_checked t) (s\<lparr>mv_chain := mo_chain ob1\<rparr>)"
  let ?s2 = "set_pc j M_idle (?s1\<lparr>mv_chain := mo_chain ob2, mv_valid := insert (hr, t) (mv_valid ?s1)\<rparr>)"
  have c1: "chain_sorted (mo_chain ob1)" by (rule lock_sorted [OF assms(1) new_version(1) [OF hw] assms(2) lock])
  have "mv_step\<^sup>*\<^sup>* s ?s1" using cp_lock_run [OF assms(1,2) s(1,2) hw lock] by simp
  moreover have "mv_step\<^sup>*\<^sup>* ?s1 ?s2" using cp_check_run [OF c1 read check, of ?s1 j] s(3,4) by simp
  moreover have "mv_step ?s2 (set_pc i M_idle (?s2\<lparr>mv_chain := mo_chain ob3\<rparr>))"
    by (rule cp_install_run [OF check_sorted [OF c1 check] _ _ install]) (use s(4) in simp_all)
  ultimately have "mv_step\<^sup>*\<^sup>* s (set_pc i M_idle (?s2\<lparr>mv_chain := mo_chain ob3\<rparr>))" by auto
  moreover have "set_pc i M_idle (?s2\<lparr>mv_chain := mo_chain ob3\<rparr>) = s\<lparr>mv_chain := mo_chain ob3, mv_valid := insert (hr, t) (mv_valid s)\<rparr>"
  proof -
    have "((mv_pc s)(i := M_checked t, j := M_idle))(i := M_idle) = mv_pc s" using s(2,3) by auto
    then show ?thesis by (cases s) simp
  qed
  ultimately show ?thesis by argo
qed

theorem mv_commit_refines_steps_witness:
  "\<exists>ob1 ob2 ob3. cp_lock True 5 (history_of_value 5 70) (mv_of 0 7) = (True, ob1) \<and> cp_check 5 0 ob1 = (True, ob2) \<and> cp_install 5 ob2 = Some ob3
     \<and> mv_step\<^sup>*\<^sup>* (mv_start (mv_of 0 7)) (mv_start (mv_of 0 7)\<lparr>mv_chain := mo_chain ob3, mv_valid := {(0, 5)}\<rparr>)"
proof -
  let ?v = "\<lparr>mh_status = COMMITTED, mh_wtid = 0, mh_rtid = 0, mh_c = 0, mh_v = 7\<rparr>"
  let ?w = "history_of_value 5 70"
  let ?ob = "\<lparr>mo_chain = [?v], mo_cuctr = 0, mo_nonpoison = True, mo_flattenv = 0, mo_rcu = []\<rparr>"
  let ?ob1 = "?ob\<lparr>mo_chain := [?w, ?v]\<rparr>"
  let ?ob2 = "?ob\<lparr>mo_chain := [?w, ?v\<lparr>mh_rtid := 5\<rparr>]\<rparr>"
  let ?ob3 = "?ob\<lparr>mo_chain := [?w\<lparr>mh_status := COMMITTED\<rparr>, ?v\<lparr>mh_rtid := 5\<rparr>], mo_rcu := [Gc_committed 5]\<rparr>"
  have ob: "mv_of 0 7 = ?ob" by (simp add: mv_of_def history_of_value_def)
  have l: "cp_lock True 5 ?w ?ob = (True, ?ob1)"
    by (simp add: cp_lock_def late_check_def newer_def older_def write_conflict_def can_precede_def can_precede_anything_def
        status_is_def history_of_value_def mv_consts)
  have c: "cp_check 5 0 ?ob1 = (True, ?ob2)"
    by (simp add: cp_check_def upd_version_def update_rtid_def newer_def read_conflict_def history_of_value_def)
  have i: "cp_install 5 ?ob2 = Some ?ob3"
    by (simp add: cp_install_def version_at_def upd_version_def history_of_value_def mv_consts)
  have "mv_step\<^sup>*\<^sup>* (mv_start ?ob) (mv_start ?ob\<lparr>mv_chain := mo_chain ?ob3, mv_valid := insert (0, 5) (mv_valid (mv_start ?ob))\<rparr>)"
    by (rule mv_commit_refines_steps [OF _ _ _ l _ _ c i, where i = 0 and j = 1 and h = ?v and x = 70])
      (simp_all add: chain_sorted_def version_at_def status_is_def mv_start_def history_of_value_def)
  then show ?thesis unfolding ob using l c i by (intro exI [of _ ?ob1] exI [of _ ?ob2] exI [of _ ?ob3]) (simp add: mv_start_def)
qed

end
