(* ===== verification/Client_Rpc.thy ===== *)
theory Client_Rpc
  imports Worker_Msg Rpc_Reply
begin

unbundle bit_operations_syntax

text \<open>
  The client side of a request (\<open>Clients/NetTx\<close>: \<open>NicTxn/nictxn_as_client.cpp\<close>, \<open>rdma_rpc/rpc/include/rpc_struct.h\<close>,
  \<open>rdma_rpc/rpc/rpc_util.cpp\<close>, \<open>transaction/include/Transaction.h\<close>).  A client thread has a few request slots per server; it
  fills a slot's data buffer, posts the buffer to the host and the feature vector to the NIC, and polls the
  slot's reply word.  The verbs library is a parameter as on the server's side, and so is the generator of the workload: the
  contents and addresses of a new request's parameters.  Latency and throughput statistics are left out.
\<close>

subsection \<open>Transaction slots\<close>

record tx_slot =
  tx_magic :: u8
  tx_single_node_id :: nat
  tx_single_rpc_id :: u32
  tx_is_busy :: bool
  tx_retry_count :: nat
  tx_is_retry :: bool
  tx_latency_type :: nat
  tx_now_phase :: u8

definition bump_magic :: "u8 \<Rightarrow> u8" where
  "bump_magic g = (let g = g + 1 in if g = 0 then g + 1 else g)"

text \<open>\<open>start\<close> also clears the read and write sets, which the NIC build does not use.\<close>

definition tx_start :: "tx_slot \<Rightarrow> tx_slot" where
  "tx_start t = t\<lparr>tx_is_busy := True, tx_magic := bump_magic (tx_magic t)\<rparr>"

definition tx_ok :: "tx_slot \<Rightarrow> tx_slot" where
  "tx_ok t = t\<lparr>tx_retry_count := 0, tx_is_busy := False, tx_magic := bump_magic (tx_magic t), tx_is_retry := False\<rparr>"

definition tx_fail :: "tx_slot \<Rightarrow> tx_slot" where
  "tx_fail t = t\<lparr>tx_is_busy := False, tx_magic := bump_magic (tx_magic t), tx_is_retry := True\<rparr>"

subsection \<open>The client thread\<close>

record 'h client_t =
  cl_mem :: mem
  cl_connect :: "nat \<Rightarrow> connect_t"
  cl_node_id :: u8
  cl_thread_id :: u8
  cl_rpcnum :: "nat \<Rightarrow> u64"
  cl_id_addr :: "nat \<Rightarrow> nat \<Rightarrow> u64"
  cl_rpccount :: u64
  cl_tx :: "nat \<Rightarrow> tx_slot"
  cl_ok_count :: u64
  cl_test_count :: u64
  cl_no_delivery_flag :: "nat \<Rightarrow> bool"
  cl_strife_cqe :: "nat \<Rightarrow> u64"
  cl_signalNum :: u64
  cl_log :: "(nat \<times> send_wr) list"
  cl_hw :: 'h

abbreviation MAX_SERVER :: nat where "MAX_SERVER \<equiv> KEY2NODE_MOD + MAX_CLIENT"
abbreviation C_BatchPollSend :: u64 where "C_BatchPollSend \<equiv> 32"
abbreviation C_BatchSignalSend :: u64 where "C_BatchSignalSend \<equiv> 32"

text \<open>The addresses of a client's connection (\<open>nictxn_new_connect\<close>); \<open>mm\<close> is the message pool, the sizes come from \<open>NodeInfo\<close>.\<close>

definition client_message_size :: "build \<Rightarrow> nat" where
  "client_message_size bd = SLOT_LEN * SLOT_NUM_of bd"

definition client_reply_size :: "build \<Rightarrow> nat" where
  "client_reply_size bd = REPLY_LEN bd * SLOT_NUM_of bd + 8 * 1024"

definition client_data_size :: "build \<Rightarrow> nat" where
  "client_data_size bd = DATA_LEN bd * SLOT_NUM_of bd"

definition nictxn_new_connect :: "build \<Rightarrow> nat \<Rightarrow> nat \<Rightarrow> nat \<Rightarrow> connect_t \<Rightarrow> connect_t" where
  "nictxn_new_connect bd mm server_num remote_id c =
     c\<lparr>localBase := mm + client_message_size bd * remote_id,
       reply_addr := mm + client_message_size bd * server_num + remote_id * client_reply_size bd,
       data_addr := mm + (client_message_size bd + client_reply_size bd) * server_num + remote_id * client_data_size bd\<rparr>"

definition get_strife_reply_addr :: "build \<Rightarrow> connect_t \<Rightarrow> u32 \<Rightarrow> nat" where
  "get_strife_reply_addr bd c r = reply_addr c + REPLY_LEN bd * SLOT_NUM_of bd + unat (r * 8)"

subsection \<open>Filling the buffers\<close>

text \<open>The arrays of parameters: address and size.\<close>

type_synonym req_array = "nat \<Rightarrow> nat \<times> u32"

definition put_size :: "nat \<Rightarrow> req_array \<Rightarrow> nat \<Rightarrow> u32 \<times> mem \<Rightarrow> u32 \<times> mem" where
  "put_size sendAddr req i = (\<lambda>(location, m). (location + 4, wr32 (sendAddr + unat location) (snd (req i)) m))"

definition put_param :: "nat \<Rightarrow> req_array \<Rightarrow> nat \<Rightarrow> u32 \<times> mem \<Rightarrow> u32 \<times> mem" where
  "put_param sendAddr req i = (\<lambda>(location, m).
     (location + snd (req i),
      if snd (req i) \<noteq> 0 then memcpy (sendAddr + unat location) (fst (req i)) (unat (snd (req i))) m else m))"

text \<open>The request in the slot's data buffer: head, sizes, parameters, and a tail word that differs from the last one.\<close>

definition fill_head :: "build \<Rightarrow> nat \<Rightarrow> rpc_id_t \<Rightarrow> u16 \<Rightarrow> u8 \<Rightarrow> u16 \<Rightarrow> u32 \<Rightarrow> req_array \<Rightarrow> mem \<Rightarrow> mem" where
  "fill_head bd sendAddr rpc txn_type tx_id req_num hint req m =
     (let m = wr16 (sendAddr + 8) txn_type m;
          m = wr64 sendAddr (rpc_id_word rpc) m;
          m = m(sendAddr + 13 := tx_id);
          m = m(sendAddr + 10 := ucast req_num);
          m = (if ycsb_plus_t bd then m(sendAddr + 11 := ucast (of_nat (YCSBSIZE bd) - snd (req 3) div 384 :: u32)) else m)
      in wr32 (sendAddr + 24) hint m)"

definition fill_request ::
    "build \<Rightarrow> nat \<Rightarrow> rpc_id_t \<Rightarrow> u16 \<Rightarrow> u8 \<Rightarrow> u16 \<Rightarrow> u32 \<Rightarrow> req_array \<Rightarrow> mem \<Rightarrow> u32 \<times> mem" where
  "fill_request bd sendAddr rpc txn_type tx_id req_num hint req m =
     (let m = fill_head bd sendAddr rpc txn_type tx_id req_num hint req m;
          (location, m) = fold (put_size sendAddr req) [0..<unat req_num] (28, m);
          (location, m) = fold (put_param sendAddr req) [0..<unat req_num] (location, m);
          tail_magic = sendAddr + unat location;
          m = wr32 tail_magic (if rd32 m tail_magic = 111 then 222 else 111) m;
          m = wr32 (sendAddr + 16) location m;
          m = wr32 (sendAddr + 20) (rd32 m tail_magic) m
      in (location, m))"

text \<open>The message for the NIC: feature vector, hint (16-bit word 32) and toggle (word 33).\<close>

definition client_serialization :: "build \<Rightarrow> connect_t \<Rightarrow> nat \<Rightarrow> nat \<Rightarrow> mem \<Rightarrow> nat \<times> nat \<times> mem" where
  "client_serialization bd c i feature_addr m =
     (let addr = localBase c + i * SLOT_LEN;
          d_addr = data_addr c + i * DATA_LEN bd;
          m = (if feature_addr \<noteq> 0 then memcpy addr feature_addr 64 m else m);
          m = wr16 (addr + 66) (NOT (rd16 m (addr + 66))) m;
          m = wr16 (addr + 64) (ucast (req_partition_hint m d_addr)) m
      in (addr, 4 + 64, m))"

subsection \<open>Posting\<close>

definition upd_conn :: "nat \<Rightarrow> (connect_t \<Rightarrow> connect_t) \<Rightarrow> 'h client_t \<Rightarrow> 'h client_t" where
  "upd_conn n g cl = cl\<lparr>cl_connect := (cl_connect cl)(n := g (cl_connect cl n))\<rparr>"

definition client_credit :: "nat \<Rightarrow> 'h client_t \<Rightarrow> 'h client_t" where
  "client_credit wid cl =
     (if MAX_SERVER \<le> wid
      then upd_conn (wid - MAX_SERVER) (\<lambda>c. c\<lparr>sendnum := sendnum c - 1, signal_num := signal_num c - 1\<rparr>) cl
      else upd_conn wid (\<lambda>c. c\<lparr>sendnum := sendnum c - C_BatchPollSend, signal_num := signal_num c - 1\<rparr>) cl)"

text \<open>\<open>poll_signal\<close>: \<open>None\<close> when the fuel runs out, \<open>Some (False, _)\<close> when the library fails.\<close>

fun client_poll_loop :: "nat \<Rightarrow> 'h verbs \<Rightarrow> nat \<Rightarrow> bool \<Rightarrow> bool \<Rightarrow> nat list \<Rightarrow> nat \<Rightarrow> 'h client_t \<Rightarrow> (bool \<times> 'h client_t) option" where
  "client_poll_loop 0 V n pollflag sync_op ids poll_num cl = None"
| "client_poll_loop (Suc fuel) V n pollflag sync_op ids poll_num cl =
     (let cl = fold client_credit ids cl;
          cl = cl\<lparr>cl_signalNum := cl_signalNum cl - of_nat poll_num\<rparr>
      in if sendnum (cl_connect cl n) < C_BatchPollSend \<and> pollflag then Some (True, cl)
         else if signal_num (cl_connect cl n) = 0 \<and> sync_op then Some (True, cl)
         else if cl_signalNum cl < C_BatchSignalSend \<and> \<not> sync_op \<and> \<not> pollflag then Some (True, cl)
         else (case pollWithCQN fuel V False 1 (cl_hw cl) of
                 None \<Rightarrow> None
               | Some (None, h) \<Rightarrow> Some (False, cl\<lparr>cl_hw := h\<rparr>)
               | Some (Some ids, h) \<Rightarrow> client_poll_loop fuel V n pollflag sync_op ids 1 (cl\<lparr>cl_hw := h\<rparr>)))"

definition client_poll_signal :: "nat \<Rightarrow> 'h verbs \<Rightarrow> nat \<Rightarrow> bool \<Rightarrow> bool \<Rightarrow> 'h client_t \<Rightarrow> (bool \<times> 'h client_t) option" where
  "client_poll_signal fuel V n pollflag sync_op cl =
     (if pollflag \<or> sync_op \<or> 2 * C_BatchSignalSend \<le> cl_signalNum cl
      then (let poll_num = unat (min C_BatchSignalSend (cl_signalNum cl))
            in case pollWithCQN fuel V False poll_num (cl_hw cl) of
                 None \<Rightarrow> None
               | Some (None, h) \<Rightarrow> Some (False, cl\<lparr>cl_hw := h\<rparr>)
               | Some (Some ids, h) \<Rightarrow> client_poll_loop fuel V n pollflag sync_op ids poll_num (cl\<lparr>cl_hw := h\<rparr>))
      else Some (True, cl))"

text \<open>A chain of work requests is posted up to the first that fails.\<close>

fun post_chain :: "'h verbs \<Rightarrow> nat \<Rightarrow> send_wr list \<Rightarrow> 'h client_t \<Rightarrow> bool \<times> 'h client_t" where
  "post_chain V n [] cl = (True, cl)"
| "post_chain V n (w # ws) cl =
     (case ibv_post_send V False n w (cl_hw cl) of
        (False, h) \<Rightarrow> (False, cl\<lparr>cl_hw := h\<rparr>)
      | (True, h) \<Rightarrow> post_chain V n ws (cl\<lparr>cl_hw := h, cl_log := cl_log cl @ [(n, w)]\<rparr>))"

text \<open>A failing post returns \<open>false\<close>; the result of the poll is ignored.\<close>

definition post_and_poll :: "nat \<Rightarrow> 'h verbs \<Rightarrow> nat \<Rightarrow> send_wr list \<Rightarrow> bool \<Rightarrow> 'h client_t \<Rightarrow> (bool \<times> 'h client_t) option" where
  "post_and_poll fuel V n ws pollflag cl =
     (case post_chain V n ws cl of
        (False, cl) \<Rightarrow> Some (False, cl)
      | (True, cl) \<Rightarrow> map_option (\<lambda>(_, cl). (True, cl)) (client_poll_signal fuel V n pollflag False cl))"

definition double_rdma_write ::
    "nat \<Rightarrow> 'h verbs \<Rightarrow> nat \<Rightarrow> nat \<Rightarrow> nat \<Rightarrow> nat \<Rightarrow> nat \<Rightarrow> 'h client_t \<Rightarrow> (bool \<times> 'h client_t) option" where
  "double_rdma_write fuel V n source_d size_d source_m size_m cl =
     (let c = cl_connect cl n;
          wr0 = (fillSgeWr source_d size_d)\<lparr>wr_wr_id := n, wr_remote_addr := get_remote_data_addr c source_d\<rparr>;
          wr1 = (fillSgeWr source_m size_m)\<lparr>wr_wr_id := n, wr_remote_addr := getRemoteAddr c source_m\<rparr>;
          cl = upd_conn n (\<lambda>c. c\<lparr>sendnum := sendnum c + 2\<rparr>) cl;
          signal = (sendnum (cl_connect cl n) = C_BatchPollSend);
          wr1 = wr1\<lparr>wr_signaled := signal\<rparr>;
          cl = (if signal
                then (upd_conn n (\<lambda>c. c\<lparr>signal_num := signal_num c + 1\<rparr>) cl)\<lparr>cl_signalNum := cl_signalNum cl + 1\<rparr> else cl);
          pollflag = (2 * C_BatchPollSend - 2 \<le> sendnum (cl_connect cl n))
      in post_and_poll fuel V n [wr0, wr1] pollflag cl)"

definition rdmaWrite_client :: "nat \<Rightarrow> 'h verbs \<Rightarrow> nat \<Rightarrow> nat \<Rightarrow> nat \<Rightarrow> nat \<Rightarrow> 'h client_t \<Rightarrow> (bool \<times> 'h client_t) option" where
  "rdmaWrite_client fuel V n source len dest cl =
     (let w = (fillSgeWr source len)\<lparr>wr_signaled := True, wr_wr_id := n + MAX_SERVER, wr_remote_addr := dest\<rparr>;
          cl = cl\<lparr>cl_signalNum := cl_signalNum cl + 1\<rparr>;
          cl = upd_conn n (\<lambda>c. c\<lparr>signal_num := signal_num c + 1, sendnum := sendnum c + 1\<rparr>) cl;
          pollflag = (2 * C_BatchPollSend - 2 \<le> sendnum (cl_connect cl n))
      in post_and_poll fuel V n [w] pollflag cl)"

text \<open>\<open>push_new_call_write\<close>: \<open>None\<close> when the process exits or the fuel runs out; \<open>spnic2\<close> is the build without a NIC
  scheduler.  The result of posting is ignored.\<close>

definition next_rpcnum :: "u32 \<Rightarrow> u64 \<Rightarrow> u64" where
  "next_rpcnum sent n =
     (if n mod 1000 = ucast sent \<or> n mod 1000 + 100 = ucast sent then (n + 1) mod 1000 else n)"

definition push_new_call_write ::
    "nat \<Rightarrow> build \<Rightarrow> bool \<Rightarrow> 'h verbs \<Rightarrow> nat \<Rightarrow> u8 \<Rightarrow> req_array \<Rightarrow> u16 \<Rightarrow> u16 \<Rightarrow> u8 \<Rightarrow> u32 \<Rightarrow> nat \<Rightarrow> 'h client_t \<Rightarrow> (rpc_id_t \<times> 'h client_t) option" where
  "push_new_call_write fuel bd spnic2 V n rpc_ty req req_num txn_type tx_id hint feature_addr cl =
     (if cl_id_addr cl n (unat (cl_rpcnum cl n mod 1000)) \<noteq> 0 then None
      else let c = cl_connect cl n;
               sendAddr = get_send_data_addr bd c (ucast tx_id);
               num = next_rpcnum (rpc_id (req_rpc_id (cl_mem cl) sendAddr)) (cl_rpcnum cl n);
               rpc = \<lparr>rpc_type = rpc_ty, my_nodeid = cl_node_id cl, server_nodeid = of_nat n, rpc_thread_id = cl_thread_id cl,
                      rpc_id = ucast (num mod 1000)\<rparr>;
               t = unat tx_id;
               cl = cl\<lparr>cl_rpcnum := (cl_rpcnum cl)(n := (num + 1) mod 1000), cl_rpccount := cl_rpccount cl + 1,
                       cl_tx := (cl_tx cl)(t := (cl_tx cl t)\<lparr>tx_single_rpc_id := rpc_id rpc\<rparr>)\<rparr>;
               (location, m) = fill_request bd sendAddr rpc txn_type tx_id req_num hint req (cl_mem cl);
               (metadata_addr, metadata_size, m) = client_serialization bd c t feature_addr m;
               cl = cl\<lparr>cl_mem := m\<rparr>
           in map_option (\<lambda>(_, cl). (rpc, cl))
                (if spnic2 then rdmaWrite_client fuel V n sendAddr (unat (location + 4)) (get_remote_data_addr c sendAddr) cl
                 else double_rdma_write fuel V n sendAddr (unat (location + 4)) metadata_addr metadata_size cl))"

subsection \<open>The polling loop\<close>

definition delivery_reply_ok :: "u32 \<Rightarrow> 'h client_t \<Rightarrow> bool" where
  "delivery_reply_ok r cl = cl_no_delivery_flag cl (unat (r mod 1000))"

definition update_reply_flag :: "build \<Rightarrow> u32 \<Rightarrow> nat \<Rightarrow> 'h client_t \<Rightarrow> bool \<times> 'h client_t" where
  "update_reply_flag bd r server cl =
     (let reply = rd64 (cl_mem cl) (get_strife_reply_addr bd (cl_connect cl server) r); k = unat r
      in if reply = cl_strife_cqe cl k + 11
         then (True, cl\<lparr>cl_strife_cqe := (cl_strife_cqe cl)(k := cl_strife_cqe cl k + 11)\<rparr>)
         else (False, cl))"

definition throughput_c :: "nat \<Rightarrow> 'h client_t \<Rightarrow> 'h client_t" where
  "throughput_c i cl = cl\<lparr>cl_ok_count := cl_ok_count cl + 1, cl_tx := (cl_tx cl)(i := tx_ok (cl_tx cl i))\<rparr>"

text \<open>What the workload generator chooses for a new transaction.\<close>

record workload =
  wl_mem :: "mem \<Rightarrow> mem"
  wl_latency_type :: nat
  wl_req :: req_array
  wl_req_num :: u16
  wl_txn_type :: u16
  wl_hint :: u32
  wl_feature :: nat

definition generate_tx :: "nat \<Rightarrow> build \<Rightarrow> bool \<Rightarrow> 'h verbs \<Rightarrow> workload \<Rightarrow> nat \<Rightarrow> 'h client_t \<Rightarrow> 'h client_t option" where
  "generate_tx fuel bd spnic2 V wl i cl =
     (let cl = cl\<lparr>cl_tx := (cl_tx cl)(i := (tx_start (cl_tx cl i))\<lparr>tx_latency_type := wl_latency_type wl\<rparr>), cl_mem := wl_mem wl (cl_mem cl)\<rparr>
      in map_option snd (push_new_call_write fuel bd spnic2 V 0 67 (wl_req wl) (wl_req_num wl) (wl_txn_type wl) (of_nat i)
           (wl_hint wl) (wl_feature wl) cl))"

text \<open>One slot of \<open>run_tpcc_client\<close>; the flag is the \<open>break\<close> out of the loop over the slots.\<close>

definition tpcc_del :: nat where "tpcc_del = 36"

definition client_slot :: "nat \<Rightarrow> build \<Rightarrow> bool \<Rightarrow> 'h verbs \<Rightarrow> workload \<Rightarrow> nat \<Rightarrow> 'h client_t \<Rightarrow> (bool \<times> 'h client_t) option" where
  "client_slot fuel bd spnic2 V wl i cl =
     (if \<not> tx_is_busy (cl_tx cl i) then
        if \<not> (delivery_reply_ok (ucast (cl_rpcnum cl 0)) cl \<and> delivery_reply_ok (ucast (cl_rpcnum cl 0 + 1)) cl) then Some (True, cl)
        else map_option (\<lambda>cl. (False,
               if tx_latency_type (cl_tx cl i) = tpcc_del
               then cl\<lparr>cl_no_delivery_flag := (cl_no_delivery_flag cl)(unat (tx_single_rpc_id (cl_tx cl i)) := False)\<rparr> else cl))
             (generate_tx fuel bd spnic2 V wl i (cl\<lparr>cl_test_count := cl_test_count cl + 1\<rparr>))
      else let r = req_rpc_id (cl_mem cl) (get_my_reply_addr bd (cl_connect cl (tx_single_node_id (cl_tx cl i))) (of_nat i))
           in if rpc_id r = tx_single_rpc_id (cl_tx cl i) + NOTHING_DEBUG
              then Some (False, throughput_c i (cl\<lparr>cl_tx := (cl_tx cl)(i := (cl_tx cl i)\<lparr>tx_now_phase := my_nodeid r\<rparr>)\<rparr>))
              else Some (False, cl))"

definition client_delivery :: "build \<Rightarrow> nat \<Rightarrow> 'h client_t \<Rightarrow> 'h client_t" where
  "client_delivery bd d_i cl =
     (if \<not> cl_no_delivery_flag cl d_i
      then (case update_reply_flag bd (of_nat d_i) 0 cl of
              (True, cl) \<Rightarrow> cl\<lparr>cl_no_delivery_flag := (cl_no_delivery_flag cl)(d_i := True)\<rparr> | (False, cl) \<Rightarrow> cl)
      else cl)"

text \<open>The start of \<open>run_tpcc_client\<close>, and one turn of its endless loop; the memory between two visits is what the NIC left there.\<close>

definition client_init :: "'h client_t \<Rightarrow> 'h client_t" where
  "client_init cl = cl\<lparr>cl_strife_cqe := (\<lambda>i. if i < IDMAPADDRSIZE then 0 else cl_strife_cqe cl i),
     cl_no_delivery_flag := (\<lambda>i. i < IDMAPADDRSIZE \<or> cl_no_delivery_flag cl i)\<rparr>"

fun client_slots :: "nat \<Rightarrow> build \<Rightarrow> bool \<Rightarrow> 'h verbs \<Rightarrow> (nat \<Rightarrow> workload) \<Rightarrow> (nat \<Rightarrow> mem \<Rightarrow> mem) \<Rightarrow> nat list \<Rightarrow> 'h client_t \<Rightarrow> 'h client_t option" where
  "client_slots fuel bd spnic2 V wl nic [] cl = Some cl"
| "client_slots fuel bd spnic2 V wl nic (i # is) cl =
     (case client_slot fuel bd spnic2 V (wl i) i (cl\<lparr>cl_mem := nic i (cl_mem cl)\<rparr>) of
        None \<Rightarrow> None
      | Some (True, cl) \<Rightarrow> Some cl
      | Some (False, cl) \<Rightarrow> client_slots fuel bd spnic2 V wl nic is cl)"

definition run_tpcc_client_turn ::
    "nat \<Rightarrow> build \<Rightarrow> bool \<Rightarrow> 'h verbs \<Rightarrow> (nat \<Rightarrow> workload) \<Rightarrow> (nat \<Rightarrow> mem \<Rightarrow> mem) \<Rightarrow> nat \<times> 'h client_t \<Rightarrow> (nat \<times> 'h client_t) option" where
  "run_tpcc_client_turn fuel bd spnic2 V wl nic = (\<lambda>(d_i, cl).
     map_option (\<lambda>cl. ((d_i + 1) mod IDMAPADDRSIZE, client_delivery bd d_i cl))
       (client_slots fuel bd spnic2 V wl nic [0..<SLOT_NUM_of bd] cl))"

end
