(* ===== verification/Client_Request.thy ===== *)
theory Client_Request
  imports Client_Rpc
begin

unbundle bit_operations_syntax

text \<open>
  From the client's parameters to the worker's: what \<open>push_new_call_write\<close> leaves in the data buffer of a slot, and that
  the worker decodes the same request from the copy the NIC writes into its receive buffer.
\<close>

subsection \<open>The size table and the parameters\<close>

lemma put_sizes:
  assumes "j \<le> n" "28 + 4 * n < 2 ^ 32"
  shows "case fold (put_size s req) [0..<j] (28, m) of (loc, m') \<Rightarrow> loc = of_nat (28 + 4 * j) \<and>
    (\<forall>x. x < s + 28 \<or> s + 28 + 4 * j \<le> x \<longrightarrow> m' x = m x) \<and> (\<forall>i<j. rd32 m' (s + 28 + 4 * i) = snd (req i))"
  using assms(1)
proof (induction j)
  case (Suc j)
  obtain loc m' where f: "fold (put_size s req) [0..<j] (28, m) = (loc, m')" by fastforce
  have ih: "loc = of_nat (28 + 4 * j)" "\<And>x. x < s + 28 \<or> s + 28 + 4 * j \<le> x \<Longrightarrow> m' x = m x"
    "\<And>i. i < j \<Longrightarrow> rd32 m' (s + 28 + 4 * i) = snd (req i)"
    using Suc f by auto
  have u: "unat loc = 28 + 4 * j" unfolding ih(1) using Suc.prems assms(2) by (intro unat_of_nat_small) simp
  let ?m = "wr32 (s + 28 + 4 * j) (snd (req j)) m'"
  have r: "rd32 ?m (s + 28 + 4 * i) = snd (req i)" if "i < Suc j" for i
  proof (cases "i = j")
    case False
    then have "rd32 ?m (s + 28 + 4 * i) = rd32 m' (s + 28 + 4 * i)" using that by (intro rd32_disjoint) linarith
    then show ?thesis using ih(3) [of i] False that by simp
  qed simp
  have "fold (put_size s req) [0..<Suc j] (28, m) = (loc + 4, ?m)" using f u by (simp add: put_size_def add.assoc)
  moreover have "loc + 4 = of_nat (28 + 4 * Suc j)" unfolding ih(1) by simp
  ultimately have f': "fold (put_size s req) [0..<Suc j] (28, m) = (of_nat (28 + 4 * Suc j), ?m)" by simp
  have "?m x = m x" if "x < s + 28 \<or> s + 28 + 4 * Suc j \<le> x" for x
    using that ih(2) [of x] by (subst wr32_other) auto
  then show ?case unfolding f' prod.case using r by blast
qed simp

definition param_off :: "req_array \<Rightarrow> nat \<Rightarrow> nat" where
  "param_off req j = (\<Sum>k<j. unat (snd (req k)))"

lemma param_off_Suc [simp]: "param_off req (Suc j) = param_off req j + unat (snd (req j))" "param_off req 0 = 0"
  by (simp_all add: param_off_def)

lemma param_off_mono: "i \<le> j \<Longrightarrow> param_off req i \<le> param_off req j"
  unfolding param_off_def by (intro sum_mono2) auto

lemma memcpy_at: "memcpy d a n m x = (if d \<le> x \<and> x < d + n then m (a + (x - d)) else m x)"
  by (simp add: memcpy_def)

lemma memcpy_0 [simp]: "memcpy d a 0 m = m"
  by (auto simp: memcpy_def fun_eq_iff)

text \<open>No parameter lies in the given region.\<close>

definition params_outside :: "req_array \<Rightarrow> nat \<Rightarrow> nat \<Rightarrow> nat \<Rightarrow> bool" where
  "params_outside req n lo hi \<longleftrightarrow> (\<forall>i<n. fst (req i) + unat (snd (req i)) \<le> lo \<or> hi \<le> fst (req i))"

lemma put_params:
  assumes "j \<le> n" "L + param_off req n < 2 ^ 32" "params_outside req n (s + L) (s + L + param_off req n)"
  shows "case fold (put_param s req) [0..<j] (of_nat L, m) of (loc, m') \<Rightarrow> loc = of_nat (L + param_off req j) \<and>
    (\<forall>x. x < s + L \<or> s + L + param_off req j \<le> x \<longrightarrow> m' x = m x) \<and>
    (\<forall>i<j. \<forall>k<unat (snd (req i)). m' (s + L + param_off req i + k) = m (fst (req i) + k))"
  using assms(1)
proof (induction j)
  case (Suc j)
  obtain loc m' where f: "fold (put_param s req) [0..<j] (of_nat L, m) = (loc, m')" by fastforce
  have ih: "loc = of_nat (L + param_off req j)" "\<And>x. x < s + L \<or> s + L + param_off req j \<le> x \<Longrightarrow> m' x = m x"
    "\<And>i k. i < j \<Longrightarrow> k < unat (snd (req i)) \<Longrightarrow> m' (s + L + param_off req i + k) = m (fst (req i) + k)"
    using Suc f by auto
  have le: "param_off req (Suc j) \<le> param_off req n" using Suc.prems by (rule param_off_mono)
  have u: "unat loc = L + param_off req j" unfolding ih(1) using le assms(2) by (intro unat_of_nat_small) simp
  let ?m = "memcpy (s + L + param_off req j) (fst (req j)) (unat (snd (req j))) m'"
  have out: "fst (req j) + unat (snd (req j)) \<le> s + L \<or> s + L + param_off req n \<le> fst (req j)"
    using assms(3) Suc.prems by (auto simp: params_outside_def)
  have src: "m' (fst (req j) + k) = m (fst (req j) + k)" if "k < unat (snd (req j))" for k
    using out le that by (intro ih(2)) auto
  have "fold (put_param s req) [0..<Suc j] (of_nat L, m) = (loc + snd (req j), ?m)"
    using f u by (simp add: put_param_def add.assoc)
  moreover have "loc + snd (req j) = of_nat (L + param_off req (Suc j))" unfolding ih(1) by (simp add: add.assoc)
  moreover have "?m x = m x" if "x < s + L \<or> s + L + param_off req (Suc j) \<le> x" for x
    using that ih(2) [of x] by (auto simp: memcpy_at)
  moreover have "?m (s + L + param_off req i + k) = m (fst (req i) + k)" if "i < Suc j" "k < unat (snd (req i))" for i k
  proof (cases "i = j")
    case True
    then show ?thesis using src [of k] that by (simp add: memcpy_at)
  next
    case False
    then have "param_off req (Suc i) \<le> param_off req j" using that by (intro param_off_mono) simp
    then show ?thesis using ih(3) [of i k] False that by (simp add: memcpy_at)
  qed
  ultimately show ?case by simp
qed simp

subsection \<open>The filled buffer\<close>

lemma fill_head_outside: "x < s \<or> s + 28 \<le> x \<Longrightarrow> fill_head bd s rpc ty tx n hint req m x = m x"
  by (auto simp: fill_head_def Let_def)

lemma fill_head_fields:
  "rd64 (fill_head bd s rpc ty tx n hint req m) s = rpc_id_word rpc" "rd16 (fill_head bd s rpc ty tx n hint req m) (s + 8) = ty"
  "fill_head bd s rpc ty tx n hint req m (s + 13) = tx" "fill_head bd s rpc ty tx n hint req m (s + 10) = ucast n"
  "rd32 (fill_head bd s rpc ty tx n hint req m) (s + 24) = hint"
proof -
  let ?m = "fill_head bd s rpc ty tx n hint req m"
  have "rd64 ?m s = rd64 (wr64 s (rpc_id_word rpc) (wr16 (s + 8) ty m)) s"
    by (rule rd64_cong) (auto simp: fill_head_def Let_def)
  then show "rd64 ?m s = rpc_id_word rpc" by simp
  have "rd16 ?m (s + 8) = rd16 (wr16 (s + 8) ty m) (s + 8)" by (rule rd16_cong) (simp_all add: fill_head_def Let_def)
  then show "rd16 ?m (s + 8) = ty" by simp
  show "?m (s + 13) = tx" "?m (s + 10) = ucast n" "rd32 ?m (s + 24) = hint" by (simp_all add: fill_head_def Let_def)
qed

definition request_size :: "req_array \<Rightarrow> u16 \<Rightarrow> nat" where
  "request_size req n = 28 + 4 * unat n + param_off req (unat n)"

text \<open>The memory after the sizes (\<open>m1\<close>), after the parameters (\<open>m2\<close>), and at the end, when length and tail magic are in place.\<close>

lemma fill_request_parts:
  assumes fit: "request_size req n + 4 < 2 ^ 32" and out: "params_outside req (unat n) s (s + request_size req n + 4)"
    and r: "fill_request bd s rpc ty tx n hint req m = (loc, m')"
  obtains m1 m2 where "loc = of_nat (request_size req n)"
    "let m3 = wr32 (s + request_size req n) (if rd32 m2 (s + request_size req n) = 111 then 222 else 111) m2; m4 = wr32 (s + 16) loc m3
     in m' = wr32 (s + 20) (rd32 m4 (s + request_size req n)) m4"
    "\<And>x. x < s + 28 \<or> s + 28 + 4 * unat n \<le> x \<Longrightarrow> m1 x = fill_head bd s rpc ty tx n hint req m x"
    "\<And>i. i < unat n \<Longrightarrow> rd32 m1 (s + 28 + 4 * i) = snd (req i)"
    "\<And>x. x < s + 28 + 4 * unat n \<or> s + request_size req n \<le> x \<Longrightarrow> m2 x = m1 x"
    "\<And>i k. i < unat n \<Longrightarrow> k < unat (snd (req i)) \<Longrightarrow> m2 (s + 28 + 4 * unat n + param_off req i + k) = m1 (fst (req i) + k)"
proof -
  let ?T = "request_size req n" and ?h = "fill_head bd s rpc ty tx n hint req m" and ?L = "28 + 4 * unat n"
  obtain l1 m1 where f1: "fold (put_size s req) [0..<unat n] (28, ?h) = (l1, m1)" by fastforce
  obtain l2 m2 where f2: "fold (put_param s req) [0..<unat n] (l1, m1) = (l2, m2)" by fastforce
  have n: "28 + 4 * unat n < 2 ^ 32" using fit by (simp add: request_size_def)
  note p1 = put_sizes [OF le_refl n, where s = s and req = req and m = ?h, unfolded f1 prod.case]
  have l1: "l1 = of_nat ?L" using p1 by simp
  have out': "params_outside req (unat n) (s + ?L) (s + ?L + param_off req (unat n))"
    using out unfolding params_outside_def request_size_def by fastforce
  have L: "?L + param_off req (unat n) < 2 ^ 32" using fit by (simp add: request_size_def)
  note p2 = put_params [OF le_refl L out', where m = m1, folded l1, unfolded f2 prod.case]
  have T: "?L + param_off req (unat n) = ?T" by (simp add: request_size_def)
  have u: "unat l2 = ?T" "l2 = of_nat ?T" using p2 L unfolding T by (auto intro: unat_of_nat_small)
  show ?thesis
  proof (rule that [of m2 m1])
    show "loc = of_nat ?T" using r f1 f2 u by (auto simp: fill_request_def Let_def)
    show "let m3 = wr32 (s + ?T) (if rd32 m2 (s + ?T) = 111 then 222 else 111) m2; m4 = wr32 (s + 16) loc m3
        in m' = wr32 (s + 20) (rd32 m4 (s + ?T)) m4"
      using r f1 f2 u(1) by (auto simp: fill_request_def Let_def)
    show "m2 (s + 28 + 4 * unat n + param_off req i + k) = m1 (fst (req i) + k)" if "i < unat n" "k < unat (snd (req i))" for i k
      using p2 that by (simp add: add.assoc)
  qed (use p1 p2 T in auto)
qed

lemma fill_request_spec:
  assumes fit: "request_size req n + 4 < 2 ^ 32" and out: "params_outside req (unat n) s (s + request_size req n + 4)"
    and r: "fill_request bd s rpc ty tx n hint req m = (loc, m')"
  shows "loc = of_nat (request_size req n)"
    and "\<And>x. x < s \<or> s + request_size req n + 4 \<le> x \<Longrightarrow> m' x = m x"
    and "rd64 m' s = rpc_id_word rpc" "rd16 m' (s + 8) = ty" "m' (s + 13) = tx" "m' (s + 10) = ucast n" "rd32 m' (s + 24) = hint"
    and "rd32 m' (s + 16) = of_nat (request_size req n)" "rd32 m' (s + 20) = rd32 m' (s + request_size req n)"
    and "rd32 m' (s + request_size req n) = (if rd32 m (s + request_size req n) = 111 then 222 else 111)"
    and "\<And>i. i < unat n \<Longrightarrow> rd32 m' (s + 28 + 4 * i) = snd (req i)"
    and "\<And>i k. i < unat n \<Longrightarrow> k < unat (snd (req i)) \<Longrightarrow> m' (s + 28 + 4 * unat n + param_off req i + k) = m (fst (req i) + k)"
proof -
  let ?T = "request_size req n" and ?h = "fill_head bd s rpc ty tx n hint req m"
  obtain m1 m2 where u: "loc = of_nat ?T"
    and m4: "let m3 = wr32 (s + ?T) (if rd32 m2 (s + ?T) = 111 then 222 else 111) m2; m4 = wr32 (s + 16) loc m3
      in m' = wr32 (s + 20) (rd32 m4 (s + ?T)) m4"
    and p1: "\<And>x. x < s + 28 \<or> s + 28 + 4 * unat n \<le> x \<Longrightarrow> m1 x = ?h x" "\<And>i. i < unat n \<Longrightarrow> rd32 m1 (s + 28 + 4 * i) = snd (req i)"
    and p2: "\<And>x. x < s + 28 + 4 * unat n \<or> s + ?T \<le> x \<Longrightarrow> m2 x = m1 x"
      "\<And>i k. i < unat n \<Longrightarrow> k < unat (snd (req i)) \<Longrightarrow> m2 (s + 28 + 4 * unat n + param_off req i + k) = m1 (fst (req i) + k)"
    by (rule fill_request_parts [OF fit out r]) blast
  let ?m3 = "wr32 (s + ?T) (if rd32 m2 (s + ?T) = 111 then 222 else 111) m2"
  have m': "m' = wr32 (s + 20) (rd32 (wr32 (s + 16) loc ?m3) (s + ?T)) (wr32 (s + 16) loc ?m3)" using m4 by (simp add: Let_def)
  have ge: "28 \<le> ?T" "28 + 4 * unat n \<le> ?T" by (simp_all add: request_size_def)
  have m2: "m2 x = m x" if "x < s \<or> s + ?T \<le> x" for x
  proof -
    have "m2 x = m1 x" using p2 that ge by (auto simp: request_size_def)
    also have "m1 x = ?h x" using p1 that ge by auto
    finally show ?thesis using that ge fill_head_outside [of x s] by auto
  qed
  have mo: "m' x = m2 x" if "x < s + 16 \<or> s + 24 \<le> x" "x < s + ?T \<or> s + ?T + 4 \<le> x" for x
  proof -
    have "m' x = wr32 (s + 16) loc ?m3 x" unfolding m' by (rule wr32_other) (use that in linarith)
    also have "\<dots> = ?m3 x" by (rule wr32_other) (use that in linarith)
    also have "\<dots> = m2 x" by (rule wr32_other) (use that in linarith)
    finally show ?thesis .
  qed
  have hd: "m' x = ?h x" if "s \<le> x" "x < s + 16 \<or> s + 24 \<le> x" "x < s + 28" for x
  proof -
    have "m' x = m2 x" using that ge by (intro mo) auto
    also have "\<dots> = ?h x" using p2 p1 that by auto
    finally show ?thesis .
  qed
  have m2t: "rd32 m2 (s + ?T) = rd32 m (s + ?T)" by (rule rd32_cong) (simp add: m2)
  show "loc = of_nat ?T" by (rule u)
  show "m' x = m x" if "x < s \<or> s + ?T + 4 \<le> x" for x using that ge m2 [of x] mo [of x] by auto
  have "rd64 m' s = rd64 ?h s" by (rule rd64_cong) (simp add: hd)
  then show "rd64 m' s = rpc_id_word rpc" by (simp add: fill_head_fields)
  have "rd16 m' (s + 8) = rd16 ?h (s + 8)" by (rule rd16_cong) (simp_all add: hd)
  then show "rd16 m' (s + 8) = ty" by (simp add: fill_head_fields)
  show "m' (s + 13) = tx" "m' (s + 10) = ucast n" by (simp_all add: hd fill_head_fields)
  have "rd32 m' (s + 24) = rd32 ?h (s + 24)" by (rule rd32_cong) (simp add: hd)
  then show "rd32 m' (s + 24) = hint" by (simp add: fill_head_fields)
  show "rd32 m' (s + 16) = of_nat ?T" unfolding m' using u by (simp add: rd32_disjoint)
  have t: "rd32 m' (s + ?T) = rd32 (wr32 (s + 16) loc ?m3) (s + ?T)" unfolding m' using ge by (intro rd32_disjoint) simp
  show "rd32 m' (s + 20) = rd32 m' (s + ?T)" unfolding t unfolding m' by simp
  show "rd32 m' (s + ?T) = (if rd32 m (s + ?T) = 111 then 222 else 111)"
    unfolding t using ge by (simp add: rd32_disjoint m2t)
  show "rd32 m' (s + 28 + 4 * i) = snd (req i)" if i: "i < unat n" for i
  proof -
    have "rd32 m' (s + 28 + 4 * i) = rd32 m1 (s + 28 + 4 * i)"
    proof (rule rd32_cong)
      fix k :: nat assume k: "k < 4"
      have "m' (s + 28 + 4 * i + k) = m2 (s + 28 + 4 * i + k)" using i k ge by (intro mo) auto
      also have "\<dots> = m1 (s + 28 + 4 * i + k)" using p2 i k by auto
      finally show "m' (s + 28 + 4 * i + k) = m1 (s + 28 + 4 * i + k)" .
    qed
    then show ?thesis using p1 i by simp
  qed
  show "m' (s + 28 + 4 * unat n + param_off req i + k) = m (fst (req i) + k)" if i: "i < unat n" "k < unat (snd (req i))" for i k
  proof -
    have "param_off req (Suc i) \<le> param_off req (unat n)" using i(1) by (intro param_off_mono) simp
    then have b: "28 + 4 * unat n + param_off req i + k < ?T" using i(2) by (simp add: request_size_def)
    have "m' (s + 28 + 4 * unat n + param_off req i + k) = m2 (s + 28 + 4 * unat n + param_off req i + k)" using b by (intro mo) auto
    also have "\<dots> = m1 (fst (req i) + k)" using p2(2) [OF i] .
    also have "fst (req i) + k < s \<or> s + ?T \<le> fst (req i) + k" using out i unfolding params_outside_def by fastforce
    then have "m1 (fst (req i) + k) = m (fst (req i) + k)"
      using p1(1) [of "fst (req i) + k"] ge fill_head_outside [of "fst (req i) + k" s] by auto
    finally show ?thesis .
  qed
qed

subsection \<open>Posting changes only the send accounting\<close>

definition core :: "'h client_t \<Rightarrow> 'h client_t" where
  "core cl = cl\<lparr>cl_connect := (\<lambda>n. (cl_connect cl n)\<lparr>sendnum := 0, signal_num := 0\<rparr>), cl_signalNum := 0, cl_log := [], cl_hw := undefined\<rparr>"

lemma coreD:
  assumes "core a = core b"
  shows "cl_mem a = cl_mem b" "cl_tx a = cl_tx b" "cl_rpcnum a = cl_rpcnum b" "cl_no_delivery_flag a = cl_no_delivery_flag b"
    "cl_strife_cqe a = cl_strife_cqe b" "cl_ok_count a = cl_ok_count b" "cl_id_addr a = cl_id_addr b"
    "cl_node_id a = cl_node_id b" "cl_thread_id a = cl_thread_id b"
    "reply_addr (cl_connect a n) = reply_addr (cl_connect b n)" "data_addr (cl_connect a n) = data_addr (cl_connect b n)"
    "localBase (cl_connect a n) = localBase (cl_connect b n)" "remoteAddr (cl_connect a n) = remoteAddr (cl_connect b n)"
    "remote_data_addr (cl_connect a n) = remote_data_addr (cl_connect b n)"
proof -
  have sel: "cl_mem (core c) = cl_mem c" "cl_tx (core c) = cl_tx c" "cl_rpcnum (core c) = cl_rpcnum c"
    "cl_no_delivery_flag (core c) = cl_no_delivery_flag c" "cl_strife_cqe (core c) = cl_strife_cqe c" "cl_ok_count (core c) = cl_ok_count c"
    "cl_id_addr (core c) = cl_id_addr c" "cl_node_id (core c) = cl_node_id c" "cl_thread_id (core c) = cl_thread_id c"
    "reply_addr (cl_connect (core c) n) = reply_addr (cl_connect c n)" "data_addr (cl_connect (core c) n) = data_addr (cl_connect c n)"
    "localBase (cl_connect (core c) n) = localBase (cl_connect c n)" "remoteAddr (cl_connect (core c) n) = remoteAddr (cl_connect c n)"
    "remote_data_addr (cl_connect (core c) n) = remote_data_addr (cl_connect c n)" for c :: "'a client_t"
    by (simp_all add: core_def)
  note a = sel [of a, unfolded assms sel]
  show "cl_mem a = cl_mem b" "cl_tx a = cl_tx b" "cl_rpcnum a = cl_rpcnum b" "cl_no_delivery_flag a = cl_no_delivery_flag b"
    "cl_strife_cqe a = cl_strife_cqe b" "cl_ok_count a = cl_ok_count b" "cl_id_addr a = cl_id_addr b"
    "cl_node_id a = cl_node_id b" "cl_thread_id a = cl_thread_id b"
    "reply_addr (cl_connect a n) = reply_addr (cl_connect b n)" "data_addr (cl_connect a n) = data_addr (cl_connect b n)"
    "localBase (cl_connect a n) = localBase (cl_connect b n)" "remoteAddr (cl_connect a n) = remoteAddr (cl_connect b n)"
    "remote_data_addr (cl_connect a n) = remote_data_addr (cl_connect b n)"
    by (simp_all only: a)
qed

lemma core_upd [simp]:
  "core (cl\<lparr>cl_hw := h\<rparr>) = core cl" "core (cl\<lparr>cl_signalNum := x\<rparr>) = core cl" "core (cl\<lparr>cl_log := l\<rparr>) = core cl"
  "core (upd_conn n (\<lambda>c. c\<lparr>sendnum := f c, signal_num := g c\<rparr>) cl) = core cl"
  "core (upd_conn n (\<lambda>c. c\<lparr>signal_num := g c, sendnum := f c\<rparr>) cl) = core cl"
  "core (upd_conn n (\<lambda>c. c\<lparr>sendnum := f c\<rparr>) cl) = core cl" "core (upd_conn n (\<lambda>c. c\<lparr>signal_num := g c\<rparr>) cl) = core cl"
  by (simp_all add: core_def upd_conn_def fun_eq_iff)

lemma core_credit: "core (fold client_credit ids cl) = core cl" "cl_log (fold client_credit ids cl) = cl_log cl"
proof -
  have "core (client_credit w c) = core c \<and> cl_log (client_credit w c) = cl_log c" for w and c :: "'a client_t"
    by (simp add: client_credit_def) (simp add: upd_conn_def)
  then show "core (fold client_credit ids cl) = core cl" "cl_log (fold client_credit ids cl) = cl_log cl"
    by (induction ids arbitrary: cl) auto
qed

lemma poll_loop_core: "client_poll_loop fuel V n p sy ids k cl = Some (ok, cl') \<Longrightarrow> core cl' = core cl \<and> cl_log cl' = cl_log cl"
proof (induction fuel arbitrary: ids k cl)
  case (Suc fuel)
  define c where "c = (fold client_credit ids cl)\<lparr>cl_signalNum := cl_signalNum (fold client_credit ids cl) - of_nat k\<rparr>"
  have c: "core c = core cl" "cl_log c = cl_log cl" by (simp_all add: c_def core_credit)
  show ?case
  proof (cases "cl' = c")
    case False
    then obtain r h where r: "pollWithCQN fuel V False 1 (cl_hw c) = Some (r, h)"
      using Suc.prems by (auto simp: c_def [symmetric] Let_def split: if_splits option.splits)
    show ?thesis
    proof (cases r)
      case None
      then have "cl' = c\<lparr>cl_hw := h\<rparr>" using Suc.prems r False by (auto simp: c_def [symmetric] Let_def split: if_splits)
      then show ?thesis using c by simp
    next
      case (Some ids')
      then have "client_poll_loop fuel V n p sy ids' 1 (c\<lparr>cl_hw := h\<rparr>) = Some (ok, cl')"
        using Suc.prems r False by (auto simp: c_def [symmetric] Let_def split: if_splits)
      from Suc.IH [OF this] show ?thesis using c by simp
    qed
  qed (use c in simp)
qed simp

lemma poll_core:
  assumes "client_poll_signal fuel V n p sy cl = Some (ok, cl')"
  shows "core cl' = core cl \<and> cl_log cl' = cl_log cl"
proof (cases "cl' = cl")
  case False
  define k where "k = unat (min C_BatchSignalSend (cl_signalNum cl))"
  obtain r h where r: "pollWithCQN fuel V False k (cl_hw cl) = Some (r, h)"
    using assms False by (auto simp: client_poll_signal_def k_def [symmetric] Let_def split: if_splits option.splits)
  show ?thesis
  proof (cases r)
    case None
    then show ?thesis using assms r False by (auto simp: client_poll_signal_def k_def [symmetric] Let_def split: if_splits)
  next
    case (Some ids)
    then have "client_poll_loop fuel V n p sy ids k (cl\<lparr>cl_hw := h\<rparr>) = Some (ok, cl')"
      using assms r False by (auto simp: client_poll_signal_def k_def [symmetric] Let_def split: if_splits)
    from poll_loop_core [OF this] show ?thesis by simp
  qed
qed simp

lemma post_core: "post_chain V n ws cl = (ok, cl') \<Longrightarrow> core cl' = core cl"
  by (induction ws arbitrary: cl) (auto split: prod.splits bool.splits)

subsection \<open>A call\<close>

lemma post_first: "post_chain V n (w # ws) cl = (ok, cl') \<Longrightarrow> cl_log cl' = cl_log cl @ x # rest \<Longrightarrow> x = (n, w)"
proof -
  have "\<exists>l. cl_log c' = cl_log c @ l" if "post_chain V n vs c = (ok, c')" for vs and c c' :: "'a client_t"
    using that by (induction vs arbitrary: c) (fastforce split: prod.splits bool.splits)+
  moreover assume "post_chain V n (w # ws) cl = (ok, cl')" "cl_log cl' = cl_log cl @ x # rest"
  ultimately show ?thesis by (fastforce split: prod.splits bool.splits)
qed

lemma post_and_poll_spec:
  assumes "post_and_poll fuel V n (w # ws) pollflag cl = Some (ok, cl')"
  shows "core cl' = core cl" and "cl_log cl' = cl_log cl @ x # rest \<Longrightarrow> x = (n, w)"
proof -
  obtain b c where c: "post_chain V n (w # ws) cl = (b, c)" by fastforce
  have l: "core cl' = core c \<and> cl_log cl' = cl_log c"
    using assms c poll_core by (cases b) (fastforce simp: post_and_poll_def)+
  show "core cl' = core cl" using post_core [OF c] l by simp
  show "x = (n, w)" if "cl_log cl' = cl_log cl @ x # rest" using post_first [OF c, of x rest] that l by simp
qed

lemma double_write_spec:
  assumes "double_rdma_write fuel V n sd ld sm lm cl = Some (ok, cl')"
  shows "core cl' = core cl" and "cl_log cl' = cl_log cl @ (n', w) # rest \<Longrightarrow>
    n' = n \<and> wr_source w = sd \<and> wr_length w = ld \<and> wr_remote_addr w = get_remote_data_addr (cl_connect cl n) sd"
proof -
  let ?w0 = "(fillSgeWr sd ld)\<lparr>wr_wr_id := n, wr_remote_addr := get_remote_data_addr (cl_connect cl n) sd\<rparr>"
  define c0 where "c0 = upd_conn n (\<lambda>c. c\<lparr>sendnum := sendnum c + 2\<rparr>) cl"
  define c1 where "c1 = (if sendnum (cl_connect c0 n) = C_BatchPollSend
      then (upd_conn n (\<lambda>c. c\<lparr>signal_num := signal_num c + 1\<rparr>) c0)\<lparr>cl_signalNum := cl_signalNum c0 + 1\<rparr> else c0)"
  have c: "core c1 = core cl" by (simp add: c1_def c0_def)
  have lg: "cl_log c1 = cl_log cl" by (simp add: c1_def c0_def upd_conn_def)
  obtain w1 pf where p: "post_and_poll fuel V n [?w0, w1] pf c1 = Some (ok, cl')"
    using assms unfolding double_rdma_write_def Let_def c0_def [symmetric] c1_def [symmetric] by blast
  show "core cl' = core cl" using post_and_poll_spec(1) [OF p] c by simp
  show "n' = n \<and> wr_source w = sd \<and> wr_length w = ld \<and> wr_remote_addr w = get_remote_data_addr (cl_connect cl n) sd"
    if "cl_log cl' = cl_log cl @ (n', w) # rest"
    using post_and_poll_spec(2) [OF p, of "(n', w)" rest] that lg by (simp add: fillSgeWr_def)
qed

lemma single_write_spec:
  assumes "rdmaWrite_client fuel V n sd ld dest cl = Some (ok, cl')"
  shows "core cl' = core cl" and "cl_log cl' = cl_log cl @ (n', w) # rest \<Longrightarrow>
    n' = n \<and> wr_source w = sd \<and> wr_length w = ld \<and> wr_remote_addr w = dest"
proof -
  let ?w = "(fillSgeWr sd ld)\<lparr>wr_signaled := True, wr_wr_id := n + MAX_SERVER, wr_remote_addr := dest\<rparr>"
  define c1 where "c1 = upd_conn n (\<lambda>c. c\<lparr>signal_num := signal_num c + 1, sendnum := sendnum c + 1\<rparr>) (cl\<lparr>cl_signalNum := cl_signalNum cl + 1\<rparr>)"
  have c: "core c1 = core cl" by (simp add: c1_def)
  have lg: "cl_log c1 = cl_log cl" by (simp add: c1_def upd_conn_def)
  obtain pf where p: "post_and_poll fuel V n [?w] pf c1 = Some (ok, cl')"
    using assms unfolding rdmaWrite_client_def Let_def c1_def [symmetric] by blast
  show "core cl' = core cl" using post_and_poll_spec(1) [OF p] c by simp
  show "n' = n \<and> wr_source w = sd \<and> wr_length w = ld \<and> wr_remote_addr w = dest"
    if "cl_log cl' = cl_log cl @ (n', w) # rest"
    using post_and_poll_spec(2) [OF p, of "(n', w)" rest] that lg by (simp add: fillSgeWr_def)
qed

lemma push_spec:
  assumes p: "push_new_call_write fuel bd sp V n rt req rn ty tx hint fa cl = Some (rpc, cl')"
    and s: "s = get_send_data_addr bd (cl_connect cl n) (ucast tx)"
  obtains loc m where "fill_request bd s rpc ty tx rn hint req (cl_mem cl) = (loc, m)"
    "core cl' = core (cl\<lparr>cl_rpcnum := (cl_rpcnum cl)(n := (next_rpcnum (rpc_id (req_rpc_id (cl_mem cl) s)) (cl_rpcnum cl n) + 1) mod 1000),
        cl_rpccount := cl_rpccount cl + 1, cl_tx := (cl_tx cl)(unat tx := (cl_tx cl (unat tx))\<lparr>tx_single_rpc_id := rpc_id rpc\<rparr>),
        cl_mem := snd (snd (client_serialization bd (cl_connect cl n) (unat tx) fa m))\<rparr>)"
    "rpc = \<lparr>rpc_type = rt, my_nodeid = cl_node_id cl, server_nodeid = of_nat n, rpc_thread_id = cl_thread_id cl,
        rpc_id = ucast (next_rpcnum (rpc_id (req_rpc_id (cl_mem cl) s)) (cl_rpcnum cl n) mod 1000)\<rparr>"
    "\<And>n' w rest. cl_log cl' = cl_log cl @ (n', w) # rest \<Longrightarrow>
       wr_source w = s \<and> wr_length w = unat (loc + 4) \<and> wr_remote_addr w = get_remote_data_addr (cl_connect cl n) s"
proof -
  let ?num = "next_rpcnum (rpc_id (req_rpc_id (cl_mem cl) s)) (cl_rpcnum cl n)"
  let ?rpc = "\<lparr>rpc_type = rt, my_nodeid = cl_node_id cl, server_nodeid = of_nat n, rpc_thread_id = cl_thread_id cl, rpc_id = ucast (?num mod 1000)\<rparr>"
  obtain loc m where f: "fill_request bd s ?rpc ty tx rn hint req (cl_mem cl) = (loc, m)" by fastforce
  obtain ma ms m' where z: "client_serialization bd (cl_connect cl n) (unat tx) fa m = (ma, ms, m')" by (metis prod_cases3)
  define c1 where "c1 = cl\<lparr>cl_rpcnum := (cl_rpcnum cl)(n := (?num + 1) mod 1000), cl_rpccount := cl_rpccount cl + 1,
    cl_tx := (cl_tx cl)(unat tx := (cl_tx cl (unat tx))\<lparr>tx_single_rpc_id := rpc_id ?rpc\<rparr>), cl_mem := m'\<rparr>"
  have "map_option (\<lambda>(_, cl). (?rpc, cl))
        (if sp then rdmaWrite_client fuel V n s (unat (loc + 4)) (get_remote_data_addr (cl_connect cl n) s) c1
         else double_rdma_write fuel V n s (unat (loc + 4)) ma ms c1) = Some (rpc, cl')"
    using p f z by (simp add: push_new_call_write_def Let_def s [symmetric] c1_def split: if_splits)
  then obtain ok where r: "rpc = ?rpc" and w: "(if sp then rdmaWrite_client fuel V n s (unat (loc + 4)) (get_remote_data_addr (cl_connect cl n) s) c1
         else double_rdma_write fuel V n s (unat (loc + 4)) ma ms c1) = Some (ok, cl')" by auto
  have cn: "cl_connect c1 n = cl_connect cl n" "cl_log c1 = cl_log cl" by (simp_all add: c1_def)
  have c: "core cl' = core c1" using w single_write_spec(1) double_write_spec(1) by (auto split: if_splits)
  have l: "wr_source w' = s \<and> wr_length w' = unat (loc + 4) \<and> wr_remote_addr w' = get_remote_data_addr (cl_connect cl n) s"
    if "cl_log cl' = cl_log cl @ (n', w') # rest" for n' w' rest
    using w that cn single_write_spec(2) [of fuel V n s "unat (loc + 4)" "get_remote_data_addr (cl_connect cl n) s" c1 ok cl' n' w' rest]
      double_write_spec(2) [of fuel V n s "unat (loc + 4)" ma ms c1 ok cl' n' w' rest] by (auto split: if_splits)
  show ?thesis
    by (rule that [of loc m, OF _ _ _ l]) (use f r c z in \<open>simp_all add: c1_def\<close>)
qed

lemma serialization_outside:
  assumes "x < localBase c + i * SLOT_LEN \<or> localBase c + i * SLOT_LEN + 68 \<le> x"
  shows "snd (snd (client_serialization bd c i fa m)) x = m x"
  using assms by (auto simp: client_serialization_def Let_def memcpy_at)

subsection \<open>The worker's view\<close>

text \<open>What an RDMA write does: the bytes of the source are in the remote memory.\<close>

lemma rd_shift:
  "m a = m' b \<Longrightarrow> m (a + 1) = m' (b + 1) \<Longrightarrow> rd16 m a = rd16 m' b"
  "(\<And>k. k < 4 \<Longrightarrow> m (a + k) = m' (b + k)) \<Longrightarrow> rd32 m a = rd32 m' b"
  "(\<And>k. k < 8 \<Longrightarrow> m (a + k) = m' (b + k)) \<Longrightarrow> rd64 m a = rd64 m' b"
proof -
  have at: "rd16 m a = rd16 (\<lambda>k. m (a + k)) 0" "rd32 m a = rd32 (\<lambda>k. m (a + k)) 0" "rd64 m a = rd64 (\<lambda>k. m (a + k)) 0" for m a
    by (simp_all add: rd64_def rd32_def rd16_def ac_simps)
  show "rd16 m a = rd16 m' b" if "m a = m' b" "m (a + 1) = m' (b + 1)" unfolding rd16_def that ..
  show "rd32 m a = rd32 m' b" if "\<And>k. k < 4 \<Longrightarrow> m (a + k) = m' (b + k)"
    unfolding at(2) [of m a] at(2) [of m' b] by (rule rd32_cong) (simp add: that)
  show "rd64 m a = rd64 m' b" if "\<And>k. k < 8 \<Longrightarrow> m (a + k) = m' (b + k)"
    unfolding at(3) [of m a] at(3) [of m' b] by (rule rd64_cong) (simp add: that)
qed

definition rdma_written :: "send_wr \<Rightarrow> mem \<Rightarrow> mem \<Rightarrow> bool" where
  "rdma_written w cm sm \<longleftrightarrow> (\<forall>k<wr_length w. sm (wr_remote_addr w + k) = cm (wr_source w + k))"

lemma call_buffer:
  assumes p: "push_new_call_write fuel bd sp V n rt req rn ty tx hint fa cl = Some (rpc, cl')"
    and s: "s = get_send_data_addr bd (cl_connect cl n) (ucast tx)"
    and fit: "request_size req rn + 4 \<le> DATA_LEN bd" and out: "params_outside req (unat rn) s (s + DATA_LEN bd)"
    and meta: "localBase (cl_connect cl n) + unat tx * SLOT_LEN + 68 \<le> s \<or> s + DATA_LEN bd \<le> localBase (cl_connect cl n) + unat tx * SLOT_LEN"
  obtains m where "fill_request bd s rpc ty tx rn hint req (cl_mem cl) = (of_nat (request_size req rn), m)"
    "\<And>x. s \<le> x \<Longrightarrow> x < s + DATA_LEN bd \<Longrightarrow> cl_mem cl' x = m x" "request_size req rn + 4 < 2 ^ 32"
    "params_outside req (unat rn) s (s + request_size req rn + 4)"
    "\<And>n' w rest. cl_log cl' = cl_log cl @ (n', w) # rest \<Longrightarrow>
       wr_source w = s \<and> wr_length w = request_size req rn + 4 \<and> wr_remote_addr w = get_remote_data_addr (cl_connect cl n) s"
proof -
  obtain loc m where f: "fill_request bd s rpc ty tx rn hint req (cl_mem cl) = (loc, m)"
    and c: "core cl' = core (cl\<lparr>cl_rpcnum := (cl_rpcnum cl)(n := (next_rpcnum (rpc_id (req_rpc_id (cl_mem cl) s)) (cl_rpcnum cl n) + 1) mod 1000),
        cl_rpccount := cl_rpccount cl + 1, cl_tx := (cl_tx cl)(unat tx := (cl_tx cl (unat tx))\<lparr>tx_single_rpc_id := rpc_id rpc\<rparr>),
        cl_mem := snd (snd (client_serialization bd (cl_connect cl n) (unat tx) fa m))\<rparr>)"
    and l: "\<And>n' w rest. cl_log cl' = cl_log cl @ (n', w) # rest \<Longrightarrow>
       wr_source w = s \<and> wr_length w = unat (loc + 4) \<and> wr_remote_addr w = get_remote_data_addr (cl_connect cl n) s"
    by (rule push_spec [OF p s]) blast
  have "DATA_LEN bd < 2 ^ 31" by (simp add: DATA_LEN_def)
  then have lt: "request_size req rn + 4 < 2 ^ 32" using fit by simp
  have o: "params_outside req (unat rn) s (s + request_size req rn + 4)"
    using out fit unfolding params_outside_def by fastforce
  have loc: "loc = of_nat (request_size req rn)" by (rule fill_request_spec(1) [OF lt o f])
  have "loc + 4 = of_nat (request_size req rn + 4)" unfolding loc by simp
  moreover have "unat (of_nat (request_size req rn + 4) :: u32) = request_size req rn + 4" using lt by (intro unat_of_nat_small) simp
  ultimately have u: "unat (loc + 4) = request_size req rn + 4" by (simp only:)
  have "cl_mem cl' x = m x" if "s \<le> x" "x < s + DATA_LEN bd" for x
    using coreD(1) [OF c] serialization_outside [of x "cl_connect cl n" "unat tx" bd fa m] meta that by auto
  then show ?thesis using that f loc lt o l u by auto
qed

text \<open>C11: A request arrives as it was sent.  The client fills the slot's buffer and posts it; once the NIC has written the
  buffer into the server's memory, the worker that decodes the slot finds the same call id, slot number and transaction
  type, each parameter with its size and bytes, and the head's magic number behind the last parameter.  Assumed are that the request fits
  into the slot, that its parameters do not lie in the buffer itself, and that both sides agree on the addresses they exchanged.\<close>

theorem request_reaches_worker:
  assumes p: "push_new_call_write fuel bd sp V n rt req rn ty tx hint fa cl = Some (rpc, cl')"
    and s: "s = get_send_data_addr bd (cl_connect cl n) (ucast tx)"
    and fit: "request_size req rn + 4 \<le> DATA_LEN bd" and out: "params_outside req (unat rn) s (s + DATA_LEN bd)"
    and meta: "localBase (cl_connect cl n) + unat tx * SLOT_LEN + 68 \<le> s \<or> s + DATA_LEN bd \<le> localBase (cl_connect cl n) + unat tx * SLOT_LEN"
    and posted: "cl_log cl' = cl_log cl @ (n', w) # rest" and nic: "rdma_written w (cl_mem cl') sm"
    and exchange: "remote_data_addr (cl_connect cl n) = data_addr sc"
    and worker: "a = get_rev_addr bd sc (ucast tx)" "g = deserialization bd a sm g0" "\<not> nullrpc bd"
    and par: "rn < 256" "3 \<le> unat rn" "i < unat rn" "k < unat (snd (req i))"
  shows "req_rpc_id sm a = rpc \<and> req_TXID sm a = tx \<and> mg_type g = ty \<and> mg_reqP_size g i = snd (req i) \<and>
    sm (mg_reqP_addr g i + k) = cl_mem cl (fst (req i) + k) \<and> rd32 sm (a + unat (req_size sm a)) = req_magic sm a"
proof -
  let ?T = "request_size req rn"
  obtain m where f: "fill_request bd s rpc ty tx rn hint req (cl_mem cl) = (of_nat ?T, m)"
    and m: "\<And>x. s \<le> x \<Longrightarrow> x < s + DATA_LEN bd \<Longrightarrow> cl_mem cl' x = m x" and lt: "?T + 4 < 2 ^ 32"
    and o: "params_outside req (unat rn) s (s + ?T + 4)"
    and l: "\<And>n' w rest. cl_log cl' = cl_log cl @ (n', w) # rest \<Longrightarrow>
       wr_source w = s \<and> wr_length w = ?T + 4 \<and> wr_remote_addr w = get_remote_data_addr (cl_connect cl n) s"
    by (rule call_buffer [OF p s fit out meta]) blast
  note spec = fill_request_spec [OF lt o f]
  have a: "get_remote_data_addr (cl_connect cl n) s = a"
    using s worker(1) exchange by (simp add: get_remote_data_addr_def get_send_data_addr_def get_rev_addr_def)
  have sm: "sm (a + x) = m (s + x)" if "x < ?T + 4" for x
    using nic l [OF posted] m [of "s + x"] that fit a by (auto simp: rdma_written_def)
  have T: "28 + 4 * unat rn \<le> ?T" by (simp add: request_size_def)
  have rd: "rd32 sm (a + x) = rd32 m (s + x)" if "x + 4 \<le> ?T + 4" for x
    by (rule rd_shift(2)) (use sm that in \<open>simp add: add.assoc\<close>)
  have "rd64 sm a = rd64 m s" by (rule rd_shift(3)) (use sm T in simp)
  then have id: "req_rpc_id sm a = rpc" by (simp add: req_rpc_id_def spec(3) rpc_id_roundtrip)
  have "rd16 sm (a + 8) = rd16 m (s + 8)" by (rule rd_shift(1)) (use sm [of 8] sm [of 9] T in \<open>simp_all add: ac_simps\<close>)
  then have ty: "req_read_name sm a = ty" by (simp add: req_read_name_def spec(4))
  have num: "unat rn = unat (req_req_num sm a)"
    using sm [of 10] T spec(6) par(1) by (simp add: req_req_num_def unsigned_ucast_eq take_bit_nat_eq_self word_less_nat_alt)
  note d = deserialization_layout [OF worker(3) num par(3,2) worker(2)]
  have sz: "rd32 sm (a + 28 + 4 * j) = snd (req j)" if "j < unat rn" for j
    using rd [of "28 + 4 * j"] spec(11) [OF that] T that by (simp add: add.assoc)
  have off: "mg_reqP_addr g i = a + 28 + 4 * unat rn + param_off req i"
    using d sz par(3) by (simp add: param_off_def)
  have "param_off req (Suc i) \<le> param_off req (unat rn)" using par(3) by (intro param_off_mono) simp
  then have "sm (mg_reqP_addr g i + k) = m (s + 28 + 4 * unat rn + param_off req i + k)"
    using sm [of "28 + 4 * unat rn + param_off req i + k"] par(4) unfolding off by (simp add: request_size_def add.assoc)
  then have byt: "sm (mg_reqP_addr g i + k) = cl_mem cl (fst (req i) + k)" using spec(12) [OF par(3,4)] by simp
  have "req_size sm a = of_nat ?T" using rd [of 16] spec(8) T by (simp add: req_size_def)
  then have "unat (req_size sm a) = ?T" using lt by (simp add: unat_of_nat_small)
  then have "rd32 sm (a + unat (req_size sm a)) = req_magic sm a" using rd [of ?T] rd [of 20] spec(9) T by (simp add: req_magic_def)
  then show ?thesis using id ty byt d sz par(3) sm [of 13] T spec(5) by (simp add: req_TXID_def)
qed

definition sample_verbs :: "unit verbs" where
  "sample_verbs = \<lparr>ibv_post_send = (\<lambda>d n w h. (True, h)), ibv_poll_cq = (\<lambda>d n h. (Some [], h))\<rparr>"

definition sample_client :: "unit client_t" where
  "sample_client = \<lparr>cl_mem = (\<lambda>x. if x < 100 then of_nat x else 0),
     cl_connect = (\<lambda>n. \<lparr>localBase = 100000, remoteAddr = 400000, reply_addr = 200000, remote_reply_addr = 0, data_addr = 300000,
       remote_data_addr = 500000, curAddr = 0, poolSize = 8192, sendnum = 0, signal_num = 0\<rparr>),
     cl_node_id = 1, cl_thread_id = 2, cl_rpcnum = (\<lambda>n. 7), cl_id_addr = (\<lambda>n k. 0), cl_rpccount = 0,
     cl_tx = (\<lambda>i. \<lparr>tx_magic = 0, tx_single_node_id = 0, tx_single_rpc_id = 0, tx_is_busy = False, tx_retry_count = 0, tx_is_retry = False,
       tx_latency_type = 0, tx_now_phase = 0\<rparr>),
     cl_ok_count = 0, cl_test_count = 0, cl_no_delivery_flag = (\<lambda>i. True), cl_strife_cqe = (\<lambda>i. 0), cl_signalNum = 0, cl_log = [], cl_hw = ()\<rparr>"

definition sample_req :: req_array where
  "sample_req i = (if i = 0 then (10, 4) else if i = 1 then (20, 16) else (40, 8))"

lemma sample_push:
  "\<exists>rpc cl' w rest. push_new_call_write 1 default_build False sample_verbs 0 67 sample_req 3 5 1 0 0 sample_client = Some (rpc, cl')
     \<and> cl_log cl' = cl_log sample_client @ (0, w) # rest"
  unfolding push_new_call_write_def Let_def
  by (simp add: split_beta double_rdma_write_def post_and_poll_def client_poll_signal_def sample_verbs_def upd_conn_def) (auto simp: sample_client_def Let_def)

theorem request_reaches_worker_witness:
  "\<exists>rpc cl' sm. push_new_call_write 1 default_build False sample_verbs 0 67 sample_req 3 5 1 0 0 sample_client = Some (rpc, cl')
     \<and> req_rpc_id sm 502048 = rpc \<and> mg_type (deserialization default_build 502048 sm empty_msg) = 5
     \<and> mg_reqP_size (deserialization default_build 502048 sm empty_msg) 1 = 16
     \<and> sm (mg_reqP_addr (deserialization default_build 502048 sm empty_msg) 1 + 3) = 23"
proof -
  obtain rpc cl' w rest where p: "push_new_call_write 1 default_build False sample_verbs 0 67 sample_req 3 5 1 0 0 sample_client = Some (rpc, cl')"
    and l: "cl_log cl' = cl_log sample_client @ (0, w) # rest" using sample_push by blast
  define sm where "sm = (\<lambda>x. cl_mem cl' (x + wr_source w - wr_remote_addr w))"
  define sc where "sc = (cl_connect sample_client 0)\<lparr>data_addr := 500000\<rparr>"
  have nic: "rdma_written w (cl_mem cl') sm" by (simp add: rdma_written_def sm_def add.commute)
  have n: "unat (3 :: u16) = 3" by simp
  have T: "request_size sample_req 3 = 68"
    by (simp add: request_size_def param_off_def sample_req_def lessThan_nat_numeral)
  have s: "get_send_data_addr default_build (cl_connect sample_client 0) (ucast (1 :: u8)) = 302048"
    by (simp add: get_send_data_addr_def sample_client_def DATA_LEN_def default_build_def)
  have a: "get_rev_addr default_build sc (ucast (1 :: u8)) = 502048"
    by (simp add: get_rev_addr_def sc_def DATA_LEN_def default_build_def)
  have D: "DATA_LEN default_build = 2048" by (simp add: DATA_LEN_def default_build_def)
  have o: "params_outside sample_req (unat (3 :: u16)) 302048 (302048 + DATA_LEN default_build)"
    by (auto simp: params_outside_def sample_req_def D)
  have "3 < unat (snd (sample_req 1))" by (simp add: sample_req_def)
  then have "req_rpc_id sm 502048 = rpc \<and> mg_type (deserialization default_build 502048 sm empty_msg) = 5
     \<and> mg_reqP_size (deserialization default_build 502048 sm empty_msg) 1 = snd (sample_req 1)
     \<and> sm (mg_reqP_addr (deserialization default_build 502048 sm empty_msg) 1 + 3) = cl_mem sample_client (fst (sample_req 1) + 3)"
    using request_reaches_worker [OF p s [symmetric] _ o _ l nic _ a [symmetric] refl, of 1 3 empty_msg]
    by (simp add: T D sc_def) (simp add: sample_client_def default_build_def)
  then show ?thesis using p by (intro exI [of _ rpc] exI [of _ cl'] exI [of _ sm]) (simp add: sample_req_def sample_client_def)
qed

end
