(* ===== verification/Client_Runs.thy ===== *)
theory Client_Runs
  imports Client_Request
begin

unbundle bit_operations_syntax

text \<open>
  A client thread and the answers it waits for.  The thread visits its slots in any order; between two visits the NIC may write
  an answer into the reply buffer of a busy slot, or a delivery acknowledgement.  An answer carries the id
  of the request that is in the slot's data buffer, plus 100.  Every transaction is counted once, and not before its answer
  is there: an answer left over from the slot's last request is never taken for the new one.
\<close>

subsection \<open>Where the buffers lie\<close>

definition layout_ok :: "build \<Rightarrow> connect_t \<Rightarrow> bool" where
  "layout_ok bd c \<longleftrightarrow> SLOT_NUM_of bd < 256 \<and> localBase c + SLOT_NUM_of bd * SLOT_LEN \<le> reply_addr c \<and>
     reply_addr c + SLOT_NUM_of bd * REPLY_LEN bd + 8192 \<le> data_addr c"

lemma new_connect_layout:
  assumes "remote_id < server_num" "SLOT_NUM_of bd < 256"
  shows "layout_ok bd (nictxn_new_connect bd mm server_num remote_id c)"
proof -
  have "Suc remote_id * k \<le> server_num * k" for k using assms(1) by (intro mult_le_mono1) simp
  from this [of "client_message_size bd"] this [of "client_reply_size bd"] show ?thesis
    using assms(2) by (simp add: layout_ok_def nictxn_new_connect_def client_message_size_def client_reply_size_def algebra_simps)
qed

definition reply_at :: "build \<Rightarrow> connect_t \<Rightarrow> nat \<Rightarrow> nat" where
  "reply_at bd c i = reply_addr c + i * REPLY_LEN bd"

definition data_at :: "build \<Rightarrow> connect_t \<Rightarrow> nat \<Rightarrow> nat" where
  "data_at bd c i = data_addr c + i * DATA_LEN bd"

lemma slot_addrs:
  assumes "layout_ok bd c" "i < SLOT_NUM_of bd"
  shows "get_my_reply_addr bd c (of_nat i) = reply_at bd c i" "get_send_data_addr bd c (ucast (of_nat i :: u8)) = data_at bd c i"
    "unat (of_nat i :: u8) = i"
proof -
  have i: "i < 256" using assms by (simp add: layout_ok_def)
  then show u: "unat (of_nat i :: u8) = i" by (intro unat_of_nat_small) simp
  have "unat (of_nat i :: u16) = i" using i by (intro unat_of_nat_small) simp
  then show "get_my_reply_addr bd c (of_nat i) = reply_at bd c i" by (simp add: get_my_reply_addr_def reply_at_def)
  have "unat (ucast (of_nat i :: u8) :: u16) = i" using u i by (simp add: unsigned_ucast_eq take_bit_nat_eq_self)
  then show "get_send_data_addr bd c (ucast (of_nat i :: u8)) = data_at bd c i" by (simp add: get_send_data_addr_def data_at_def)
qed

text \<open>Slots of one kind are apart, and so are the three kinds.\<close>

lemma slot_le: "i < n \<Longrightarrow> i * k + k \<le> n * (k :: nat)"
  using mult_le_mono1 [of "Suc i" n k] by simp

lemma slots_apart: "i \<noteq> j \<Longrightarrow> i * k + k \<le> j * k \<or> j * k + k \<le> i * (k :: nat)"
  using slot_le [of i j k] slot_le [of j i k] by (cases "i < j") auto

lemma layout_apart:
  assumes "layout_ok bd c" "i < SLOT_NUM_of bd" "j < SLOT_NUM_of bd"
  shows "reply_at bd c i + REPLY_LEN bd \<le> data_at bd c j" "localBase c + i * SLOT_LEN + 68 \<le> data_at bd c j"
    "localBase c + i * SLOT_LEN + 68 \<le> reply_at bd c j"
    "reply_at bd c i + REPLY_LEN bd \<le> reply_addr c + SLOT_NUM_of bd * REPLY_LEN bd" "localBase c \<le> data_at bd c j" "localBase c \<le> reply_at bd c j"
    "data_at bd c j + DATA_LEN bd \<le> data_addr c + SLOT_NUM_of bd * DATA_LEN bd"
  using assms slot_le [OF assms(2), of SLOT_LEN] slot_le [OF assms(2), of "REPLY_LEN bd"] slot_le [OF assms(3), of "DATA_LEN bd"]
  by (auto simp: layout_ok_def reply_at_def data_at_def)

subsection \<open>Steps\<close>

record 'h session =
  ss_client :: "'h client_t"
  ss_sent :: "nat \<Rightarrow> nat"
  ss_answered :: "nat \<Rightarrow> nat"
  ss_done :: "nat \<Rightarrow> nat"

definition head_id :: "build \<Rightarrow> 'h client_t \<Rightarrow> nat \<Rightarrow> u32" where
  "head_id bd cl i = rpc_id (req_rpc_id (cl_mem cl) (data_at bd (cl_connect cl 0) i))"

definition reply_id :: "build \<Rightarrow> 'h client_t \<Rightarrow> nat \<Rightarrow> u32" where
  "reply_id bd cl i = rd32 (cl_mem cl) (reply_at bd (cl_connect cl 0) i + 4)"

abbreviation busy :: "'h client_t \<Rightarrow> nat \<Rightarrow> bool" where
  "busy cl i \<equiv> tx_is_busy (cl_tx cl i)"

text \<open>The generator leaves the message pool alone and builds requests that fit.\<close>

definition workload_ok :: "build \<Rightarrow> connect_t \<Rightarrow> nat \<Rightarrow> workload \<Rightarrow> bool" where
  "workload_ok bd c i wl \<longleftrightarrow>
     (\<forall>m x. localBase c \<le> x \<longrightarrow> x < data_addr c + SLOT_NUM_of bd * DATA_LEN bd \<longrightarrow> wl_mem wl m x = m x) \<and>
     request_size (wl_req wl) (wl_req_num wl) + 4 \<le> DATA_LEN bd \<and>
     params_outside (wl_req wl) (unat (wl_req_num wl)) (data_at bd c i) (data_at bd c i + DATA_LEN bd)"

inductive session_step :: "build \<Rightarrow> 'h session \<Rightarrow> 'h session \<Rightarrow> bool" for bd where
  visit: "i < SLOT_NUM_of bd \<Longrightarrow> workload_ok bd (cl_connect (ss_client s) 0) i wl \<Longrightarrow> client_slot fuel bd sp V wl i (ss_client s) = Some (brk, cl)
    \<Longrightarrow> session_step bd s (s\<lparr>ss_client := cl,
          ss_sent := (if busy cl i \<and> \<not> busy (ss_client s) i then (ss_sent s)(i := ss_sent s i + 1) else ss_sent s),
          ss_done := (if busy (ss_client s) i \<and> \<not> busy cl i then (ss_done s)(i := ss_done s i + 1) else ss_done s)\<rparr>)"
| answer: "i < SLOT_NUM_of bd \<Longrightarrow> ss_answered s i < ss_sent s i
    \<Longrightarrow> (\<forall>x. x < reply_at bd (cl_connect (ss_client s) 0) i \<or> reply_at bd (cl_connect (ss_client s) 0) i + REPLY_LEN bd \<le> x \<longrightarrow> m x = cl_mem (ss_client s) x)
    \<Longrightarrow> rd32 m (reply_at bd (cl_connect (ss_client s) 0) i + 4) = head_id bd (ss_client s) i + NOTHING_DEBUG
    \<Longrightarrow> session_step bd s (s\<lparr>ss_client := (ss_client s)\<lparr>cl_mem := m\<rparr>, ss_answered := (ss_answered s)(i := ss_answered s i + 1)\<rparr>)"
| acknowledge: "(\<forall>x. x < reply_addr (cl_connect (ss_client s) 0) + SLOT_NUM_of bd * REPLY_LEN bd
        \<or> reply_addr (cl_connect (ss_client s) 0) + SLOT_NUM_of bd * REPLY_LEN bd + 8192 \<le> x \<longrightarrow> m x = cl_mem (ss_client s) x)
    \<Longrightarrow> session_step bd s (s\<lparr>ss_client := (ss_client s)\<lparr>cl_mem := m\<rparr>\<rparr>)"
| delivery: "session_step bd s (s\<lparr>ss_client := client_delivery bd d (ss_client s)\<rparr>)"

text \<open>A thread that has not sent anything: its buffers are zero and the transaction slots point at server 0.\<close>

definition session_start :: "build \<Rightarrow> 'h session \<Rightarrow> bool" where
  "session_start bd s \<longleftrightarrow> layout_ok bd (cl_connect (ss_client s) 0) \<and> cl_rpcnum (ss_client s) 0 < 1000 \<and> cl_ok_count (ss_client s) = 0 \<and>
     (\<forall>i<SLOT_NUM_of bd. \<not> busy (ss_client s) i \<and> tx_single_node_id (cl_tx (ss_client s) i) = 0 \<and> head_id bd (ss_client s) i = 0 \<and>
        reply_id bd (ss_client s) i = 0 \<and> ss_sent s i = 0 \<and> ss_answered s i = 0 \<and> ss_done s i = 0)"

subsection \<open>Invariant\<close>

definition slot_inv :: "build \<Rightarrow> 'h session \<Rightarrow> nat \<Rightarrow> bool" where
  "slot_inv bd s i \<longleftrightarrow> tx_single_node_id (cl_tx (ss_client s) i) = 0 \<and>
     (if busy (ss_client s) i
      then tx_single_rpc_id (cl_tx (ss_client s) i) = head_id bd (ss_client s) i \<and> ss_sent s i = ss_done s i + 1 \<and>
        (ss_answered s i = ss_done s i \<and> reply_id bd (ss_client s) i \<noteq> head_id bd (ss_client s) i + NOTHING_DEBUG \<or>
         ss_answered s i = ss_sent s i \<and> reply_id bd (ss_client s) i = head_id bd (ss_client s) i + NOTHING_DEBUG)
      else ss_sent s i = ss_done s i \<and> ss_answered s i = ss_done s i \<and>
        (reply_id bd (ss_client s) i = head_id bd (ss_client s) i + NOTHING_DEBUG \<or> reply_id bd (ss_client s) i = 0 \<and> head_id bd (ss_client s) i = 0))"

definition session_inv :: "build \<Rightarrow> 'h session \<Rightarrow> bool" where
  "session_inv bd s \<longleftrightarrow> layout_ok bd (cl_connect (ss_client s) 0) \<and> cl_rpcnum (ss_client s) 0 < 1000 \<and>
     (\<forall>i<SLOT_NUM_of bd. slot_inv bd s i) \<and> cl_ok_count (ss_client s) = of_nat (\<Sum>i<SLOT_NUM_of bd. ss_done s i)"

lemma session_start_inv: "session_start bd s \<Longrightarrow> session_inv bd s"
  by (auto simp: session_start_def session_inv_def slot_inv_def)

text \<open>The next id differs from the last one of the slot.\<close>

lemma next_id:
  assumes "n < 1000" "new = ucast (next_rpcnum old n mod 1000)"
  shows "new \<noteq> old" "new < 1000" "(next_rpcnum old n + 1) mod 1000 < 1000"
proof -
  let ?k = "next_rpcnum old n mod 1000"
  have u: "unat (x mod 1000) = unat x mod 1000" for x :: u64 by (simp add: unat_mod_distrib)
  have lt: "unat ?k < 1000" unfolding u by simp
  have new: "unat new = unat ?k" unfolding assms(2) using lt by (simp add: unsigned_ucast_eq take_bit_nat_eq_self)
  have n: "unat n < 1000" using assms(1) by (simp add: word_less_nat_alt)
  have "unat old < 2 ^ LENGTH(32)" by (rule unsigned_less)
  then have old: "unat (ucast old :: u64) = unat old" by (simp add: unsigned_ucast_eq take_bit_nat_eq_self)
  have n1: "unat ((n + 1) mod 1000) = (unat n + 1) mod 1000" unfolding u using n by (simp add: unat_word_ariths)
  have n100: "unat (n mod 1000 + 100) = unat n + 100" using n by (simp add: unat_word_ariths unat_mod_distrib)
  have nn: "unat (n mod 1000) = unat n" unfolding u using n by simp
  have "unat ?k \<noteq> unat old"
  proof (cases "n mod 1000 = ucast old \<or> n mod 1000 + 100 = ucast old")
    case True
    then have o: "unat old = unat n \<or> unat old = unat n + 100" using nn n100 old by metis
    have "?k = (n + 1) mod 1000 mod 1000" using True by (simp add: next_rpcnum_def)
    then have "unat ?k = (unat n + 1) mod 1000" using n1 u by simp
    then show ?thesis using o n by (auto simp: mod_if)
  next
    case False
    then have "unat ?k = unat n" using nn by (simp add: next_rpcnum_def)
    then show ?thesis using False nn old by (auto simp: word_unat_eq_iff)
  qed
  then show "new \<noteq> old" using new by auto
  show "new < 1000" using new lt by (simp add: word_less_nat_alt)
  show "(next_rpcnum old n + 1) mod 1000 < 1000" using u by (simp add: word_less_nat_alt)
qed

lemma id_word: "rpc_id (req_rpc_id m a) = rd32 m (a + 4)"
  unfolding req_rpc_id_def rpc_id_of_def rd64_def
  by (simp, rule bit_word_eqI) (auto simp: bit_or_iff bit_push_bit_iff bit_ucast_iff bit_drop_bit_eq dest: bit_imp_le_length)

lemma buffer_lens: "8 \<le> REPLY_LEN bd" "32 \<le> DATA_LEN bd" "DATA_LEN bd < 2 ^ 32"
  by (simp_all add: REPLY_LEN_def DATA_LEN_def)

lemmas REPLY_LEN_large = buffer_lens(1)
lemmas DATA_LEN_large = buffer_lens(2)
lemmas DATA_LEN_small = buffer_lens(3)

subsection \<open>A visit\<close>

lemma generate_spec:
  assumes lay: "layout_ok bd (cl_connect cl 0)" and i: "i < SLOT_NUM_of bd" and wl: "workload_ok bd (cl_connect cl 0) i wl"
    and n: "cl_rpcnum cl 0 < 1000" and g: "generate_tx fuel bd sp V wl i cl = Some cl'"
  obtains new where "new \<noteq> head_id bd cl i" "new < 1000" "head_id bd cl' i = new"
    "cl_tx cl' = (cl_tx cl)(i := (tx_start (cl_tx cl i))\<lparr>tx_latency_type := wl_latency_type wl, tx_single_rpc_id := new\<rparr>)"
    "\<And>j. j < SLOT_NUM_of bd \<Longrightarrow> reply_id bd cl' j = reply_id bd cl j"
    "\<And>j. j < SLOT_NUM_of bd \<Longrightarrow> j \<noteq> i \<Longrightarrow> head_id bd cl' j = head_id bd cl j"
    "cl_rpcnum cl' 0 < 1000" "cl_ok_count cl' = cl_ok_count cl" "layout_ok bd (cl_connect cl' 0)"
proof -
  let ?c = "cl_connect cl 0"
  define c1 where "c1 = cl\<lparr>cl_tx := (cl_tx cl)(i := (tx_start (cl_tx cl i))\<lparr>tx_latency_type := wl_latency_type wl\<rparr>), cl_mem := wl_mem wl (cl_mem cl)\<rparr>"
  obtain rpc where p: "push_new_call_write fuel bd sp V 0 67 (wl_req wl) (wl_req_num wl) (wl_txn_type wl) (of_nat i) (wl_hint wl) (wl_feature wl) c1
      = Some (rpc, cl')" using g by (auto simp: generate_tx_def Let_def c1_def)
  have c: "cl_connect c1 0 = ?c" by (simp add: c1_def)
  note ad = slot_addrs [OF lay i]
  let ?D = "data_at bd ?c i" and ?old = "rpc_id (req_rpc_id (cl_mem c1) (data_at bd ?c i))"
  obtain loc m where f: "fill_request bd ?D rpc (wl_txn_type wl) (of_nat i) (wl_req_num wl) (wl_hint wl) (wl_req wl) (cl_mem c1) = (loc, m)"
    and core: "core cl' = core (c1\<lparr>cl_rpcnum := (cl_rpcnum c1)(0 := (next_rpcnum ?old (cl_rpcnum c1 0) + 1) mod 1000),
        cl_rpccount := cl_rpccount c1 + 1, cl_tx := (cl_tx c1)(i := (cl_tx c1 i)\<lparr>tx_single_rpc_id := rpc_id rpc\<rparr>),
        cl_mem := snd (snd (client_serialization bd ?c i (wl_feature wl) m))\<rparr>)"
    and rpc: "rpc_id rpc = ucast (next_rpcnum ?old (cl_rpcnum c1 0) mod 1000)"
    by (rule push_spec [OF p, unfolded c ad, OF refl]) auto
  have mem: "cl_mem cl' = snd (snd (client_serialization bd ?c i (wl_feature wl) m))"
    and tx: "cl_tx cl' = (cl_tx c1)(i := (cl_tx c1 i)\<lparr>tx_single_rpc_id := rpc_id rpc\<rparr>)"
    and num: "cl_rpcnum cl' 0 = (next_rpcnum ?old (cl_rpcnum c1 0) + 1) mod 1000" and ok: "cl_ok_count cl' = cl_ok_count cl"
    and adr: "reply_addr (cl_connect cl' 0) = reply_addr ?c" "data_addr (cl_connect cl' 0) = data_addr ?c" "localBase (cl_connect cl' 0) = localBase ?c"
    using coreD [OF core] by (auto simp: c1_def)
  have kept: "cl_mem c1 x = cl_mem cl x" if "localBase ?c \<le> x" "x < data_addr ?c + SLOT_NUM_of bd * DATA_LEN bd" for x
    using wl that by (simp add: workload_ok_def c1_def)
  have out: "params_outside (wl_req wl) (unat (wl_req_num wl)) ?D (?D + request_size (wl_req wl) (wl_req_num wl) + 4)"
    and fit: "request_size (wl_req wl) (wl_req_num wl) + 4 \<le> DATA_LEN bd" and small: "request_size (wl_req wl) (wl_req_num wl) + 4 < 2 ^ 32"
    using wl DATA_LEN_small [of bd] by (auto simp: workload_ok_def params_outside_def)
  note fs = fill_request_spec [OF small out f]
  have ser: "cl_mem cl' x = m x" if "reply_at bd ?c j \<le> x" "j < SLOT_NUM_of bd" for x j
    unfolding mem by (rule serialization_outside) (use that layout_apart(3) [OF lay i that(2)] in simp)
  have new: "head_id bd cl' i = rpc_id rpc"
  proof -
    have "rd64 (cl_mem cl') ?D = rd64 m ?D" by (rule rd64_cong) (rule ser [OF _ i], use layout_apart(1) [OF lay i i] in simp)
    then have "rd64 (cl_mem cl') ?D = rpc_id_word rpc" unfolding fs(3) .
    then have "rpc_id (req_rpc_id (cl_mem cl') ?D) = rpc_id rpc" by (simp add: req_rpc_id_def rpc_id_roundtrip)
    then show ?thesis by (simp add: head_id_def data_at_def adr)
  qed
  have frame: "cl_mem cl' x = cl_mem cl x"
    if "j < SLOT_NUM_of bd" "reply_at bd ?c j \<le> x" "x < data_addr ?c + SLOT_NUM_of bd * DATA_LEN bd" "x < ?D \<or> ?D + DATA_LEN bd \<le> x" for x j
    using ser [OF that(2,1)] fs(2) [of x] fit that(3,4) kept [of x] layout_apart(6) [OF lay i that(1)] that(2) by auto
  show ?thesis
  proof (rule that [of "rpc_id rpc"])
    have "rd32 (cl_mem c1) (?D + 4) = rd32 (cl_mem cl) (?D + 4)"
      by (rule rd32_cong, rule kept) (use layout_apart(5,7) [OF lay i i] DATA_LEN_large [of bd] in auto)
    then have old: "?old = head_id bd cl i" by (simp add: head_id_def id_word)
    have n1: "cl_rpcnum c1 0 < 1000" using n by (simp add: c1_def)
    show "rpc_id rpc \<noteq> head_id bd cl i" "rpc_id rpc < 1000" "cl_rpcnum cl' 0 < 1000"
      using next_id [OF n1 rpc] unfolding old num by auto
    show "head_id bd cl' i = rpc_id rpc" by (rule new)
    show "cl_tx cl' = (cl_tx cl)(i := (tx_start (cl_tx cl i))\<lparr>tx_latency_type := wl_latency_type wl, tx_single_rpc_id := rpc_id rpc\<rparr>)"
      unfolding tx by (simp add: c1_def)
    show "reply_id bd cl' j = reply_id bd cl j" if "j < SLOT_NUM_of bd" for j
      unfolding reply_id_def reply_at_def adr
      by (rule rd32_cong, fold reply_at_def, rule frame [OF that])
        (use layout_apart(1) [OF lay that i] layout_apart(7) [OF lay that i] REPLY_LEN_large [of bd] in auto)
    show "head_id bd cl' j = head_id bd cl j" if "j < SLOT_NUM_of bd" "j \<noteq> i" for j
    proof -
      have "rd32 (cl_mem cl') (data_at bd ?c j + 4) = rd32 (cl_mem cl) (data_at bd ?c j + 4)"
        by (rule rd32_cong, rule frame [OF that(1)])
          (use layout_apart(1,7) [OF lay that(1) that(1)] DATA_LEN_large [of bd] slots_apart [OF that(2), of "DATA_LEN bd"] in \<open>auto simp: data_at_def\<close>)
      then show ?thesis by (simp add: head_id_def id_word data_at_def adr)
    qed
    show "cl_ok_count cl' = cl_ok_count cl" by (rule ok)
    show "layout_ok bd (cl_connect cl' 0)" using lay by (simp add: layout_ok_def adr)
  qed
qed

text \<open>The invariant of a slot depends on that slot's transaction, ids and counts only.\<close>

lemma slot_inv_cong:
  assumes "slot_inv bd s j" "cl_tx (ss_client s') j = cl_tx (ss_client s) j" "head_id bd (ss_client s') j = head_id bd (ss_client s) j"
    "reply_id bd (ss_client s') j = reply_id bd (ss_client s) j" "ss_sent s' j = ss_sent s j" "ss_answered s' j = ss_answered s j"
    "ss_done s' j = ss_done s j"
  shows "slot_inv bd s' j"
  using assms(1) unfolding slot_inv_def assms(2-) .

lemma sum_bump: "i < (n :: nat) \<Longrightarrow> (\<Sum>j<n. (f(i := f i + 1)) j) = (\<Sum>j<n. f j) + (1 :: nat)"
proof (induction n)
  case (Suc n)
  then show ?case by (cases "i = n") (auto simp: lessThan_Suc intro!: sum.cong)
qed simp

text \<open>The three things a visit can do: nothing, send a request from an idle slot, or complete a busy one.\<close>

lemma visit_cases:
  assumes inv: "session_inv bd s" and i: "i < SLOT_NUM_of bd" and wl: "workload_ok bd (cl_connect (ss_client s) 0) i wl"
    and v: "client_slot fuel bd sp V wl i (ss_client s) = Some (brk, cl')"
  obtains (stay) "cl' = ss_client s"
  | (send) c flags where "\<not> busy (ss_client s) i" "cl' = c\<lparr>cl_no_delivery_flag := flags\<rparr>"
      "generate_tx fuel bd sp V wl i ((ss_client s)\<lparr>cl_test_count := cl_test_count (ss_client s) + 1\<rparr>) = Some c"
  | (finish) ph where "busy (ss_client s) i" "reply_id bd (ss_client s) i = head_id bd (ss_client s) i + NOTHING_DEBUG"
      "cl' = throughput_c i ((ss_client s)\<lparr>cl_tx := (cl_tx (ss_client s))(i := (cl_tx (ss_client s) i)\<lparr>tx_now_phase := ph\<rparr>)\<rparr>)"
proof (cases "busy (ss_client s) i")
  case False
  let ?c0 = "(ss_client s)\<lparr>cl_test_count := cl_test_count (ss_client s) + 1\<rparr>"
  let ?flag = "\<lambda>c. if tx_latency_type (cl_tx c i) = tpcc_del
      then c\<lparr>cl_no_delivery_flag := (cl_no_delivery_flag c)(unat (tx_single_rpc_id (cl_tx c i)) := False)\<rparr> else c"
  let ?wait = "delivery_reply_ok (ucast (cl_rpcnum (ss_client s) 0)) (ss_client s) \<and> delivery_reply_ok (ucast (cl_rpcnum (ss_client s) 0 + 1)) (ss_client s)"
  have "(if \<not> ?wait then Some (True, ss_client s) else map_option (\<lambda>c. (False, ?flag c)) (generate_tx fuel bd sp V wl i ?c0)) = Some (brk, cl')"
    using v False unfolding client_slot_def by (simp only: if_True not_False_eq_True)
  then consider "cl' = ss_client s" | c where "generate_tx fuel bd sp V wl i ?c0 = Some c" "cl' = ?flag c"
    by (cases ?wait; cases "generate_tx fuel bd sp V wl i ?c0") (simp_all only: if_True if_False option.map option.inject prod.inject simp_thms, blast+)
  then show ?thesis
  proof cases
    case (2 c)
    have "?flag c = c\<lparr>cl_no_delivery_flag := if tx_latency_type (cl_tx c i) = tpcc_del
        then (cl_no_delivery_flag c)(unat (tx_single_rpc_id (cl_tx c i)) := False) else cl_no_delivery_flag c\<rparr>" by simp
    then show ?thesis by (rule send [OF False trans [OF 2(2)] 2(1)])
  qed (rule stay)
next
  case True
  have lay: "layout_ok bd (cl_connect (ss_client s) 0)" and sl: "slot_inv bd s i" using inv i by (auto simp: session_inv_def)
  let ?r = "req_rpc_id (cl_mem (ss_client s)) (reply_at bd (cl_connect (ss_client s) 0) i)"
  have r: "rpc_id ?r = reply_id bd (ss_client s) i" by (simp add: reply_id_def id_word)
  have t: "tx_single_node_id (cl_tx (ss_client s) i) = 0" "tx_single_rpc_id (cl_tx (ss_client s) i) = head_id bd (ss_client s) i"
    using sl True by (auto simp: slot_inv_def)
  have "Some (brk, cl') = (if rpc_id ?r = head_id bd (ss_client s) i + NOTHING_DEBUG
      then Some (False, throughput_c i ((ss_client s)\<lparr>cl_tx := (cl_tx (ss_client s))(i := (cl_tx (ss_client s) i)\<lparr>tx_now_phase := my_nodeid ?r\<rparr>)\<rparr>))
      else Some (False, ss_client s))"
    using v True unfolding client_slot_def Let_def t slot_addrs(1) [OF lay i] by simp
  then show ?thesis using stay finish [OF True, of "my_nodeid ?r"] unfolding r
    by (cases "reply_id bd (ss_client s) i = head_id bd (ss_client s) i + NOTHING_DEBUG")
      (simp_all only: if_True if_False option.inject prod.inject simp_thms)
qed

lemma send_inv:
  assumes inv: "session_inv bd s" and i: "i < SLOT_NUM_of bd" and wl: "workload_ok bd (cl_connect (ss_client s) 0) i wl"
    and idle: "\<not> busy (ss_client s) i" and cl': "cl' = c\<lparr>cl_no_delivery_flag := flags\<rparr>"
    and g: "generate_tx fuel bd sp V wl i ((ss_client s)\<lparr>cl_test_count := cl_test_count (ss_client s) + 1\<rparr>) = Some c"
  shows "session_inv bd (s\<lparr>ss_client := cl', ss_sent := (ss_sent s)(i := ss_sent s i + 1)\<rparr>)" "busy cl' i"
proof -
  let ?cl = "ss_client s" and ?c0 = "(ss_client s)\<lparr>cl_test_count := cl_test_count (ss_client s) + 1\<rparr>"
  have eq: "head_id bd ?c0 j = head_id bd ?cl j" "reply_id bd ?c0 j = reply_id bd ?cl j"
    "head_id bd cl' j = head_id bd c j" "reply_id bd cl' j = reply_id bd c j" for j
    by (simp_all add: head_id_def reply_id_def cl')
  have lay: "layout_ok bd (cl_connect ?c0 0)" and wl0: "workload_ok bd (cl_connect ?c0 0) i wl" and n: "cl_rpcnum ?c0 0 < 1000"
    using inv wl by (simp_all add: session_inv_def)
  obtain new where new: "new \<noteq> head_id bd ?c0 i" "new < 1000" "head_id bd c i = new"
    and tx: "cl_tx c = (cl_tx ?c0)(i := (tx_start (cl_tx ?c0 i))\<lparr>tx_latency_type := wl_latency_type wl, tx_single_rpc_id := new\<rparr>)"
    and rep: "\<And>j. j < SLOT_NUM_of bd \<Longrightarrow> reply_id bd c j = reply_id bd ?c0 j"
    and hd: "\<And>j. j < SLOT_NUM_of bd \<Longrightarrow> j \<noteq> i \<Longrightarrow> head_id bd c j = head_id bd ?c0 j"
    and rest: "cl_rpcnum c 0 < 1000" "cl_ok_count c = cl_ok_count ?c0" "layout_ok bd (cl_connect c 0)"
    by (rule generate_spec [OF lay i wl0 n g]) blast
  have tx': "cl_tx cl' = (cl_tx ?cl)(i := (tx_start (cl_tx ?cl i))\<lparr>tx_latency_type := wl_latency_type wl, tx_single_rpc_id := new\<rparr>)"
    using tx by (simp add: cl')
  then show "busy cl' i" by (simp add: tx_start_def)
  have "unat (new + 100) = unat new + 100" using new(2) by (simp add: word_less_nat_alt unat_word_ariths)
  then have "new + 100 \<noteq> 0" by auto
  have fresh: "reply_id bd ?cl i \<noteq> new + NOTHING_DEBUG"
    using inv i idle new(1) \<open>new + 100 \<noteq> 0\<close> by (auto simp: session_inv_def slot_inv_def eq)
  have old: "slot_inv bd s j" if "j < SLOT_NUM_of bd" for j using inv that by (simp add: session_inv_def)
  have "slot_inv bd (s\<lparr>ss_client := cl', ss_sent := (ss_sent s)(i := ss_sent s i + 1)\<rparr>) j" if j: "j < SLOT_NUM_of bd" for j
  proof (cases "j = i")
    case True
    then show ?thesis using old [OF i] idle new(3) rep [OF i] fresh by (simp add: slot_inv_def tx' eq tx_start_def)
  next
    case False
    show ?thesis by (rule slot_inv_cong [OF old [OF j]]) (use False rep [OF j] hd [OF j False] in \<open>simp_all add: tx' eq\<close>)
  qed
  then show "session_inv bd (s\<lparr>ss_client := cl', ss_sent := (ss_sent s)(i := ss_sent s i + 1)\<rparr>)"
    using inv rest by (simp add: session_inv_def cl')
qed

lemma finish_inv:
  assumes inv: "session_inv bd s" and i: "i < SLOT_NUM_of bd" and b: "busy (ss_client s) i"
    and r: "reply_id bd (ss_client s) i = head_id bd (ss_client s) i + NOTHING_DEBUG"
    and cl': "cl' = throughput_c i ((ss_client s)\<lparr>cl_tx := (cl_tx (ss_client s))(i := (cl_tx (ss_client s) i)\<lparr>tx_now_phase := ph\<rparr>)\<rparr>)"
  shows "session_inv bd (s\<lparr>ss_client := cl', ss_done := (ss_done s)(i := ss_done s i + 1)\<rparr>)" "\<not> busy cl' i"
proof -
  let ?cl = "ss_client s"
  have eq: "head_id bd cl' j = head_id bd ?cl j" "reply_id bd cl' j = reply_id bd ?cl j" "cl_connect cl' = cl_connect ?cl"
    "cl_rpcnum cl' = cl_rpcnum ?cl" "cl_ok_count cl' = cl_ok_count ?cl + 1" for j
    by (simp_all add: head_id_def reply_id_def cl' throughput_c_def)
  have tx': "cl_tx cl' = (cl_tx ?cl)(i := tx_ok ((cl_tx ?cl i)\<lparr>tx_now_phase := ph\<rparr>))" by (simp add: cl' throughput_c_def)
  then show "\<not> busy cl' i" by (simp add: tx_ok_def)
  have "slot_inv bd (s\<lparr>ss_client := cl', ss_done := (ss_done s)(i := ss_done s i + 1)\<rparr>) j" if j: "j < SLOT_NUM_of bd" for j
  proof (cases "j = i")
    case True
    have "slot_inv bd s i" using inv i by (simp add: session_inv_def)
    then show ?thesis using True b r by (auto simp: slot_inv_def tx' eq tx_ok_def)
  next
    case False
    have "slot_inv bd s j" using inv j by (simp add: session_inv_def)
    then show ?thesis by (rule slot_inv_cong) (use False in \<open>simp_all add: tx' eq\<close>)
  qed
  moreover have "cl_ok_count cl' = of_nat (\<Sum>j<SLOT_NUM_of bd. ((ss_done s)(i := ss_done s i + 1)) j)"
    unfolding sum_bump [OF i] using inv by (simp add: session_inv_def eq)
  ultimately show "session_inv bd (s\<lparr>ss_client := cl', ss_done := (ss_done s)(i := ss_done s i + 1)\<rparr>)"
    using inv by (simp add: session_inv_def eq del: fun_upd_apply)
qed

lemma visit_inv:
  assumes inv: "session_inv bd s" and i: "i < SLOT_NUM_of bd" and wl: "workload_ok bd (cl_connect (ss_client s) 0) i wl"
    and v: "client_slot fuel bd sp V wl i (ss_client s) = Some (brk, cl)"
  shows "session_inv bd (s\<lparr>ss_client := cl,
          ss_sent := (if busy cl i \<and> \<not> busy (ss_client s) i then (ss_sent s)(i := ss_sent s i + 1) else ss_sent s),
          ss_done := (if busy (ss_client s) i \<and> \<not> busy cl i then (ss_done s)(i := ss_done s i + 1) else ss_done s)\<rparr>)"
  using inv i wl v
proof (cases rule: visit_cases)
  case stay
  then show ?thesis using inv by simp
next
  case (send c flags)
  note r = send_inv [OF inv i wl send]
  have "s\<lparr>ss_client := cl, ss_sent := x, ss_done := ss_done s\<rparr> = s\<lparr>ss_client := cl, ss_sent := x\<rparr>" for x by simp
  then show ?thesis using r send(1) by (simp del: fun_upd_apply)
next
  case (finish ph)
  note r = finish_inv [OF inv i finish]
  have "s\<lparr>ss_client := cl, ss_sent := ss_sent s, ss_done := x\<rparr> = s\<lparr>ss_client := cl, ss_done := x\<rparr>" for x by simp
  then show ?thesis using r finish(1) by (simp del: fun_upd_apply)
qed

subsection \<open>What the NIC writes\<close>

lemma answer_inv:
  assumes inv: "session_inv bd s" and i: "i < SLOT_NUM_of bd" and a: "ss_answered s i < ss_sent s i"
    and out: "\<forall>x. x < reply_at bd (cl_connect (ss_client s) 0) i \<or> reply_at bd (cl_connect (ss_client s) 0) i + REPLY_LEN bd \<le> x \<longrightarrow> m x = cl_mem (ss_client s) x"
    and r: "rd32 m (reply_at bd (cl_connect (ss_client s) 0) i + 4) = head_id bd (ss_client s) i + NOTHING_DEBUG"
  shows "session_inv bd (s\<lparr>ss_client := (ss_client s)\<lparr>cl_mem := m\<rparr>, ss_answered := (ss_answered s)(i := ss_answered s i + 1)\<rparr>)"
proof -
  let ?cl = "ss_client s" and ?s = "s\<lparr>ss_client := (ss_client s)\<lparr>cl_mem := m\<rparr>, ss_answered := (ss_answered s)(i := ss_answered s i + 1)\<rparr>"
  have lay: "layout_ok bd (cl_connect ?cl 0)" using inv by (simp add: session_inv_def)
  have slot: "slot_inv bd s j" if "j < SLOT_NUM_of bd" for j using inv that by (simp add: session_inv_def)
  have hd: "head_id bd (?cl\<lparr>cl_mem := m\<rparr>) j = head_id bd ?cl j" if "j < SLOT_NUM_of bd" for j
  proof -
    have "rd32 m (data_at bd (cl_connect ?cl 0) j + 4) = rd32 (cl_mem ?cl) (data_at bd (cl_connect ?cl 0) j + 4)"
      by (rule rd32_cong) (use out layout_apart(1) [OF lay i that] in auto)
    then show ?thesis by (simp add: head_id_def id_word)
  qed
  have "slot_inv bd ?s j" if j: "j < SLOT_NUM_of bd" for j
  proof (cases "j = i")
    case True
    have "reply_id bd (?cl\<lparr>cl_mem := m\<rparr>) i = head_id bd ?cl i + NOTHING_DEBUG" using r by (simp add: reply_id_def)
    then show ?thesis using slot [OF i] a hd [OF i] True by (auto simp: slot_inv_def split: if_splits)
  next
    case False
    have "reply_id bd (?cl\<lparr>cl_mem := m\<rparr>) j = reply_id bd ?cl j" unfolding reply_id_def
      by (simp, rule rd32_cong) (use out slots_apart [OF False, of "REPLY_LEN bd"] REPLY_LEN_large [of bd] in \<open>auto simp: reply_at_def\<close>)
    then show ?thesis by (intro slot_inv_cong [OF slot [OF j]]) (use False hd [OF j] in simp_all)
  qed
  then show ?thesis using inv by (simp add: session_inv_def)
qed

lemma acknowledge_inv:
  assumes inv: "session_inv bd s"
    and out: "\<forall>x. x < reply_addr (cl_connect (ss_client s) 0) + SLOT_NUM_of bd * REPLY_LEN bd
        \<or> reply_addr (cl_connect (ss_client s) 0) + SLOT_NUM_of bd * REPLY_LEN bd + 8192 \<le> x \<longrightarrow> m x = cl_mem (ss_client s) x"
  shows "session_inv bd (s\<lparr>ss_client := (ss_client s)\<lparr>cl_mem := m\<rparr>\<rparr>)"
proof -
  let ?cl = "ss_client s" and ?s = "s\<lparr>ss_client := (ss_client s)\<lparr>cl_mem := m\<rparr>\<rparr>"
  have lay: "layout_ok bd (cl_connect ?cl 0)" using inv by (simp add: session_inv_def)
  have "slot_inv bd ?s j" if j: "j < SLOT_NUM_of bd" for j
  proof (rule slot_inv_cong)
    show "slot_inv bd s j" using inv j by (simp add: session_inv_def)
    have "rd32 m (data_at bd (cl_connect ?cl 0) j + 4) = rd32 (cl_mem ?cl) (data_at bd (cl_connect ?cl 0) j + 4)"
      by (rule rd32_cong) (use out lay in \<open>auto simp: data_at_def layout_ok_def\<close>)
    then show "head_id bd (ss_client ?s) j = head_id bd ?cl j" by (simp add: head_id_def id_word)
    show "reply_id bd (ss_client ?s) j = reply_id bd ?cl j" unfolding reply_id_def
      by (simp, rule rd32_cong) (use out layout_apart(4) [OF lay j j] REPLY_LEN_large [of bd] in auto)
  qed simp_all
  then show ?thesis using inv by (simp add: session_inv_def)
qed

lemma delivery_inv:
  assumes "session_inv bd s"
  shows "session_inv bd (s\<lparr>ss_client := client_delivery bd d (ss_client s)\<rparr>)"
proof -
  let ?c = "client_delivery bd d (ss_client s)"
  have "cl_mem ?c = cl_mem (ss_client s) \<and> cl_connect ?c = cl_connect (ss_client s) \<and> cl_tx ?c = cl_tx (ss_client s) \<and>
      cl_rpcnum ?c = cl_rpcnum (ss_client s) \<and> cl_ok_count ?c = cl_ok_count (ss_client s)"
    by (simp add: client_delivery_def update_reply_flag_def Let_def)
  then have eq: "cl_mem ?c = cl_mem (ss_client s)" "cl_connect ?c = cl_connect (ss_client s)" "cl_tx ?c = cl_tx (ss_client s)"
    "cl_rpcnum ?c = cl_rpcnum (ss_client s)" "cl_ok_count ?c = cl_ok_count (ss_client s)" by blast+
  have "slot_inv bd (s\<lparr>ss_client := ?c\<rparr>) j" if "j < SLOT_NUM_of bd" for j
    by (rule slot_inv_cong [of bd s]) (use assms that in \<open>simp_all add: session_inv_def head_id_def reply_id_def eq\<close>)
  then show ?thesis using assms by (simp add: session_inv_def eq)
qed

lemma session_step_inv: "session_step bd s s' \<Longrightarrow> session_inv bd s \<Longrightarrow> session_inv bd s'"
  by (induction rule: session_step.induct) (rule visit_inv answer_inv acknowledge_inv delivery_inv; assumption)+

lemma session_run_inv: "(session_step bd)\<^sup>*\<^sup>* s s' \<Longrightarrow> session_inv bd s \<Longrightarrow> session_inv bd s'"
  by (induction rule: rtranclp_induct) (auto dest: session_step_inv)

subsection \<open>Every answer is counted once\<close>

text \<open>C10: In every run of a client thread against a NIC that answers the request in the slot's buffer, a slot has completed at most as
  many transactions as were answered, and has at most one request outstanding; an idle slot has completed everything it sent; the
  thread's count of committed transactions is the number of completions.  Once the outstanding request is answered,
  the next visit of the slot completes it: a stale answer is never taken and a fresh one never missed.\<close>

theorem client_completes_answered:
  assumes start: "session_start bd s0" and run: "(session_step bd)\<^sup>*\<^sup>* s0 s" and i: "i < SLOT_NUM_of bd"
  shows "ss_done s i \<le> ss_answered s i \<and> ss_answered s i \<le> ss_sent s i \<and> ss_sent s i \<le> ss_done s i + 1 \<and>
    (\<not> busy (ss_client s) i \<longrightarrow> ss_done s i = ss_sent s i) \<and>
    cl_ok_count (ss_client s) = of_nat (\<Sum>j<SLOT_NUM_of bd. ss_done s j) \<and>
    (busy (ss_client s) i \<and> ss_answered s i = ss_sent s i \<longrightarrow>
      (\<exists>cl. client_slot fuel bd sp V wl i (ss_client s) = Some (False, cl) \<and> \<not> busy cl i \<and> cl_ok_count cl = cl_ok_count (ss_client s) + 1))"
proof -
  have inv: "session_inv bd s" by (rule session_run_inv [OF run session_start_inv [OF start]])
  then have sl: "slot_inv bd s i" and lay: "layout_ok bd (cl_connect (ss_client s) 0)" using i by (auto simp: session_inv_def)
  have "\<exists>cl. client_slot fuel bd sp V wl i (ss_client s) = Some (False, cl) \<and> \<not> busy cl i \<and> cl_ok_count cl = cl_ok_count (ss_client s) + 1"
    if b: "busy (ss_client s) i" and a: "ss_answered s i = ss_sent s i"
  proof -
    let ?r = "req_rpc_id (cl_mem (ss_client s)) (reply_at bd (cl_connect (ss_client s) 0) i)"
    have t: "tx_single_node_id (cl_tx (ss_client s) i) = 0" "rpc_id ?r = tx_single_rpc_id (cl_tx (ss_client s) i) + NOTHING_DEBUG"
      using sl a b by (auto simp: slot_inv_def reply_id_def id_word)
    show ?thesis using b unfolding client_slot_def Let_def t slot_addrs(1) [OF lay i]
      by (simp add: throughput_c_def tx_ok_def)
  qed
  moreover have "cl_ok_count (ss_client s) = of_nat (\<Sum>j<SLOT_NUM_of bd. ss_done s j)" using inv by (simp add: session_inv_def)
  ultimately show ?thesis using sl by (auto simp: slot_inv_def split: if_splits)
qed

definition sample_workload :: workload where
  "sample_workload = \<lparr>wl_mem = (\<lambda>m. m), wl_latency_type = 0, wl_req = sample_req, wl_req_num = 3, wl_txn_type = 5, wl_hint = 0, wl_feature = 0\<rparr>"

definition sample_session :: "unit session" where
  "sample_session = \<lparr>ss_client = sample_client, ss_sent = (\<lambda>i. 0), ss_answered = (\<lambda>i. 0), ss_done = (\<lambda>i. 0)\<rparr>"

lemma sample_lens: "SLOT_NUM_of default_build = 4" "REPLY_LEN default_build \<le> 20000" "DATA_LEN default_build = 2048"
  by (simp_all add: REPLY_LEN_def DATA_LEN_def default_build_def)

lemma sample_connect: "reply_addr (cl_connect sample_client 0) = 200000" "data_addr (cl_connect sample_client 0) = 300000"
  "localBase (cl_connect sample_client 0) = 100000"
  by (simp_all add: sample_client_def)

lemma sample_start: "session_start default_build sample_session"
proof -
  have z: "cl_mem sample_client x = 0" if "200000 \<le> x" for x using that by (simp add: sample_client_def)
  have "rd32 (cl_mem sample_client) a = rd32 (\<lambda>_. 0) a" if "200000 \<le> a" for a by (rule rd32_cong) (use z that in simp)
  then have "rd32 (cl_mem sample_client) a = 0" if "200000 \<le> a" for a using that by (simp add: rd32_def rd16_def)
  then have "head_id default_build sample_client i = 0 \<and> reply_id default_build sample_client i = 0" for i
    by (simp add: head_id_def reply_id_def id_word reply_at_def data_at_def sample_connect)
  moreover have "layout_ok default_build (cl_connect sample_client 0)"
    using sample_lens(2) by (simp add: layout_ok_def sample_connect sample_lens(1))
  ultimately show ?thesis by (simp add: session_start_def sample_session_def) (simp add: sample_client_def)
qed

lemma sample_workload_ok: "workload_ok default_build (cl_connect sample_client 0) 1 sample_workload"
proof -
  have "request_size sample_req 3 = 68" by (simp add: request_size_def param_off_def sample_req_def lessThan_nat_numeral)
  then show ?thesis
    by (auto simp: workload_ok_def sample_workload_def params_outside_def data_at_def sample_connect sample_lens sample_req_def)
qed

lemma sample_sent: "\<exists>cl. client_slot 1 default_build False sample_verbs sample_workload 1 sample_client = Some (False, cl) \<and> busy cl 1"
proof -
  let ?c = "sample_client\<lparr>cl_test_count := cl_test_count sample_client + 1\<rparr>"
  let ?g = "generate_tx 1 default_build False sample_verbs sample_workload 1 ?c"
  have "\<exists>cl. ?g = Some cl" unfolding generate_tx_def push_new_call_write_def Let_def
    by (simp add: split_beta double_rdma_write_def post_and_poll_def client_poll_signal_def sample_verbs_def upd_conn_def sample_workload_def)
      (auto simp: sample_client_def Let_def)
  then obtain cl where g: "?g = Some cl" by blast
  have inv: "session_inv default_build sample_session" by (rule session_start_inv [OF sample_start])
  have c: "ss_client sample_session = sample_client" by (simp add: sample_session_def)
  have idle: "\<not> busy sample_client 1" by (simp add: sample_client_def)
  have cl: "cl\<lparr>cl_no_delivery_flag := f\<rparr> = cl\<lparr>cl_no_delivery_flag := f\<rparr>" for f ..
  have b: "busy cl 1" using send_inv(2) [OF inv, unfolded c, of 1 sample_workload, OF _ sample_workload_ok idle cl g] by (simp add: sample_lens)
  have "delivery_reply_ok r sample_client" for r by (simp add: delivery_reply_ok_def sample_client_def)
  then show ?thesis using g b idle by (simp add: client_slot_def)
qed

theorem client_completes_answered_witness:
  "\<exists>s cl. (session_step default_build)\<^sup>*\<^sup>* sample_session s \<and> busy (ss_client s) 1 \<and> ss_answered s 1 = 1 \<and> ss_done s 1 \<le> 1
     \<and> client_slot 1 default_build False sample_verbs sample_workload 1 (ss_client s) = Some (False, cl) \<and> \<not> busy cl 1"
proof -
  obtain cl where v: "client_slot 1 default_build False sample_verbs sample_workload 1 sample_client = Some (False, cl)" and b: "busy cl 1"
    using sample_sent by blast
  have c: "ss_client sample_session = sample_client" by (simp add: sample_session_def)
  have idle: "\<not> busy sample_client 1" by (simp add: sample_client_def)
  define s1 where "s1 = sample_session\<lparr>ss_client := cl, ss_sent := (\<lambda>_. 0)(1 := 1), ss_done := (\<lambda>_. 0)\<rparr>"
  have st1: "session_step default_build sample_session s1"
    using session_step.visit [of 1 default_build sample_session sample_workload 1 False sample_verbs False cl] v b idle sample_workload_ok
    by (simp add: c s1_def sample_lens) (simp add: sample_session_def fun_upd_def)
  define a where "a = reply_at default_build (cl_connect cl 0) 1"
  define m where "m = wr32 (a + 4) (head_id default_build cl 1 + NOTHING_DEBUG) (cl_mem cl)"
  define s2 where "s2 = s1\<lparr>ss_client := (ss_client s1)\<lparr>cl_mem := m\<rparr>, ss_answered := (ss_answered s1)(1 := ss_answered s1 1 + 1)\<rparr>"
  have cl1: "ss_client s1 = cl" "ss_answered s1 1 = 0" "ss_sent s1 1 = 1" by (simp_all add: s1_def sample_session_def)
  have st2: "session_step default_build s1 s2" unfolding s2_def
    by (rule session_step.answer)
      (use REPLY_LEN_large [of default_build] in \<open>auto simp: cl1 sample_lens a_def [symmetric] m_def simp del: One_nat_def\<close>)
  have run: "(session_step default_build)\<^sup>*\<^sup>* sample_session s2" using st1 st2 by (meson converse_rtranclp_into_rtranclp rtranclp.rtrancl_refl)
  have s2: "busy (ss_client s2) 1" "ss_answered s2 1 = 1" "ss_sent s2 1 = 1" using b cl1 by (simp_all add: s2_def del: One_nat_def)
  have i: "1 < SLOT_NUM_of default_build" by (simp add: sample_lens)
  note t = client_completes_answered [OF sample_start run i, where fuel = 1 and sp = False and V = sample_verbs and wl = sample_workload]
  then show ?thesis using s2 run by (intro exI [of _ s2]) auto
qed

end
