(* ===== verification/Rb_Tree.thy ===== *)
theory Rb_Tree
  imports Sto_Tid
begin

text \<open>
  The red-black tree under the transactional maps (\<open>datatype/RBTreeInternal.hh\<close>, classes \<open>rbnodeptr\<close>, \<open>rbtree\<close> and
  \<open>rbalgorithms\<close>).  Nodes live in a heap and are named by their addresses; address 0 is the null pointer.  A pointer to a node
  carries the node's colour in its lowest bit; as nodes are aligned, it is the pair of the address and the colour.  The root pointer has no
  colour bit: the root is black.  Keys are ordered linearly; two nodes with the same key are ordered by address, as in
  \<open>node_compare\<close>.  A loop that does not end has the result \<open>None\<close>.
\<close>

subsection \<open>Nodes and pointers\<close>

type_synonym rbnodeptr = "nat \<times> bool"

abbreviation rb_null :: rbnodeptr where "rb_null \<equiv> (0, False)"

definition rb_some :: "rbnodeptr \<Rightarrow> bool" where
  "rb_some x \<longleftrightarrow> x \<noteq> rb_null"

definition rb_red :: "rbnodeptr \<Rightarrow> bool" where
  "rb_red x = snd x"

definition rb_node :: "rbnodeptr \<Rightarrow> nat" where
  "rb_node x = fst x"

definition change_color :: "rbnodeptr \<Rightarrow> bool \<Rightarrow> rbnodeptr" where
  "change_color x c = (rb_node x, c)"

definition reverse_color :: "rbnodeptr \<Rightarrow> rbnodeptr" where
  "reverse_color x = (rb_node x, \<not> rb_red x)"

text \<open>The links of a node; \<open>False\<close> is the left side.\<close>

record rblinks =
  rb_p :: nat
  rb_c :: "bool \<Rightarrow> rbnodeptr"

record 'k rbtree =
  rb_links :: "nat \<Rightarrow> rblinks"
  rb_key :: "nat \<Rightarrow> 'k"
  rb_vers :: "nat \<Rightarrow> u64"
  rb_nodevers :: "nat \<Rightarrow> u64"
  rb_root :: nat
  rb_limit :: "bool \<Rightarrow> nat"
  rb_treeversion :: u64

definition rb_child :: "'k rbtree \<Rightarrow> rbnodeptr \<Rightarrow> bool \<Rightarrow> rbnodeptr" where
  "rb_child t x s = rb_c (rb_links t (rb_node x)) s"

definition set_c :: "rbnodeptr \<Rightarrow> bool \<Rightarrow> rbnodeptr \<Rightarrow> 'k rbtree \<Rightarrow> 'k rbtree" where
  "set_c x s y t = t\<lparr>rb_links := (rb_links t)(rb_node x := (rb_links t (rb_node x))\<lparr>rb_c := (rb_c (rb_links t (rb_node x)))(s := y)\<rparr>)\<rparr>"

definition rb_parent :: "'k rbtree \<Rightarrow> rbnodeptr \<Rightarrow> nat" where
  "rb_parent t x = rb_p (rb_links t (rb_node x))"

definition set_p :: "rbnodeptr \<Rightarrow> nat \<Rightarrow> 'k rbtree \<Rightarrow> 'k rbtree" where
  "set_p x q t = t\<lparr>rb_links := (rb_links t)(rb_node x := (rb_links t (rb_node x))\<lparr>rb_p := q\<rparr>)\<rparr>"

definition black_parent :: "'k rbtree \<Rightarrow> rbnodeptr \<Rightarrow> rbnodeptr" where
  "black_parent t x = (rb_parent t x, False)"

definition find_child :: "'k rbtree \<Rightarrow> rbnodeptr \<Rightarrow> nat \<Rightarrow> bool" where
  "find_child t x n \<longleftrightarrow> rb_some x \<and> rb_node (rb_child t x True) = n"

definition load_color :: "'k rbtree \<Rightarrow> rbnodeptr \<Rightarrow> rbnodeptr" where
  "load_color t x =
     (let p = black_parent t x
      in if rb_some x \<and> rb_some p \<and> rb_red (rb_child t p (find_child t p (rb_node x))) then change_color x True else x)"

definition set_child :: "rbnodeptr \<Rightarrow> bool \<Rightarrow> rbnodeptr \<Rightarrow> 'k rbtree \<Rightarrow> 'k rbtree" where
  "set_child p s x t = (if rb_some p then set_c p s x t else t\<lparr>rb_root := rb_node x\<rparr>)"

definition rb_rotate :: "bool \<Rightarrow> rbnodeptr \<Rightarrow> 'k rbtree \<Rightarrow> rbnodeptr \<times> 'k rbtree" where
  "rb_rotate side n t =
     (let x = rb_child t n (\<not> side);
          t = set_c n (\<not> side) (rb_child t x side) t;
          t = (if rb_some (rb_child t n (\<not> side)) then set_p (rb_child t x side) (rb_node n) t else t);
          old_color = rb_red n;
          t = set_c x side (change_color n True) t;
          t = set_p x (rb_parent t n) t;
          t = set_p n (rb_node x) t
      in (change_color x old_color, t))"

definition rb_flip :: "rbnodeptr \<Rightarrow> 'k rbtree \<Rightarrow> rbnodeptr \<times> 'k rbtree" where
  "rb_flip n t =
     (let t = set_c n False (reverse_color (rb_child t n False)) t;
          t = set_c n True (reverse_color (rb_child t n True)) t
      in (reverse_color n, t))"

subsection \<open>Insertion\<close>

text \<open>One turn of the loop of \<open>insert_commit\<close>, which repairs a red node with a red parent.\<close>

definition insert_turn :: "bool \<Rightarrow> rbnodeptr \<Rightarrow> 'k rbtree \<Rightarrow> bool \<times> rbnodeptr \<times> 'k rbtree" where
  "insert_turn side p t =
     (let gp = black_parent t p;
          (z, p, t) =
            (if rb_red (rb_child t gp False) \<and> rb_red (rb_child t gp True)
             then let (z, t) = rb_flip gp t in (z, load_color t (black_parent t gp), t)
             else let gpside = find_child t gp (rb_node p);
                      t = (if gpside \<noteq> side then let (r, t) = rb_rotate gpside p t in set_c gp gpside r t else t);
                      (z, t) = rb_rotate (\<not> gpside) gp t
                  in (z, black_parent t z, t));
          side = find_child t p (rb_node gp)
      in (side, p, set_child p side z t))"

partial_function (option) insert_fixup :: "bool \<Rightarrow> rbnodeptr \<Rightarrow> 'k rbtree \<Rightarrow> 'k rbtree option" where
  "insert_fixup side p t =
     (if rb_red p then (case insert_turn side p t of (side, p, t) \<Rightarrow> insert_fixup side p t) else Some t)"

definition link_new :: "nat \<Rightarrow> rbnodeptr \<Rightarrow> bool \<Rightarrow> 'k rbtree \<Rightarrow> 'k rbtree" where
  "link_new x p side t =
     (let t = t\<lparr>rb_links := (rb_links t)(x := \<lparr>rb_p = rb_node p, rb_c = (\<lambda>_. rb_null)\<rparr>)\<rparr>
      in if rb_some p
         then let t = set_c p side (x, True) t
              in if rb_node p = rb_limit t side then t\<lparr>rb_limit := (rb_limit t)(side := x)\<rparr> else t
         else t\<lparr>rb_root := x, rb_limit := (\<lambda>_. x)\<rparr>)"

definition insert_commit :: "nat \<Rightarrow> rbnodeptr \<Rightarrow> bool \<Rightarrow> 'k rbtree \<Rightarrow> 'k rbtree option" where
  "insert_commit x p side t = insert_fixup side p (link_new x p side t)"

definition default_compare :: "'a :: linorder \<Rightarrow> 'a \<Rightarrow> int" where
  "default_compare a b = (if a < b then - 1 else if b < a then 1 else 0)"

definition node_compare :: "'k :: linorder rbtree \<Rightarrow> nat \<Rightarrow> nat \<Rightarrow> int" where
  "node_compare t a b =
     (let cmp = default_compare (rb_key t a) (rb_key t b) in if cmp \<noteq> 0 then cmp else default_compare a b)"

partial_function (option) insert_pos :: "'k :: linorder rbtree \<Rightarrow> nat \<Rightarrow> rbnodeptr \<Rightarrow> bool \<Rightarrow> (rbnodeptr \<times> bool) option" where
  "insert_pos t x p side =
     (if \<not> rb_some p then Some (p, side)
      else let side = node_compare t x (rb_node p) > 0
           in if rb_some (rb_child t p side) then insert_pos t x (rb_child t p side) side else Some (p, side))"

definition rb_insert :: "nat \<Rightarrow> 'k :: linorder rbtree \<Rightarrow> (rbnodeptr \<times> 'k rbtree) option" where
  "rb_insert x t =
     (case insert_pos t x (rb_root t, False) False of
        None \<Rightarrow> None
      | Some (p, side) \<Rightarrow> map_option (\<lambda>t. (p, t)) (insert_commit x p side t))"

subsection \<open>Lookup\<close>

type_synonym node_info = "nat \<times> u64"

text \<open>The descent shared by \<open>find_any\<close>, \<open>find_insert\<close> and \<open>find_or_parent\<close>: node reached, its parent, the result of the last
  comparison and the two boundary nodes.\<close>

partial_function (option) rb_descend ::
    "'k :: linorder rbtree \<Rightarrow> 'k \<Rightarrow> rbnodeptr \<Rightarrow> rbnodeptr \<Rightarrow> int \<Rightarrow> node_info \<times> node_info \<Rightarrow>
     (rbnodeptr \<times> rbnodeptr \<times> int \<times> node_info \<times> node_info) option" where
  "rb_descend t key n p cmp boundary =
     (if rb_node n = 0 then Some (n, p, cmp, boundary)
      else let cmp = default_compare key (rb_key t (rb_node n)); nb = rb_node n
           in if cmp = 0 then Some (n, p, cmp, boundary)
              else rb_descend t key (rb_child t n (cmp > 0)) n cmp
                     (if cmp > 0 then ((nb, rb_nodevers t nb), snd boundary) else (fst boundary, (nb, rb_nodevers t nb))))"

definition limit_info :: "'k rbtree \<Rightarrow> bool \<Rightarrow> node_info" where
  "limit_info t s = (let n = rb_limit t s in (n, if n \<noteq> 0 then rb_nodevers t n else 0))"

definition find_any :: "'k :: linorder \<Rightarrow> 'k rbtree \<Rightarrow> (nat \<times> u64 \<times> bool \<times> node_info \<times> node_info) option" where
  "find_any key t =
     (case rb_descend t key (rb_root t, False) rb_null 0 (limit_info t False, limit_info t True) of
        None \<Rightarrow> None
      | Some (n, p, cmp, boundary) \<Rightarrow>
          let found = rb_node n \<noteq> 0;
              retnode = if found then rb_node n else rb_node p;
              retver = if retnode \<noteq> 0 then rb_vers t retnode else rb_treeversion t
          in Some (retnode, retver, found, boundary))"

definition find_or_parent :: "'k :: linorder \<Rightarrow> 'k rbtree \<Rightarrow> (rbnodeptr \<times> bool) option" where
  "find_or_parent key t =
     (case rb_descend t key (rb_root t, False) rb_null 0 (limit_info t False, limit_info t True) of
        None \<Rightarrow> None
      | Some (n, p, cmp, boundary) \<Rightarrow> let found = rb_node n \<noteq> 0 in Some (if found then n else p, found))"

text \<open>\<open>find_insert\<close> allocates the new node: \<open>x\<close> is the address \<open>malloc\<close> returns, \<open>v\<close> the two versions of the constructed pair.\<close>

definition find_insert ::
    "'k :: linorder \<Rightarrow> nat \<Rightarrow> u64 \<times> u64 \<Rightarrow> 'k rbtree \<Rightarrow> ((nat \<times> u64 \<times> bool \<times> (node_info \<times> node_info) \<times> node_info) \<times> 'k rbtree) option" where
  "find_insert key x v t =
     (case rb_descend t key (rb_root t, False) rb_null 0 (limit_info t False, limit_info t True) of
        None \<Rightarrow> None
      | Some (n, p, cmp, boundary) \<Rightarrow>
          let parent = (rb_node p, if rb_node p \<noteq> 0 then rb_nodevers t (rb_node p) else 0)
          in if rb_node n \<noteq> 0 then Some ((rb_node n, rb_vers t (rb_node n), True, boundary, parent), t)
             else map_option (\<lambda>t. ((x, rb_nodevers t x, False, boundary, parent), t))
                    (insert_commit x p (cmp > 0)
                      (t\<lparr>rb_key := (rb_key t)(x := key), rb_vers := (rb_vers t)(x := fst v), rb_nodevers := (rb_nodevers t)(x := snd v)\<rparr>)))"

subsection \<open>Iteration\<close>

partial_function (option) edge_node :: "'k rbtree \<Rightarrow> nat \<Rightarrow> bool \<Rightarrow> nat option" where
  "edge_node t n forward =
     (let y = rb_c (rb_links t n) forward in if rb_some y then edge_node t (rb_node y) forward else Some n)"

partial_function (option) climb :: "'k rbtree \<Rightarrow> nat \<Rightarrow> bool \<Rightarrow> nat option" where
  "climb t prev forward =
     (let n = rb_p (rb_links t prev)
      in if n \<noteq> 0 \<and> rb_node (rb_c (rb_links t n) (\<not> forward)) \<noteq> prev then climb t n forward else Some n)"

definition step_node :: "'k rbtree \<Rightarrow> nat \<Rightarrow> bool \<Rightarrow> nat option" where
  "step_node t n forward =
     (let y = rb_c (rb_links t n) forward
      in if rb_some y then edge_node t (rb_node y) (\<not> forward) else climb t n forward)"

definition next_node :: "'k rbtree \<Rightarrow> nat \<Rightarrow> nat option" where
  "next_node t n = step_node t n True"

definition prev_node :: "'k rbtree \<Rightarrow> nat \<Rightarrow> nat option" where
  "prev_node t n = step_node t n False"

end
