(* ===== verification/Rb_Shape.thy ===== *)
theory Rb_Shape
  imports Rb_Tree
begin

text \<open>
  The tree a heap of linked nodes stands for, and trees with a hole.  Sides are symmetric in the code, so a node is written with one
  subtree at a side and the other one opposite (\<open>mk\<close>), and every fact below covers both mirror images.
\<close>

subsection \<open>Trees of addresses\<close>

datatype rbt = Leaf | Node bool rbt nat rbt

fun nodes :: "rbt \<Rightarrow> nat list" where
  "nodes Leaf = []"
| "nodes (Node c l a r) = nodes l @ a # nodes r"

definition mk :: "bool \<Rightarrow> bool \<Rightarrow> rbt \<Rightarrow> nat \<Rightarrow> rbt \<Rightarrow> rbt" where
  "mk s c t a u = (if s then Node c u a t else Node c t a u)"

fun col :: "rbt \<Rightarrow> bool" where
  "col Leaf = False"
| "col (Node c l a r) = c"

fun bh :: "rbt \<Rightarrow> nat" where
  "bh Leaf = 0"
| "bh (Node c l a r) = bh l + (if c then 0 else 1)"

fun inv_h :: "rbt \<Rightarrow> bool" where
  "inv_h Leaf = True"
| "inv_h (Node c l a r) \<longleftrightarrow> bh l = bh r \<and> inv_h l \<and> inv_h r"

fun inv_c :: "rbt \<Rightarrow> bool" where
  "inv_c Leaf = True"
| "inv_c (Node c l a r) \<longleftrightarrow> (c \<longrightarrow> \<not> col l \<and> \<not> col r) \<and> inv_c l \<and> inv_c r"

definition rb_ok :: "rbt \<Rightarrow> bool" where
  "rb_ok t \<longleftrightarrow> inv_h t \<and> inv_c t \<and> \<not> col t"

lemma mk_simps [simp]:
  "mk s c t a u \<noteq> Leaf" "set (nodes (mk s c t a u)) = insert a (set (nodes t) \<union> set (nodes u))" "col (mk s c t a u) = c"
  "inv_h (mk s c t a u) \<longleftrightarrow> bh t = bh u \<and> inv_h t \<and> inv_h u"
  "inv_c (mk s c t a u) \<longleftrightarrow> (c \<longrightarrow> \<not> col t \<and> \<not> col u) \<and> inv_c t \<and> inv_c u"
  by (auto simp: mk_def)

lemma bh_mk [simp]: "bh t = bh u \<Longrightarrow> bh (mk s c t a u) = bh u + (if c then 0 else 1)"
  by (simp add: mk_def)

lemma distinct_mk [simp]:
  "distinct (nodes (mk s c t a u)) \<longleftrightarrow> distinct (nodes t) \<and> distinct (nodes u) \<and> a \<notin> set (nodes t) \<and> a \<notin> set (nodes u)
     \<and> set (nodes t) \<inter> set (nodes u) = {}"
  by (auto simp: mk_def)

lemma rbt_cases_mk:
  obtains "t = Leaf" | c l a r where "t = mk s c l a r"
  by (cases t; cases s) (auto simp: mk_def)

text \<open>Rotating keeps the order of the nodes.\<close>

lemma nodes_rotate: "nodes (mk s c (mk (\<not> s) d y n v) x w) = nodes (mk (\<not> s) c' (mk s d' y x w) n v)"
  by (simp add: mk_def)

lemma nodes_mk_cong: "nodes t = nodes t' \<Longrightarrow> nodes u = nodes u' \<Longrightarrow> nodes (mk s c t a u) = nodes (mk s c' t' a u')"
  by (simp add: mk_def)

subsection \<open>Trees in the heap\<close>

fun tree_at :: "(nat \<Rightarrow> rblinks) \<Rightarrow> nat \<Rightarrow> rbnodeptr \<Rightarrow> rbt \<Rightarrow> bool" where
  "tree_at h q x Leaf \<longleftrightarrow> x = rb_null"
| "tree_at h q x (Node c l a r) \<longleftrightarrow> x = (a, c) \<and> a \<noteq> 0 \<and> rb_p (h a) = q \<and> tree_at h a (rb_c (h a) False) l \<and> tree_at h a (rb_c (h a) True) r"

lemma tree_at_mk [simp]:
  "tree_at h q x (mk s c t a u) \<longleftrightarrow>
     x = (a, c) \<and> a \<noteq> 0 \<and> rb_p (h a) = q \<and> tree_at h a (rb_c (h a) s) t \<and> tree_at h a (rb_c (h a) (\<not> s)) u"
  by (cases s) (auto simp: mk_def)

lemma tree_at_col: "tree_at h q x t \<Longrightarrow> rb_red x = col t"
  by (cases t) (auto simp: rb_red_def)

lemma tree_at_node: "tree_at h q x t \<Longrightarrow> rb_node x \<in> insert 0 (set (nodes t))"
  by (cases t) (auto simp: rb_node_def)

lemma tree_at_Leaf: "tree_at h q x t \<Longrightarrow> rb_some x \<longleftrightarrow> t \<noteq> Leaf"
  by (cases t) (auto simp: rb_some_def)

lemma tree_at_pos: "tree_at h q x t \<Longrightarrow> 0 \<notin> set (nodes t)"
proof (induction t arbitrary: q x)
  case (Node c l a r)
  then have "0 \<notin> set (nodes l)" "0 \<notin> set (nodes r)" by (simp_all only: tree_at.simps) blast+
  then show ?case using Node.prems by simp
qed simp

lemma tree_at_cong: "(\<And>a. a \<in> set (nodes t) \<Longrightarrow> h' a = h a) \<Longrightarrow> tree_at h' q x t = tree_at h q x t"
proof (induction t arbitrary: q x)
  case (Node c l a r)
  have "h' a = h a" by (simp add: Node.prems)
  moreover have "tree_at h' q x l = tree_at h q x l" "tree_at h' q x r = tree_at h q x r" for q x
    by (rule Node.IH; simp add: Node.prems)+
  ultimately show ?case by simp
qed simp

text \<open>A subtree under a new parent.\<close>

lemma tree_at_reparent:
  assumes "tree_at h q x t" "distinct (nodes t)" "\<And>a. a \<in> set (nodes t) \<Longrightarrow> h' a = (if a = rb_node x then (h a)\<lparr>rb_p := q'\<rparr> else h a)"
  shows "tree_at h' q' x t"
proof (cases t)
  case (Node c l a r)
  have a: "h' a = (h a)\<lparr>rb_p := q'\<rparr>" using assms Node by (simp add: rb_node_def)
  have "tree_at h' a y u = tree_at h a y u" if "u = l \<or> u = r" for u y
    by (rule tree_at_cong) (use assms that Node in \<open>auto simp: rb_node_def\<close>)
  then show ?thesis using assms(1) a Node by simp
qed (use assms in simp)

subsection \<open>Trees with a hole\<close>

type_synonym frame = "bool \<times> bool \<times> nat \<times> rbt"

fun plug :: "rbt \<Rightarrow> frame list \<Rightarrow> rbt" where
  "plug t [] = t"
| "plug t ((s, c, a, u) # k) = plug (mk s c t a u) k"

fun par :: "frame list \<Rightarrow> nat" where
  "par [] = 0"
| "par ((s, c, a, u) # k) = a"

fun kside :: "frame list \<Rightarrow> bool" where
  "kside [] = False"
| "kside ((s, c, a, u) # k) = s"

fun kcol :: "frame list \<Rightarrow> bool" where
  "kcol [] = False"
| "kcol ((s, c, a, u) # k) = c"

fun knodes :: "frame list \<Rightarrow> nat set" where
  "knodes [] = {}"
| "knodes ((s, c, a, u) # k) = insert a (set (nodes u) \<union> knodes k)"

fun kdistinct :: "frame list \<Rightarrow> bool" where
  "kdistinct [] = True"
| "kdistinct ((s, c, a, u) # k) \<longleftrightarrow> distinct (nodes u) \<and> a \<notin> set (nodes u) \<and> a \<notin> knodes k \<and> set (nodes u) \<inter> knodes k = {} \<and> kdistinct k"

definition hole :: "(nat \<Rightarrow> rblinks) \<Rightarrow> nat \<Rightarrow> frame list \<Rightarrow> rbnodeptr" where
  "hole h root k = (case k of [] \<Rightarrow> (root, False) | (s, c, a, u) # k \<Rightarrow> rb_c (h a) s)"

fun ctx_at :: "(nat \<Rightarrow> rblinks) \<Rightarrow> nat \<Rightarrow> frame list \<Rightarrow> bool" where
  "ctx_at h root [] = True"
| "ctx_at h root ((s, c, a, u) # k) \<longleftrightarrow>
     a \<noteq> 0 \<and> rb_p (h a) = par k \<and> tree_at h a (rb_c (h a) (\<not> s)) u \<and> hole h root k = (a, c) \<and> ctx_at h root k"

fun kok :: "nat \<Rightarrow> frame list \<Rightarrow> bool" where
  "kok b [] = True"
| "kok b ((s, c, a, u) # k) \<longleftrightarrow>
     inv_h u \<and> inv_c u \<and> bh u = b \<and> (c \<longrightarrow> \<not> col u \<and> \<not> kcol k \<and> k \<noteq> []) \<and> kok (if c then b else b + 1) k"

lemma hole_simps [simp]: "hole h root [] = (root, False)" "hole h root ((s, c, a, u) # k) = rb_c (h a) s"
  by (simp_all add: hole_def)

lemma plug_tree_at: "tree_at h 0 (root, False) (plug t k) \<longleftrightarrow> ctx_at h root k \<and> tree_at h (par k) (hole h root k) t"
  by (induction t k rule: plug.induct) auto

lemma plug_nodes: "set (nodes (plug t k)) = set (nodes t) \<union> knodes k"
  by (induction t k rule: plug.induct) auto

lemma plug_distinct: "distinct (nodes (plug t k)) \<longleftrightarrow> distinct (nodes t) \<and> kdistinct k \<and> set (nodes t) \<inter> knodes k = {}"
proof (induction t k rule: plug.induct)
  case (2 t s c a u k)
  then show ?case by (simp only: plug.simps distinct_mk mk_simps knodes.simps kdistinct.simps) blast
qed simp

lemma plug_nodes_cong: "nodes t = nodes t' \<Longrightarrow> nodes (plug t k) = nodes (plug t' k)"
proof (induction k arbitrary: t t')
  case (Cons f k)
  obtain s c a u where f: "f = (s, c, a, u)" by (cases f) auto
  have "nodes (mk s c t a u) = nodes (mk s c t' a u)" by (rule nodes_mk_cong [OF Cons.prems refl])
  then show ?case by (simp only: f plug.simps) (rule Cons.IH)
qed simp

lemma plug_ok: "rb_ok (plug t k) \<longleftrightarrow> inv_h t \<and> inv_c t \<and> kok (bh t) k \<and> \<not> (col t \<and> kcol k) \<and> (k = [] \<longrightarrow> \<not> col t)"
proof (induction t k rule: plug.induct)
  case (2 t s c a u k)
  then show ?case by (cases "bh u = bh t") auto
qed (simp add: rb_ok_def)

lemma ctx_at_cong:
  assumes "\<And>a. a \<in> knodes k \<Longrightarrow> h' a = h a"
  shows "ctx_at h' root k = ctx_at h root k"
  using assms
proof (induction k)
  case (Cons f k)
  obtain s c a u where f: "f = (s, c, a, u)" by (cases f) auto
  have "tree_at h' q x u = tree_at h q x u" for q x by (rule tree_at_cong) (simp add: Cons.prems f)
  moreover have "hole h' root k = hole h root k" using Cons.prems by (cases k) (auto simp: f)
  ultimately show ?case using Cons by (simp add: f)
qed simp

lemma par_in: "k \<noteq> [] \<Longrightarrow> par k \<in> knodes k"
  by (cases k) auto

lemma ctx_par: "ctx_at h root k \<Longrightarrow> par k = 0 \<longleftrightarrow> k = []"
  by (cases k) auto

end
