(* ===== verification/Rb_Insert.thy ===== *)
theory Rb_Insert
  imports Rb_Shape
begin

text \<open>
  Insertion into the red-black tree: the rebalancing loop of \<open>insert_commit\<close> ends, keeps the tree balanced and in order, and touches
  no other memory.
\<close>

subsection \<open>Rotation and recolouring\<close>

lemmas rb_ptr_defs = rb_node_def rb_red_def change_color_def reverse_color_def rb_some_def
lemmas rb_heap_defs = rb_child_def set_c_def set_p_def rb_parent_def black_parent_def

lemma rotate_spec:
  assumes tr: "tree_at (rb_links t) q (n, cn) (mk (\<not> side) cn (mk side cx y x w) n v)"
    and di: "distinct (nodes (mk (\<not> side) cn (mk side cx y x w) n v))"
  obtains h' where "rb_rotate side (n, c) t = ((x, c), t\<lparr>rb_links := h'\<rparr>)" "tree_at h' q (x, c) (mk side c (mk (\<not> side) True y n v) x w)"
    "\<And>a. a \<notin> insert n (insert x (set (nodes y))) \<Longrightarrow> h' a = rb_links t a"
proof -
  let ?h = "rb_links t"
  define yp where "yp = rb_c (?h x) side"
  have nx: "rb_c (?h n) (\<not> side) = (x, cx)" "rb_p (?h n) = q" "n \<noteq> 0" "x \<noteq> 0" "n \<noteq> x" using tr di by auto
  have y: "tree_at ?h x yp y" using tr by (simp add: yp_def)
  have yp: "rb_node yp \<noteq> n" "rb_node yp \<noteq> x" using tree_at_node [OF y] di nx by (auto simp: rb_node_def)
  define h' where "h' = (\<lambda>a. if a = n then \<lparr>rb_p = x, rb_c = (rb_c (?h n))(\<not> side := yp)\<rparr>
      else if a = x then \<lparr>rb_p = q, rb_c = (rb_c (?h x))(side := (n, True))\<rparr>
      else if rb_some yp \<and> a = rb_node yp then (?h a)\<lparr>rb_p := n\<rparr> else ?h a)"
  have "rb_rotate side (n, c) t = ((x, c), t\<lparr>rb_links := h'\<rparr>)"
    using nx yp by (auto simp: rb_rotate_def Let_def rb_heap_defs rb_ptr_defs h'_def yp_def [symmetric] fun_eq_iff)
  moreover have "tree_at h' n yp y"
    by (rule tree_at_reparent [OF y]) (use di tree_at_Leaf [OF y] in \<open>auto simp: h'_def rb_some_def rb_node_def\<close>)
  moreover have "tree_at h' a z u = tree_at ?h a z u" if "u = v \<or> u = w" for a z u
    by (rule tree_at_cong) (use that di tree_at_node [OF y] tree_at_pos [OF tr] in \<open>auto simp: h'_def\<close>)
  moreover have "h' a = ?h a" if "a \<notin> insert n (insert x (set (nodes y)))" for a
    using that y by (cases y) (auto simp: h'_def rb_some_def rb_node_def)
  ultimately show ?thesis
    by (intro that [of h']) (use tr nx in \<open>auto simp: h'_def\<close>)
qed

fun paint :: "bool \<Rightarrow> rbt \<Rightarrow> rbt" where
  "paint c Leaf = Leaf"
| "paint c (Node d l a r) = Node c l a r"

lemma paint_simps [simp]: "nodes (paint c t) = nodes t" "inv_h (paint c t) = inv_h t" "inv_c t \<Longrightarrow> inv_c (paint False t)" "col (paint False t) = False"
  "col t \<Longrightarrow> bh (paint False t) = bh t + 1"
  by (cases t; simp)+

lemma tree_at_paint: "tree_at h q x t \<Longrightarrow> t \<noteq> Leaf \<Longrightarrow> tree_at h q (rb_node x, c) (paint c t)"
  by (cases t) (auto simp: rb_node_def)

subsection \<open>Links into the hole\<close>

lemma find_child_side:
  assumes "ctx_at (rb_links t) root k" "rb_node (hole (rb_links t) root k) = n" "n \<noteq> 0" "n \<notin> knodes k" "k = [] \<Longrightarrow> \<not> d"
  shows "find_child t (par k, d) n = kside k"
proof (cases k)
  case (Cons f k')
  obtain s c a u where f: "f = (s, c, a, u)" by (cases f) auto
  have u: "tree_at (rb_links t) a (rb_c (rb_links t a) (\<not> s)) u" and a: "a \<noteq> 0" using assms(1) by (auto simp: Cons f)
  have "rb_node (rb_c (rb_links t a) (\<not> s)) \<noteq> n" using tree_at_node [OF u] assms(3,4) by (auto simp: Cons f)
  then show ?thesis using assms(2) a by (cases s) (auto simp: Cons f find_child_def rb_child_def rb_ptr_defs)
qed (use assms(5) in \<open>simp add: find_child_def rb_some_def\<close>)

lemma load_color_ctx:
  assumes "ctx_at (rb_links t) (rb_root t) k" "kdistinct k"
  shows "load_color t (par k, False) = (par k, kcol k)"
proof (cases k)
  case (Cons f k')
  obtain s c a u where f: "f = (s, c, a, u)" by (cases f) auto
  have k': "ctx_at (rb_links t) (rb_root t) k'" "hole (rb_links t) (rb_root t) k' = (a, c)" "a \<noteq> 0" "a \<notin> knodes k'"
    "rb_p (rb_links t a) = par k'" using assms by (auto simp: Cons f)
  show ?thesis
  proof (cases "k' = []")
    case True
    then show ?thesis using k' by (auto simp: Cons f load_color_def rb_heap_defs rb_ptr_defs)
  next
    case False
    have "find_child t (par k', False) a = kside k'" using find_child_side [OF k'(1), of a False] k' False by (simp add: rb_node_def)
    moreover have "rb_c (rb_links t (par k')) (kside k') = (a, c)" using k'(2) False by (cases k') auto
    moreover have "par k' \<noteq> 0" using ctx_par [OF k'(1)] False by simp
    ultimately show ?thesis using k' by (cases c) (auto simp: Cons f load_color_def Let_def rb_heap_defs rb_ptr_defs)
  qed
qed (simp add: load_color_def rb_some_def)

text \<open>Redirecting the link into the hole.\<close>

definition set_link :: "(nat \<Rightarrow> rblinks) \<Rightarrow> frame list \<Rightarrow> rbnodeptr \<Rightarrow> nat \<Rightarrow> rblinks" where
  "set_link h k z = (case k of [] \<Rightarrow> h | (s, c, a, u) # k \<Rightarrow> h(a := (h a)\<lparr>rb_c := (rb_c (h a))(s := z)\<rparr>))"

abbreviation new_root :: "frame list \<Rightarrow> nat \<Rightarrow> nat \<Rightarrow> nat" where
  "new_root k n r \<equiv> (if k = [] then n else r)"

lemma set_child_link:
  assumes "ctx_at h root k" "k = [] \<Longrightarrow> \<not> d"
  shows "set_child (par k, d) (kside k) z t = t\<lparr>rb_links := set_link (rb_links t) k z, rb_root := new_root k (rb_node z) (rb_root t)\<rparr>"
  using assms by (cases k) (auto simp: set_link_def set_child_def set_c_def rb_some_def rb_node_def)

lemma set_link_off: "a \<notin> knodes k \<Longrightarrow> set_link h k z a = h a"
  by (cases k) (auto simp: set_link_def)

lemma set_link_ctx:
  assumes ctx: "ctx_at h root k" and kd: "kdistinct k"
  shows "ctx_at (set_link h k z) (new_root k n root) k" "hole (set_link h k z) (new_root k n root) k = (if k = [] then (n, False) else z)"
proof -
  show "ctx_at (set_link h k z) (new_root k n root) k"
  proof (cases k)
    case (Cons f k')
    obtain s c a u where f: "f = (s, c, a, u)" by (cases f) auto
    let ?h = "h(a := (h a)\<lparr>rb_c := (rb_c (h a))(s := z)\<rparr>)"
    have "tree_at ?h q x u = tree_at h q x u" for q x by (rule tree_at_cong) (use kd in \<open>auto simp: Cons f\<close>)
    moreover have "ctx_at ?h root k' = ctx_at h root k'" for root by (rule ctx_at_cong) (use kd in \<open>auto simp: Cons f\<close>)
    moreover have "hole ?h root k' = hole h root k'" for root using kd by (cases k') (auto simp: Cons f)
    ultimately show ?thesis using ctx by (auto simp: set_link_def Cons f)
  qed simp
  show "hole (set_link h k z) (new_root k n root) k = (if k = [] then (n, False) else z)"
    by (cases k) (auto simp: set_link_def)
qed

lemma kcol_Nil: "k = [] \<Longrightarrow> \<not> kcol k"
  by simp

subsection \<open>One turn of the loop\<close>

lemma turn_flip:
  assumes rep: "tree_at (rb_links t) 0 (rb_root t, False) (plug z ((s, True, a, u) # (s2, False, g, v) # k))"
    and di: "distinct (nodes (plug z ((s, True, a, u) # (s2, False, g, v) # k)))" and v: "col v"
  obtains h' r' where "insert_turn s (a, True) t = (kside k, (par k, kcol k), t\<lparr>rb_links := h', rb_root := r'\<rparr>)"
    "tree_at h' 0 (r', False) (plug (mk s2 (k \<noteq> []) (mk s False z a u) g (paint False v)) k)"
    "\<And>b. b \<notin> set (nodes (plug z ((s, True, a, u) # (s2, False, g, v) # k))) \<Longrightarrow> h' b = rb_links t b"
proof -
  let ?h = "rb_links t" and ?a = "mk s True z a u"
  have ctx: "ctx_at ?h (rb_root t) k" and loc: "tree_at ?h (par k) (hole ?h (rb_root t) k) (mk s2 False ?a g v)"
    using rep by (simp_all only: plug.simps plug_tree_at)
  have dk: "kdistinct k" "g \<notin> knodes k" and dl: "distinct (nodes (mk s2 False ?a g v))" "set (nodes (mk s2 False ?a g v)) \<inter> knodes k = {}"
    using di by (simp_all only: plug.simps plug_distinct mk_simps) blast+
  have g: "hole ?h (rb_root t) k = (g, False)" "g \<noteq> 0" "rb_p (?h g) = par k" "rb_c (?h g) s2 = (a, True)" "rb_p (?h a) = g"
    and ta: "tree_at ?h g (a, True) ?a" and tv: "tree_at ?h g (rb_c (?h g) (\<not> s2)) v" using loc by auto
  define h1 where "h1 = ?h(g := (?h g)\<lparr>rb_c := \<lambda>s. reverse_color (rb_c (?h g) s)\<rparr>)"
  let ?t1 = "t\<lparr>rb_links := h1\<rparr>"
  have red: "rb_red (rb_c (?h g) b)" for b using g(4) tree_at_col [OF tv] v by (cases "b = s2") (auto simp: rb_red_def)
  have h1: "h1 b = ?h b" if "b \<noteq> g" for b using that by (simp add: h1_def)
  have ctx1: "ctx_at h1 (rb_root t) k" by (subst ctx_at_cong [where h = ?h]) (use dk ctx in \<open>auto simp: h1_def\<close>)
  have hole1: "hole h1 (rb_root t) k = (g, False)" using g(1) dk(2) h1 by (cases k) auto
  have flip: "rb_flip (g, False) t = ((g, True), ?t1)"
    by (auto simp: rb_flip_def Let_def rb_heap_defs rb_ptr_defs h1_def fun_eq_iff)
  have load: "load_color ?t1 (par k, False) = (par k, kcol k)" by (rule load_color_ctx) (use ctx1 dk in simp_all)
  have side: "find_child ?t1 (par k, kcol k) g = kside k"
    by (rule find_child_side [where root = "rb_root t"]) (use ctx1 hole1 g(2) dk kcol_Nil in \<open>simp_all add: rb_node_def\<close>)
  define h' where "h' = set_link h1 k (g, True)"
  have set: "set_child (par k, kcol k) (kside k) (g, True) ?t1 = t\<lparr>rb_links := h', rb_root := new_root k g (rb_root t)\<rparr>"
    unfolding h'_def by (subst set_child_link [OF ctx1]) (simp_all add: rb_node_def)
  have c': "ctx_at h' (new_root k g (rb_root t)) k" "hole h' (new_root k g (rb_root t)) k = (g, k \<noteq> [])"
    unfolding h'_def using set_link_ctx [OF ctx1, of "(g, True)" g] dk by auto
  have h': "h' b = h1 b" if "b \<notin> knodes k" for b unfolding h'_def by (rule set_link_off [OF that])
  have turn: "insert_turn s (a, True) t = (kside k, (par k, kcol k), t\<lparr>rb_links := h', rb_root := new_root k g (rb_root t)\<rparr>)"
    using red load side set flip g(3,5)
    by (simp add: insert_turn_def Let_def black_parent_def rb_parent_def rb_child_def rb_node_def h1_def)
  have hg: "h' g = (?h g)\<lparr>rb_c := \<lambda>s. reverse_color (rb_c (?h g) s)\<rparr>" using h' dk(2) by (simp add: h1_def)
  have keep: "tree_at h' q x y = tree_at ?h q x y" if "y = ?a \<or> y = v" for q x y
  proof (rule tree_at_cong)
    fix b assume "b \<in> set (nodes y)"
    then have "b \<noteq> g" "b \<notin> knodes k" using that dl by auto
    then show "h' b = ?h b" using h' h1 by simp
  qed
  have "tree_at h' g (a, False) (mk s False z a u)" using keep [of ?a g "(a, True)"] ta by simp
  moreover have "tree_at h' g (rb_c (h' g) (\<not> s2)) (paint False v)"
    using tree_at_paint [of h' g "rb_c (?h g) (\<not> s2)" v False] keep [of v] tv v red [of "\<not> s2"]
    by (cases v) (auto simp: hg reverse_color_def rb_node_def rb_red_def)
  ultimately have "tree_at h' (par k) (g, k \<noteq> []) (mk s2 (k \<noteq> []) (mk s False z a u) g (paint False v))"
    using g by (simp add: hg reverse_color_def rb_node_def rb_red_def)
  then have "tree_at h' 0 (new_root k g (rb_root t), False) (plug (mk s2 (k \<noteq> []) (mk s False z a u) g (paint False v)) k)"
    unfolding plug_tree_at c'(2) using c'(1) by blast
  then show ?thesis by (rule that [OF turn]) (use h' h1 in \<open>auto simp: plug_nodes\<close>)
qed

lemma mk_swap: "mk s c t a u = mk (\<not> s) c u a t"
  by (simp add: mk_def)

text \<open>The rotation of the grandparent, which ends the loop.\<close>

lemma gp_rotate:
  assumes ctx: "ctx_at (rb_links t) (rb_root t) k" and hl: "hole (rb_links t) (rb_root t) k = (g, False)"
    and loc: "tree_at (rb_links t) (par k) (g, False) (mk s False (mk s True z a u) g v)"
    and kd: "kdistinct k" and di: "distinct (nodes (mk s False (mk s True z a u) g v))" "set (nodes (mk s False (mk s True z a u) g v)) \<inter> knodes k = {}"
  obtains h1 h' r' where "rb_rotate (\<not> s) (g, False) t = ((a, False), t\<lparr>rb_links := h1\<rparr>)"
    "black_parent (t\<lparr>rb_links := h1\<rparr>) (a, False) = (par k, False)" "find_child (t\<lparr>rb_links := h1\<rparr>) (par k, False) g = kside k"
    "set_child (par k, False) (kside k) (a, False) (t\<lparr>rb_links := h1\<rparr>) = t\<lparr>rb_links := h', rb_root := r'\<rparr>"
    "tree_at h' 0 (r', False) (plug (mk s False z a (mk s True u g v)) k)"
    "\<And>b. b \<notin> set (nodes (mk s False (mk s True z a u) g v)) \<union> knodes k \<Longrightarrow> h' b = rb_links t b"
proof -
  have eq: "mk s False (mk s True z a u) g v = mk (\<not> \<not> s) False (mk (\<not> s) True u a z) g v" by (simp add: mk_swap [of s True z])
  obtain h1 where rot: "rb_rotate (\<not> s) (g, False) t = ((a, False), t\<lparr>rb_links := h1\<rparr>)"
    and tr: "tree_at h1 (par k) (a, False) (mk (\<not> s) False (mk (\<not> \<not> s) True u g v) a z)"
    and h1: "\<And>b. b \<notin> insert g (insert a (set (nodes u))) \<Longrightarrow> h1 b = rb_links t b"
    by (rule rotate_spec [OF loc [unfolded eq] di(1) [unfolded eq]]) blast
  let ?t1 = "t\<lparr>rb_links := h1\<rparr>"
  have off: "h1 b = rb_links t b" if "b \<in> knodes k" for b by (rule h1) (use that di(2) in auto)
  have ctx1: "ctx_at h1 (rb_root t) k" by (subst ctx_at_cong [where h = "rb_links t"]) (use ctx off in auto)
  have hl1: "hole h1 (rb_root t) k = (g, False)" using hl off by (cases k) auto
  have par: "black_parent ?t1 (a, False) = (par k, False)" using tr by (simp add: rb_heap_defs rb_node_def)
  have side: "find_child ?t1 (par k, False) g = kside k"
    by (rule find_child_side [where root = "rb_root t"]) (use ctx1 hl1 loc di(2) in \<open>auto simp: rb_node_def\<close>)
  define h' where "h' = set_link h1 k (a, False)"
  have set: "set_child (par k, False) (kside k) (a, False) ?t1 = t\<lparr>rb_links := h', rb_root := new_root k a (rb_root t)\<rparr>"
    unfolding h'_def by (subst set_child_link [OF ctx1]) (simp_all add: rb_node_def)
  have c': "ctx_at h' (new_root k a (rb_root t)) k" "hole h' (new_root k a (rb_root t)) k = (a, False)"
    unfolding h'_def using set_link_ctx [OF ctx1, of "(a, False)" a] kd by auto
  have h': "h' b = h1 b" if "b \<notin> knodes k" for b unfolding h'_def by (rule set_link_off [OF that])
  have "tree_at h' (par k) (a, False) (mk (\<not> s) False (mk (\<not> \<not> s) True u g v) a z)"
    by (subst tree_at_cong [where h = h1]) (use tr h' di(2) in auto)
  then have "tree_at h' 0 (new_root k a (rb_root t), False) (plug (mk s False z a (mk s True u g v)) k)"
    unfolding plug_tree_at c'(2) using c'(1) by (simp add: mk_swap [of s False z])
  then show ?thesis by (rule that [OF rot par side set]) (use h' h1 in auto)
qed

text \<open>The rotation of the parent that brings an inner red node outside.\<close>

lemma inner_rotate:
  assumes loc: "tree_at (rb_links t) q (g, False) (mk s2 False (mk (\<not> s2) True (mk s2 True zA x zB) a u) g v)"
    and dl: "distinct (nodes (mk s2 False (mk (\<not> s2) True (mk s2 True zA x zB) a u) g v))"
  obtains h1 where "(case rb_rotate s2 (a, True) t of (r, t) \<Rightarrow> set_c (g, False) s2 r t) = t\<lparr>rb_links := h1\<rparr>"
    "tree_at h1 q (g, False) (mk s2 False (mk s2 True (mk (\<not> s2) True zA a u) x zB) g v)"
    "\<And>b. b \<notin> insert g (insert a (insert x (set (nodes zA)))) \<Longrightarrow> h1 b = rb_links t b"
proof -
  let ?h = "rb_links t" and ?A = "mk (\<not> s2) True zA a u"
  have ta: "tree_at ?h g (a, True) (mk (\<not> s2) True (mk s2 True zA x zB) a u)" and tv: "tree_at ?h g (rb_c (?h g) (\<not> s2)) v" using loc by auto
  obtain h0 where rot: "rb_rotate s2 (a, True) t = ((x, True), t\<lparr>rb_links := h0\<rparr>)" and t0: "tree_at h0 g (x, True) (mk s2 True ?A x zB)"
    and h0: "\<And>b. b \<notin> insert a (insert x (set (nodes zA))) \<Longrightarrow> h0 b = ?h b"
    by (rule rotate_spec [of t g a True s2 True zA x zB u True]) (use ta dl in auto)
  define h1 where "h1 = h0(g := (h0 g)\<lparr>rb_c := (rb_c (h0 g))(s2 := (x, True))\<rparr>)"
  have set: "set_c (g, False) s2 (x, True) (t\<lparr>rb_links := h0\<rparr>) = t\<lparr>rb_links := h1\<rparr>" by (simp add: set_c_def rb_node_def h1_def)
  have d: "g \<notin> set (nodes (mk s2 True ?A x zB))" "set (nodes v) \<inter> insert g (insert a (insert x (set (nodes zA)))) = {}" using dl by auto
  have off: "h1 b = ?h b" if "b \<notin> insert g (insert a (insert x (set (nodes zA))))" for b using that h0 by (simp add: h1_def)
  have hg: "h1 g = (?h g)\<lparr>rb_c := (rb_c (?h g))(s2 := (x, True))\<rparr>" using h0 [of g] d(1) by (simp add: h1_def)
  have "tree_at h1 q y w = tree_at h0 q y w" if "w = mk s2 True ?A x zB" for q y w
    by (rule tree_at_cong) (use that d(1) in \<open>auto simp: h1_def\<close>)
  then have "tree_at h1 g (x, True) (mk s2 True ?A x zB)" using t0 by blast
  moreover have "h1 b = ?h b" if "b \<in> set (nodes v)" for b by (rule off) (use that d(2) in auto)
  then have "tree_at h1 g (rb_c (?h g) (\<not> s2)) v" using tv tree_at_cong [of v h1 ?h] by simp
  ultimately have "tree_at h1 q (g, False) (mk s2 False (mk s2 True ?A x zB) g v)" using loc hg by simp
  then show ?thesis by (rule that [rotated]) (use rot set off in auto)
qed

lemma turn_rotate:
  assumes rep: "tree_at (rb_links t) 0 (rb_root t, False) (plug z ((s, True, a, u) # (s2, False, g, v) # k))"
    and di: "distinct (nodes (plug z ((s, True, a, u) # (s2, False, g, v) # k)))" and v: "\<not> col v" and z: "z = mk s2 True zA x zB"
    and r: "r = (if s = s2 then mk s2 False z a (mk s2 True u g v) else mk s2 False (mk (\<not> s2) True zA a u) x (mk s2 True zB g v))"
  obtains h' r' where "insert_turn s (a, True) t = (kside k, (par k, False), t\<lparr>rb_links := h', rb_root := r'\<rparr>)"
    "tree_at h' 0 (r', False) (plug r k)" "\<And>b. b \<notin> set (nodes (plug z ((s, True, a, u) # (s2, False, g, v) # k))) \<Longrightarrow> h' b = rb_links t b"
proof -
  let ?h = "rb_links t" and ?a = "mk s True z a u"
  have ctx: "ctx_at ?h (rb_root t) k" and loc: "tree_at ?h (par k) (hole ?h (rb_root t) k) (mk s2 False ?a g v)"
    using rep by (simp_all only: plug.simps plug_tree_at)
  have kd: "kdistinct k" and dl: "distinct (nodes (mk s2 False ?a g v))" "set (nodes (mk s2 False ?a g v)) \<inter> knodes k = {}"
    using di by (simp_all only: plug.simps plug_distinct)
  have g: "hole ?h (rb_root t) k = (g, False)" "g \<noteq> 0" "rb_c (?h g) s2 = (a, True)" "rb_p (?h a) = g" "a \<noteq> 0"
    and ta: "tree_at ?h g (a, True) ?a" and tv: "tree_at ?h g (rb_c (?h g) (\<not> s2)) v" using loc by simp_all
  have red: "\<not> rb_red (rb_c (?h g) (\<not> s2))" using tree_at_col [OF tv] v by simp
  then have nored: "\<not> (rb_red (rb_c (?h g) False) \<and> rb_red (rb_c (?h g) True))" by (cases s2) simp_all
  have "rb_node (rb_c (?h g) (\<not> s2)) \<noteq> a" using tree_at_node [OF tv] dl(1) g(5) by auto
  then have gpside: "find_child t (g, False) a = s2" using g(2,3) by (cases s2) (simp_all add: find_child_def rb_child_def rb_ptr_defs)
  show ?thesis
  proof (cases "s = s2")
    case True
    note eq = g(1) True [symmetric]
    obtain h1 h' r' where p: "rb_rotate (\<not> s) (g, False) t = ((a, False), t\<lparr>rb_links := h1\<rparr>)"
      "black_parent (t\<lparr>rb_links := h1\<rparr>) (a, False) = (par k, False)" "find_child (t\<lparr>rb_links := h1\<rparr>) (par k, False) g = kside k"
      "set_child (par k, False) (kside k) (a, False) (t\<lparr>rb_links := h1\<rparr>) = t\<lparr>rb_links := h', rb_root := r'\<rparr>"
      "tree_at h' 0 (r', False) (plug (mk s False z a (mk s True u g v)) k)"
      "\<And>b. b \<notin> set (nodes (mk s False ?a g v)) \<union> knodes k \<Longrightarrow> h' b = ?h b"
      by (rule gp_rotate [OF ctx g(1) loc [unfolded eq] kd dl [unfolded eq]]) blast
    have "insert_turn s (a, True) t = (kside k, (par k, False), t\<lparr>rb_links := h', rb_root := r'\<rparr>)"
      using p(1-4) nored gpside True g(4)
      by (simp add: insert_turn_def Let_def black_parent_def rb_parent_def rb_child_def rb_node_def) blast
    then show ?thesis by (rule that) (use p(5,6) r True in \<open>auto simp: plug_nodes\<close>)
  next
    case False
    then have s: "s = (\<not> s2)" by simp
    let ?A = "mk (\<not> s2) True zA a u"
    let ?loc = "mk s2 False (mk s2 True ?A x zB) g v"
    obtain h1 where rot: "(case rb_rotate s2 (a, True) t of (r, t) \<Rightarrow> set_c (g, False) s2 r t) = t\<lparr>rb_links := h1\<rparr>"
      and loc1: "tree_at h1 (par k) (g, False) ?loc" and off: "\<And>b. b \<notin> insert g (insert a (insert x (set (nodes zA)))) \<Longrightarrow> h1 b = ?h b"
      by (rule inner_rotate [OF loc [unfolded g(1) s z] dl(1) [unfolded s z]]) blast
    let ?t1 = "t\<lparr>rb_links := h1\<rparr>"
    have sub: "set (nodes ?loc) = set (nodes (mk s2 False ?a g v))" by (auto simp: z)
    have d1: "distinct (nodes ?loc)" "set (nodes ?loc) \<inter> knodes k = {}" using dl unfolding sub by (simp_all only: z distinct_mk mk_simps) blast+
    have kn: "h1 b = ?h b" if "b \<in> knodes k" for b by (rule off) (use that d1(2) in auto)
    obtain h2 h' r' where p: "rb_rotate (\<not> s2) (g, False) ?t1 = ((x, False), ?t1\<lparr>rb_links := h2\<rparr>)"
      "black_parent (?t1\<lparr>rb_links := h2\<rparr>) (x, False) = (par k, False)" "find_child (?t1\<lparr>rb_links := h2\<rparr>) (par k, False) g = kside k"
      "set_child (par k, False) (kside k) (x, False) (?t1\<lparr>rb_links := h2\<rparr>) = ?t1\<lparr>rb_links := h', rb_root := r'\<rparr>"
      "tree_at h' 0 (r', False) (plug (mk s2 False ?A x (mk s2 True zB g v)) k)"
      "\<And>b. b \<notin> set (nodes ?loc) \<union> knodes k \<Longrightarrow> h' b = h1 b"
    proof (rule gp_rotate [of ?t1 k g s2 ?A x zB v])
      show "ctx_at (rb_links ?t1) (rb_root ?t1) k" by (simp, subst ctx_at_cong [where h = ?h]) (use ctx kn in auto)
      show "hole (rb_links ?t1) (rb_root ?t1) k = (g, False)" using g(1) kn by (cases k) auto
    qed (use loc1 kd d1 in auto)
    have "insert_turn s (a, True) t = (kside k, (par k, False), t\<lparr>rb_links := h', rb_root := r'\<rparr>)"
      using p(1-4) nored gpside False g(4) rot
      by (simp add: insert_turn_def Let_def black_parent_def rb_parent_def rb_child_def rb_node_def) blast
    then show ?thesis by (rule that) (use p(5,6) r False off z in \<open>auto simp: plug_nodes\<close>)
  qed
qed

subsection \<open>The loop\<close>

text \<open>The tree the heap holds while the loop runs: balanced, and in order of colours except that the red subtree \<open>z\<close> may hang under a red node.\<close>

lemma fixup_ok:
  assumes "tree_at (rb_links t) 0 (rb_root t, False) (plug z k)" "distinct (nodes (plug z k))"
    and "inv_h z" "inv_c z" "kok (bh z) k" "z \<noteq> Leaf" "k \<noteq> [] \<longleftrightarrow> col z"
  shows "\<exists>h r T. insert_fixup (kside k) (par k, kcol k) t = Some (t\<lparr>rb_links := h, rb_root := r\<rparr>) \<and> tree_at h 0 (r, False) T \<and> rb_ok T \<and>
    nodes T = nodes (plug z k) \<and> (\<forall>b. b \<notin> set (nodes (plug z k)) \<longrightarrow> h b = rb_links t b)"
  using assms
proof (induction "length k" arbitrary: k z t rule: less_induct)
  case less
  note rep = less.prems(1) and di = less.prems(2)
  show ?case
  proof (cases "kcol k")
    case False
    then have "rb_ok (plug z k)" using less.prems by (auto simp: plug_ok)
    then show ?thesis using False rep
      by (intro exI [of _ "rb_links t"] exI [of _ "rb_root t"] exI [of _ "plug z k"]) (simp add: insert_fixup.simps rb_red_def)
  next
    case True
    obtain s a u k1 where k0: "k = (s, True, a, u) # k1" using True by (cases k rule: kcol.cases) auto
    have "k1 \<noteq> []" "\<not> kcol k1" using less.prems(5) by (auto simp: k0)
    then obtain s2 g v k2 where "k1 = (s2, False, g, v) # k2" by (cases k1 rule: kcol.cases) auto
    with k0 have k: "k = (s, True, a, u) # (s2, False, g, v) # k2" by simp
    have kk: "bh u = bh z" "inv_h u" "inv_c u" "\<not> col u" "inv_h v" "inv_c v" "bh v = bh z" "kok (bh z + 1) k2" and zc: "col z"
      using less.prems(5,7) by (auto simp: k)
    have red: "rb_red (a, True)" by (simp add: rb_red_def)
    show ?thesis
    proof (cases "col v")
      case cv: True
      let ?z = "mk s2 (k2 \<noteq> []) (mk s False z a u) g (paint False v)"
      obtain h' r' where turn: "insert_turn s (a, True) t = (kside k2, (par k2, kcol k2), t\<lparr>rb_links := h', rb_root := r'\<rparr>)"
        and t': "tree_at h' 0 (r', False) (plug ?z k2)" and off: "\<And>b. b \<notin> set (nodes (plug z k)) \<Longrightarrow> h' b = rb_links t b"
        using turn_flip [OF rep [unfolded k] di [unfolded k] cv] unfolding k by metis
      have nd: "nodes (plug ?z k2) = nodes (plug z k)" unfolding k plug.simps by (rule plug_nodes_cong) (simp add: mk_def)
      have bz: "bh ?z = (if k2 = [] then bh z + 2 else bh z + 1)" using kk cv by simp
      have inv: "inv_h ?z" "inv_c ?z" "kok (bh ?z) k2" using kk less.prems(3,4) bz cv by (cases "k2 = []"; simp)+
      obtain h r T where "insert_fixup (kside k2) (par k2, kcol k2) (t\<lparr>rb_links := h', rb_root := r'\<rparr>)
            = Some ((t\<lparr>rb_links := h', rb_root := r'\<rparr>)\<lparr>rb_links := h, rb_root := r\<rparr>)" "tree_at h 0 (r, False) T" "rb_ok T"
          "nodes T = nodes (plug ?z k2)" "\<forall>b. b \<notin> set (nodes (plug ?z k2)) \<longrightarrow> h b = h' b"
        using less.hyps [of k2 "t\<lparr>rb_links := h', rb_root := r'\<rparr>" ?z] t' di nd inv by (auto simp: k)
      then show ?thesis using turn red nd off
        by (intro exI [of _ h] exI [of _ r] exI [of _ T]) (simp add: k insert_fixup.simps [of s "(a, True)"])
    next
      case cv: False
      obtain zA x zB where z: "z = mk s2 True zA x zB" by (rule rbt_cases_mk [where t = z and s = s2]) (use zc less.prems(6) in auto)
      let ?r = "if s = s2 then mk s2 False z a (mk s2 True u g v) else mk s2 False (mk (\<not> s2) True zA a u) x (mk s2 True zB g v)"
      obtain h' r' where turn: "insert_turn s (a, True) t = (kside k2, (par k2, False), t\<lparr>rb_links := h', rb_root := r'\<rparr>)"
        and t': "tree_at h' 0 (r', False) (plug ?r k2)" and off: "\<And>b. b \<notin> set (nodes (plug z k)) \<Longrightarrow> h' b = rb_links t b"
        using turn_rotate [OF rep [unfolded k] di [unfolded k] cv z refl] unfolding k by metis
      have nd: "nodes (plug ?r k2) = nodes (plug z k)" unfolding k plug.simps
        by (rule plug_nodes_cong) (cases s; cases s2; simp add: mk_def z)
      have ok: "rb_ok (plug ?r k2)" using kk cv less.prems(3,4) by (auto simp: plug_ok z)
      have "insert_fixup (kside k2) (par k2, False) t' = Some t'" for t' :: "'a rbtree" by (simp add: insert_fixup.simps rb_red_def)
      then have "insert_fixup (kside k) (par k, kcol k) t = Some (t\<lparr>rb_links := h', rb_root := r'\<rparr>)"
        using turn red by (simp add: k insert_fixup.simps [of s "(a, True)"])
      then show ?thesis using t' ok nd off by blast
    qed
  qed
qed

subsection \<open>Order of the nodes around a hole\<close>

fun lefts :: "frame list \<Rightarrow> nat list" where
  "lefts [] = []"
| "lefts ((s, c, a, u) # k) = lefts k @ (if s then nodes u @ [a] else [])"

fun rights :: "frame list \<Rightarrow> nat list" where
  "rights [] = []"
| "rights ((s, c, a, u) # k) = (if s then [] else a # nodes u) @ rights k"

lemma nodes_plug: "nodes (plug t k) = lefts k @ nodes t @ rights k"
  by (induction t k rule: plug.induct) (auto simp: mk_def)

lemma next_to_hole: "k \<noteq> [] \<Longrightarrow> if kside k then lefts k \<noteq> [] \<and> last (lefts k) = par k else rights k \<noteq> [] \<and> hd (rights k) = par k"
  by (cases k rule: kside.cases) auto

text \<open>What a tree object stands for: a balanced tree whose root and two limits it points to.\<close>

definition end_node :: "bool \<Rightarrow> nat list \<Rightarrow> nat" where
  "end_node s ns = (if ns = [] then 0 else if s then last ns else hd ns)"

definition rb_holds :: "'k rbtree \<Rightarrow> rbt \<Rightarrow> bool" where
  "rb_holds t T \<longleftrightarrow> tree_at (rb_links t) 0 (rb_root t, False) T \<and> distinct (nodes T) \<and> rb_ok T \<and> (\<forall>s. rb_limit t s = end_node s (nodes T))"

lemma link_new_ok:
  assumes h: "rb_holds t (plug Leaf k)" and x: "x \<noteq> 0" "x \<notin> set (nodes (plug Leaf k))"
  obtains h' where "link_new x (par k, kcol k) (kside k) t = t\<lparr>rb_links := h', rb_root := new_root k x (rb_root t),
      rb_limit := (\<lambda>s. end_node s (nodes (plug (Node (k \<noteq> []) Leaf x Leaf) k)))\<rparr>"
    "tree_at h' 0 (new_root k x (rb_root t), False) (plug (Node (k \<noteq> []) Leaf x Leaf) k)"
    "\<And>b. b \<notin> insert x (set (nodes (plug Leaf k))) \<Longrightarrow> h' b = rb_links t b"
proof -
  define h0 where "h0 = (rb_links t)(x := \<lparr>rb_p = par k, rb_c = (\<lambda>_. rb_null)\<rparr>)"
  define h' where "h' = set_link h0 k (x, True)"
  have tr: "ctx_at (rb_links t) (rb_root t) k" and di: "kdistinct k" "x \<notin> knodes k"
    using h x by (auto simp: rb_holds_def plug_tree_at plug_distinct plug_nodes)
  have ctx0: "ctx_at h0 (rb_root t) k" by (subst ctx_at_cong [where h = "rb_links t"]) (use tr di in \<open>auto simp: h0_def\<close>)
  have t': "tree_at h' 0 (new_root k x (rb_root t), False) (plug (Node (k \<noteq> []) Leaf x Leaf) k)"
    unfolding plug_tree_at h'_def using set_link_ctx [OF ctx0 di(1), of "(x, True)" x] set_link_off [OF di(2)] x(1) by (auto simp: h0_def)
  have off: "h' b = rb_links t b" if "b \<notin> insert x (set (nodes (plug Leaf k)))" for b
    using that set_link_off [of b k] by (auto simp: h'_def h0_def plug_nodes)
  have lim: "rb_limit t s = end_node s (lefts k @ rights k)" for s using h by (simp add: rb_holds_def nodes_plug)
  have dLR: "distinct (lefts k @ rights k)" using h by (simp add: rb_holds_def nodes_plug)
  have ne: "last (lefts k) \<noteq> last (rights k) \<and> hd (rights k) \<noteq> hd (lefts k)" if "lefts k \<noteq> []" "rights k \<noteq> []"
    using dLR that last_in_set hd_in_set by (metis disjoint_iff distinct_append)
  let ?new = "\<lambda>s. end_node s (nodes (plug (Node (k \<noteq> []) Leaf x Leaf) k))"
  let ?lim = "if k = [] then (\<lambda>_. x) else if par k = rb_limit t (kside k) then (rb_limit t)(kside k := x) else rb_limit t"
  have new: "?lim = ?new"
    using next_to_hole [of k] ne
    by (auto simp: fun_eq_iff end_node_def lim nodes_plug last_append hd_append split: if_splits)
  have "link_new x (par k, kcol k) (kside k) t = t\<lparr>rb_links := h', rb_root := new_root k x (rb_root t), rb_limit := ?lim\<rparr>"
  proof (cases k)
    case (Cons f k')
    obtain s c a u where f: "f = (s, c, a, u)" by (cases f) auto
    then show ?thesis using tr by (simp add: Cons link_new_def Let_def set_c_def rb_some_def rb_node_def h'_def set_link_def h0_def)
  qed (simp add: link_new_def rb_some_def rb_node_def h'_def set_link_def h0_def)
  then have "link_new x (par k, kcol k) (kside k) t = t\<lparr>rb_links := h', rb_root := new_root k x (rb_root t), rb_limit := ?new\<rparr>"
    unfolding new .
  then show ?thesis using that t' off by blast
qed

end
