(* ===== verification/Rb_Delete.thy ===== *)
theory Rb_Delete
  imports Rb_Insert
begin

text \<open>
  Removal from the red-black tree (\<open>delete_node\<close>, \<open>delete_node_fixup\<close> and \<open>erase\<close> of \<open>datatype/RBTreeInternal.hh\<close>).  The node is
  exchanged with its successor when it has two children, spliced out, and the tree is balanced again from there upwards.
\<close>

subsection \<open>Definitions\<close>

definition sinking :: "bool \<Rightarrow> rbnodeptr \<Rightarrow> 'k rbtree \<Rightarrow> bool" where
  "sinking side p t \<longleftrightarrow> rb_some p \<and> \<not> rb_red (rb_child t p False) \<and> \<not> rb_red (rb_child t p True) \<and>
     \<not> rb_red (rb_child t (rb_child t p (\<not> side)) False) \<and> \<not> rb_red (rb_child t (rb_child t p (\<not> side)) True)"

partial_function (option) delete_up :: "bool \<Rightarrow> rbnodeptr \<Rightarrow> 'k rbtree \<Rightarrow> (bool \<times> rbnodeptr \<times> 'k rbtree) option" where
  "delete_up side p t =
     (if sinking side p t
      then let t = set_c p (\<not> side) (change_color (rb_child t p (\<not> side)) True) t;
               q = black_parent t p
           in delete_up (find_child t q (rb_node p)) q t
      else Some (side, p, t))"

text \<open>The steps that end the repair: a red sibling is rotated up first; with a black sibling either one recolouring or one or two
  rotations follow.\<close>

definition red_sibling :: "bool \<Rightarrow> rbnodeptr \<Rightarrow> 'k rbtree \<Rightarrow> rbnodeptr \<times> bool \<times> 'k rbtree" where
  "red_sibling side p t =
     (let gp = black_parent t p; gpside = find_child t gp (rb_node p)
      in if rb_red (rb_child t p (\<not> side))
         then let (r, t) = rb_rotate side p t; t = set_child gp gpside r t in (black_parent t p, side, t)
         else (gp, gpside, t))"

definition rotate_black :: "bool \<Rightarrow> rbnodeptr \<Rightarrow> 'k rbtree \<Rightarrow> rbnodeptr \<times> 'k rbtree" where
  "rotate_black side p t =
     (let (p, t) = rb_rotate side p t;
          t = set_c p False (change_color (rb_child t p False) False) t;
          t = set_c p True (change_color (rb_child t p True) False) t
      in (p, t))"

definition last_step :: "bool \<Rightarrow> rbnodeptr \<Rightarrow> rbnodeptr \<Rightarrow> 'k rbtree \<Rightarrow> rbnodeptr \<times> 'k rbtree" where
  "last_step side gp p t =
     (let w = rb_child t p (\<not> side)
      in if \<not> rb_red (rb_child t w False) \<and> \<not> rb_red (rb_child t w True)
         then (change_color p False, set_c p (\<not> side) (change_color w True) t)
         else let t = (if \<not> rb_red (rb_child t w (\<not> side))
                       then let (r, t) = rb_rotate (\<not> side) w t in set_c p (\<not> side) r t else t);
                  p = (if rb_some gp then rb_child t gp (find_child t gp (rb_node p)) else p)
              in rotate_black side p t)"

definition delete_end :: "bool \<Rightarrow> rbnodeptr \<Rightarrow> 'k rbtree \<Rightarrow> 'k rbtree" where
  "delete_end side p t =
     (if rb_some p \<and> \<not> rb_red (rb_child t p side)
      then let (gp, gpside, t) = red_sibling side p t; (p, t) = last_step side gp p t in set_child gp gpside p t
      else if rb_some p then set_c p side (change_color (rb_child t p side) False) t
      else t)"

definition delete_node_fixup :: "rbnodeptr \<Rightarrow> bool \<Rightarrow> 'k rbtree \<Rightarrow> 'k rbtree option" where
  "delete_node_fixup p side t = map_option (\<lambda>(side, p, t). delete_end side p t) (delete_up side p t)"

text \<open>The exchange of a node that has two children with its successor; the result is the position below which the node then hangs.\<close>

definition swap_links :: "nat \<Rightarrow> nat \<Rightarrow> 'k rbtree \<Rightarrow> 'k rbtree" where
  "swap_links a b t = t\<lparr>rb_links := (rb_links t)(a := rb_links t b, b := rb_links t a)\<rparr>"

definition swap_succ :: "nat \<Rightarrow> nat \<Rightarrow> rbnodeptr \<Rightarrow> bool \<Rightarrow> 'k rbtree \<Rightarrow> rbnodeptr \<times> bool \<times> 'k rbtree" where
  "swap_succ victim succ p side t =
     (let succ_p = (rb_p (rb_links t succ), False);
          sside = (succ = rb_node (rb_child t succ_p True));
          t = (if rb_some p then set_c p side (succ, rb_red (rb_child t p side)) t else t\<lparr>rb_root := succ\<rparr>);
          t = swap_links succ victim t;
          t = (if sside then set_c (succ, False) sside (change_color (victim, False) (rb_red (rb_child t (succ, False) sside))) t else t);
          t = set_p (rb_child t (succ, False) True) succ t;
          t = set_p (rb_child t (succ, False) False) succ t
      in (black_parent t (victim, False), sside, t))"

partial_function (option) sink :: "'k rbtree \<Rightarrow> bool \<Rightarrow> rbnodeptr \<Rightarrow> rbnodeptr option" where
  "sink t i b = (if rb_some b \<and> rb_some (rb_child t b i) then sink t i (rb_child t b i) else Some b)"

definition fix_limit :: "nat \<Rightarrow> rbnodeptr \<Rightarrow> rbnodeptr \<Rightarrow> bool \<Rightarrow> 'k rbtree \<Rightarrow> 'k rbtree option" where
  "fix_limit victim x p i t =
     (if victim = rb_limit t i
      then map_option (\<lambda>b. t\<lparr>rb_limit := (rb_limit t)(i := rb_node b)\<rparr>) (sink t i (if rb_some x then x else p))
      else Some t)"

definition splice_out :: "nat \<Rightarrow> rbnodeptr \<Rightarrow> bool \<Rightarrow> 'k rbtree \<Rightarrow> (nat \<times> 'k rbtree) option" where
  "splice_out victim p side t =
     (let active = \<not> rb_some (rb_child t (victim, False) False);
          x = rb_child t (victim, False) active;
          color = (rb_some p \<and> rb_red (rb_child t p side));
          t = set_child p side x t;
          t = (if rb_some x then set_p x (rb_node p) t else t)
      in case fix_limit victim x p False t of
           None \<Rightarrow> None
         | Some t \<Rightarrow>
             (case fix_limit victim x p True t of
                None \<Rightarrow> None
              | Some t \<Rightarrow> map_option (\<lambda>t. (rb_node p, t)) (if \<not> color then delete_node_fixup p side t else Some t)))"

definition delete_node :: "nat \<Rightarrow> nat \<Rightarrow> 'k rbtree \<Rightarrow> (nat \<times> 'k rbtree) option" where
  "delete_node victim succ t =
     (let p = black_parent t (victim, False);
          side = find_child t p victim
      in if rb_some (rb_child t (victim, False) False) \<and> rb_some (rb_child t (victim, False) True)
         then (case (if succ = 0 then edge_node t (rb_node (rb_child t (victim, False) True)) False else Some succ) of
                 None \<Rightarrow> None
               | Some succ \<Rightarrow> (case swap_succ victim succ p side t of (p, side, t) \<Rightarrow> splice_out victim p side t))
         else splice_out victim p side t)"

definition erase :: "nat \<Rightarrow> 'k rbtree \<Rightarrow> (nat \<times> 'k rbtree) option" where
  "erase x t = delete_node x 0 t"

subsection \<open>Replacing a subtree\<close>

lemma plug_set_child:
  assumes ctx1: "ctx_at h1 (rb_root t) k" and kd: "kdistinct k"
    and tr: "tree_at h1 (par k) (n, c) L" and L: "set (nodes L) \<inter> knodes k = {}" and c: "k = [] \<longrightarrow> \<not> c"
  shows "\<exists>h'. set_child (par k, False) (kside k) (n, c) (t\<lparr>rb_links := h1\<rparr>) = t\<lparr>rb_links := h', rb_root := new_root k n (rb_root t)\<rparr> \<and>
    tree_at h' 0 (new_root k n (rb_root t), False) (plug L k) \<and> (\<forall>b. b \<notin> knodes k \<longrightarrow> h' b = h1 b)"
proof -
  let ?h = "set_link h1 k (n, c)"
  have "set_child (par k, False) (kside k) (n, c) (t\<lparr>rb_links := h1\<rparr>) = t\<lparr>rb_links := ?h, rb_root := new_root k n (rb_root t)\<rparr>"
    by (subst set_child_link [OF ctx1]) (simp_all add: rb_node_def)
  moreover have "tree_at ?h (par k) (n, c) L"
  proof (subst tree_at_cong [where h = h1])
    fix b assume "b \<in> set (nodes L)"
    then show "?h b = h1 b" using L by (intro set_link_off) auto
  qed (rule tr)
  then have "tree_at ?h 0 (new_root k n (rb_root t), False) (plug L k)"
    unfolding plug_tree_at using set_link_ctx [OF ctx1 kd, of "(n, c)" n] c by auto
  ultimately show ?thesis using set_link_off by blast
qed

subsection \<open>The upward loop\<close>

text \<open>The subtree in the hole has one black node too few on every path.\<close>

definition deficient :: "rbt \<Rightarrow> frame list \<Rightarrow> bool" where
  "deficient z k \<longleftrightarrow> inv_h z \<and> inv_c (paint False z) \<and> kok (bh z + 1) k"

lemma paint_black: "\<not> col t \<Longrightarrow> paint False t = t"
  by (cases t) auto

lemma paint_red: "\<not> col t \<Longrightarrow> t \<noteq> Leaf \<Longrightarrow> bh (paint True t) + 1 = bh t \<and> col (paint True t)"
  by (cases t) auto

fun black_kids :: "rbt \<Rightarrow> bool" where
  "black_kids Leaf = True"
| "black_kids (Node c l a r) \<longleftrightarrow> \<not> col l \<and> \<not> col r"

lemma black_kids_mk [simp]: "black_kids (mk s c t a u) \<longleftrightarrow> \<not> col t \<and> \<not> col u"
  by (auto simp: mk_def)

lemma inv_c_paint: "inv_c (paint True t) \<longleftrightarrow> inv_c (paint False t) \<and> black_kids t"
  by (cases t) auto

lemma sinking_iff:
  assumes "ctx_at (rb_links t) (rb_root t) ((s, c, a, w) # k)" "tree_at (rb_links t) a (rb_c (rb_links t a) s) z" "w \<noteq> Leaf"
  shows "sinking s (a, d) t \<longleftrightarrow> \<not> col z \<and> \<not> col w \<and> black_kids w"
proof -
  let ?h = "rb_links t"
  obtain cw l b r where w: "w = Node cw l b r" using assms(3) by (cases w) auto
  have tw: "tree_at ?h a (rb_c (?h a) (\<not> s)) w" and a: "a \<noteq> 0" using assms(1) by simp_all
  then have b: "rb_c (?h a) (\<not> s) = (b, cw)" "tree_at ?h b (rb_c (?h b) False) l" "tree_at ?h b (rb_c (?h b) True) r" by (auto simp: w)
  have "rb_red (rb_c (?h a) s) = col z" "rb_red (rb_c (?h a) (\<not> s)) = col w" "rb_red (rb_c (?h b) False) = col l" "rb_red (rb_c (?h b) True) = col r"
    using tree_at_col [OF assms(2)] tree_at_col [OF tw] tree_at_col [OF b(2)] tree_at_col [OF b(3)] by simp_all
  then show ?thesis using a b(1) by (cases s) (auto simp: sinking_def rb_child_def rb_node_def rb_some_def w)
qed

text \<open>The sibling of a deficient subtree is not empty.\<close>

lemma deficient_sibling: "deficient z ((s, c, a, w) # k) \<Longrightarrow> w \<noteq> Leaf"
  by (auto simp: deficient_def)

lemma up_turn:
  assumes tr: "tree_at (rb_links t) 0 (rb_root t, False) (plug z ((s, c, a, w) # k))"
    and di: "distinct (nodes (plug z ((s, c, a, w) # k)))" and df: "deficient z ((s, c, a, w) # k)"
    and sk: "sinking s (a, False) t"
    and t': "t' = set_c (a, False) (\<not> s) (change_color (rb_child t (a, False) (\<not> s)) True) t"
  shows "\<exists>h. t' = t\<lparr>rb_links := h\<rparr> \<and> tree_at h 0 (rb_root t, False) (plug (mk s c z a (paint True w)) k) \<and> deficient (mk s c z a (paint True w)) k \<and>
    black_parent t' (a, False) = (par k, False) \<and> find_child t' (par k, False) a = kside k \<and>
    (\<forall>b. b \<notin> set (nodes (plug z ((s, c, a, w) # k))) \<longrightarrow> h b = rb_links t b)"
proof -
  let ?h = "rb_links t"
  have w: "w \<noteq> Leaf" by (rule deficient_sibling [OF df])
  have ctx: "ctx_at ?h (rb_root t) ((s, c, a, w) # k)" and tz: "tree_at ?h a (rb_c (?h a) s) z" using tr by (simp_all only: plug_tree_at par.simps hole_simps)
  have d: "a \<notin> set (nodes z)" "a \<notin> set (nodes w)" "a \<notin> knodes k" "kdistinct k" using di by (auto simp: plug_distinct)
  define h where "h = ?h(a := (?h a)\<lparr>rb_c := (rb_c (?h a))(\<not> s := change_color (rb_c (?h a) (\<not> s)) True)\<rparr>)"
  have t'h: "t' = t\<lparr>rb_links := h\<rparr>" by (simp add: t' set_c_def rb_child_def rb_node_def h_def)
  have keep: "tree_at h q x u = tree_at ?h q x u" if "a \<notin> set (nodes u)" for q x u by (rule tree_at_cong) (use that in \<open>auto simp: h_def\<close>)
  have ctxk: "ctx_at h (rb_root t) k" by (subst ctx_at_cong [where h = ?h]) (use ctx d in \<open>auto simp: h_def\<close>)
  have hole: "hole h (rb_root t) k = (a, c)" using ctx d by (cases k rule: kside.cases) (auto simp: h_def)
  have "tree_at h a (change_color (rb_c (?h a) (\<not> s)) True) (paint True w)"
    unfolding change_color_def using tree_at_paint [of h a "rb_c (?h a) (\<not> s)" w True] keep [OF d(2)] ctx w by simp
  then have "tree_at h (par k) (a, c) (mk s c z a (paint True w))" using ctx tz keep [OF d(1)] by (simp add: h_def)
  then have T: "tree_at h 0 (rb_root t, False) (plug (mk s c z a (paint True w)) k)" unfolding plug_tree_at hole using ctxk by blast
  have side: "find_child t' (par k, False) a = kside k" unfolding t'h
    by (rule find_child_side [where root = "rb_root t"]) (use ctxk hole d ctx in \<open>auto simp: rb_node_def\<close>)
  have "\<not> col z" "\<not> col w" "black_kids w" using sk sinking_iff [OF ctx tz w] by auto
  then have "deficient (mk s c z a (paint True w)) k"
    using df w paint_red [of w] paint_black [of z] paint_black [of w] inv_c_paint [of w] by (auto simp: deficient_def mk_def split: if_splits)
  then show ?thesis using t'h T side ctx by (auto simp: h_def black_parent_def rb_parent_def rb_node_def plug_nodes)
qed

lemma up_ok:
  assumes "tree_at (rb_links t) 0 (rb_root t, False) (plug z k)" "distinct (nodes (plug z k))" "deficient z k"
  shows "\<exists>h z' k'. delete_up (kside k) (par k, False) t = Some (kside k', (par k', False), t\<lparr>rb_links := h\<rparr>) \<and>
    tree_at h 0 (rb_root t, False) (plug z' k') \<and> deficient z' k' \<and> \<not> sinking (kside k') (par k', False) (t\<lparr>rb_links := h\<rparr>) \<and>
    nodes (plug z' k') = nodes (plug z k) \<and> (\<forall>b. b \<notin> set (nodes (plug z k)) \<longrightarrow> h b = rb_links t b)"
  using assms
proof (induction "length k" arbitrary: k z t rule: less_induct)
  case less
  show ?case
  proof (cases "sinking (kside k) (par k, False) t")
    case False
    then show ?thesis using less.prems
      by (intro exI [of _ "rb_links t"] exI [of _ z] exI [of _ k]) (simp add: delete_up.simps)
  next
    case sk: True
    then have "k \<noteq> []" by (auto simp: sinking_def rb_some_def)
    then obtain s c a w k2 where k: "k = (s, c, a, w) # k2" by (cases k rule: kside.cases) auto
    let ?t = "set_c (a, False) (\<not> s) (change_color (rb_child t (a, False) (\<not> s)) True) t" and ?z = "mk s c z a (paint True w)"
    obtain h where t': "?t = t\<lparr>rb_links := h\<rparr>" and T: "tree_at h 0 (rb_root t, False) (plug ?z k2)" and df: "deficient ?z k2"
      and q: "black_parent ?t (a, False) = (par k2, False)" "find_child ?t (par k2, False) a = kside k2"
      and off: "\<forall>b. b \<notin> set (nodes (plug z k)) \<longrightarrow> h b = rb_links t b"
      using up_turn [OF less.prems(1-3) [unfolded k] _ refl] sk unfolding k by auto
    have nd: "nodes (plug ?z k2) = nodes (plug z k)" unfolding k plug.simps by (rule plug_nodes_cong) (simp add: mk_def)
    obtain h2 z' k' where "delete_up (kside k2) (par k2, False) (t\<lparr>rb_links := h\<rparr>) = Some (kside k', (par k', False), (t\<lparr>rb_links := h\<rparr>)\<lparr>rb_links := h2\<rparr>)"
      "tree_at h2 0 (rb_root t, False) (plug z' k')" "deficient z' k'" "\<not> sinking (kside k') (par k', False) ((t\<lparr>rb_links := h\<rparr>)\<lparr>rb_links := h2\<rparr>)"
      "nodes (plug z' k') = nodes (plug ?z k2)" "\<forall>b. b \<notin> set (nodes (plug ?z k2)) \<longrightarrow> h2 b = h b"
      using less.hyps [of k2 "t\<lparr>rb_links := h\<rparr>" ?z] T df less.prems(2) nd by (auto simp: k)
    moreover have "delete_up (kside k) (par k, False) t = delete_up (kside k2) (par k2, False) (t\<lparr>rb_links := h\<rparr>)"
      using sk q by (subst delete_up.simps) (simp add: k Let_def rb_node_def flip: t')
    ultimately show ?thesis using nd off by (intro exI [of _ h2] exI [of _ z'] exI [of _ k']) simp
  qed
qed

subsection \<open>The last steps\<close>

text \<open>The tree is balanced again, has the nodes \<open>ns\<close> in order, and no other memory was written.\<close>

definition repaired :: "'k rbtree \<Rightarrow> 'k rbtree \<Rightarrow> nat list \<Rightarrow> bool" where
  "repaired t t' ns \<longleftrightarrow> (\<exists>h r T. t' = t\<lparr>rb_links := h, rb_root := r\<rparr> \<and> tree_at h 0 (r, False) T \<and> rb_ok T \<and> nodes T = ns \<and>
     (\<forall>x. x \<notin> set ns \<longrightarrow> h x = rb_links t x))"

lemma repairedI:
  assumes "t' = t\<lparr>rb_links := h, rb_root := r\<rparr>" "tree_at h 0 (r, False) T" "rb_ok T" "nodes T = ns" "\<And>x. x \<notin> set ns \<Longrightarrow> h x = rb_links t x"
  shows "repaired t t' ns"
  using assms unfolding repaired_def by blast

lemma repaired_after:
  assumes "repaired (t\<lparr>rb_links := h, rb_root := r\<rparr>) t' ns" "\<And>x. x \<notin> set ns \<Longrightarrow> h x = rb_links t x"
  shows "repaired t t' ns"
proof -
  obtain h' r' T where p: "t' = (t\<lparr>rb_links := h, rb_root := r\<rparr>)\<lparr>rb_links := h', rb_root := r'\<rparr>" "tree_at h' 0 (r', False) T" "rb_ok T" "nodes T = ns"
    "\<forall>x. x \<notin> set ns \<longrightarrow> h' x = rb_links (t\<lparr>rb_links := h, rb_root := r\<rparr>) x"
    using assms(1) unfolding repaired_def by blast
  show ?thesis by (rule repairedI [OF _ p(2-4)]) (use p(1,5) assms(2) in simp_all)
qed

lemma far_red:
  assumes tr: "tree_at (rb_links t) 0 (rb_root t, False) (plug z ((s, c, a, mk s False wn b wd) # k))"
    and di: "distinct (nodes (plug z ((s, c, a, mk s False wn b wd) # k)))" and df: "deficient z ((s, c, a, mk s False wn b wd) # k)"
    and z: "\<not> col z" and wd: "col wd"
  shows "repaired t (case rotate_black s (a, c) t of (p, t) \<Rightarrow> set_child (par k, False) (kside k) p t) (nodes (plug z ((s, c, a, mk s False wn b wd) # k)))"
proof -
  let ?h = "rb_links t" and ?L = "mk (\<not> s) c (mk s False wn b wd) a z"
  have L: "mk s c z a (mk s False wn b wd) = ?L" by (simp add: mk_swap [of s c z])
  have ctx: "ctx_at ?h (rb_root t) k" and hl: "hole ?h (rb_root t) k = (a, c)" and loc: "tree_at ?h (par k) (a, c) ?L"
    using tr by (auto simp: plug_tree_at L)
  have kd: "kdistinct k" and dl: "distinct (nodes ?L)" "set (nodes ?L) \<inter> knodes k = {}" using di unfolding plug.simps plug_distinct L by blast+
  obtain h1 where rot: "rb_rotate s (a, c) t = ((b, c), t\<lparr>rb_links := h1\<rparr>)" and t1: "tree_at h1 (par k) (b, c) (mk s c (mk (\<not> s) True wn a z) b wd)"
    and off1: "\<And>x. x \<notin> insert a (insert b (set (nodes wn))) \<Longrightarrow> h1 x = ?h x"
    by (rule rotate_spec [OF loc dl(1)]) blast
  define h2 where "h2 = h1(b := (h1 b)\<lparr>rb_c := \<lambda>s. change_color (rb_c (h1 b) s) False\<rparr>)"
  have rb: "rotate_black s (a, c) t = ((b, c), t\<lparr>rb_links := h2\<rparr>)"
    by (simp add: rotate_black_def rot Let_def rb_heap_defs rb_node_def h2_def) (auto simp: fun_eq_iff)
  let ?R = "mk s c (mk (\<not> s) False wn a z) b (paint False wd)"
  have keep: "tree_at h2 q x u = tree_at h1 q x u" if "b \<notin> set (nodes u)" for q x u by (rule tree_at_cong) (use that in \<open>auto simp: h2_def\<close>)
  have bs: "b \<notin> set (nodes (mk (\<not> s) True wn a z))" "b \<notin> set (nodes wd)" using dl(1) by auto
  have "tree_at h2 b (a, False) (mk (\<not> s) False wn a z)" using keep [OF bs(1), of b "(a, True)"] t1 by simp
  moreover have "tree_at h2 b (change_color (rb_c (h1 b) (\<not> s)) False) (paint False wd)"
    unfolding change_color_def using tree_at_paint [of h2 b "rb_c (h1 b) (\<not> s)" wd False] keep [OF bs(2)] t1 wd by (cases wd) auto
  ultimately have t2: "tree_at h2 (par k) (b, c) ?R" using t1 by (simp add: h2_def change_color_def rb_node_def)
  have kc: "k = [] \<longrightarrow> \<not> c" using hl by (cases k) auto
  have ctx2: "ctx_at h2 (rb_root t) k"
  proof (subst ctx_at_cong [where h = ?h])
    fix x assume "x \<in> knodes k"
    then have "x \<notin> insert a (insert b (set (nodes wn)))" using dl(2) by auto
    then show "h2 x = ?h x" using off1 [of x] by (simp add: h2_def)
  qed (rule ctx)
  have dR: "set (nodes ?R) \<inter> knodes k = {}" using dl(2) by auto
  obtain h' where set: "set_child (par k, False) (kside k) (b, c) (t\<lparr>rb_links := h2\<rparr>) = t\<lparr>rb_links := h', rb_root := new_root k b (rb_root t)\<rparr>"
    and T: "tree_at h' 0 (new_root k b (rb_root t), False) (plug ?R k)" and off': "\<forall>x. x \<notin> knodes k \<longrightarrow> h' x = h2 x"
    using plug_set_child [OF ctx2 kd t2 dR kc] by blast
  have nd: "nodes (plug ?R k) = nodes (plug z ((s, c, a, mk s False wn b wd) # k))" unfolding plug.simps
    by (rule plug_nodes_cong) (simp add: mk_def)
  have ok: "rb_ok (plug ?R k)" using df z wd kc by (auto simp: plug_ok deficient_def paint_black)
  have off: "h' x = ?h x" if "x \<notin> set (nodes (plug ?R k))" for x
    using that off' off1 [of x] by (auto simp: plug_nodes h2_def)
  show ?thesis by (rule repairedI [OF _ T ok nd]) (use set off [unfolded nd] in \<open>simp_all only: rb prod.case\<close>)
qed

text \<open>A black far nephew is first made red by rotating the sibling.\<close>

lemma near_red:
  assumes tr: "tree_at (rb_links t) 0 (rb_root t, False) (plug z ((s, c, a, mk s False (mk s True nn e nd) b wd) # k))"
    and di: "distinct (nodes (plug z ((s, c, a, mk s False (mk s True nn e nd) b wd) # k)))"
    and df: "deficient z ((s, c, a, mk s False (mk s True nn e nd) b wd) # k)" and wd: "\<not> col wd"
  obtains h where "(case rb_rotate (\<not> s) (b, False) t of (r, t) \<Rightarrow> set_c (a, False) (\<not> s) r t) = t\<lparr>rb_links := h\<rparr>"
    "tree_at h 0 (rb_root t, False) (plug z ((s, c, a, mk s False nn e (mk s True nd b wd)) # k))"
    "deficient z ((s, c, a, mk s False nn e (mk s True nd b wd)) # k)"
    "nodes (plug z ((s, c, a, mk s False nn e (mk s True nd b wd)) # k)) = nodes (plug z ((s, c, a, mk s False (mk s True nn e nd) b wd) # k))"
    "\<And>x. x \<notin> set (nodes (plug z ((s, c, a, mk s False (mk s True nn e nd) b wd) # k))) \<Longrightarrow> h x = rb_links t x"
proof -
  let ?h = "rb_links t" and ?w = "mk (\<not> \<not> s) False (mk (\<not> s) True nd e nn) b wd" and ?w' = "mk s False nn e (mk s True nd b wd)"
  have w: "mk s False (mk s True nn e nd) b wd = ?w" by (simp add: mk_swap [of s True nn])
  have ctx: "ctx_at ?h (rb_root t) ((s, c, a, ?w) # k)" and tz: "tree_at ?h a (rb_c (?h a) s) z"
    using tr unfolding w by (simp_all only: plug_tree_at par.simps hole_simps)
  then have b: "rb_c (?h a) (\<not> s) = (b, False)" and tw: "tree_at ?h a (b, False) ?w" by auto
  have d: "distinct (nodes ?w)" "a \<notin> set (nodes ?w)" "set (nodes ?w) \<inter> set (nodes z) = {}" "a \<notin> set (nodes z)" "set (nodes ?w) \<inter> knodes k = {}" "a \<notin> knodes k"
    using di unfolding w plug_distinct by auto
  obtain h1 where rot: "rb_rotate (\<not> s) (b, False) t = ((e, False), t\<lparr>rb_links := h1\<rparr>)"
    and t1: "tree_at h1 a (e, False) (mk (\<not> s) False (mk (\<not> \<not> s) True nd b wd) e nn)"
    and off1: "\<And>x. x \<notin> insert b (insert e (set (nodes nd))) \<Longrightarrow> h1 x = ?h x"
    by (rule rotate_spec [OF tw d(1)]) blast
  define h where "h = h1(a := (h1 a)\<lparr>rb_c := (rb_c (h1 a))(\<not> s := (e, False))\<rparr>)"
  have out: "h1 x = ?h x" if "x \<notin> set (nodes ?w)" for x by (rule off1) (use that in auto)
  have off: "h x = ?h x" if "x \<notin> insert a (set (nodes ?w))" for x using that out [of x] by (simp add: h_def)
  have ha: "h a = (?h a)\<lparr>rb_c := (rb_c (?h a))(\<not> s := (e, False))\<rparr>" using out [OF d(2)] by (simp add: h_def)
  have "tree_at h a (e, False) ?w'"
    unfolding mk_swap [of s False nn] by (subst tree_at_cong [where h = h1]) (use t1 d(2) in \<open>auto simp: h_def\<close>)
  moreover have "h x = ?h x" if "x \<in> set (nodes z) \<union> knodes k" for x by (rule off) (use that d in auto)
  then have "tree_at h a (rb_c (?h a) s) z" "ctx_at h (rb_root t) k" "hole h (rb_root t) k = hole ?h (rb_root t) k"
    using tz ctx tree_at_cong [of z h ?h] ctx_at_cong [of k h ?h] by (simp_all, cases k, auto)
  ultimately have "tree_at h 0 (rb_root t, False) (plug z ((s, c, a, ?w') # k))"
    using ctx by (simp add: plug_tree_at ha del: plug.simps)
  moreover have "deficient z ((s, c, a, ?w') # k)" using df wd by (auto simp: deficient_def)
  moreover have "nodes (plug z ((s, c, a, ?w') # k)) = nodes (plug z ((s, c, a, mk s False (mk s True nn e nd) b wd) # k))"
    unfolding plug.simps by (rule plug_nodes_cong) (simp add: mk_def)
  ultimately show ?thesis
    by (intro that [of h]) (use off in \<open>simp_all add: rot set_c_def rb_node_def h_def plug_nodes del: plug.simps\<close>)
qed

lemma fetch_color:
  assumes "ctx_at (rb_links t) (rb_root t) ((s, c, a, w) # k)" "a \<notin> knodes k"
  shows "(if rb_some (par k, False) then rb_child t (par k, False) (find_child t (par k, False) a) else (a, False)) = (a, c)"
proof (cases "k = []")
  case False
  have k: "ctx_at (rb_links t) (rb_root t) k" "hole (rb_links t) (rb_root t) k = (a, c)" "a \<noteq> 0" using assms(1) by simp_all
  have "find_child t (par k, False) a = kside k" by (rule find_child_side [OF k(1)]) (use k assms(2) in \<open>simp_all add: rb_node_def\<close>)
  moreover have "rb_c (rb_links t (par k)) (kside k) = (a, c)" using k(2) False by (cases k rule: kside.cases) auto
  ultimately show ?thesis using ctx_par [OF k(1)] False by (simp add: rb_some_def rb_child_def rb_node_def)
qed (use assms in \<open>simp add: rb_some_def\<close>)

lemma recolor_ok:
  assumes tr: "tree_at (rb_links t) 0 (rb_root t, False) (plug z ((s, True, a, w) # k))"
    and di: "distinct (nodes (plug z ((s, True, a, w) # k)))" and df: "deficient z ((s, True, a, w) # k)"
    and z: "\<not> col z" and w: "\<not> col w" "black_kids w"
  shows "repaired t (set_child (par k, False) (kside k) (a, False) (set_c (a, False) (\<not> s) (change_color (rb_child t (a, False) (\<not> s)) True) t))
    (nodes (plug z ((s, True, a, w) # k)))"
proof -
  have ctx: "ctx_at (rb_links t) (rb_root t) ((s, True, a, w) # k)" and tz: "tree_at (rb_links t) a (rb_c (rb_links t a) s) z"
    using tr by (simp_all only: plug_tree_at par.simps hole_simps)
  have sk: "sinking s (a, False) t" using sinking_iff [OF ctx tz deficient_sibling [OF df]] z w by simp
  let ?L = "mk s True z a (paint True w)" and ?M = "mk s False z a (paint True w)"
  obtain h where t': "set_c (a, False) (\<not> s) (change_color (rb_child t (a, False) (\<not> s)) True) t = t\<lparr>rb_links := h\<rparr>"
    and T: "tree_at h 0 (rb_root t, False) (plug ?L k)" and d': "deficient ?L k"
    and off: "\<forall>b. b \<notin> set (nodes (plug z ((s, True, a, w) # k))) \<longrightarrow> h b = rb_links t b"
    using up_turn [OF tr di df sk refl] by blast
  have kd: "kdistinct k" and L: "set (nodes ?M) \<inter> knodes k = {}" using di by (auto simp: plug_distinct)
  have c: "ctx_at h (rb_root t) k" and loc: "tree_at h (par k) (a, False) ?M" using T by (auto simp: plug_tree_at)
  obtain h' where set: "set_child (par k, False) (kside k) (a, False) (t\<lparr>rb_links := h\<rparr>) = t\<lparr>rb_links := h', rb_root := new_root k a (rb_root t)\<rparr>"
    and T': "tree_at h' 0 (new_root k a (rb_root t), False) (plug ?M k)" and off': "\<forall>b. b \<notin> knodes k \<longrightarrow> h' b = h b"
    using plug_set_child [OF c kd loc L] by blast
  have ok: "rb_ok (plug ?M k)" using df z w paint_red [of w] deficient_sibling [OF df] paint_black [of z] inv_c_paint [of w] paint_black [of w]
    by (auto simp: plug_ok deficient_def)
  have nd: "nodes (plug ?M k) = nodes (plug z ((s, True, a, w) # k))" unfolding plug.simps by (rule plug_nodes_cong) (simp add: mk_def)
  show ?thesis unfolding t' by (rule repairedI [OF set T' ok nd]) (use off off' in \<open>auto simp: plug_nodes\<close>)
qed

lemma last_step_ok:
  assumes tr: "tree_at (rb_links t) 0 (rb_root t, False) (plug z ((s, c, a, w) # k))"
    and di: "distinct (nodes (plug z ((s, c, a, w) # k)))" and df: "deficient z ((s, c, a, w) # k)"
    and z: "\<not> col z" and w: "\<not> col w" and cb: "black_kids w \<longrightarrow> c"
  shows "repaired t (case last_step s (par k, False) (a, False) t of (p, t) \<Rightarrow> set_child (par k, False) (kside k) p t) (nodes (plug z ((s, c, a, w) # k)))"
proof -
  obtain wn b wd where weq: "w = mk s False wn b wd"
    by (rule rbt_cases_mk [where t = w and s = s]) (use w deficient_sibling [OF df] in auto)
  have ctx: "ctx_at (rb_links t) (rb_root t) ((s, c, a, w) # k)" using tr by (simp_all only: plug_tree_at)
  have ak: "a \<notin> knodes k" using di by (auto simp: plug_distinct)
  have tb: "tree_at (rb_links t) b (rb_c (rb_links t b) s) wn" "tree_at (rb_links t) b (rb_c (rb_links t b) (\<not> s)) wd"
    and b0: "rb_c (rb_links t a) (\<not> s) = (b, False)" using ctx by (simp_all add: weq)
  have b: "rb_child t (a, False) (\<not> s) = (b, False)" "rb_red (rb_child t (b, False) s) = col wn" "rb_red (rb_child t (b, False) (\<not> s)) = col wd"
    using b0 tree_at_col [OF tb(1)] tree_at_col [OF tb(2)] by (simp_all add: rb_child_def rb_node_def)
  have kids: "\<not> rb_red (rb_child t (b, False) False) \<and> \<not> rb_red (rb_child t (b, False) True) \<longleftrightarrow> black_kids w"
    using b(2,3) by (cases s) (auto simp: weq)
  show ?thesis
  proof (cases "black_kids w")
    case True
    then show ?thesis using recolor_ok [of t z s a w k] tr di df z w cb kids b(1) by (simp add: last_step_def change_color_def rb_node_def)
  next
    case False
    show ?thesis
    proof (cases "col wd")
      case True
      have "last_step s (par k, False) (a, False) t = rotate_black s (a, c) t"
        by (simp only: last_step_def Let_def b(1,3) kids False True if_False if_True not_True_eq_False rb_node_def fst_conv fetch_color [OF ctx ak])
      then show ?thesis using far_red [OF tr [unfolded weq] di [unfolded weq] df [unfolded weq] z True] by (simp only: weq)
    next
      case wd: False
      then have "col wn" using False by (simp add: weq)
      obtain nn e nd where wn: "wn = mk s True nn e nd"
        by (rule rbt_cases_mk [where t = wn and s = s]) (use \<open>col wn\<close> in auto)
      have ww: "w = mk s False (mk s True nn e nd) b wd" by (simp only: weq wn)
      let ?k1 = "(s, c, a, mk s False nn e (mk s True nd b wd)) # k"
      obtain h where rot: "(case rb_rotate (\<not> s) (b, False) t of (r, t) \<Rightarrow> set_c (a, False) (\<not> s) r t) = t\<lparr>rb_links := h\<rparr>"
        and T1: "tree_at h 0 (rb_root t, False) (plug z ?k1)" and df1: "deficient z ?k1"
        and nd: "nodes (plug z ?k1) = nodes (plug z ((s, c, a, w) # k))"
        and off: "\<And>x. x \<notin> set (nodes (plug z ((s, c, a, w) # k))) \<Longrightarrow> h x = rb_links t x"
        unfolding ww by (rule near_red [OF tr [unfolded ww] di [unfolded ww] df [unfolded ww] wd]) blast
      let ?t = "t\<lparr>rb_links := h, rb_root := rb_root t\<rparr>"
      have t: "?t = t\<lparr>rb_links := h\<rparr>" by simp
      have ctx1: "ctx_at (rb_links ?t) (rb_root ?t) ?k1" using T1 by (simp add: plug_tree_at del: plug.simps)
      have ls: "last_step s (par k, False) (a, False) t = rotate_black s (a, c) ?t"
        by (simp only: last_step_def Let_def b(1,3) kids False wd if_False if_True not_False_eq_True rot rb_node_def fst_conv
          fetch_color [OF ctx1 ak, unfolded t] t)
      have "repaired ?t (case rotate_black s (a, c) ?t of (p, t) \<Rightarrow> set_child (par k, False) (kside k) p t) (nodes (plug z ?k1))"
        by (rule far_red) (use T1 di df1 nd z in simp_all)
      then show ?thesis unfolding ls nd by (rule repaired_after) (rule off)
    qed
  qed
qed

text \<open>Rotating a red sibling up turns it into the black grandparent of the deficient subtree.\<close>

lemma red_sibling_ok:
  assumes tr: "tree_at (rb_links t) 0 (rb_root t, False) (plug z ((s, c, a, mk s True wn b wd) # k))"
    and di: "distinct (nodes (plug z ((s, c, a, mk s True wn b wd) # k)))" and df: "deficient z ((s, c, a, mk s True wn b wd) # k)" and z: "\<not> col z"
  obtains h r where "red_sibling s (a, False) t = ((b, False), s, t\<lparr>rb_links := h, rb_root := r\<rparr>)"
    "tree_at h 0 (r, False) (plug z ((s, True, a, wn) # (s, False, b, wd) # k))" "deficient z ((s, True, a, wn) # (s, False, b, wd) # k)"
    "nodes (plug z ((s, True, a, wn) # (s, False, b, wd) # k)) = nodes (plug z ((s, c, a, mk s True wn b wd) # k))"
    "\<And>x. x \<notin> set (nodes (plug z ((s, c, a, mk s True wn b wd) # k))) \<Longrightarrow> h x = rb_links t x"
proof -
  let ?h = "rb_links t" and ?L = "mk (\<not> s) c (mk s True wn b wd) a z" and ?R = "mk s False (mk (\<not> s) True wn a z) b wd"
  have L: "mk s c z a (mk s True wn b wd) = ?L" by (simp add: mk_swap [of s c z])
  have c: "\<not> c" using df by (simp add: deficient_def)
  have ctx: "ctx_at ?h (rb_root t) k" and hl: "hole ?h (rb_root t) k = (a, c)" and loc: "tree_at ?h (par k) (a, c) ?L"
    using tr by (auto simp: plug_tree_at L)
  have kd: "kdistinct k" and dl: "distinct (nodes ?L)" "set (nodes ?L) \<inter> knodes k = {}" using di unfolding plug.simps plug_distinct L by blast+
  have a: "a \<noteq> 0" "a \<notin> knodes k" "rb_p (?h a) = par k" "rb_c (?h a) (\<not> s) = (b, True)" using loc dl(2) by auto
  obtain h1 where rot: "rb_rotate s (a, False) t = ((b, False), t\<lparr>rb_links := h1\<rparr>)" and t1: "tree_at h1 (par k) (b, False) ?R"
    and off1: "\<And>x. x \<notin> insert a (insert b (set (nodes wn))) \<Longrightarrow> h1 x = ?h x"
    by (rule rotate_spec [OF loc dl(1)]) blast
  have ctx1: "ctx_at h1 (rb_root t) k"
  proof (subst ctx_at_cong [where h = ?h])
    fix x assume "x \<in> knodes k"
    then show "h1 x = ?h x" using dl(2) by (intro off1) auto
  qed (rule ctx)
  have R: "set (nodes ?R) \<inter> knodes k = {}" using dl(2) by auto
  obtain h where set: "set_child (par k, False) (kside k) (b, False) (t\<lparr>rb_links := h1\<rparr>) = t\<lparr>rb_links := h, rb_root := new_root k b (rb_root t)\<rparr>"
    and T: "tree_at h 0 (new_root k b (rb_root t), False) (plug ?R k)" and off: "\<forall>x. x \<notin> knodes k \<longrightarrow> h x = h1 x"
    using plug_set_child [OF ctx1 kd t1 R] by blast
  have side: "find_child t (par k, False) a = kside k" by (rule find_child_side [OF ctx]) (use hl a in \<open>simp_all add: rb_node_def\<close>)
  have eq: "plug z ((s, True, a, wn) # (s, False, b, wd) # k) = plug ?R k" by (simp add: mk_swap [of s True z])
  have "rb_p (h a) = b" using T by (auto simp: plug_tree_at)
  then have "red_sibling s (a, False) t = ((b, False), s, t\<lparr>rb_links := h, rb_root := new_root k b (rb_root t)\<rparr>)"
    using a rot set side by (simp add: red_sibling_def Let_def rb_heap_defs rb_node_def rb_red_def)
  moreover have "deficient z ((s, True, a, wn) # (s, False, b, wd) # k)" using df c by (auto simp: deficient_def)
  moreover have "nodes (plug ?R k) = nodes (plug z ((s, c, a, mk s True wn b wd) # k))" unfolding plug.simps by (rule plug_nodes_cong) (simp add: mk_def)
  ultimately show ?thesis
    by (intro that [where h = h and r = "new_root k b (rb_root t)"]) (use T off off1 in \<open>simp_all only: eq, auto simp: plug_nodes\<close>)
qed

text \<open>The two simple ends: a red node takes the black count of the missing one, and a black sibling stays where it is.\<close>

lemma delete_end_red:
  assumes tr: "tree_at (rb_links t) 0 (rb_root t, False) (plug z k)" and di: "distinct (nodes (plug z k))" and df: "deficient z k"
    and 2: "k = (s, c, a, w) # k2" and True: "col z"
  shows "repaired t (delete_end (kside k) (par k, False) t) (nodes (plug z k))"
proof -
  let ?h = "rb_links t"
  have ctx: "ctx_at ?h (rb_root t) ((s, c, a, w) # k2)" and tz: "tree_at ?h a (rb_c (?h a) s) z"
    using tr by (simp_all only: 2 plug_tree_at par.simps hole_simps)
  have a: "rb_some (a, False)" and zc: "rb_red (rb_child t (a, False) s) = col z"
    using ctx tree_at_col [OF tz] by (auto simp: rb_some_def rb_child_def rb_node_def)
  define h where "h = ?h(a := (?h a)\<lparr>rb_c := (rb_c (?h a))(s := change_color (rb_c (?h a) s) False)\<rparr>)"
  have d: "kdistinct k" "a \<notin> set (nodes z)" using di by (auto simp: 2 plug_distinct)
  have "h = set_link ?h k (change_color (rb_c (?h a) s) False)" by (simp add: h_def set_link_def 2)
  then have c': "ctx_at h (rb_root t) k" "hole h (rb_root t) k = change_color (rb_c (?h a) s) False"
    using set_link_ctx [of ?h "rb_root t" k "change_color (rb_c (?h a) s) False"] ctx d by (auto simp: 2)
  have "tree_at h a (rb_c (?h a) s) z" by (subst tree_at_cong [where h = ?h]) (use d tz in \<open>auto simp: h_def\<close>)
  then have "tree_at h a (change_color (rb_c (?h a) s) False) (paint False z)"
    unfolding change_color_def by (rule tree_at_paint) (use True in auto)
  then have T: "tree_at h 0 (rb_root t, False) (plug (paint False z) k)" unfolding plug_tree_at c'(2) using c'(1) by (simp add: 2)
  have ok: "rb_ok (plug (paint False z) k)" using df True by (simp add: plug_ok deficient_def)
  have "delete_end (kside k) (par k, False) t = t\<lparr>rb_links := h, rb_root := rb_root t\<rparr>"
    using a zc True by (simp add: 2 delete_end_def set_c_def rb_child_def rb_node_def h_def)
  moreover have "nodes (plug (paint False z) k) = nodes (plug z k)" by (rule plug_nodes_cong) simp
  ultimately show ?thesis by (intro repairedI [OF _ T ok]) (auto simp: h_def 2 plug_nodes)
qed

lemma black_sibling:
  assumes ctx: "ctx_at (rb_links t) (rb_root t) ((s, c, a, w) # k2)" and di: "distinct (nodes (plug z ((s, c, a, w) # k2)))" and w: "\<not> col w"
  shows "red_sibling s (a, False) t = ((par k2, False), kside k2, t)"
proof -
  let ?h = "rb_links t"
  have "find_child t (par k2, False) a = kside k2"
    by (rule find_child_side [where root = "rb_root t"]) (use ctx di in \<open>auto simp: rb_node_def plug_distinct\<close>)
  moreover have "tree_at ?h a (rb_c (?h a) (\<not> s)) w" using ctx by simp
  then have "\<not> rb_red (rb_c (?h a) (\<not> s))" using tree_at_col w by blast
  ultimately show ?thesis using ctx by (simp add: red_sibling_def Let_def rb_heap_defs rb_node_def)
qed

lemma delete_end_ok:
  assumes tr: "tree_at (rb_links t) 0 (rb_root t, False) (plug z k)" and di: "distinct (nodes (plug z k))" and df: "deficient z k"
    and sk: "\<not> sinking (kside k) (par k, False) t"
  shows "repaired t (delete_end (kside k) (par k, False) t) (nodes (plug z k))"
proof (cases k rule: kside.cases)
  case 1
  have "\<not> col z" using tr tree_at_col [of "rb_links t" 0 "(rb_root t, False)" z] by (simp add: 1 rb_red_def)
  then have "rb_ok z" using df paint_black [of z] by (simp add: rb_ok_def deficient_def)
  then show ?thesis using tr by (intro repairedI [where h = "rb_links t" and r = "rb_root t" and T = z]) (simp_all add: 1 delete_end_def rb_some_def)
next
  case (2 s c a w k2)
  let ?h = "rb_links t"
  have ctx: "ctx_at ?h (rb_root t) ((s, c, a, w) # k2)" and tz: "tree_at ?h a (rb_c (?h a) s) z"
    using tr by (simp_all only: 2 plug_tree_at par.simps hole_simps)
  have a: "rb_some (a, False)" and zc: "rb_red (rb_child t (a, False) s) = col z"
    using ctx tree_at_col [OF tz] by (auto simp: rb_some_def rb_child_def rb_node_def)
  show ?thesis
  proof (cases "col z")
    case True
    show ?thesis by (rule delete_end_red [OF tr di df 2 True])
  next
    case z: False
    have de: "delete_end (kside k) (par k, False) t = (case red_sibling s (a, False) t of (gp, gpside, t) \<Rightarrow>
        (case last_step s gp (a, False) t of (p, t) \<Rightarrow> set_child gp gpside p t))"
      using a zc z by (simp add: 2 delete_end_def)
    show ?thesis
    proof (cases "col w")
      case True
      obtain wn b wd where w: "w = mk s True wn b wd" by (rule rbt_cases_mk [where t = w and s = s]) (use True in auto)
      obtain h r where rs: "red_sibling s (a, False) t = ((b, False), s, t\<lparr>rb_links := h, rb_root := r\<rparr>)"
        and T: "tree_at h 0 (r, False) (plug z ((s, True, a, wn) # (s, False, b, wd) # k2))" and df1: "deficient z ((s, True, a, wn) # (s, False, b, wd) # k2)"
        and nd: "nodes (plug z ((s, True, a, wn) # (s, False, b, wd) # k2)) = nodes (plug z k)"
        and off: "\<And>x. x \<notin> set (nodes (plug z k)) \<Longrightarrow> h x = ?h x"
        unfolding 2 w by (rule red_sibling_ok [OF tr [unfolded 2 w] di [unfolded 2 w] df [unfolded 2 w] z]) blast
      let ?t = "t\<lparr>rb_links := h, rb_root := r\<rparr>"
      have "repaired ?t (case last_step s (par ((s, False, b, wd) # k2), False) (a, False) ?t of (p, t) \<Rightarrow>
          set_child (par ((s, False, b, wd) # k2), False) (kside ((s, False, b, wd) # k2)) p t) (nodes (plug z ((s, True, a, wn) # (s, False, b, wd) # k2)))"
        by (rule last_step_ok) (use T di nd df1 z in \<open>simp_all add: deficient_def\<close>)
      then show ?thesis unfolding de rs nd by (simp add: repaired_after off)
    next
      case w: False
      have "\<not> black_kids w" using sk z w sinking_iff [OF ctx tz, of False] deficient_sibling df by (simp add: 2)
      moreover have "red_sibling s (a, False) t = ((par k2, False), kside k2, t)" by (rule black_sibling [OF ctx di [unfolded 2] w])
      ultimately show ?thesis unfolding de using last_step_ok [of t z s c a w k2] tr di df z w by (simp add: 2)
    qed
  qed
qed

lemma fixup_deficient:
  assumes "tree_at (rb_links t) 0 (rb_root t, False) (plug z k)" "distinct (nodes (plug z k))" "deficient z k"
  shows "\<exists>t'. delete_node_fixup (par k, False) (kside k) t = Some t' \<and> repaired t t' (nodes (plug z k))"
proof -
  obtain h z' k' where u: "delete_up (kside k) (par k, False) t = Some (kside k', (par k', False), t\<lparr>rb_links := h\<rparr>)"
    and T: "tree_at h 0 (rb_root t, False) (plug z' k')" and df: "deficient z' k'" and sk: "\<not> sinking (kside k') (par k', False) (t\<lparr>rb_links := h\<rparr>)"
    and nd: "nodes (plug z' k') = nodes (plug z k)" and off: "\<forall>b. b \<notin> set (nodes (plug z k)) \<longrightarrow> h b = rb_links t b"
    using up_ok [OF assms] by blast
  let ?t = "t\<lparr>rb_links := h, rb_root := rb_root t\<rparr>"
  have t: "?t = t\<lparr>rb_links := h\<rparr>" by simp
  have "repaired ?t (delete_end (kside k') (par k', False) ?t) (nodes (plug z' k'))"
    by (rule delete_end_ok) (use T df sk assms(2) nd in \<open>simp_all add: t\<close>)
  then have "repaired t (delete_end (kside k') (par k', False) ?t) (nodes (plug z k))" unfolding nd by (rule repaired_after) (use off in blast)
  then show ?thesis using u unfolding t by (simp add: delete_node_fixup_def)
qed

end
