(* ===== verification/Rb_Map.thy ===== *)
theory Rb_Map
  imports Rb_Insert
begin

text \<open>
  The tree as an ordered map: lookups find a key exactly when a node of the tree has it and report the neighbours of a missing key,
  and \<open>find_insert\<close> adds a missing key at its place.
\<close>

subsection \<open>The descent\<close>

text \<open>The boundary nodes at a hole: the neighbours, or the limits of the tree where there is none.\<close>

definition bounds :: "'k rbtree \<Rightarrow> frame list \<Rightarrow> node_info \<times> node_info" where
  "bounds t k =
     ((if lefts k = [] then limit_info t False else (last (lefts k), rb_nodevers t (last (lefts k)))),
      (if rights k = [] then limit_info t True else (hd (rights k), rb_nodevers t (hd (rights k)))))"

definition splits :: "'k :: linorder rbtree \<Rightarrow> 'k \<Rightarrow> frame list \<Rightarrow> bool" where
  "splits t key k \<longleftrightarrow> (\<forall>b\<in>set (lefts k). rb_key t b < key) \<and> (\<forall>b\<in>set (rights k). key < rb_key t b)"

abbreviation sorted_keys :: "'k :: linorder rbtree \<Rightarrow> rbt \<Rightarrow> bool" where
  "sorted_keys t T \<equiv> sorted_wrt (<) (map (rb_key t) (nodes T))"

lemma descend_ok:
  assumes "tree_at (rb_links t) 0 (rb_root t, False) (plug T k)" "sorted_keys t (plug T k)" "splits t key k" "cmp > 0 \<longleftrightarrow> kside k"
  shows "(\<exists>k' c l a r. plug T k = plug (Node c l a r) k' \<and> rb_key t a = key \<and>
      rb_descend t key (hole (rb_links t) (rb_root t) k) (par k, kcol k) cmp (bounds t k) = Some ((a, c), (par k', kcol k'), 0, bounds t k')) \<or>
    (\<exists>k' cmp'. plug T k = plug Leaf k' \<and> splits t key k' \<and> (cmp' > 0 \<longleftrightarrow> kside k') \<and>
      rb_descend t key (hole (rb_links t) (rb_root t) k) (par k, kcol k) cmp (bounds t k) = Some (rb_null, (par k', kcol k'), cmp', bounds t k'))"
  using assms
proof (induction T arbitrary: k cmp)
  case Leaf
  then have "hole (rb_links t) (rb_root t) k = rb_null" by (simp add: plug_tree_at)
  then show ?case using Leaf by (intro disjI2 exI [of _ k] exI [of _ cmp]) (simp add: rb_descend.simps rb_node_def)
next
  case (Node c l a r)
  let ?h = "rb_links t"
  have hl: "hole ?h (rb_root t) k = (a, c)" "a \<noteq> 0" using Node.prems(1) by (auto simp: plug_tree_at)
  let ?cmp = "default_compare key (rb_key t a)"
  show ?case
  proof (cases "rb_key t a = key")
    case True
    then show ?thesis using hl
      by (intro disjI1 exI [of _ k] exI [of _ c] exI [of _ l] exI [of _ a] exI [of _ r]) (simp add: rb_descend.simps rb_node_def default_compare_def)
  next
    case False
    define s where "s = (?cmp > 0)"
    define k1 where "k1 = (s, c, a, if s then l else r) # k"
    have s: "s \<longleftrightarrow> rb_key t a < key" using False by (auto simp: s_def default_compare_def)
    have pl: "plug (Node c l a r) k = plug (if s then r else l) k1" by (auto simp: k1_def mk_def)
    have sk: "sorted_keys t (plug (Node c l a r) k)" by (rule Node.prems(2))
    have "\<forall>b\<in>set (nodes l). rb_key t b < rb_key t a" "\<forall>b\<in>set (nodes r). rb_key t a < rb_key t b"
      using sk by (auto simp: nodes_plug sorted_wrt_append)
    then have sp: "splits t key k1" using Node.prems(3) s False by (force simp: splits_def k1_def)
    have bd: "bounds t k1 = (if s then ((a, rb_nodevers t a), snd (bounds t k)) else (fst (bounds t k), (a, rb_nodevers t a)))"
      by (auto simp: bounds_def k1_def)
    have "rb_descend t key (hole ?h (rb_root t) k) (par k, kcol k) cmp (bounds t k)
        = rb_descend t key (hole ?h (rb_root t) k1) (par k1, kcol k1) ?cmp (bounds t k1)"
      unfolding bd by (subst rb_descend.simps) (use hl False in \<open>auto simp: rb_node_def rb_child_def k1_def s_def default_compare_def Let_def\<close>)
    moreover have "?cmp > 0 \<longleftrightarrow> kside k1" by (simp add: k1_def s_def)
    ultimately show ?thesis using Node.IH [of k1 ?cmp] Node.prems(1,2) sp unfolding pl by (cases s) simp_all
  qed
qed

lemma filter_plug:
  assumes "splits t key k"
  shows "filter (\<lambda>b. rb_key t b < key) (nodes (plug Leaf k)) = lefts k" "filter (\<lambda>b. key < rb_key t b) (nodes (plug Leaf k)) = rights k"
    "key \<notin> rb_key t ` set (nodes (plug Leaf k))"
proof -
  have "filter (\<lambda>b. rb_key t b < key) (lefts k) = lefts k" "filter (\<lambda>b. key < rb_key t b) (rights k) = rights k"
    using assms by (simp_all add: splits_def)
  moreover have "filter (\<lambda>b. rb_key t b < key) (rights k) = []" "filter (\<lambda>b. key < rb_key t b) (lefts k) = []"
    using assms by (auto simp: splits_def filter_empty_conv)
  ultimately show "filter (\<lambda>b. rb_key t b < key) (nodes (plug Leaf k)) = lefts k" "filter (\<lambda>b. key < rb_key t b) (nodes (plug Leaf k)) = rights k"
    by (simp_all add: nodes_plug)
  show "key \<notin> rb_key t ` set (nodes (plug Leaf k))" using assms by (auto simp: splits_def nodes_plug)
qed

text \<open>The descent from the root.\<close>

lemma search_ok:
  assumes "rb_holds t T" "sorted_keys t T"
  obtains (hit) k c l a r where "T = plug (Node c l a r) k" "rb_key t a = key" "a \<noteq> 0"
    "rb_descend t key (rb_root t, False) rb_null 0 (limit_info t False, limit_info t True) = Some ((a, c), (par k, kcol k), 0, bounds t k)"
  | (miss) k cmp where "T = plug Leaf k" "splits t key k" "cmp > 0 \<longleftrightarrow> kside k"
    "rb_descend t key (rb_root t, False) rb_null 0 (limit_info t False, limit_info t True) = Some (rb_null, (par k, kcol k), cmp, bounds t k)"
proof -
  have tr: "tree_at (rb_links t) 0 (rb_root t, False) (plug T [])" and st: "sorted_keys t (plug T [])" "splits t key []"
    using assms by (simp_all add: rb_holds_def splits_def)
  have b: "bounds t [] = (limit_info t False, limit_info t True)" by (simp add: bounds_def)
  have pos: "0 \<notin> set (nodes T)" using tree_at_pos [OF tr] by simp
  show ?thesis
    using descend_ok [OF tr st, of 0] hit miss pos unfolding b by (auto simp: plug_nodes)
qed

subsection \<open>Lookup\<close>

text \<open>C29: \<open>find_any\<close> returns, for every balanced tree with increasing keys: it reports a key as found exactly when a node has it, and
  then returns that node with its version; for a missing key the two boundary nodes are the last node with a smaller and the first
  with a larger key, or the first and last node of the tree where there is none.\<close>

theorem rb_find_any_correct:
  assumes "rb_holds t T" "sorted_keys t T"
  shows "\<exists>n v found b1 b2. find_any key t = Some (n, v, found, b1, b2) \<and> (found \<longleftrightarrow> key \<in> rb_key t ` set (nodes T)) \<and>
    (found \<longrightarrow> n \<in> set (nodes T) \<and> rb_key t n = key \<and> v = rb_vers t n) \<and>
    (\<not> found \<longrightarrow> (let L = filter (\<lambda>b. rb_key t b < key) (nodes T); R = filter (\<lambda>b. key < rb_key t b) (nodes T)
       in fst b1 = (if L = [] then end_node False (nodes T) else last L) \<and> fst b2 = (if R = [] then end_node True (nodes T) else hd R)))"
  using assms
proof (cases rule: search_ok [where key = key])
  case (hit k c l a r)
  then show ?thesis by (cases "bounds t k") (auto simp: find_any_def Let_def rb_node_def plug_nodes)
next
  case (miss k cmp)
  have lim: "rb_limit t s = end_node s (nodes T)" for s using assms by (simp add: rb_holds_def)
  have "fst (fst (bounds t k)) = (if lefts k = [] then end_node False (nodes T) else last (lefts k))"
    "fst (snd (bounds t k)) = (if rights k = [] then end_node True (nodes T) else hd (rights k))"
    by (simp_all add: bounds_def limit_info_def Let_def lim)
  then show ?thesis using miss(4) filter_plug [OF miss(2)]
    by (cases "bounds t k") (auto simp: find_any_def Let_def rb_node_def miss(1))
qed

subsection \<open>Insertion\<close>

lemma insert_commit_ok:
  assumes h: "rb_holds t (plug Leaf k)" and x: "x \<noteq> 0" "x \<notin> set (nodes (plug Leaf k))"
  shows "\<exists>h r T. insert_commit x (par k, kcol k) (kside k) t = Some (t\<lparr>rb_links := h, rb_root := r, rb_limit := (\<lambda>s. end_node s (nodes T))\<rparr>) \<and>
    tree_at h 0 (r, False) T \<and> rb_ok T \<and> nodes T = lefts k @ x # rights k \<and> distinct (nodes T) \<and>
    (\<forall>b. b \<notin> insert x (set (nodes (plug Leaf k))) \<longrightarrow> h b = rb_links t b)"
proof -
  let ?X = "Node (k \<noteq> []) Leaf x Leaf"
  obtain h1 where l: "link_new x (par k, kcol k) (kside k) t = t\<lparr>rb_links := h1, rb_root := new_root k x (rb_root t),
      rb_limit := (\<lambda>s. end_node s (nodes (plug ?X k)))\<rparr>"
    and t1: "tree_at h1 0 (new_root k x (rb_root t), False) (plug ?X k)" and off1: "\<And>b. b \<notin> insert x (set (nodes (plug Leaf k))) \<Longrightarrow> h1 b = rb_links t b"
    by (rule link_new_ok [OF h x]) blast
  let ?t1 = "t\<lparr>rb_links := h1, rb_root := new_root k x (rb_root t), rb_limit := (\<lambda>s. end_node s (nodes (plug ?X k)))\<rparr>"
  have "distinct (nodes (plug Leaf k))" "rb_ok (plug Leaf k)" using h by (simp_all add: rb_holds_def)
  then have d: "distinct (nodes (plug ?X k))" "kok (bh ?X) k" using x by (auto simp: plug_distinct plug_nodes plug_ok)
  obtain h2 r T where f: "insert_fixup (kside k) (par k, kcol k) ?t1 = Some (?t1\<lparr>rb_links := h2, rb_root := r\<rparr>)"
    and T: "tree_at h2 0 (r, False) T" "rb_ok T" "nodes T = nodes (plug ?X k)" and off2: "\<forall>b. b \<notin> set (nodes (plug ?X k)) \<longrightarrow> h2 b = h1 b"
    using fixup_ok [of ?t1 ?X k] t1 d by auto
  have "insert_commit x (par k, kcol k) (kside k) t = Some (t\<lparr>rb_links := h2, rb_root := r, rb_limit := (\<lambda>s. end_node s (nodes T))\<rparr>)"
    using f by (simp add: insert_commit_def l T(3))
  moreover have "\<forall>b. b \<notin> insert x (set (nodes (plug Leaf k))) \<longrightarrow> h2 b = rb_links t b" using off2 off1 by (simp add: plug_nodes)
  ultimately show ?thesis using T d(1) by (intro exI [of _ h2] exI [of _ r] exI [of _ T]) (simp add: nodes_plug)
qed

lemma sorted_add:
  assumes "sorted_keys t (plug Leaf k)" "splits t key k" "x \<notin> set (nodes (plug Leaf k))" "nodes T = lefts k @ x # rights k" "rb_key t' = (rb_key t)(x := key)"
  shows "sorted_keys t' T"
proof -
  have "map ((rb_key t)(x := key)) ns = map (rb_key t) ns" if "x \<notin> set ns" for ns using that by (intro map_cong) auto
  then have "map ((rb_key t)(x := key)) (lefts k) = map (rb_key t) (lefts k)" "map ((rb_key t)(x := key)) (rights k) = map (rb_key t) (rights k)"
    using assms(3) by (simp_all add: nodes_plug)
  moreover have "sorted_wrt (<) (map (rb_key t) (lefts k) @ key # map (rb_key t) (rights k))"
    using assms(1,2) by (auto simp: nodes_plug splits_def sorted_wrt_append)
  ultimately show ?thesis by (simp only: assms(4,5) map_append list.map fun_upd_same)
qed

text \<open>C15: \<open>find_insert\<close> returns, for every balanced tree with increasing keys and a fresh node: when the key is present the tree is unchanged and
  the result is the node with that key; otherwise the new node with the key is put between the smaller and the larger
  keys, the result is again a red-black tree with increasing keys, right root and right limits, and
  no memory besides the nodes of the tree is written.\<close>

theorem rb_find_insert_correct:
  assumes h: "rb_holds t T" and st: "sorted_keys t T" and x: "x \<noteq> 0" "x \<notin> set (nodes T)"
  shows "\<exists>n ver found b par t' T'. find_insert key x v t = Some ((n, ver, found, b, par), t') \<and> rb_holds t' T' \<and> sorted_keys t' T' \<and>
    (if key \<in> rb_key t ` set (nodes T) then found \<and> n \<in> set (nodes T) \<and> rb_key t n = key \<and> t' = t \<and> T' = T
     else \<not> found \<and> n = x \<and> rb_key t' = (rb_key t)(x := key) \<and>
       nodes T' = filter (\<lambda>b. rb_key t b < key) (nodes T) @ x # filter (\<lambda>b. key < rb_key t b) (nodes T)) \<and>
    (\<forall>b. b \<notin> insert x (set (nodes T)) \<longrightarrow> rb_links t' b = rb_links t b)"
  using h st
proof (cases rule: search_ok [where key = key])
  case (hit k c l a r)
  then show ?thesis using h st
    by (intro exI [of _ a] exI [of _ "rb_vers t a"] exI [of _ True] exI [of _ "bounds t k"] exI [of _ "(par k, if par k \<noteq> 0 then rb_nodevers t (par k) else 0)"]
      exI [of _ t] exI [of _ T]) (auto simp: find_insert_def Let_def rb_node_def plug_nodes)
next
  case (miss k cmp)
  let ?t = "t\<lparr>rb_key := (rb_key t)(x := key), rb_vers := (rb_vers t)(x := fst v), rb_nodevers := (rb_nodevers t)(x := snd v)\<rparr>"
  have "rb_holds ?t (plug Leaf k)" using h by (simp add: rb_holds_def miss(1))
  from insert_commit_ok [OF this x [unfolded miss(1)]] obtain h2 r T' where
    i: "insert_commit x (par k, kcol k) (kside k) ?t = Some (?t\<lparr>rb_links := h2, rb_root := r, rb_limit := (\<lambda>s. end_node s (nodes T'))\<rparr>)"
    and T': "tree_at h2 0 (r, False) T'" "rb_ok T'" "nodes T' = lefts k @ x # rights k" "distinct (nodes T')"
    and off: "\<forall>b. b \<notin> insert x (set (nodes T)) \<longrightarrow> h2 b = rb_links ?t b" unfolding miss(1) [symmetric] by blast
  let ?t2 = "?t\<lparr>rb_links := h2, rb_root := r, rb_limit := (\<lambda>s. end_node s (nodes T'))\<rparr>"
  let ?ret = "(x, snd v, False, bounds t k, (par k, if par k \<noteq> 0 then rb_nodevers t (par k) else 0))"
  have f: "find_insert key x v t = Some (?ret, ?t2)" using miss(3,4) i by (simp add: find_insert_def Let_def rb_node_def)
  have h2: "rb_holds ?t2 T'" using T' by (simp add: rb_holds_def)
  have s2: "sorted_keys ?t2 T'" by (rule sorted_add [OF st [unfolded miss(1)] miss(2) x(2) [unfolded miss(1)] T'(3)]) simp
  have new: "key \<notin> rb_key t ` set (nodes T)" using filter_plug(3) [OF miss(2)] by (simp only: miss(1) not_False_eq_True)
  show ?thesis
    by (rule exI [of _ x], rule exI [of _ "snd v"], rule exI [of _ False], rule exI [of _ "bounds t k"],
      rule exI [of _ "(par k, if par k \<noteq> 0 then rb_nodevers t (par k) else 0)"], rule exI [of _ ?t2], rule exI [of _ T'])
      (use f h2 s2 off new T'(3) filter_plug(1,2) [OF miss(2), folded miss(1)] in simp)
qed

text \<open>A tree with three nodes, at addresses 10, 20 and 30.\<close>

definition ex_links :: "nat \<Rightarrow> rblinks" where
  "ex_links a = \<lparr>rb_p = (if a = 20 then 0 else 20), rb_c = (\<lambda>s. if a = 20 then (if s then 30 else 10, True) else rb_null)\<rparr>"

definition ex_rb :: "nat rbtree" where
  "ex_rb = \<lparr>rb_links = ex_links, rb_key = (\<lambda>a. if a = 10 then 3 else if a = 20 then 5 else 8), rb_vers = (\<lambda>_. 1), rb_nodevers = (\<lambda>_. 2), rb_root = 20,
     rb_limit = (\<lambda>s. if s then 30 else 10), rb_treeversion = 0\<rparr>"

abbreviation ex_tree :: rbt where
  "ex_tree \<equiv> Node False (Node True Leaf 10 Leaf) 20 (Node True Leaf 30 Leaf)"

lemma ex_rb_holds: "rb_holds ex_rb ex_tree" "sorted_keys ex_rb ex_tree"
  by (simp_all add: rb_holds_def ex_rb_def ex_links_def rb_ok_def end_node_def)

theorem rb_find_any_correct_witness:
  "\<exists>n v b1 b2. find_any 4 ex_rb = Some (n, v, False, b1, b2) \<and> fst b1 = 10 \<and> fst b2 = 20"
proof -
  obtain n v found b1 b2 where r: "find_any 4 ex_rb = Some (n, v, found, b1, b2)" "found \<longleftrightarrow> 4 \<in> rb_key ex_rb ` set (nodes ex_tree)"
    "\<not> found \<longrightarrow> (let L = filter (\<lambda>b. rb_key ex_rb b < 4) (nodes ex_tree); R = filter (\<lambda>b. 4 < rb_key ex_rb b) (nodes ex_tree)
       in fst b1 = (if L = [] then end_node False (nodes ex_tree) else last L) \<and> fst b2 = (if R = [] then end_node True (nodes ex_tree) else hd R))"
    using rb_find_any_correct [OF ex_rb_holds, of 4] by blast
  have k: "rb_key ex_rb = (\<lambda>a. if a = 10 then 3 else if a = 20 then 5 else 8)" by (simp add: ex_rb_def)
  show ?thesis using r by (simp add: k)
qed

theorem rb_find_insert_correct_witness:
  "\<exists>ver b par t T. find_insert 4 40 (6, 7) ex_rb = Some ((40, ver, False, b, par), t) \<and> rb_holds t T \<and> nodes T = [10, 40, 20, 30]"
proof -
  have k: "rb_key ex_rb = (\<lambda>a. if a = 10 then 3 else if a = 20 then 5 else 8)" by (simp add: ex_rb_def)
  have "4 \<notin> rb_key ex_rb ` set (nodes ex_tree)" by (simp add: k)
  moreover have "filter (\<lambda>b. rb_key ex_rb b < 4) (nodes ex_tree) = [10]" "filter (\<lambda>b. 4 < rb_key ex_rb b) (nodes ex_tree) = [20, 30]"
    by (simp_all add: k)
  moreover have "40 \<noteq> (0 :: nat)" "40 \<notin> set (nodes ex_tree)" by simp_all
  note rb_find_insert_correct [OF ex_rb_holds this, of 4 "(6, 7)"]
  ultimately show ?thesis by auto
qed

end
