(* ===== verification/Rb_Erase.thy ===== *)
theory Rb_Erase
  imports Rb_Delete Rb_Map
begin

text \<open>
  Removing a node of the red-black tree: the exchange with the successor, the splice and the repair together take the node out of the
  order and keep everything else.
\<close>

subsection \<open>Splicing out\<close>

lemma sink_end:
  assumes "tree_at (rb_links t) q b T" "T \<noteq> Leaf"
  shows "\<exists>b'. sink t i b = Some b' \<and> rb_node b' = end_node i (nodes T)"
  using assms
proof (induction T arbitrary: q b)
  case (Node c l a r)
  let ?T = "if i then r else l"
  have b: "b = (a, c)" "rb_some b" "rb_child t b i = rb_c (rb_links t a) i" and tr: "tree_at (rb_links t) a (rb_c (rb_links t a) i) ?T"
    using Node.prems by (cases i; auto simp: rb_some_def rb_child_def rb_node_def)+
  show ?case
  proof (cases "?T = Leaf")
    case True
    then have "rb_c (rb_links t a) i = rb_null" using tr by simp
    then have "sink t i b = Some b" using b by (subst sink.simps) (simp add: rb_some_def)
    then show ?thesis using True b by (cases i) (auto simp: end_node_def rb_node_def)
  next
    case False
    have "sink t i b = sink t i (rb_c (rb_links t a) i)" using b tree_at_Leaf [OF tr] False by (subst sink.simps) simp
    moreover have "\<exists>b'. sink t i (rb_c (rb_links t a) i) = Some b' \<and> rb_node b' = end_node i (nodes ?T)"
      using Node.IH tr False by (cases i) auto
    moreover have "nodes ?T \<noteq> []" using False by (cases ?T) auto
    then have "end_node i (nodes ?T) = end_node i (nodes (Node c l a r))" by (cases i) (auto simp: end_node_def)
    ultimately show ?thesis by simp
  qed
qed simp

text \<open>What splicing starts from: everything around the hole is in place and the node's only subtree is \<open>y\<close>.\<close>

definition detached :: "'k rbtree \<Rightarrow> nat \<Rightarrow> bool \<Rightarrow> rbt \<Rightarrow> frame list \<Rightarrow> bool" where
  "detached t v cs y k \<longleftrightarrow> ctx_at (rb_links t) (rb_root t) k \<and> kdistinct k \<and> distinct (nodes y) \<and> set (nodes y) \<inter> knodes k = {} \<and>
     v \<notin> knodes k \<and> v \<notin> set (nodes y) \<and> v \<noteq> 0 \<and> rb_red (hole (rb_links t) (rb_root t) k) = cs \<and>
     (\<exists>q i. tree_at (rb_links t) q (rb_c (rb_links t v) i) y \<and> rb_c (rb_links t v) (\<not> i) = rb_null)"

lemma detached_child:
  assumes "detached t v cs y k"
  defines "x \<equiv> rb_child t (v, False) (\<not> rb_some (rb_child t (v, False) False))"
  shows "\<exists>q. tree_at (rb_links t) q x y"
proof -
  obtain q i where p: "tree_at (rb_links t) q (rb_c (rb_links t v) i) y" "rb_c (rb_links t v) (\<not> i) = rb_null" using assms(1) by (auto simp: detached_def)
  have "x = rb_c (rb_links t v) i" using p(2) by (cases i; cases "rb_some (rb_c (rb_links t v) False)") (auto simp: x_def rb_child_def rb_node_def rb_some_def)
  then show ?thesis using p(1) by blast
qed

text \<open>The splice itself, before the limits and the colours are repaired.\<close>

lemma splice_links:
  assumes d: "detached t v cs y k" and x: "tree_at (rb_links t) q x y"
  obtains h where "(let t = set_child (par k, False) (kside k) x t in if rb_some x then set_p x (par k) t else t)
      = t\<lparr>rb_links := h, rb_root := new_root k (rb_node x) (rb_root t)\<rparr>"
    "tree_at h 0 (new_root k (rb_node x) (rb_root t), False) (plug (if k = [] then paint False y else y) k)"
    "tree_at h (par k) x y" "hole h (new_root k (rb_node x) (rb_root t)) k = (rb_node x, k \<noteq> [] \<and> rb_red x)"
    "\<And>b. b \<notin> set (nodes y) \<union> knodes k \<Longrightarrow> h b = rb_links t b"
proof -
  let ?h = "rb_links t" and ?r = "new_root k (rb_node x) (rb_root t)"
  have ctx: "ctx_at ?h (rb_root t) k" and dk: "kdistinct k" "distinct (nodes y)" "set (nodes y) \<inter> knodes k = {}"
    using d by (auto simp: detached_def)
  define h1 where "h1 = set_link ?h k x"
  define h where "h = (\<lambda>b. if rb_some x \<and> b = rb_node x then (h1 b)\<lparr>rb_p := par k\<rparr> else h1 b)"
  have eq: "(let t = set_child (par k, False) (kside k) x t in if rb_some x then set_p x (par k) t else t) = t\<lparr>rb_links := h, rb_root := ?r\<rparr>"
    by (subst set_child_link [OF ctx]) (auto simp: Let_def set_p_def h_def h1_def fun_eq_iff)
  have h1y: "h1 b = ?h b" if "b \<notin> knodes k" for b unfolding h1_def by (rule set_link_off [OF that])
  have xk: "rb_node x \<notin> knodes k" if "rb_some x" using that tree_at_node [OF x] tree_at_Leaf [OF x] dk(3) x by (cases y) (auto simp: rb_node_def)
  have ty: "tree_at h (par k) x y"
  proof (rule tree_at_reparent [OF x dk(2)])
    fix b assume "b \<in> set (nodes y)"
    then have "b \<notin> knodes k" "rb_some x" using dk(3) tree_at_Leaf [OF x] by (cases y; auto)+
    then show "h b = (if b = rb_node x then (?h b)\<lparr>rb_p := par k\<rparr> else ?h b)" using h1y [of b] by (auto simp: h_def)
  qed
  have hk: "h b = h1 b" if "b \<in> knodes k" for b using that xk by (auto simp: h_def)
  note l = set_link_ctx [OF ctx dk(1), of x "rb_node x", folded h1_def]
  have ck: "ctx_at h ?r k" by (subst ctx_at_cong [where h = h1]) (use l(1) hk in auto)
  have hl: "hole h ?r k = (if k = [] then (rb_node x, False) else x)"
    using l(2) hk par_in by (cases k rule: kside.cases) auto
  have "tree_at h (par k) (hole h ?r k) (if k = [] then paint False y else y)"
    unfolding hl using ty tree_at_paint [OF ty, of False] by (cases "k = []"; cases y) (auto simp: rb_node_def)
  then have T: "tree_at h 0 (?r, False) (plug (if k = [] then paint False y else y) k)" unfolding plug_tree_at using ck by blast
  have off: "h b = ?h b" if "b \<notin> set (nodes y) \<union> knodes k" for b
    using that h1y [of b] x by (cases y) (auto simp: h_def rb_some_def rb_node_def)
  show ?thesis by (rule that [OF eq T ty _ off]) (auto simp: hl rb_node_def rb_red_def)
qed

subsection \<open>The limits\<close>

lemma knodes_eq: "knodes k = set (lefts k) \<union> set (rights k)"
  by (induction k rule: knodes.induct) auto

lemma fix_limit_ok:
  assumes h: "rb_links t = h" and y: "tree_at h (par k) x y" and hl: "k \<noteq> [] \<Longrightarrow> rb_c (h (par k)) (kside k) = x"
    and lim: "rb_limit t i = v \<Longrightarrow> (if i then rights k else lefts k) = []"
  shows "fix_limit v x (par k, False) i t
    = Some (t\<lparr>rb_limit := (rb_limit t)(i := if rb_limit t i = v then end_node i (lefts k @ nodes y @ rights k) else rb_limit t i)\<rparr>)"
proof (cases "rb_limit t i = v")
  case True
  let ?b = "if rb_some x then x else (par k, False)" and ?e = "end_node i (lefts k @ nodes y @ rights k)"
  have emp: "(if i then rights k else lefts k) = []" by (rule lim [OF True])
  have "\<exists>b. sink t i ?b = Some b \<and> rb_node b = ?e"
  proof (cases "y = Leaf")
    case False
    have "nodes y \<noteq> []" using False by (cases y) auto
    then have "?e = end_node i (nodes y)" using emp by (cases i) (auto simp: end_node_def)
    then show ?thesis using sink_end [of t "par k" x y i] y h False tree_at_Leaf [OF y] by simp
  next
    case leaf: True
    then have x: "x = rb_null" using y by simp
    have side: "k \<noteq> [] \<Longrightarrow> kside k = i" using next_to_hole [of k] emp by (cases i; cases "kside k") auto
    have "sink t i (par k, False) = Some (par k, False)"
      using hl side x by (subst sink.simps) (cases "k = []"; simp add: rb_some_def rb_child_def rb_node_def h)
    moreover have "par k = ?e" using next_to_hole [of k] emp leaf side by (cases "k = []"; cases i) (auto simp: end_node_def)
    ultimately show ?thesis by (simp add: x rb_some_def rb_node_def)
  qed
  then show ?thesis using True by (auto simp: fix_limit_def)
qed (simp add: fix_limit_def)

lemma splice_ok:
  assumes d: "detached t v cs y k" and inv: "inv_h y" "inv_c y" "kok (if cs then bh y else bh y + 1) k" "cs \<longrightarrow> \<not> col y"
    and lim1: "\<And>i. rb_limit t i \<noteq> v \<Longrightarrow> rb_limit t i = end_node i (lefts k @ nodes y @ rights k)"
    and lim2: "\<And>i. rb_limit t i = v \<Longrightarrow> (if i then rights k else lefts k) = []"
  shows "\<exists>h r T. splice_out v (par k, False) (kside k) t = Some (par k, t\<lparr>rb_links := h, rb_root := r, rb_limit := (\<lambda>i. end_node i (nodes T))\<rparr>) \<and>
    tree_at h 0 (r, False) T \<and> rb_ok T \<and> nodes T = lefts k @ nodes y @ rights k \<and> (\<forall>b. b \<notin> set (nodes T) \<longrightarrow> h b = rb_links t b)"
proof -
  let ?h = "rb_links t" and ?ns = "lefts k @ nodes y @ rights k" and ?z = "if k = [] then paint False y else y"
  define x where "x = rb_child t (v, False) (\<not> rb_some (rb_child t (v, False) False))"
  obtain q where xq: "tree_at ?h q x y" using detached_child [OF d] x_def by blast
  have ctx: "ctx_at ?h (rb_root t) k" and hole: "rb_red (hole ?h (rb_root t) k) = cs" and di: "kdistinct k" "distinct (nodes y)" "set (nodes y) \<inter> knodes k = {}"
    using d by (simp_all add: detached_def)
  obtain h r where sp: "(let t = set_child (par k, False) (kside k) x t in if rb_some x then set_p x (par k) t else t)
        = t\<lparr>rb_links := h, rb_root := r\<rparr>"
    and T: "tree_at h 0 (r, False) (plug ?z k)" and ty: "tree_at h (par k) x y" and hl: "hole h r k = (rb_node x, k \<noteq> [] \<and> rb_red x)"
    and off: "\<And>b. b \<notin> set (nodes y) \<union> knodes k \<Longrightarrow> h b = ?h b"
    by (rule splice_links [OF d xq]) blast
  let ?lim = "\<lambda>i. end_node i ?ns"
  let ?t1 = "t\<lparr>rb_links := h, rb_root := r\<rparr>" and ?t2 = "t\<lparr>rb_links := h, rb_root := r, rb_limit := ?lim\<rparr>"
  have hk: "k \<noteq> [] \<Longrightarrow> rb_c (h (par k)) (kside k) = x" using hl by (cases k rule: kside.cases) (auto simp: rb_node_def rb_red_def)
  have nz: "nodes (plug ?z k) = ?ns" by (simp add: nodes_plug)
  have "set ?ns = set (nodes y) \<union> knodes k" by (auto simp: knodes_eq)
  then have off': "\<forall>b. b \<notin> set ?ns \<longrightarrow> h b = ?h b" using off by blast
  have dns: "distinct (nodes (plug ?z k))" using di by (simp add: plug_distinct)
  have lims: "(case fix_limit v x (par k, False) False ?t1 of None \<Rightarrow> None | Some t \<Rightarrow> fix_limit v x (par k, False) True t) = Some ?t2"
  proof -
    let ?l = "\<lambda>i. if rb_limit t i = v then end_node i ?ns else rb_limit t i"
    have "fix_limit v x (par k, False) False ?t1 = Some (?t1\<lparr>rb_limit := (rb_limit t)(False := ?l False)\<rparr>)"
      by (subst fix_limit_ok [of ?t1 h k x y False v]) (use ty hk lim2 [of False] in simp_all)
    moreover have "fix_limit v x (par k, False) True (?t1\<lparr>rb_limit := (rb_limit t)(False := ?l False)\<rparr>)
        = Some (?t1\<lparr>rb_limit := (rb_limit t)(False := ?l False, True := ?l True)\<rparr>)"
      by (subst fix_limit_ok [of _ h k x y True v]) (use ty hk lim2 [of True] in simp_all)
    moreover have "(rb_limit t)(False := ?l False, True := ?l True) = ?lim" using lim1 by (auto simp: fun_eq_iff)
    ultimately show ?thesis by simp
  qed
  then obtain ta where f: "fix_limit v x (par k, False) False ?t1 = Some ta" "fix_limit v x (par k, False) True ta = Some ?t2"
    by (auto split: option.splits)
  have col: "(rb_some (par k, False) \<and> rb_red (rb_child t (par k, False) (kside k))) = cs"
    using hole ctx_par [OF ctx] by (cases k rule: kside.cases) (auto simp: rb_some_def rb_child_def rb_node_def rb_red_def)
  have sd: "splice_out v (par k, False) (kside k) t = map_option (\<lambda>t. (par k, t)) (if \<not> cs then delete_node_fixup (par k, False) (kside k) ?t2 else Some ?t2)"
    unfolding splice_out_def Let_def x_def [symmetric] rb_node_def fst_conv sp [unfolded Let_def] col f option.case ..
  show ?thesis
  proof (cases cs)
    case True
    then have k: "k \<noteq> []" using hole by (auto simp: rb_red_def)
    have "rb_ok (plug y k)" using True inv k by (simp add: plug_ok)
    then show ?thesis using sd True T k nz off'
      by (intro exI [of _ h] exI [of _ r] exI [of _ "plug y k"]) (simp add: nodes_plug)
  next
    case False
    have "deficient ?z k" using inv False by (cases "k = []"; cases y) (auto simp: deficient_def)
    then obtain t' where f: "delete_node_fixup (par k, False) (kside k) ?t2 = Some t'" and rp: "repaired ?t2 t' ?ns"
      using fixup_deficient [of ?t2 ?z k] T dns nz by auto
    obtain h' r' T' where t': "t' = ?t2\<lparr>rb_links := h', rb_root := r'\<rparr>" "tree_at h' 0 (r', False) T'" "rb_ok T'" "nodes T' = ?ns"
      "\<forall>b. b \<notin> set ?ns \<longrightarrow> h' b = h b" using rp unfolding repaired_def by auto
    then show ?thesis using sd False f off'
      by (intro exI [of _ h'] exI [of _ r'] exI [of _ T']) auto
  qed
qed

subsection \<open>Finding the place of a node\<close>

lemma plug_append: "plug u (k @ k2) = plug (plug u k) k2"
  by (induction u k rule: plug.induct) auto

lemma node_context: "v \<in> set (nodes T) \<Longrightarrow> \<exists>k c l r. T = plug (Node c l v r) k"
proof (induction T)
  case (Node c l a r)
  have ex: "\<exists>k. Node c l a r = plug u k" if "u' = plug u k" "u' = l \<or> u' = r" for u u' k
  proof -
    have "Node c l a r = plug l [(False, c, a, r)]" "Node c l a r = plug r [(True, c, a, l)]" by (simp_all add: mk_def)
    then show ?thesis using that plug_append by metis
  qed
  consider "v = a" | "v \<in> set (nodes l)" | "v \<in> set (nodes r)" using Node.prems by auto
  then show ?case
  proof cases
    case 1
    then show ?thesis by (intro exI [of _ "[]"] exI [of _ c] exI [of _ l] exI [of _ r]) simp
  next
    case 2
    then show ?thesis using Node.IH(1) ex by metis
  next
    case 3
    then show ?thesis using Node.IH(2) ex by metis
  qed
qed simp

text \<open>A node with at most one child is spliced out where it is.\<close>

lemma place_of:
  assumes tr: "tree_at (rb_links t) 0 (rb_root t, False) (plug (Node c l v r) k)" and di: "distinct (nodes (plug (Node c l v r) k))"
  shows "black_parent t (v, False) = (par k, False)" "find_child t (par k, False) v = kside k" "v \<noteq> 0"
    "rb_some (rb_child t (v, False) False) \<longleftrightarrow> l \<noteq> Leaf" "rb_some (rb_child t (v, False) True) \<longleftrightarrow> r \<noteq> Leaf"
proof -
  have ctx: "ctx_at (rb_links t) (rb_root t) k" and hl: "hole (rb_links t) (rb_root t) k = (v, c)" and v: "v \<noteq> 0" "rb_p (rb_links t v) = par k"
    and lr: "tree_at (rb_links t) v (rb_c (rb_links t v) False) l" "tree_at (rb_links t) v (rb_c (rb_links t v) True) r"
    using tr by (auto simp: plug_tree_at)
  show "black_parent t (v, False) = (par k, False)" using v by (simp add: black_parent_def rb_parent_def rb_node_def)
  show "find_child t (par k, False) v = kside k"
    by (rule find_child_side [OF ctx]) (use hl v di in \<open>auto simp: rb_node_def plug_distinct\<close>)
  show "v \<noteq> 0" by (rule v)
  show "rb_some (rb_child t (v, False) False) \<longleftrightarrow> l \<noteq> Leaf" "rb_some (rb_child t (v, False) True) \<longleftrightarrow> r \<noteq> Leaf"
    using tree_at_Leaf [OF lr(1)] tree_at_Leaf [OF lr(2)] by (simp_all add: rb_child_def rb_node_def)
qed

lemma detached_single:
  assumes tr: "tree_at (rb_links t) 0 (rb_root t, False) (plug (mk i c y v Leaf) k)" and di: "distinct (nodes (plug (mk i c y v Leaf) k))"
  shows "detached t v c y k"
proof -
  have "ctx_at (rb_links t) (rb_root t) k" "hole (rb_links t) (rb_root t) k = (v, c)" "v \<noteq> 0"
    "tree_at (rb_links t) v (rb_c (rb_links t v) i) y" "rb_c (rb_links t v) (\<not> i) = rb_null"
    using tr by (simp_all add: plug_tree_at)
  moreover have "kdistinct k" "distinct (nodes y)" "set (nodes y) \<inter> knodes k = {}" "v \<notin> knodes k" "v \<notin> set (nodes y)"
    using di by (auto simp: plug_distinct)
  ultimately show ?thesis unfolding detached_def by (auto simp: rb_red_def)
qed

lemma erase_single:
  assumes h: "rb_holds t (plug (mk i c y v Leaf) k)"
  shows "\<exists>h r T. splice_out v (par k, False) (kside k) t = Some (par k, t\<lparr>rb_links := h, rb_root := r, rb_limit := (\<lambda>i. end_node i (nodes T))\<rparr>) \<and>
    tree_at h 0 (r, False) T \<and> rb_ok T \<and> nodes T = lefts k @ nodes y @ rights k \<and> (\<forall>b. b \<notin> set (nodes T) \<longrightarrow> h b = rb_links t b)"
proof (rule splice_ok)
  have di: "distinct (nodes (plug (mk i c y v Leaf) k))" and ok: "rb_ok (plug (mk i c y v Leaf) k)"
    and lim: "rb_limit t j = end_node j (lefts k @ nodes (mk i c y v Leaf) @ rights k)" for j
    using h by (simp_all add: rb_holds_def nodes_plug)
  show "detached t v c y k" using h di by (intro detached_single) (simp_all add: rb_holds_def)
  show "inv_h y" "inv_c y" "kok (if c then bh y else bh y + 1) k" "c \<longrightarrow> \<not> col y" using ok by (auto simp: plug_ok)
  have vk: "v \<notin> set (lefts k)" "v \<notin> set (rights k)" using di by (auto simp: nodes_plug mk_def)
  show "rb_limit t j = end_node j (lefts k @ nodes y @ rights k)" if "rb_limit t j \<noteq> v" for j
    using that unfolding lim by (cases i; cases j) (auto simp: end_node_def mk_def hd_append last_append split: if_splits)
  show "(if j then rights k else lefts k) = []" if "rb_limit t j = v" for j
  proof (rule ccontr)
    assume "(if j then rights k else lefts k) \<noteq> []"
    then have "rb_limit t j \<in> set (lefts k) \<union> set (rights k)" unfolding lim by (cases j) (auto simp: end_node_def)
    then show False using that vk by auto
  qed
qed

subsection \<open>The successor\<close>

lemma leftmost_edge:
  assumes "tree_at (rb_links t) q x R" "R \<noteq> Leaf"
  shows "\<exists>kR cs sc rs. R = plug (Node cs Leaf sc rs) kR \<and> (\<forall>f\<in>set kR. \<not> fst f) \<and> edge_node t (rb_node x) False = Some sc"
  using assms
proof (induction R arbitrary: q x)
  case (Node c l a r)
  have x: "rb_node x = a" and tl: "tree_at (rb_links t) a (rb_c (rb_links t a) False) l" using Node.prems by (auto simp: rb_node_def)
  show ?case
  proof (cases "l = Leaf")
    case True
    then have "edge_node t a False = Some a" using tl by (subst edge_node.simps) (simp add: rb_some_def)
    then show ?thesis using True x by (intro exI [of _ "[]"] exI [of _ c] exI [of _ a] exI [of _ r]) simp
  next
    case False
    then obtain kR cs sc rs where l: "l = plug (Node cs Leaf sc rs) kR" "\<forall>f\<in>set kR. \<not> fst f" "edge_node t (rb_node (rb_c (rb_links t a) False)) False = Some sc"
      using Node.IH(1) [OF tl] by blast
    have "edge_node t a False = Some sc" using l(3) tree_at_Leaf [OF tl] False by (subst edge_node.simps) (simp add: Let_def)
    moreover have "Node c l a r = plug (Node cs Leaf sc rs) (kR @ [(False, c, a, r)])" by (simp add: plug_append l(1) mk_def)
    ultimately show ?thesis using x l(2)
      by (intro exI [of _ "kR @ [(False, c, a, r)]"] exI [of _ cs] exI [of _ sc] exI [of _ rs]) simp
  qed
qed simp

lemma tree_at_parent: "tree_at h q x t \<Longrightarrow> y \<in> set (nodes t) \<Longrightarrow> rb_p (h y) \<in> insert q (set (nodes t))"
proof (induction t arbitrary: q x)
  case (Node c l a r)
  have "tree_at h a (rb_c (h a) False) l" "tree_at h a (rb_c (h a) True) r" "rb_p (h a) = q" using Node.prems(1) by auto
  then show ?case using Node.IH(1) [of a "rb_c (h a) False"] Node.IH(2) [of a "rb_c (h a) True"] Node.prems(2) by auto
qed simp

lemma tree_at_top: "tree_at h q x t \<Longrightarrow> distinct (nodes t) \<Longrightarrow> q \<notin> set (nodes t) \<Longrightarrow> y \<in> set (nodes t) \<Longrightarrow> rb_p (h y) = q \<longleftrightarrow> y = rb_node x"
proof (cases t)
  case (Node c l a r)
  assume a: "tree_at h q x t" "distinct (nodes t)" "q \<notin> set (nodes t)" "y \<in> set (nodes t)"
  have lr: "tree_at h a (rb_c (h a) False) l" "tree_at h a (rb_c (h a) True) r" "rb_p (h a) = q" "rb_node x = a" using a(1) Node by (auto simp: rb_node_def)
  have "rb_p (h y) \<noteq> q \<and> y \<noteq> a" if "y \<in> set (nodes l) \<union> set (nodes r)"
    using that tree_at_parent [OF lr(1), of y] tree_at_parent [OF lr(2), of y] a(2,3) Node by auto
  then show ?thesis using lr a(4) Node by auto
qed simp

text \<open>Replacing the node of a frame further up.\<close>

lemma ctx_move:
  assumes "ctx_at h root (kR @ (s, c, v, L) # k)" "ctx_at h' root' ((s, c, n, L) # k)" "kR \<noteq> [] \<Longrightarrow> rb_c (h' n) s = rb_c (h v) s"
    and "\<And>x. x \<in> knodes kR \<Longrightarrow> h' x = (if rb_p (h x) = v then (h x)\<lparr>rb_p := n\<rparr> else h x)" "v \<notin> knodes kR"
  shows "ctx_at h' root' (kR @ (s, c, n, L) # k)"
  using assms
proof (induction kR)
  case (Cons f kR)
  obtain sf cf a u where f: "f = (sf, cf, a, u)" by (cases f)
  note prems = Cons.prems [unfolded f]
  let ?K = "kR @ (s, c, v, L) # k" and ?K' = "kR @ (s, c, n, L) # k"
  have a: "a \<noteq> 0" "rb_p (h a) = par ?K" "hole h root ?K = (a, cf)" "ctx_at h root ?K" and tu: "tree_at h a (rb_c (h a) (\<not> sf)) u" using prems(1) by auto
  have ha: "rb_c (h' a) = rb_c (h a)" "rb_p (h' a) = (if rb_p (h a) = v then n else rb_p (h a))" using prems(4) [of a] by simp_all
  have rc: "rb_c (h' n) s = rb_c (h v) s" using prems(3) by simp
  have "h' x = h x" if "x \<in> set (nodes u)" for x
  proof -
    have "rb_p (h x) \<noteq> v" using tree_at_parent [OF tu that] prems(5) by auto
    then show ?thesis using prems(4) [of x] that by simp
  qed
  then have u: "tree_at h' a (rb_c (h' a) (\<not> sf)) u" using tu tree_at_cong [of u h' h] ha by simp
  have p: "rb_p (h' a) = par ?K' \<and> hole h' root' ?K' = (a, cf)"
  proof (cases kR rule: kside.cases)
    case 1
    then show ?thesis using a ha rc by simp
  next
    case (2 s2 c2 b w k2)
    have "rb_c (h' b) = rb_c (h b)" using prems(4) [of b] 2 by simp
    then show ?thesis using a ha prems(5) 2 by auto
  qed
  have "ctx_at h' root' ?K'" by (rule Cons.IH) (use a(4) prems rc in auto)
  then show ?case using u p a(1) f by simp
qed simp

lemma frames_append: "knodes (k @ k2) = knodes k \<union> knodes k2" "lefts (k @ k2) = lefts k2 @ lefts k" "rights (k @ k2) = rights k @ rights k2"
  by (induction k rule: knodes.induct) auto

lemma no_lefts: "\<forall>f\<in>set k. \<not> fst f \<Longrightarrow> lefts k = []"
  by (induction k rule: lefts.induct) auto

text \<open>The heap after the exchange of \<open>v\<close> with its successor \<open>sc\<close>: the successor stands where \<open>v\<close> stood, \<open>v\<close> hangs where the
  successor hung.\<close>

lemma detached_swapped:
  fixes t :: "'k rbtree" and kR k :: "frame list" and c :: bool and sc :: nat and L :: rbt
  defines "h \<equiv> rb_links t" and "K1 \<equiv> kR @ (True, c, sc, L) # k"
  assumes tr: "tree_at h 0 (rb_root t, False) (plug (Node cs Leaf sc rs) (kR @ (True, c, v, L) # k))"
    and di: "distinct (nodes (plug (Node cs Leaf sc rs) (kR @ (True, c, v, L) # k)))"
    and hs: "h' sc = (h v)\<lparr>rb_c := (if kR = [] then (rb_c (h v))(True := (v, cs)) else rb_c (h v))\<rparr>" and hv: "rb_c (h' v) = rb_c (h sc)"
    and hl: "\<And>x. x \<in> set (nodes L) \<Longrightarrow> h' x = (if x = rb_node (rb_c (h v) False) then (h x)\<lparr>rb_p := sc\<rparr> else h x)"
    and hr: "\<And>x. x \<in> knodes kR \<Longrightarrow> h' x = (if rb_p (h x) = v then (h x)\<lparr>rb_p := sc\<rparr> else h x)"
    and hrs: "\<And>x. x \<in> set (nodes rs) \<Longrightarrow> h' x = h x" and hk: "\<And>x. x \<in> knodes k \<Longrightarrow> h' x = set_link h k (sc, c) x"
    and r': "r' = new_root k sc (rb_root t)"
  shows "detached (t\<lparr>rb_links := h', rb_root := r'\<rparr>) v cs rs K1"
proof -
  have ctx0: "ctx_at h (rb_root t) (kR @ (True, c, v, L) # k)" and hole0: "hole h (rb_root t) (kR @ (True, c, v, L) # k) = (sc, cs)"
    and sc: "sc \<noteq> 0" "rb_c (h sc) False = rb_null" "tree_at h sc (rb_c (h sc) True) rs" using tr unfolding plug_tree_at by auto
  have "ctx_at h (rb_root t) (kR @ k2) \<Longrightarrow> ctx_at h (rb_root t) k2" for k2 by (induction kR) auto
  then have "ctx_at h (rb_root t) ((True, c, v, L) # k)" using ctx0 by blast
  then have v: "v \<noteq> 0" "rb_p (h v) = par k" "tree_at h v (rb_c (h v) False) L" "hole h (rb_root t) k = (v, c)" "ctx_at h (rb_root t) k" by auto
  have dn: "distinct (lefts k @ nodes L @ [v] @ lefts kR @ [sc] @ nodes rs @ rights kR @ rights k)" using di by (simp add: nodes_plug frames_append)
  then have d1: "kdistinct K1" "distinct (nodes rs)" "set (nodes rs) \<inter> knodes K1 = {}" 
    using plug_distinct [of rs K1] by (auto simp: nodes_plug frames_append K1_def)
  have vn: "v \<notin> knodes K1" "v \<notin> set (nodes rs)" "v \<notin> knodes kR" using dn by (auto simp: knodes_eq frames_append K1_def)
  have "distinct (nodes (plug Leaf k))" using dn by (auto simp: nodes_plug)
  then have dk: "kdistinct k" by (simp add: plug_distinct)
  have ck: "ctx_at h' r' k" using ctx_at_cong [of k h' "set_link h k (sc, c)" r'] hk set_link_ctx(1) [OF v(5) dk, of "(sc, c)" sc] r' by simp
  have hole: "hole h' r' k = (sc, c)"
    using set_link_ctx(2) [OF v(5) dk, of "(sc, c)" sc] hk par_in v(4) r' by (cases k rule: kside.cases) auto
  have tL: "tree_at h' sc (rb_c (h v) False) L" by (rule tree_at_reparent [OF v(3)]) (use dn hl in auto)
  have "ctx_at h' r' K1" unfolding K1_def
    by (rule ctx_move [OF ctx0]) (use sc v ck hole tL hs hr vn in auto)
  moreover have "rb_red (hole h' r' K1) = cs"
  proof (cases kR rule: kside.cases)
    case (2 s cf a u k2)
    have "rb_c (h' a) = rb_c (h a)" using hr [of a] 2 by simp
    then show ?thesis using hole0 2 by (simp add: K1_def rb_red_def)
  qed (simp add: K1_def hs rb_red_def)
  moreover have "tree_at h' sc (rb_c (h' v) True) rs" "rb_c (h' v) False = rb_null" using tree_at_cong [of rs h' h] hrs sc hv by simp_all
  ultimately show ?thesis unfolding detached_def using d1 vn v(1) by (auto intro!: exI [of _ sc] exI [of _ True])
qed

text \<open>The exchange as \<open>delete_node\<close> computes it, first for a successor that is the child of \<open>v\<close>, then for one further down.\<close>

lemma swap_link:
  assumes "ctx_at (rb_links t) (rb_root t) k" "hole (rb_links t) (rb_root t) k = (v, c)"
  shows "(if rb_some (par k, False) then set_c (par k, False) (kside k) (sc, rb_red (rb_child t (par k, False) (kside k))) t else t\<lparr>rb_root := sc\<rparr>)
    = t\<lparr>rb_links := set_link (rb_links t) k (sc, c), rb_root := new_root k sc (rb_root t)\<rparr>"
  using assms by (cases k rule: kside.cases) (auto simp: set_link_def set_c_def rb_child_def rb_ptr_defs)

lemma swap_child:
  assumes vs: "v \<noteq> sc" "v \<noteq> 0" and sp: "rb_p (rb_links t sc) = v" "rb_c (rb_links t v) True = (sc, cs)" and l: "rb_c (rb_links t v) False = (l, cl)" "l \<noteq> v" "l \<noteq> sc"
    and h1: "h1 v = rb_links t v" "h1 sc = rb_links t sc"
    and p: "(if rb_some p then set_c p side (sc, rb_red (rb_child t p side)) t else t\<lparr>rb_root := sc\<rparr>) = t\<lparr>rb_links := h1, rb_root := r1\<rparr>"
  shows "swap_succ v sc p side t = ((sc, False), True, t\<lparr>rb_links := h1(sc := (rb_links t v)\<lparr>rb_c := (rb_c (rb_links t v))(True := (v, cs))\<rparr>,
      v := (rb_links t sc)\<lparr>rb_p := sc\<rparr>, l := (h1 l)\<lparr>rb_p := sc\<rparr>), rb_root := r1\<rparr>)"
proof -
  have ss: "(sc = rb_node (rb_child t (rb_p (rb_links t sc), False) True)) = True" using sp by (simp add: rb_child_def rb_node_def)
  show ?thesis unfolding swap_succ_def Let_def p ss
    using vs l h1 sp by (simp add: swap_links_def rb_heap_defs rb_ptr_defs fun_upd_twist)
qed

lemma swap_down:
  assumes vs: "v \<noteq> sc" and sp: "rb_p (rb_links t sc) = q" "rb_node (rb_c (rb_links t q) True) \<noteq> sc"
    and r: "rb_c (rb_links t v) True = (r, cr)" "r \<noteq> v" "r \<noteq> sc" and l: "rb_c (rb_links t v) False = (l, cl)" "l \<noteq> v" "l \<noteq> sc" "l \<noteq> r"
    and h1: "h1 v = rb_links t v" "h1 sc = rb_links t sc"
    and p: "(if rb_some p then set_c p side (sc, rb_red (rb_child t p side)) t else t\<lparr>rb_root := sc\<rparr>) = t\<lparr>rb_links := h1, rb_root := r1\<rparr>"
  shows "swap_succ v sc p side t = ((q, False), False, t\<lparr>rb_links := h1(sc := rb_links t v, v := rb_links t sc,
      r := (h1 r)\<lparr>rb_p := sc\<rparr>, l := (h1 l)\<lparr>rb_p := sc\<rparr>), rb_root := r1\<rparr>)"
proof -
  have ss: "(sc = rb_node (rb_child t (rb_p (rb_links t sc), False) True)) = False" using sp by (simp add: rb_child_def rb_node_def)
  show ?thesis unfolding swap_succ_def Let_def p ss
    using vs l r h1 sp by (simp add: swap_links_def rb_heap_defs rb_ptr_defs)
qed

lemma plug_root: "k \<noteq> [] \<Longrightarrow> \<exists>c l a r. plug z k = Node c l a r \<and> a \<in> knodes k"
proof (induction z k rule: plug.induct)
  case (2 z s c a u k)
  then show ?case by (cases "k = []") (auto simp: mk_def)
qed simp

lemma right_top:
  assumes "tree_at h v x (plug z k)" "distinct (nodes (plug z k))" "v \<notin> set (nodes (plug z k))" "k \<noteq> []"
  shows "rb_node x \<in> knodes k" "y \<in> knodes k \<Longrightarrow> rb_p (h y) = v \<longleftrightarrow> y = rb_node x"
  using plug_root [OF assms(4), of z] tree_at_top [OF assms(1-3), of y] assms(1) by (auto simp: rb_node_def plug_nodes)

lemma swap_context:
  assumes tr: "tree_at h 0 (root, False) (plug (Node cs Leaf sc rs) (kR @ (True, c, v, L) # k))"
    and di: "distinct (nodes (plug (Node cs Leaf sc rs) (kR @ (True, c, v, L) # k)))"
  shows "v \<noteq> 0" "tree_at h v (rb_c (h v) False) L" "hole h root k = (v, c)" "ctx_at h root k" "tree_at h v (rb_c (h v) True) (plug (Node cs Leaf sc rs) kR)"
    "sc \<noteq> 0" "rb_p (h sc) = par (kR @ (True, c, v, L) # k)" "hole h root (kR @ (True, c, v, L) # k) = (sc, cs)" "ctx_at h root (kR @ (True, c, v, L) # k)"
    "distinct (lefts k @ nodes L @ [v] @ lefts kR @ [sc] @ nodes rs @ rights kR @ rights k)"
    "\<And>b. b \<notin> set (nodes (plug (Node cs Leaf sc rs) (kR @ (True, c, v, L) # k))) \<longleftrightarrow>
        b \<noteq> v \<and> b \<noteq> sc \<and> b \<notin> set (nodes L) \<and> b \<notin> set (nodes rs) \<and> b \<notin> knodes kR \<and> b \<notin> knodes k"
proof -
  have "tree_at h 0 (root, False) (plug (plug (Node cs Leaf sc rs) kR) ((True, c, v, L) # k))" using tr by (simp only: plug_append)
  then show "v \<noteq> 0" "tree_at h v (rb_c (h v) False) L" "hole h root k = (v, c)" "ctx_at h root k" "tree_at h v (rb_c (h v) True) (plug (Node cs Leaf sc rs) kR)"
    unfolding plug_tree_at by auto
  show "sc \<noteq> 0" "rb_p (h sc) = par (kR @ (True, c, v, L) # k)" "hole h root (kR @ (True, c, v, L) # k) = (sc, cs)" "ctx_at h root (kR @ (True, c, v, L) # k)"
    using tr unfolding plug_tree_at by auto
  show "distinct (lefts k @ nodes L @ [v] @ lefts kR @ [sc] @ nodes rs @ rights kR @ rights k)" using di by (simp add: nodes_plug frames_append)
  show "b \<notin> set (nodes (plug (Node cs Leaf sc rs) (kR @ (True, c, v, L) # k))) \<longleftrightarrow>
      b \<noteq> v \<and> b \<noteq> sc \<and> b \<notin> set (nodes L) \<and> b \<notin> set (nodes rs) \<and> b \<notin> knodes kR \<and> b \<notin> knodes k" for b
    by (simp only: plug_nodes frames_append knodes.simps nodes.simps) auto
qed

lemma swap_child_ok:
  fixes t :: "'k rbtree" and k :: "frame list" and c :: bool and sc :: nat and L :: rbt
  defines "h \<equiv> rb_links t" and "K0 v \<equiv> (True, c, v, L) # k"
  assumes tr: "tree_at h 0 (rb_root t, False) (plug (Node cs Leaf sc rs) (K0 v))"
    and di: "distinct (nodes (plug (Node cs Leaf sc rs) (K0 v)))" and L: "L \<noteq> Leaf"
  shows "\<exists>h' r'. swap_succ v sc (par k, False) (kside k) t = ((par (K0 sc), False), kside (K0 sc), t\<lparr>rb_links := h', rb_root := r'\<rparr>) \<and>
    detached (t\<lparr>rb_links := h', rb_root := r'\<rparr>) v cs rs (K0 sc) \<and> (\<forall>b. b \<notin> set (nodes (plug (Node cs Leaf sc rs) (K0 v))) \<longrightarrow> h' b = h b)"
proof -
  note sw = swap_context [where kR = "[]", unfolded append_Nil, OF tr [unfolded K0_def] di [unfolded K0_def], folded K0_def]
  obtain l cl where l: "rb_c (h v) False = (l, cl)" "l \<in> set (nodes L)" using sw(2) L by (cases L) auto
  have dn: "distinct (lefts k @ nodes L @ [v, sc] @ nodes rs @ rights k)" using sw(10) by simp
  define h1 r1 where "h1 = set_link h k (sc, c)" and "r1 = new_root k sc (rb_root t)"
  have off1: "h1 b = h b" if "b \<notin> knodes k" for b unfolding h1_def by (rule set_link_off [OF that])
  have nk: "v \<notin> knodes k" "sc \<notin> knodes k" "l \<notin> knodes k" "set (nodes L) \<inter> knodes k = {}" "set (nodes rs) \<inter> knodes k = {}"
    using dn l(2) by (auto simp: knodes_eq)
  note h1 = off1 [OF nk(1)] off1 [OF nk(2)] off1 [OF nk(3)]
  have ne: "v \<noteq> sc" "l \<noteq> v" "l \<noteq> sc" "v \<notin> set (nodes L)" "v \<notin> set (nodes rs)" "sc \<notin> set (nodes L)" "sc \<notin> set (nodes rs)" "l \<notin> set (nodes rs)" using dn l(2) by auto
  define h' where "h' = h1(sc := (h v)\<lparr>rb_c := (rb_c (h v))(True := (v, cs))\<rparr>, v := (h sc)\<lparr>rb_p := sc\<rparr>, l := (h1 l)\<lparr>rb_p := sc\<rparr>)"
  have "swap_succ v sc (par k, False) (kside k) t = ((sc, False), True, t\<lparr>rb_links := h', rb_root := r1\<rparr>)" unfolding h'_def h_def
    by (rule swap_child [where cl = cl])
      (use ne sw(1,7,8) l h1 in \<open>simp_all add: K0_def h_def h1_def r1_def swap_link [OF sw(4,3) [unfolded h_def]]\<close>)
  moreover have "detached (t\<lparr>rb_links := h', rb_root := r1\<rparr>) v cs rs ([] @ K0 sc)" unfolding K0_def
  proof (rule detached_swapped [where t = t, folded h_def])
    fix x
    show "x \<in> set (nodes L) \<Longrightarrow> h' x = (if x = rb_node (rb_c (h v) False) then (h x)\<lparr>rb_p := sc\<rparr> else h x)"
    proof -
      assume x: "x \<in> set (nodes L)"
      then have "x \<noteq> v" "x \<noteq> sc" "h1 x = h x" using ne nk(4) by (auto intro!: off1)
      then show ?thesis using l(1) by (auto simp: h'_def rb_node_def)
    qed
    show "x \<in> set (nodes rs) \<Longrightarrow> h' x = h x"
    proof -
      assume x: "x \<in> set (nodes rs)"
      then have "x \<noteq> v" "x \<noteq> sc" "x \<noteq> l" "h1 x = h x" using ne nk(5) by (auto intro!: off1)
      then show ?thesis by (simp add: h'_def)
    qed
    show "x \<in> knodes k \<Longrightarrow> h' x = set_link h k (sc, c) x" using nk by (auto simp: h'_def h1_def)
  qed (use tr di ne in \<open>simp_all add: K0_def h'_def r1_def\<close>)
  moreover have "\<forall>b. b \<notin> set (nodes (plug (Node cs Leaf sc rs) (K0 v))) \<longrightarrow> h' b = h b" using l(2) off1 unfolding sw(11) by (auto simp: h'_def)
  ultimately show ?thesis by (intro exI [of _ h'] exI [of _ r1]) (simp add: K0_def)
qed

lemma swap_down_ok:
  fixes t :: "'k rbtree" and kR k :: "frame list" and c :: bool and sc :: nat and L :: rbt
  defines "h \<equiv> rb_links t" and "K0 v \<equiv> kR @ (True, c, v, L) # k"
  assumes tr: "tree_at h 0 (rb_root t, False) (plug (Node cs Leaf sc rs) (K0 v))"
    and di: "distinct (nodes (plug (Node cs Leaf sc rs) (K0 v)))" and L: "L \<noteq> Leaf" and kR: "kR \<noteq> []" "\<forall>f\<in>set kR. \<not> fst f"
  shows "\<exists>h' r'. swap_succ v sc (par k, False) (kside k) t = ((par (K0 sc), False), kside (K0 sc), t\<lparr>rb_links := h', rb_root := r'\<rparr>) \<and>
    detached (t\<lparr>rb_links := h', rb_root := r'\<rparr>) v cs rs (K0 sc) \<and> (\<forall>b. b \<notin> set (nodes (plug (Node cs Leaf sc rs) (K0 v))) \<longrightarrow> h' b = h b)"
proof -
  let ?R = "plug (Node cs Leaf sc rs) kR"
  note sw = swap_context [OF tr [unfolded K0_def] di [unfolded K0_def], folded K0_def]
  have pk: "par (K0 b) = par kR" "kside (K0 b) = False" for b using kR by (cases kR rule: kside.cases; auto simp: K0_def)+
  obtain l cl where l: "rb_c (h v) False = (l, cl)" "l \<in> set (nodes L)" using sw(2) L by (cases L) auto
  obtain r cr where r: "rb_c (h v) True = (r, cr)" by (cases "rb_c (h v) True")
  have "distinct (nodes ?R)" "v \<notin> set (nodes ?R)" using sw(10) by (auto simp: nodes_plug)
  note top = right_top [OF sw(5) this kR(1), unfolded r rb_node_def fst_conv]
  have dj: "knodes kR \<inter> knodes k = {}" "v \<notin> knodes k \<union> knodes kR" "sc \<notin> knodes k \<union> knodes kR" "set (nodes L) \<inter> (knodes k \<union> knodes kR) = {}"
      "set (nodes rs) \<inter> (knodes k \<union> knodes kR) = {}" "v \<notin> set (nodes L)" "v \<notin> set (nodes rs)" "sc \<notin> set (nodes L)" "sc \<notin> set (nodes rs)"
      "set (nodes L) \<inter> set (nodes rs) = {}" "v \<noteq> sc" using sw(10) unfolding knodes_eq by auto
  have ne: "l \<noteq> v" "l \<noteq> sc" "l \<noteq> r" "r \<noteq> v" "r \<noteq> sc" "l \<notin> knodes k" "l \<notin> knodes kR" "r \<notin> knodes k" "r \<notin> set (nodes L)"
    using dj l(2) top(1) by auto
  define h1 r1 where "h1 = set_link h k (sc, c)" and "r1 = new_root k sc (rb_root t)"
  have off1: "h1 b = h b" if "b \<notin> knodes k" for b unfolding h1_def by (rule set_link_off [OF that])
  define h' where "h' = h1(sc := h v, v := h sc, r := (h1 r)\<lparr>rb_p := sc\<rparr>, l := (h1 l)\<lparr>rb_p := sc\<rparr>)"
  have hx: "h' x = (if x = l \<or> x = r then (h x)\<lparr>rb_p := sc\<rparr> else h x)" if "x \<notin> knodes k" "x \<noteq> v" "x \<noteq> sc" for x
    using that off1 [OF that(1)] by (auto simp: h'_def)
  have "find_child t (par (K0 v), False) sc = kside (K0 v)"
    by (rule find_child_side [where t = t, folded h_def, OF sw(9)]) (use sw(6,8) dj in \<open>auto simp: rb_node_def K0_def frames_append\<close>)
  moreover have "par kR \<noteq> 0" using ctx_par [OF sw(9)] pk(1) by (simp add: K0_def)
  ultimately have "rb_node (rb_c (h (par kR)) True) \<noteq> sc" unfolding pk by (simp add: find_child_def rb_child_def rb_some_def rb_node_def h_def)
  then have "swap_succ v sc (par k, False) (kside k) t = ((par kR, False), False, t\<lparr>rb_links := h', rb_root := r1\<rparr>)" unfolding h'_def h_def
    by (intro swap_down [where cr = cr and cl = cl])
      (use ne dj(2,3,11) sw(7) l r off1 pk in \<open>simp_all add: h_def h1_def r1_def swap_link [OF sw(4,3) [unfolded h_def]]\<close>)
  moreover have "detached (t\<lparr>rb_links := h', rb_root := r1\<rparr>) v cs rs (K0 sc)" unfolding K0_def
  proof (rule detached_swapped [where t = t, folded h_def])
    fix x
    show "h' x = (if x = rb_node (rb_c (h v) False) then (h x)\<lparr>rb_p := sc\<rparr> else h x)" if "x \<in> set (nodes L)"
      by (subst hx) (use that dj ne l(1) in \<open>auto simp: rb_node_def\<close>)
    show "h' x = (if rb_p (h x) = v then (h x)\<lparr>rb_p := sc\<rparr> else h x)" if "x \<in> knodes kR"
      by (subst hx) (use that dj ne top(2) [OF that] in auto)
    show "h' x = h x" if "x \<in> set (nodes rs)" by (subst hx) (use that dj l(2) top(1) in auto)
    show "h' x = set_link h k (sc, c) x" if "x \<in> knodes k" using that dj ne by (auto simp: h'_def h1_def)
  qed (use tr di ne dj(11) kR(1) in \<open>simp_all add: K0_def h'_def r1_def\<close>)
  moreover have "\<forall>b. b \<notin> set (nodes (plug (Node cs Leaf sc rs) (K0 v))) \<longrightarrow> h' b = h b" using l(2) top(1) hx unfolding sw(11) by auto
  ultimately show ?thesis using pk by (intro exI [of _ h'] exI [of _ r1]) simp
qed

subsection \<open>Erasing a node\<close>

definition erased :: "'k rbtree \<Rightarrow> nat list \<Rightarrow> nat \<Rightarrow> (nat \<times> 'k rbtree) option \<Rightarrow> bool" where
  "erased t ns v res \<longleftrightarrow> (\<exists>q h r T. res = Some (q, t\<lparr>rb_links := h, rb_root := r, rb_limit := (\<lambda>i. end_node i (nodes T))\<rparr>) \<and>
     tree_at h 0 (r, False) T \<and> rb_ok T \<and> nodes T = filter (\<lambda>b. b \<noteq> v) ns \<and> (\<forall>b. b \<notin> set ns \<longrightarrow> h b = rb_links t b))"

lemma filter_absent: "v \<notin> set xs \<Longrightarrow> filter (\<lambda>b. b \<noteq> v) xs = xs"
  by (induction xs) auto

lemma delete_single:
  assumes h: "rb_holds t (plug (Node c l v r) k)" and lr: "l = Leaf \<or> r = Leaf"
  shows "erased t (nodes (plug (Node c l v r) k)) v (delete_node v 0 t)"
proof -
  have "Node c l v r = mk False c l v Leaf \<or> Node c l v r = mk True c r v Leaf" using lr by (auto simp: mk_def)
  then obtain i y where m: "Node c l v r = mk i c y v Leaf" by blast
  have tr: "tree_at (rb_links t) 0 (rb_root t, False) (plug (Node c l v r) k)" "distinct (nodes (plug (Node c l v r) k))" using h by (simp_all add: rb_holds_def)
  note pl = place_of [OF tr]
  have d: "delete_node v 0 t = splice_out v (par k, False) (kside k) t" using pl lr unfolding delete_node_def Let_def by auto
  have "filter (\<lambda>b. b \<noteq> v) (nodes (plug (Node c l v r) k)) = lefts k @ nodes y @ rights k"
    using tr(2) unfolding m nodes_plug by (cases i) (auto simp: mk_def filter_absent)
  moreover have "set (lefts k @ nodes y @ rights k) \<subseteq> set (nodes (plug (Node c l v r) k))" unfolding m nodes_plug by (auto simp: mk_def)
  ultimately show ?thesis using erase_single [OF h [unfolded m]] unfolding erased_def d by (elim exE conjE) (auto intro!: exI)
qed

lemma kok_move: "kok b (kR @ (s, c, v, L) # k) = kok b (kR @ (s, c, n, L) # k)"
proof (induction kR arbitrary: b)
  case (Cons f kR)
  have "kcol (kR @ (s, c, v, L) # k) = kcol (kR @ (s, c, n, L) # k)" by (cases kR) auto
  then show ?case using Cons by (cases f) auto
qed simp

lemma end_node_cut: "A \<noteq> [] \<Longrightarrow> B \<noteq> [] \<Longrightarrow> end_node i (A @ v # B) = end_node i (A @ B) \<and> end_node i (A @ B) \<in> set (A @ B)"
  by (cases i) (auto simp: end_node_def)

lemma delete_double:
  assumes h: "rb_holds t (plug (Node c L v R) k)" and lr: "L \<noteq> Leaf" "R \<noteq> Leaf"
  shows "erased t (nodes (plug (Node c L v R) k)) v (delete_node v 0 t)"
proof -
  let ?T = "plug (Node c L v R) k" and ?h = "rb_links t"
  have T: "tree_at ?h 0 (rb_root t, False) ?T" "distinct (nodes ?T)" "rb_ok ?T" and lim: "\<And>i. rb_limit t i = end_node i (nodes ?T)" using h by (simp_all add: rb_holds_def)
  note pl = place_of [OF T(1,2)]
  have "tree_at ?h v (rb_c (?h v) True) R" using T(1) by (simp add: plug_tree_at)
  from leftmost_edge [OF this lr(2)] obtain kR cs sc rs where R: "R = plug (Node cs Leaf sc rs) kR" and kR: "\<forall>f\<in>set kR. \<not> fst f"
    and e: "edge_node t (rb_node (rb_c (?h v) True)) False = Some sc" by blast
  let ?K = "\<lambda>v. kR @ (True, c, v, L) # k" and ?N = "Node cs Leaf sc rs"
  have eq: "?T = plug ?N (?K v)" by (simp add: plug_append R mk_def)
  note T' = T [unfolded eq]
  have "\<exists>h' r'. swap_succ v sc (par k, False) (kside k) t = ((par (?K sc), False), kside (?K sc), t\<lparr>rb_links := h', rb_root := r'\<rparr>) \<and>
      detached (t\<lparr>rb_links := h', rb_root := r'\<rparr>) v cs rs (?K sc) \<and> (\<forall>b. b \<notin> set (nodes ?T) \<longrightarrow> h' b = ?h b)" unfolding eq
    using swap_down_ok [OF T'(1,2) lr(1) _ kR] swap_child_ok [of t cs sc rs c v L k] T'(1,2) lr(1) by (cases "kR = []") simp_all
  then obtain h' r' where sw: "swap_succ v sc (par k, False) (kside k) t = ((par (?K sc), False), kside (?K sc), t\<lparr>rb_links := h', rb_root := r'\<rparr>)"
    and d: "detached (t\<lparr>rb_links := h', rb_root := r'\<rparr>) v cs rs (?K sc)" and off: "\<forall>b. b \<notin> set (nodes ?T) \<longrightarrow> h' b = ?h b" by blast
  let ?t = "t\<lparr>rb_links := h', rb_root := r'\<rparr>" and ?A = "lefts k @ nodes L" and ?B = "sc # nodes rs @ rights kR @ rights k"
  have del: "delete_node v 0 t = splice_out v (par (?K sc), False) (kside (?K sc)) ?t"
    using pl lr e unfolding delete_node_def Let_def by (simp add: sw rb_child_def rb_node_def)
  have nT: "nodes ?T = ?A @ v # ?B" unfolding eq by (simp add: nodes_plug frames_append no_lefts [OF kR])
  have nK: "lefts (?K sc) @ nodes rs @ rights (?K sc) = ?A @ ?B" by (simp add: frames_append no_lefts [OF kR])
  have "?A \<noteq> []" using lr(1) by (cases L) auto
  then have en: "end_node i (?A @ v # ?B) = end_node i (?A @ ?B)" "end_node i (?A @ ?B) \<in> set (?A @ ?B)" for i using end_node_cut [of ?A ?B i v] by blast+
  have vn: "v \<notin> set (?A @ ?B)" using T(2) unfolding nT by auto
  have lim': "rb_limit ?t i = end_node i (?A @ ?B)" "rb_limit ?t i \<noteq> v" for i using lim [of i] en [of i] vn unfolding nT by auto
  have ok: "inv_h rs" "inv_c rs" "kok (if cs then bh rs else bh rs + 1) (?K sc)" "cs \<longrightarrow> \<not> col rs"
    using T'(3) unfolding plug_ok by (auto simp: kok_move [where v = sc and n = v])
  have "\<exists>h r T. splice_out v (par (?K sc), False) (kside (?K sc)) ?t = Some (par (?K sc), ?t\<lparr>rb_links := h, rb_root := r, rb_limit := (\<lambda>i. end_node i (nodes T))\<rparr>) \<and>
      tree_at h 0 (r, False) T \<and> rb_ok T \<and> nodes T = lefts (?K sc) @ nodes rs @ rights (?K sc) \<and> (\<forall>b. b \<notin> set (nodes T) \<longrightarrow> h b = rb_links ?t b)"
    by (rule splice_ok [OF d ok]) (use lim' nK in simp_all)
  then obtain h2 r2 T2 where s: "splice_out v (par (?K sc), False) (kside (?K sc)) ?t = Some (par (?K sc), t\<lparr>rb_links := h2, rb_root := r2, rb_limit := (\<lambda>i. end_node i (nodes T2))\<rparr>)"
    "tree_at h2 0 (r2, False) T2" "rb_ok T2" "nodes T2 = ?A @ ?B" "\<forall>b. b \<notin> set (nodes T2) \<longrightarrow> h2 b = h' b" unfolding nK by auto
  have "filter (\<lambda>b. b \<noteq> v) (?A @ v # ?B) = ?A @ ?B" using vn by (auto simp: filter_absent)
  moreover have "\<forall>b. b \<notin> set (?A @ v # ?B) \<longrightarrow> h2 b = ?h b" using s(5) off unfolding s(4) nT by simp
  ultimately show ?thesis unfolding erased_def del nT using s(1-4)
    by (intro exI [of _ "par (?K sc)"] exI [of _ h2] exI [of _ r2] exI [of _ T2]) simp
qed

lemma erase_ok:
  assumes "rb_holds t T" and "v \<in> set (nodes T)"
  shows "erased t (nodes T) v (erase v t)"
proof -
  obtain k c l r where T: "T = plug (Node c l v r) k" using node_context [OF assms(2)] by blast
  show ?thesis using delete_single [OF assms(1) [unfolded T]] delete_double [OF assms(1) [unfolded T]] unfolding T erase_def by blast
qed

text \<open>C14: \<open>erase\<close> on a node of the tree returns, and the tree object it leaves behind again stands for a balanced red-black tree whose
  in-order sequence of nodes is the old one without the erased node, with its root and both limits right. The keys do not change and
  neither do the links of any node outside the tree.\<close>

theorem rb_erase_correct:
  assumes "rb_holds t T" and "v \<in> set (nodes T)"
  shows "\<exists>q t' T'. erase v t = Some (q, t') \<and> rb_holds t' T' \<and> nodes T' = filter (\<lambda>b. b \<noteq> v) (nodes T) \<and> rb_key t' = rb_key t \<and>
    (\<forall>b. b \<notin> set (nodes T) \<longrightarrow> rb_links t' b = rb_links t b)"
proof -
  have "distinct (nodes T)" using assms(1) by (simp add: rb_holds_def)
  then show ?thesis using erase_ok [OF assms] unfolding erased_def by (elim exE conjE) (auto simp: rb_holds_def)
qed

theorem rb_erase_correct_witness: "\<exists>q t T. erase 20 ex_rb = Some (q, t) \<and> rb_holds t T \<and> nodes T = [10, 30]"
proof -
  have "20 \<in> set (nodes ex_tree)" by simp
  from rb_erase_correct [OF ex_rb_holds(1) this] obtain q t T where "erase 20 ex_rb = Some (q, t)" "rb_holds t T"
    "nodes T = filter (\<lambda>b. b \<noteq> 20) (nodes ex_tree)" by blast
  then show ?thesis by auto
qed

end
