(* ===== verification/Rb_Check.thy ===== *)
theory Rb_Check
  imports Rb_Erase
begin

text \<open>
  Walking the red-black tree: its size, the order of iteration, and the tree's own consistency check (\<open>size\<close>, \<open>empty\<close>,
  \<open>check\<close> and \<open>rbalgorithms\<close> of \<open>datatype/RBTreeInternal.hh\<close>).  A tree that is balanced and ordered passes the check, and the
  check returns its black height.
\<close>

subsection \<open>Size and consistency check\<close>

definition rb_empty :: "'k rbtree \<Rightarrow> bool" where
  "rb_empty t \<longleftrightarrow> rb_root t = 0"

partial_function (option) ptr_size :: "'k rbtree \<Rightarrow> rbnodeptr \<Rightarrow> nat option" where
  "ptr_size t x =
     Option.bind (if rb_some (rb_child t x False) then ptr_size t (rb_child t x False) else Some 0) (\<lambda>m.
     Option.bind (if rb_some (rb_child t x True) then ptr_size t (rb_child t x True) else Some 0) (\<lambda>n.
     Some (1 + m + n)))"

definition rb_size :: "'k rbtree \<Rightarrow> nat option" where
  "rb_size t = (if rb_root t \<noteq> 0 then ptr_size t (rb_root t, False) else Some 0)"

text \<open>The assertions \<open>check\<close> makes at one node, before it descends.\<close>

definition check_here :: "'k :: linorder rbtree \<Rightarrow> rbnodeptr \<Rightarrow> nat \<Rightarrow> nat \<Rightarrow> nat \<Rightarrow> bool" where
  "check_here t x parent begin end \<longleftrightarrow>
     rb_p (rb_links t (rb_node x)) = parent \<and>
     (parent = 0 \<or>
       (let cmp = default_compare (rb_key t (rb_node x)) (rb_key t parent)
        in if rb_node (rb_c (rb_links t parent) False) = rb_node x then cmp < 0 \<or> cmp = 0 \<and> rb_node x < parent
           else cmp > 0 \<or> cmp = 0 \<and> rb_node x > parent)) \<and>
     (rb_red x \<longrightarrow> \<not> rb_red (rb_child t x False) \<and> \<not> rb_red (rb_child t x True)) \<and>
     (begin \<noteq> 0 \<and> \<not> rb_some (rb_child t x False) \<longrightarrow> begin = rb_node x) \<and>
     (end \<noteq> 0 \<and> \<not> rb_some (rb_child t x True) \<longrightarrow> end = rb_node x)"

text \<open>The black height is passed by reference; a failed assertion is \<open>Some None\<close>.\<close>

definition leaf_height :: "int \<Rightarrow> int \<Rightarrow> int option" where
  "leaf_height this_height black_height =
     (if black_height = - 1 then Some this_height else if black_height = this_height then Some black_height else None)"

partial_function (option) ptr_check ::
    "'k :: linorder rbtree \<Rightarrow> rbnodeptr \<Rightarrow> nat \<Rightarrow> int \<Rightarrow> int \<Rightarrow> nat \<Rightarrow> nat \<Rightarrow> int option option" where
  "ptr_check t x parent this_height black_height begin end =
     (if \<not> check_here t x parent begin end then Some None
      else let this_height = (if rb_red x then this_height else this_height + 1)
           in Option.bind
                (if rb_some (rb_child t x False) then ptr_check t (rb_child t x False) (rb_node x) this_height black_height begin 0
                 else Some (leaf_height this_height black_height)) (\<lambda>h.
                if h = None then Some None
                else if rb_some (rb_child t x True) then ptr_check t (rb_child t x True) (rb_node x) this_height (the h) 0 end
                else Some (leaf_height this_height (the h))))"

definition rb_check :: "'k :: linorder rbtree \<Rightarrow> int option option" where
  "rb_check t =
     (if rb_root t \<noteq> 0 then ptr_check t (rb_root t, False) 0 0 (- 1) (rb_limit t False) (rb_limit t True)
      else if rb_limit t False = 0 \<and> rb_limit t True = 0 then Some (Some (- 1)) else Some None)"

lemma ptr_size_nodes: "tree_at (rb_links t) q x T \<Longrightarrow> T \<noteq> Leaf \<Longrightarrow> ptr_size t x = Some (length (nodes T))"
proof (induction T arbitrary: q x)
  case (Node c l a r)
  have x: "x = (a, c)" and lr: "tree_at (rb_links t) a (rb_c (rb_links t a) False) l" "tree_at (rb_links t) a (rb_c (rb_links t a) True) r"
    using Node.prems by auto
  have "(if rb_some (rb_c (rb_links t a) False) then ptr_size t (rb_c (rb_links t a) False) else Some 0) = Some (length (nodes l))"
    using Node.IH(1) [OF lr(1)] tree_at_Leaf [OF lr(1)] by (cases "l = Leaf") auto
  moreover have "(if rb_some (rb_c (rb_links t a) True) then ptr_size t (rb_c (rb_links t a) True) else Some 0) = Some (length (nodes r))"
    using Node.IH(2) [OF lr(2)] tree_at_Leaf [OF lr(2)] by (cases "r = Leaf") auto
  ultimately have "ptr_size t (a, c) = Some (1 + length (nodes l) + length (nodes r))"
    by (subst ptr_size.simps) (simp only: rb_child_def rb_node_def fst_conv bind.bind_lunit)
  then show ?case by (simp add: x)
qed simp

lemma check_here_passes:
  assumes tr: "tree_at (rb_links t) q x (Node c l a r)" and c: "inv_c (Node c l a r)"
    and ord: "q \<noteq> 0 \<Longrightarrow> if rb_node (rb_c (rb_links t q) False) = rb_node x then rb_key t (rb_node x) < rb_key t q else rb_key t q < rb_key t (rb_node x)"
    and lim: "b \<noteq> 0 \<Longrightarrow> b = hd (nodes l @ a # nodes r)" "e \<noteq> 0 \<Longrightarrow> e = last (nodes l @ a # nodes r)"
  shows "check_here t x q b e"
proof -
  let ?h = "rb_links t"
  have x: "x = (a, c)" "rb_p (?h a) = q" and lr: "tree_at ?h a (rb_c (?h a) False) l" "tree_at ?h a (rb_c (?h a) True) r" using tr by auto
  have red: "rb_red (rb_c (?h a) False) = col l" "rb_red (rb_c (?h a) True) = col r" using tree_at_col lr by blast+
  have "q = 0 \<or> (let cmp = default_compare (rb_key t a) (rb_key t q)
        in if rb_node (rb_c (?h q) False) = a then cmp < 0 \<or> cmp = 0 \<and> a < q else cmp > 0 \<or> cmp = 0 \<and> a > q)"
    using ord by (cases "q = 0"; cases "rb_node (rb_c (?h q) False) = a") (simp_all add: x rb_node_def default_compare_def)
  moreover have "b \<noteq> 0 \<and> \<not> rb_some (rb_c (?h a) False) \<longrightarrow> b = a" using lim(1) tree_at_Leaf [OF lr(1)] by (cases l) auto
  moreover have "e \<noteq> 0 \<and> \<not> rb_some (rb_c (?h a) True) \<longrightarrow> e = a" using lim(2) tree_at_Leaf [OF lr(2)] by (cases r) auto
  moreover have "c \<longrightarrow> \<not> col l \<and> \<not> col r" using c by simp
  ultimately show ?thesis unfolding check_here_def rb_child_def red x rb_node_def fst_conv by (simp add: rb_red_def x)
qed

lemma ptr_check_passes:
  assumes "tree_at (rb_links t) q x T" "T \<noteq> Leaf" "inv_h T" "inv_c T" "sorted_keys t T"
    and "q \<noteq> 0 \<Longrightarrow> if rb_node (rb_c (rb_links t q) False) = rb_node x then rb_key t (rb_node x) < rb_key t q else rb_key t q < rb_key t (rb_node x)"
    and "b \<noteq> 0 \<Longrightarrow> b = hd (nodes T)" "e \<noteq> 0 \<Longrightarrow> e = last (nodes T)" "bl = - 1 \<or> bl = n + int (bh T)" "n \<ge> 0"
  shows "ptr_check t x q n bl b e = Some (Some (n + int (bh T)))"
  using assms
proof (induction T arbitrary: q x n bl b e)
  case (Node c l a r)
  let ?h = "rb_links t" and ?n = "if c then n else n + 1"
  have x: "x = (a, c)" "a \<noteq> 0" "rb_p (?h a) = q" and lr: "tree_at ?h a (rb_c (?h a) False) l" "tree_at ?h a (rb_c (?h a) True) r" using Node.prems(1) by auto
  have here: "check_here t x q b e" by (rule check_here_passes [OF Node.prems(1,4,6)]) (use Node.prems(7,8) in simp_all)
  have inv: "inv_h l" "inv_h r" "inv_c l" "inv_c r" "bh l = bh r" "sorted_keys t l" "sorted_keys t r" using Node.prems(3-5) by (simp_all add: sorted_wrt_append)
  have lt: "\<And>z. z \<in> set (nodes l) \<Longrightarrow> rb_key t z < rb_key t a" "\<And>z. z \<in> set (nodes r) \<Longrightarrow> rb_key t a < rb_key t z"
    using Node.prems(5) by (simp_all add: sorted_wrt_append)
  have top: "u \<noteq> Leaf \<Longrightarrow> tree_at ?h a y u \<Longrightarrow> rb_node y \<in> set (nodes u)" "u \<noteq> Leaf \<Longrightarrow> nodes u \<noteq> []" for u y by (cases u; auto simp: rb_node_def)+
  have bh: "n + int (bh (Node c l a r)) = ?n + int (bh l)" by simp
  have l: "(if rb_some (rb_c (?h a) False) then ptr_check t (rb_c (?h a) False) a ?n bl b 0 else Some (leaf_height ?n bl)) = Some (Some (?n + int (bh l)))"
  proof (cases "l = Leaf")
    case True
    then show ?thesis using tree_at_Leaf [OF lr(1)] Node.prems(9) by (auto simp: leaf_height_def)
  next
    case False
    have "ptr_check t (rb_c (?h a) False) a ?n bl b 0 = Some (Some (?n + int (bh l)))"
      by (rule Node.IH(1) [OF lr(1) False inv(1,3,6)]) (use Node.prems(7,9,10) top [OF False] lt lr(1) bh False in \<open>auto simp: hd_append\<close>)
    then show ?thesis using tree_at_Leaf [OF lr(1)] False by simp
  qed
  have r: "(if rb_some (rb_c (?h a) True) then ptr_check t (rb_c (?h a) True) a ?n (?n + int (bh l)) 0 e else Some (leaf_height ?n (?n + int (bh l)))) = Some (Some (?n + int (bh l)))"
  proof (cases "r = Leaf")
    case True
    then show ?thesis using tree_at_Leaf [OF lr(2)] inv(5) by (auto simp: leaf_height_def)
  next
    case False
    have k: "rb_key t a < rb_key t (rb_node (rb_c (?h a) True))" using lt(2) top(1) [OF False lr(2)] by blast
    have "rb_node (rb_c (?h a) False) \<noteq> rb_node (rb_c (?h a) True)"
    proof (cases "l = Leaf")
      case True
      have "rb_node (rb_c (?h a) True) \<noteq> 0" using top(1) [OF False lr(2)] tree_at_pos [OF lr(2)] by metis
      then show ?thesis using lr(1) True by (simp add: rb_node_def)
    next
      case l: False
      then show ?thesis using lt(1) [OF top(1) [OF l lr(1)]] k by auto
    qed
    then have "ptr_check t (rb_c (?h a) True) a ?n (?n + int (bh l)) 0 e = Some (Some (?n + int (bh r)))"
      by (intro Node.IH(2) [OF lr(2) False inv(2,4,7)]) (use Node.prems(8,10) top(2) [OF False] k inv(5) in auto)
    then show ?thesis using tree_at_Leaf [OF lr(2)] False inv(5) by simp
  qed
  show ?case unfolding bh x(1)
    by (subst ptr_check.simps) (simp only: here [unfolded x(1)] rb_child_def rb_node_def rb_red_def fst_conv snd_conv Let_def l r bind.bind_lunit option.sel
      option.simps simp_thms if_False)
qed simp

lemma root_Leaf: "tree_at h 0 (r, False) T \<Longrightarrow> r = 0 \<longleftrightarrow> T = Leaf"
  by (cases T) auto

text \<open>C28: A tree object that stands for a balanced tree ordered by its keys passes the tree's own consistency check, which asserts the parent
  links, the order of every node against its parent, the colours, both limits and equal black heights; the check returns the black height.
  \<open>size\<close> then is the number of nodes and \<open>empty\<close> says whether there are any.\<close>

theorem rb_check_passes:
  assumes "rb_holds t T" "sorted_keys t T"
  shows "rb_check t = Some (Some (if T = Leaf then - 1 else int (bh T))) \<and> rb_size t = Some (length (nodes T)) \<and> (rb_empty t \<longleftrightarrow> nodes T = [])"
proof -
  have T: "tree_at (rb_links t) 0 (rb_root t, False) T" "inv_h T" "inv_c T" and lim: "\<And>s. rb_limit t s = end_node s (nodes T)"
    using assms(1) by (simp_all add: rb_holds_def rb_ok_def)
  show ?thesis
  proof (cases "T = Leaf")
    case True
    then show ?thesis using root_Leaf [OF T(1)] lim by (simp add: rb_check_def rb_size_def rb_empty_def end_node_def)
  next
    case False
    have ne: "nodes T \<noteq> []" using False by (cases T) auto
    have "ptr_check t (rb_root t, False) 0 0 (- 1) (rb_limit t False) (rb_limit t True) = Some (Some (0 + int (bh T)))"
      by (rule ptr_check_passes [OF T(1) False T(2,3) assms(2)]) (use lim ne in \<open>simp_all add: end_node_def\<close>)
    then show ?thesis using False ne root_Leaf [OF T(1)] ptr_size_nodes [OF T(1) False] by (simp add: rb_check_def rb_size_def rb_empty_def)
  qed
qed

subsection \<open>Iteration\<close>

lemma edge_end: "tree_at (rb_links t) q x T \<Longrightarrow> T \<noteq> Leaf \<Longrightarrow> edge_node t (rb_node x) s = Some (end_node s (nodes T))"
proof (induction T arbitrary: q x)
  case (Node c l a r)
  let ?T = "if s then r else l"
  have x: "rb_node x = a" and tr: "tree_at (rb_links t) a (rb_c (rb_links t a) s) ?T" using Node.prems by (cases s; auto simp: rb_node_def)+
  show ?case
  proof (cases "?T = Leaf")
    case True
    then have "edge_node t a s = Some a" using tr by (subst edge_node.simps) (simp add: rb_some_def)
    then show ?thesis using True x by (cases s) (auto simp: end_node_def)
  next
    case False
    have "edge_node t a s = edge_node t (rb_node (rb_c (rb_links t a) s)) s" using tree_at_Leaf [OF tr] False by (subst edge_node.simps) (simp add: Let_def)
    moreover have "edge_node t (rb_node (rb_c (rb_links t a) s)) s = Some (end_node s (nodes ?T))" using Node.IH tr False by (cases s) auto
    moreover have "nodes ?T \<noteq> []" using False by (cases ?T) auto
    then have "end_node s (nodes ?T) = end_node s (nodes (Node c l a r))" by (cases s) (auto simp: end_node_def)
    ultimately show ?thesis using x by simp
  qed
qed simp

lemma climb_end:
  assumes "ctx_at (rb_links t) (rb_root t) k" "rb_node (hole (rb_links t) (rb_root t) k) = v" "rb_p (rb_links t v) = par k" "kdistinct k" "v \<notin> knodes k" "v \<noteq> 0"
  shows "climb t v s = Some (end_node (\<not> s) (if s then rights k else lefts k))"
  using assms
proof (induction k arbitrary: v)
  case Nil
  then show ?case by (subst climb.simps) (simp add: end_node_def)
next
  case (Cons f k)
  let ?h = "rb_links t"
  obtain sd c a u where f: "f = (sd, c, a, u)" by (cases f)
  note pr = Cons.prems [unfolded f]
  have a: "a \<noteq> 0" "rb_p (?h a) = par k" "tree_at ?h a (rb_c (?h a) (\<not> sd)) u" "hole ?h (rb_root t) k = (a, c)" "ctx_at ?h (rb_root t) k"
    and v: "rb_node (rb_c (?h a) sd) = v" "rb_p (?h v) = a" "v \<notin> set (nodes u)" using pr by auto
  have nv: "rb_node (rb_c (?h a) (\<not> sd)) \<noteq> v" using tree_at_node [OF a(3)] v(3) pr(6) by auto
  show ?case
  proof (cases "sd = s")
    case True
    have "climb t v s = climb t a s" using v a(1) nv True by (subst climb.simps) (simp add: Let_def)
    also have "\<dots> = Some (end_node (\<not> s) (if s then rights k else lefts k))"
      by (rule Cons.IH) (use a pr in \<open>auto simp: rb_node_def\<close>)
    finally show ?thesis using True by (simp add: f)
  next
    case False
    then have "climb t v s = Some a" using v by (subst climb.simps) (simp add: Let_def)
    then show ?thesis using False by (cases s) (auto simp: f end_node_def)
  qed
qed

lemma step_node_end:
  assumes tr: "tree_at (rb_links t) 0 (rb_root t, False) (plug (Node c l v r) k)" and di: "distinct (nodes (plug (Node c l v r) k))"
  shows "step_node t v s = Some (end_node (\<not> s) (if s then nodes r @ rights k else lefts k @ nodes l))"
proof -
  let ?u = "if s then r else l" and ?y = "rb_c (rb_links t v) s"
  have c: "ctx_at (rb_links t) (rb_root t) k" "hole (rb_links t) (rb_root t) k = (v, c)" "v \<noteq> 0" "rb_p (rb_links t v) = par k" and u: "tree_at (rb_links t) v ?y ?u"
    using tr unfolding plug_tree_at by (cases s; auto)+
  show ?thesis
  proof (cases "?u = Leaf")
    case True
    have "climb t v s = Some (end_node (\<not> s) (if s then rights k else lefts k))"
      by (rule climb_end) (use c di in \<open>auto simp: rb_node_def plug_distinct\<close>)
    then show ?thesis using True tree_at_Leaf [OF u] by (cases s) (auto simp: step_node_def Let_def)
  next
    case False
    have "nodes ?u \<noteq> []" using False by (cases ?u) auto
    then have "end_node (\<not> s) (nodes ?u) = end_node (\<not> s) (if s then nodes r @ rights k else lefts k @ nodes l)" by (cases s) (auto simp: end_node_def)
    then show ?thesis using edge_end [OF u False, of "\<not> s"] tree_at_Leaf [OF u] False by (simp add: step_node_def Let_def)
  qed
qed

text \<open>Iteration follows the order of the tree: from the node at position \<open>i\<close> the next node is the one at position \<open>i + 1\<close> and the
  previous one that at \<open>i - 1\<close>, and the iteration ends with the null pointer at either side.\<close>

theorem rb_iteration_in_order:
  assumes "rb_holds t T" "i < length (nodes T)"
  shows "next_node t (nodes T ! i) = Some (if i + 1 < length (nodes T) then nodes T ! (i + 1) else 0) \<and>
    prev_node t (nodes T ! i) = Some (if i = 0 then 0 else nodes T ! (i - 1))"
proof -
  have T: "tree_at (rb_links t) 0 (rb_root t, False) T" "distinct (nodes T)" using assms(1) by (simp_all add: rb_holds_def)
  obtain k c l r where e: "T = plug (Node c l (nodes T ! i) r) k" using node_context [OF nth_mem [OF assms(2)]] by blast
  let ?v = "nodes T ! i" and ?A = "lefts k @ nodes l" and ?B = "nodes r @ rights k"
  have n: "nodes T = ?A @ ?v # ?B" by (subst e) (simp add: nodes_plug)
  have "nodes T ! length ?A = ?v" by (subst n) (simp only: nth_append_length)
  moreover have "length ?A < length (nodes T)" by (subst n) simp
  ultimately have i: "i = length ?A" using nth_eq_iff_index_eq [OF T(2)] assms(2) by metis
  have st: "step_node t ?v s = Some (end_node (\<not> s) (if s then ?B else ?A))" for s
    by (rule step_node_end [where c = c]) (use T e in metis)+
  have "end_node False ?B = (if i + 1 < length (nodes T) then nodes T ! (i + 1) else 0)" unfolding i by (subst n, subst n) (cases ?B; simp add: end_node_def nth_append)
  moreover have "end_node True ?A = (if i = 0 then 0 else nodes T ! (i - 1))" unfolding i by (subst n) (cases ?A rule: rev_cases; simp add: end_node_def nth_append)
  ultimately show ?thesis using st [of True] st [of False] by (simp add: next_node_def prev_node_def)
qed

theorem rb_check_passes_witness: "rb_check ex_rb = Some (Some 1) \<and> rb_size ex_rb = Some 3 \<and> \<not> rb_empty ex_rb"
  using rb_check_passes [OF ex_rb_holds] by simp

theorem rb_iteration_in_order_witness: "next_node ex_rb 10 = Some 20 \<and> prev_node ex_rb 10 = Some 0"
proof -
  have "0 < length (nodes ex_tree)" by simp
  then show ?thesis using rb_iteration_in_order [OF ex_rb_holds(1), of 0] by simp
qed

end
