(* ===== verification/Rb_Store.thy ===== *)
theory Rb_Store
  imports Rb_Check
begin

text \<open>
  The map on top of the red-black tree, as far as it does not need a transaction: the \<open>nontrans_\<close> methods of
  \<open>datatype/RBTree.hh\<close>.  They lock the tree, look a key up, and insert or erase a node.  The functions of \<open>TransactionTid\<close> that
  the class calls for its tree lock are not declared in the sources; they and the allocator are parameters.
\<close>

subsection \<open>The object\<close>

text \<open>\<open>rm_live\<close> are the addresses of the nodes that are allocated.\<close>

record ('k, 'v) rbmap =
  wrapper_tree :: "'k rbtree"
  rm_val :: "nat \<Rightarrow> 'v"
  rm_size :: u64
  rm_sizeversion :: u64
  treelock :: u64
  rm_live :: "nat list"

record tree_lock_api =
  api_lock_write :: "u64 \<Rightarrow> u64 option"
  api_inc_write_version :: "u64 \<Rightarrow> u64"
  api_unlock_write :: "u64 \<Rightarrow> u64"

definition tree_lock_write :: "tree_lock_api \<Rightarrow> ('k, 'v) rbmap \<Rightarrow> ('k, 'v) rbmap option" where
  "tree_lock_write A s = map_option (\<lambda>l. s\<lparr>treelock := l\<rparr>) (api_lock_write A (treelock s))"

definition tree_unlock_write :: "tree_lock_api \<Rightarrow> ('k, 'v) rbmap \<Rightarrow> ('k, 'v) rbmap" where
  "tree_unlock_write A s = s\<lparr>treelock := api_unlock_write A (api_inc_write_version A (treelock s))\<rparr>"

definition is_inserted :: "u64 \<Rightarrow> bool" where
  "is_inserted v \<longleftrightarrow> and v user_bit \<noteq> 0"

definition erase_inserted :: "u64 \<Rightarrow> u64" where
  "erase_inserted v = and v (not user_bit)"

text \<open>The constructor of a pair in a node: key, value and the two versions, the first with the insert bit.\<close>

definition new_pair :: "nat \<Rightarrow> 'k \<Rightarrow> 'v \<Rightarrow> ('k, 'v) rbmap \<Rightarrow> ('k, 'v) rbmap" where
  "new_pair n key val s =
     (let t = wrapper_tree s
      in s\<lparr>wrapper_tree := t\<lparr>rb_key := (rb_key t)(n := key), rb_vers := (rb_vers t)(n := initialized_tid + user_bit),
             rb_nodevers := (rb_nodevers t)(n := initialized_tid)\<rparr>, rm_val := (rm_val s)(n := val), rm_live := n # rm_live s\<rparr>)"

definition rbtree_init :: "(nat \<Rightarrow> rblinks) \<Rightarrow> (nat \<Rightarrow> 'k) \<Rightarrow> 'k rbtree" where
  "rbtree_init h key = \<lparr>rb_links = h, rb_key = key, rb_vers = (\<lambda>_. 0), rb_nodevers = (\<lambda>_. 0), rb_root = 0, rb_limit = (\<lambda>_. 0),
     rb_treeversion = initialized_tid\<rparr>"

definition rbmap_init :: "(nat \<Rightarrow> rblinks) \<Rightarrow> (nat \<Rightarrow> 'k) \<Rightarrow> (nat \<Rightarrow> 'v) \<Rightarrow> ('k, 'v) rbmap" where
  "rbmap_init h key val =
     \<lparr>wrapper_tree = rbtree_init h key, rm_val = val, rm_size = 0, rm_sizeversion = 0, treelock = 0, rm_live = []\<rparr>"

subsection \<open>Methods\<close>

definition nontrans_insert :: "(nat list \<Rightarrow> nat) \<Rightarrow> tree_lock_api \<Rightarrow> 'k :: linorder \<Rightarrow> 'v \<Rightarrow> ('k, 'v) rbmap \<Rightarrow> (bool \<times> ('k, 'v) rbmap) option" where
  "nontrans_insert malloc A key val s =
     (case tree_lock_write A s of
        None \<Rightarrow> None
      | Some s \<Rightarrow>
          (case find_or_parent key (wrapper_tree s) of
             None \<Rightarrow> None
           | Some (p, found) \<Rightarrow>
               if found then Some (False, tree_unlock_write A s)
               else let s = s\<lparr>rm_size := rm_size s + 1\<rparr>;
                        n = malloc (rm_live s);
                        s = new_pair n key val s;
                        t = wrapper_tree s;
                        t = t\<lparr>rb_vers := (rb_vers t)(n := erase_inserted (rb_vers t n))\<rparr>;
                        side = (if rb_node p = 0 then False else node_compare t n (rb_node p) > 0)
                    in map_option (\<lambda>t. (True, tree_unlock_write A (s\<lparr>wrapper_tree := t\<rparr>))) (insert_commit n p side t)))"

text \<open>The lookup is retried while the tree is locked; no other thread runs in between.\<close>

partial_function (option) verified_lookup ::
    "'k :: linorder \<Rightarrow> ('k, 'v) rbmap \<Rightarrow> (nat \<times> u64 \<times> bool \<times> node_info \<times> node_info) option" where
  "verified_lookup key s = (if is_locked (treelock s) then verified_lookup key s else find_any key (wrapper_tree s))"

definition nontrans_contains :: "'k :: linorder \<Rightarrow> ('k, 'v) rbmap \<Rightarrow> bool option" where
  "nontrans_contains key s = map_option (\<lambda>(x, ver, found, b). found) (verified_lookup key s)"

text \<open>\<open>d\<close> is the value \<open>T()\<close>.\<close>

definition rb_nontrans_find :: "'v \<Rightarrow> 'k :: linorder \<Rightarrow> ('k, 'v) rbmap \<Rightarrow> 'v option" where
  "rb_nontrans_find d key s = map_option (\<lambda>(x, ver, found, b). if found then rm_val s x else d) (verified_lookup key s)"

definition nontrans_find_to :: "'k :: linorder \<Rightarrow> 'v \<Rightarrow> ('k, 'v) rbmap \<Rightarrow> (bool \<times> 'v) option" where
  "nontrans_find_to key val s = map_option (\<lambda>(x, ver, found, b). (found, if found then rm_val s x else val)) (verified_lookup key s)"

definition nontrans_remove_to :: "tree_lock_api \<Rightarrow> 'k :: linorder \<Rightarrow> 'v \<Rightarrow> ('k, 'v) rbmap \<Rightarrow> ((bool \<times> 'v) \<times> ('k, 'v) rbmap) option" where
  "nontrans_remove_to A key oldval s =
     (case tree_lock_write A s of
        None \<Rightarrow> None
      | Some s \<Rightarrow>
          (case find_any key (wrapper_tree s) of
             None \<Rightarrow> None
           | Some (n, ver, found, b) \<Rightarrow>
               if found
               then let s = s\<lparr>rm_size := rm_size s - 1\<rparr>;
                        oldval = rm_val s n
                    in map_option (\<lambda>(q, t). ((True, oldval), tree_unlock_write A (s\<lparr>wrapper_tree := t, rm_live := removeAll n (rm_live s)\<rparr>)))
                         (erase n (wrapper_tree s))
               else Some ((False, oldval), tree_unlock_write A s)))"

definition nontrans_remove :: "tree_lock_api \<Rightarrow> 'k :: linorder \<Rightarrow> ('k, 'v) rbmap \<Rightarrow> (bool \<times> ('k, 'v) rbmap) option" where
  "nontrans_remove A key s =
     (case tree_lock_write A s of
        None \<Rightarrow> None
      | Some s \<Rightarrow>
          (case find_any key (wrapper_tree s) of
             None \<Rightarrow> None
           | Some (n, ver, found, b) \<Rightarrow>
               if found
               then let s = s\<lparr>rm_size := rm_size s - 1\<rparr>
                    in map_option (\<lambda>(q, t). (True, tree_unlock_write A (s\<lparr>wrapper_tree := t, rm_live := removeAll n (rm_live s)\<rparr>)))
                         (erase n (wrapper_tree s))
               else Some (False, tree_unlock_write A s)))"

subsection \<open>What the object stands for\<close>

definition malloc_ok :: "(nat list \<Rightarrow> nat) \<Rightarrow> bool" where
  "malloc_ok malloc \<longleftrightarrow> (\<forall>xs. malloc xs \<noteq> 0 \<and> malloc xs \<notin> set xs)"

definition lock_ok :: "tree_lock_api \<Rightarrow> bool" where
  "lock_ok A \<longleftrightarrow> (\<forall>v. \<not> is_locked v \<longrightarrow> (\<exists>l. api_lock_write A v = Some l \<and> \<not> is_locked (api_unlock_write A (api_inc_write_version A l))))"

definition holds_map :: "('k :: linorder, 'v) rbmap \<Rightarrow> rbt \<Rightarrow> ('k \<rightharpoonup> 'v) \<Rightarrow> bool" where
  "holds_map s T m \<longleftrightarrow> rb_holds (wrapper_tree s) T \<and> sorted_keys (wrapper_tree s) T \<and> set (rm_live s) = set (nodes T) \<and>
     rm_size s = of_nat (length (nodes T)) \<and>
     (\<forall>k v. m k = Some v \<longleftrightarrow> (\<exists>a\<in>set (nodes T). rb_key (wrapper_tree s) a = k \<and> rm_val s a = v))"

definition stands_for :: "('k :: linorder, 'v) rbmap \<Rightarrow> ('k \<rightharpoonup> 'v) \<Rightarrow> bool" where
  "stands_for s m \<longleftrightarrow> \<not> is_locked (treelock s) \<and> (\<exists>T. holds_map s T m)"

lemma lock_unlock:
  assumes "lock_ok A" "\<not> is_locked (treelock s)"
  obtains l where "tree_lock_write A s = Some (s\<lparr>treelock := l\<rparr>)" "\<not> is_locked (api_unlock_write A (api_inc_write_version A l))"
  using assms by (auto simp: lock_ok_def tree_lock_write_def)

lemma unlocked_stands:
  "holds_map s T m \<Longrightarrow> \<not> is_locked (api_unlock_write A (api_inc_write_version A l)) \<Longrightarrow> stands_for (tree_unlock_write A (s\<lparr>treelock := l\<rparr>)) m"
  by (auto simp: stands_for_def holds_map_def tree_unlock_write_def)

lemma find_any_map:
  assumes "holds_map s T m"
  obtains n ver b where "find_any key (wrapper_tree s) = Some (n, ver, m key \<noteq> None, b)"
    "\<And>v. m key = Some v \<Longrightarrow> n \<in> set (nodes T) \<and> rb_key (wrapper_tree s) n = key \<and> rm_val s n = v"
proof -
  let ?t = "wrapper_tree s"
  have h: "rb_holds ?t T" "sorted_keys ?t T" and m: "\<And>k v. m k = Some v \<longleftrightarrow> (\<exists>a\<in>set (nodes T). rb_key ?t a = k \<and> rm_val s a = v)"
    using assms by (simp_all add: holds_map_def)
  from h show ?thesis
  proof (cases rule: search_ok [where key = key])
    case (hit k c l a r)
    have "a \<in> set (nodes T)" by (simp add: hit(1) plug_nodes)
    then have "m key = Some (rm_val s a)" using m hit(2) by auto
    then show ?thesis using that hit \<open>a \<in> set (nodes T)\<close> by (simp add: find_any_def Let_def rb_node_def)
  next
    case (miss k cmp)
    have "m key = None" using m filter_plug(3) [OF miss(2)] unfolding miss(1) by (cases "m key") auto
    then show ?thesis using that miss(4) by (simp add: find_any_def Let_def rb_node_def)
  qed
qed

lemma lookup_map:
  assumes "stands_for s m"
  obtains n ver b where "verified_lookup key s = Some (n, ver, m key \<noteq> None, b)" "\<And>v. m key = Some v \<Longrightarrow> rm_val s n = v"
proof -
  obtain T where T: "holds_map s T m" and l: "\<not> is_locked (treelock s)" using assms by (auto simp: stands_for_def)
  obtain n ver b where f: "find_any key (wrapper_tree s) = Some (n, ver, m key \<noteq> None, b)" "\<And>v. m key = Some v \<Longrightarrow> rm_val s n = v"
    by (rule find_any_map [OF T, of key]) blast
  then have "verified_lookup key s = Some (n, ver, m key \<noteq> None, b)" using l by (subst verified_lookup.simps) simp
  then show ?thesis using that f(2) by blast
qed

lemma contains_ok: "stands_for s m \<Longrightarrow> nontrans_contains key s = Some (m key \<noteq> None)"
  by (rule lookup_map [of s m key]) (simp_all add: nontrans_contains_def)

lemma find_ok: "stands_for s m \<Longrightarrow> rb_nontrans_find d key s = Some (case m key of None \<Rightarrow> d | Some v \<Rightarrow> v)"
  by (rule lookup_map [of s m key]) (auto simp: rb_nontrans_find_def split: option.splits)

lemma find_to_ok: "stands_for s m \<Longrightarrow> nontrans_find_to key val s = Some (m key \<noteq> None, case m key of None \<Rightarrow> val | Some v \<Rightarrow> v)"
  by (rule lookup_map [of s m key]) (auto simp: nontrans_find_to_def split: option.splits)

lemma find_or_parent_map:
  assumes "holds_map s T m"
  shows "m key \<noteq> None \<and> (\<exists>n. find_or_parent key (wrapper_tree s) = Some (n, True)) \<or>
    m key = None \<and> (\<exists>k. T = plug Leaf k \<and> splits (wrapper_tree s) key k \<and> find_or_parent key (wrapper_tree s) = Some ((par k, kcol k), False))"
proof -
  let ?t = "wrapper_tree s"
  have h: "rb_holds ?t T" "sorted_keys ?t T" and m: "\<And>k v. m k = Some v \<longleftrightarrow> (\<exists>a\<in>set (nodes T). rb_key ?t a = k \<and> rm_val s a = v)"
    using assms by (simp_all add: holds_map_def)
  from h show ?thesis
  proof (cases rule: search_ok [where key = key])
    case (hit k c l a r)
    then show ?thesis using m [of key "rm_val s a"] by (auto simp: find_or_parent_def Let_def rb_node_def plug_nodes)
  next
    case (miss k cmp)
    have "m key = None" using m filter_plug(3) [OF miss(2)] unfolding miss(1) by (cases "m key") auto
    then show ?thesis using miss by (auto simp: find_or_parent_def Let_def rb_node_def)
  qed
qed

text \<open>The side on which a new node hangs, computed again by comparing it with its parent.\<close>

lemma side_again:
  assumes "ctx_at h root k" "splits t key k" "n \<notin> knodes k" "rb_key t' = (rb_key t)(n := key)"
  shows "(if rb_node (par k, kcol k) = 0 then False else node_compare t' n (rb_node (par k, kcol k)) > 0) = kside k"
proof (cases "k = []")
  case False
  have p: "par k \<noteq> 0" "par k \<noteq> n" using ctx_par [OF assms(1)] False par_in [OF False] assms(3) by auto
  have "if kside k then par k \<in> set (lefts k) else par k \<in> set (rights k)"
    using next_to_hole [OF False] last_in_set [of "lefts k"] hd_in_set [of "rights k"] by (cases "kside k") auto
  then have "if kside k then rb_key t (par k) < key else key < rb_key t (par k)" using assms(2) by (cases "kside k") (auto simp: splits_def)
  then show ?thesis using p by (auto simp: rb_node_def node_compare_def default_compare_def assms(4) Let_def split: if_splits)
qed (simp add: rb_node_def)

lemma map_add_node:
  assumes m: "\<And>k v. m k = Some v \<longleftrightarrow> (\<exists>a\<in>N. key_of a = k \<and> val_of a = v)" and n: "n \<notin> N" and new: "m key = None"
  shows "(m(key \<mapsto> val)) k = Some v \<longleftrightarrow> (\<exists>a\<in>insert n N. (key_of(n := key)) a = k \<and> (val_of(n := val)) a = v)"
proof -
  have "key_of a \<noteq> key" if "a \<in> N" for a using m [of key "val_of a"] that new by auto
  moreover have "(\<exists>a\<in>N. (key_of(n := key)) a = k \<and> (val_of(n := val)) a = v) \<longleftrightarrow> m k = Some v" unfolding m using n by (intro bex_cong) auto
  ultimately show ?thesis using m [of k v] n by (cases "k = key") auto
qed

lemma insert_ok:
  assumes A: "lock_ok A" and mk: "malloc_ok malloc" and s: "stands_for s m"
  shows "\<exists>s'. nontrans_insert malloc A key val s = Some (m key = None, s') \<and> stands_for s' (if m key = None then m(key \<mapsto> val) else m)"
proof -
  obtain T where T: "holds_map s T m" and l: "\<not> is_locked (treelock s)" using s by (auto simp: stands_for_def)
  obtain l where lk: "tree_lock_write A s = Some (s\<lparr>treelock := l\<rparr>)" and ul: "\<not> is_locked (api_unlock_write A (api_inc_write_version A l))"
    by (rule lock_unlock [OF A l])
  let ?t = "wrapper_tree s" and ?n = "malloc (rm_live s)"
  have h: "rb_holds ?t T" "sorted_keys ?t T" "set (rm_live s) = set (nodes T)" "rm_size s = of_nat (length (nodes T))"
    and m: "\<And>k v. m k = Some v \<longleftrightarrow> (\<exists>a\<in>set (nodes T). rb_key ?t a = k \<and> rm_val s a = v)" using T by (simp_all add: holds_map_def)
  from find_or_parent_map [OF T, of key] show ?thesis
  proof (elim disjE conjE exE)
    fix n assume f: "m key \<noteq> None" "find_or_parent key ?t = Some (n, True)"
    then have "nontrans_insert malloc A key val s = Some (m key = None, tree_unlock_write A (s\<lparr>treelock := l\<rparr>))" by (simp add: nontrans_insert_def lk)
    then show ?thesis using f(1) unlocked_stands [OF T ul] by auto
  next
    fix k assume new: "m key = None" and Tk: "T = plug Leaf k" and sp: "splits ?t key k" and f: "find_or_parent key ?t = Some ((par k, kcol k), False)"
    have n: "?n \<noteq> 0" "?n \<notin> set (nodes T)" using mk h(3) by (auto simp: malloc_ok_def)
    let ?s1 = "new_pair ?n key val (s\<lparr>treelock := l, rm_size := rm_size s + 1\<rparr>)"
    define t1 where "t1 = (wrapper_tree ?s1)\<lparr>rb_vers := (rb_vers (wrapper_tree ?s1))(?n := erase_inserted (rb_vers (wrapper_tree ?s1) ?n))\<rparr>"
    have t1: "rb_key t1 = (rb_key ?t)(?n := key)" "rb_links t1 = rb_links ?t" "rb_root t1 = rb_root ?t" "rb_limit t1 = rb_limit ?t"
      by (simp_all add: t1_def new_pair_def Let_def)
    have "rb_holds t1 (plug Leaf k)" using h(1) by (simp add: t1 rb_holds_def Tk)
    from insert_commit_ok [OF this n [unfolded Tk]] obtain h2 r T' where
      i: "insert_commit ?n (par k, kcol k) (kside k) t1 = Some (t1\<lparr>rb_links := h2, rb_root := r, rb_limit := (\<lambda>s. end_node s (nodes T'))\<rparr>)"
      and T': "tree_at h2 0 (r, False) T'" "rb_ok T'" "nodes T' = lefts k @ ?n # rights k" "distinct (nodes T')" by blast
    let ?t2 = "t1\<lparr>rb_links := h2, rb_root := r, rb_limit := (\<lambda>s. end_node s (nodes T'))\<rparr>"
    have ctx: "ctx_at (rb_links ?t) (rb_root ?t) k" using h(1) by (simp add: rb_holds_def Tk plug_tree_at)
    have sd: "(if rb_node (par k, kcol k) = 0 then False else node_compare t1 ?n (rb_node (par k, kcol k)) > 0) = kside k"
      by (rule side_again [OF ctx sp]) (use n(2) in \<open>simp_all add: Tk plug_nodes t1\<close>)
    have nn: "set (nodes T') = insert ?n (set (nodes T))" "length (nodes T') = length (nodes T) + 1" by (auto simp: T'(3) Tk nodes_plug)
    let ?s = "tree_unlock_write A (?s1\<lparr>wrapper_tree := ?t2\<rparr>)"
    have "nontrans_insert malloc A key val s = Some (True, ?s)"
    proof -
      have e: "wrapper_tree (s\<lparr>treelock := l\<rparr>) = ?t" "rm_live (s\<lparr>treelock := l, rm_size := rm_size s + 1\<rparr>) = rm_live s"
        "rm_size (s\<lparr>treelock := l\<rparr>) = rm_size s" by simp_all
      show ?thesis unfolding nontrans_insert_def lk option.case e f prod.case if_False Let_def t1_def [symmetric] sd i option.map ..
    qed
    moreover have "sorted_keys ?t2 T'" by (rule sorted_add [OF h(2) [unfolded Tk] sp n(2) [unfolded Tk] T'(3)]) (simp add: t1)
    then have "holds_map (?s1\<lparr>wrapper_tree := ?t2\<rparr>) T' (m(key \<mapsto> val))" using T' h(3,4) nn map_add_node [OF m n(2) new]
      unfolding holds_map_def by (simp add: rb_holds_def t1 new_pair_def Let_def del: fun_upd_apply)
    then have "stands_for ?s (m(key \<mapsto> val))" using ul by (auto simp: stands_for_def holds_map_def tree_unlock_write_def new_pair_def Let_def)
    ultimately show ?thesis using new by auto
  qed
qed

lemma length_without: "distinct xs \<Longrightarrow> n \<in> set xs \<Longrightarrow> length xs = length (filter (\<lambda>b. b \<noteq> n) xs) + 1"
  by (induction xs) (auto simp: filter_absent)

lemma erase_map:
  assumes T: "holds_map s T m" and n: "n \<in> set (nodes T)" "rb_key (wrapper_tree s) n = key"
  obtains q t T' where "erase n (wrapper_tree s) = Some (q, t)"
    "\<And>l. holds_map (s\<lparr>treelock := l, rm_size := rm_size s - 1, wrapper_tree := t, rm_live := removeAll n (rm_live s)\<rparr>) T' (m(key := None))"
proof -
  let ?t = "wrapper_tree s"
  have h: "rb_holds ?t T" "sorted_keys ?t T" "set (rm_live s) = set (nodes T)" "rm_size s = of_nat (length (nodes T))"
    and m: "\<And>k v. m k = Some v \<longleftrightarrow> (\<exists>a\<in>set (nodes T). rb_key ?t a = k \<and> rm_val s a = v)" using T by (simp_all add: holds_map_def)
  have di: "distinct (nodes T)" using h(1) by (simp add: rb_holds_def)
  obtain q h' r T' where e: "erase n ?t = Some (q, ?t\<lparr>rb_links := h', rb_root := r, rb_limit := (\<lambda>i. end_node i (nodes T'))\<rparr>)"
    and T': "tree_at h' 0 (r, False) T'" "rb_ok T'" "nodes T' = filter (\<lambda>b. b \<noteq> n) (nodes T)" using erase_ok [OF h(1) n(1)] unfolding erased_def by blast
  let ?t' = "?t\<lparr>rb_links := h', rb_root := r, rb_limit := (\<lambda>i. end_node i (nodes T'))\<rparr>"
  have rb: "rb_holds ?t' T'" using T' di by (simp add: rb_holds_def)
  have "sorted_wrt (\<lambda>a b. rb_key ?t a < rb_key ?t b) (nodes T)" using h(2) by (simp add: sorted_wrt_map)
  then have so: "sorted_keys ?t' T'" by (simp add: sorted_wrt_map T'(3) sorted_wrt_filter)
  have inj: "a = b" if "a \<in> set (nodes T)" "b \<in> set (nodes T)" "rb_key ?t a = rb_key ?t b" for a b
    using h(2) that by (auto simp: strict_sorted_iff distinct_map dest: inj_onD)
  have "length (nodes T) = length (nodes T') + 1" unfolding T'(3) by (rule length_without [OF di n(1)])
  then have sz: "rm_size s - 1 = of_nat (length (nodes T'))" using h(4) by simp
  have mp: "(m(key := None)) k = Some v \<longleftrightarrow> (\<exists>a\<in>set (nodes T'). rb_key ?t a = k \<and> rm_val s a = v)" for k v
    using m [of k v] inj n by (auto simp: T'(3))
  have "holds_map (s\<lparr>treelock := l, rm_size := rm_size s - 1, wrapper_tree := ?t', rm_live := removeAll n (rm_live s)\<rparr>) T' (m(key := None))" for l
    unfolding holds_map_def using rb so sz mp h(3) T'(3) by (auto simp del: fun_upd_apply)
  then show ?thesis by (rule that [OF e])
qed

lemma remove_to_ok:
  assumes A: "lock_ok A" and s: "stands_for s m"
  shows "\<exists>s'. nontrans_remove_to A key oldval s = Some ((m key \<noteq> None, case m key of None \<Rightarrow> oldval | Some v \<Rightarrow> v), s') \<and> stands_for s' (m(key := None))"
    and "\<exists>s'. nontrans_remove A key s = Some (m key \<noteq> None, s') \<and> stands_for s' (m(key := None))"
proof -
  obtain T where T: "holds_map s T m" and l: "\<not> is_locked (treelock s)" using s by (auto simp: stands_for_def)
  obtain l where lk: "tree_lock_write A s = Some (s\<lparr>treelock := l\<rparr>)" and ul: "\<not> is_locked (api_unlock_write A (api_inc_write_version A l))"
    by (rule lock_unlock [OF A l])
  obtain n ver b where f: "find_any key (wrapper_tree s) = Some (n, ver, m key \<noteq> None, b)"
    and n: "\<And>v. m key = Some v \<Longrightarrow> n \<in> set (nodes T) \<and> rb_key (wrapper_tree s) n = key \<and> rm_val s n = v" by (rule find_any_map [OF T, of key]) blast
  have "(\<exists>s'. nontrans_remove_to A key oldval s = Some ((m key \<noteq> None, case m key of None \<Rightarrow> oldval | Some v \<Rightarrow> v), s') \<and> stands_for s' (m(key := None))) \<and>
    (\<exists>s'. nontrans_remove A key s = Some (m key \<noteq> None, s') \<and> stands_for s' (m(key := None)))"
  proof (cases "m key")
    case None
    then have "m(key := None) = m" by auto
    then show ?thesis using f None unlocked_stands [OF T ul] by (simp add: nontrans_remove_to_def nontrans_remove_def lk)
  next
    case (Some v)
    then have nv: "n \<in> set (nodes T)" "rb_key (wrapper_tree s) n = key" "rm_val s n = v" using n by auto
    obtain q t T' where e: "erase n (wrapper_tree s) = Some (q, t)"
      and hm: "\<And>l. holds_map (s\<lparr>treelock := l, rm_size := rm_size s - 1, wrapper_tree := t, rm_live := removeAll n (rm_live s)\<rparr>) T' (m(key := None))"
      by (rule erase_map [OF T nv(1,2)]) blast
    let ?s = "s\<lparr>treelock := api_unlock_write A (api_inc_write_version A l), rm_size := rm_size s - 1, wrapper_tree := t, rm_live := removeAll n (rm_live s)\<rparr>"
    have "nontrans_remove_to A key oldval s = Some ((True, v), ?s)" "nontrans_remove A key s = Some (True, ?s)"
      using f e Some nv(3) by (simp_all add: nontrans_remove_to_def nontrans_remove_def lk Let_def tree_unlock_write_def)
    moreover have "stands_for ?s (m(key := None))" unfolding stands_for_def using hm ul by auto
    ultimately show ?thesis using Some by auto
  qed
  then show "\<exists>s'. nontrans_remove_to A key oldval s = Some ((m key \<noteq> None, case m key of None \<Rightarrow> oldval | Some v \<Rightarrow> v), s') \<and> stands_for s' (m(key := None))"
    and "\<exists>s'. nontrans_remove A key s = Some (m key \<noteq> None, s') \<and> stands_for s' (m(key := None))" by blast+
qed

subsection \<open>Sequences of calls\<close>

text \<open>The interface a user of such an object relies on: every call returns what the same call on a map returns, and leaves the object
  standing for the new map.  Any sequence of calls is then one on the map.\<close>

fun run_store :: "('c \<Rightarrow> 's \<Rightarrow> ('r \<times> 's) option) \<Rightarrow> 'c list \<Rightarrow> 's \<Rightarrow> ('r list \<times> 's) option" where
  "run_store call [] s = Some ([], s)"
| "run_store call (c # cs) s =
     (case call c s of None \<Rightarrow> None | Some (r, s) \<Rightarrow> map_option (\<lambda>(rs, s). (r # rs, s)) (run_store call cs s))"

fun run_spec :: "('c \<Rightarrow> 'm \<Rightarrow> 'r \<times> 'm) \<Rightarrow> 'c list \<Rightarrow> 'm \<Rightarrow> 'r list \<times> 'm" where
  "run_spec spec [] m = ([], m)"
| "run_spec spec (c # cs) m = (let (r, m) = spec c m; (rs, m) = run_spec spec cs m in (r # rs, m))"

locale kv_object =
  fixes rel :: "'s \<Rightarrow> 'm \<Rightarrow> bool" and call :: "'c \<Rightarrow> 's \<Rightarrow> ('r \<times> 's) option" and spec :: "'c \<Rightarrow> 'm \<Rightarrow> 'r \<times> 'm"
  assumes call_refines: "rel s m \<Longrightarrow> \<exists>s'. call c s = Some (fst (spec c m), s') \<and> rel s' (snd (spec c m))"
begin

lemma calls_refine: "rel s m \<Longrightarrow> \<exists>s'. run_store call cs s = Some (fst (run_spec spec cs m), s') \<and> rel s' (snd (run_spec spec cs m))"
proof (induction cs arbitrary: s m)
  case (Cons c cs)
  obtain s1 where 1: "call c s = Some (fst (spec c m), s1)" "rel s1 (snd (spec c m))" using call_refines [OF Cons.prems] by blast
  obtain s2 where "run_store call cs s1 = Some (fst (run_spec spec cs (snd (spec c m))), s2)" "rel s2 (snd (run_spec spec cs (snd (spec c m))))"
    using Cons.IH [OF 1(2)] by blast
  then show ?case using 1(1) by (simp add: split_beta)
qed simp

end

datatype ('k, 'v) rb_call = Insert 'k 'v | Contains 'k | Find 'k | Find_To 'k 'v | Remove 'k | Remove_To 'k 'v

datatype 'v rb_ret = Flag bool | Value 'v | Flag_Value bool 'v

fun store_call :: "(nat list \<Rightarrow> nat) \<Rightarrow> tree_lock_api \<Rightarrow> 'v \<Rightarrow> ('k :: linorder, 'v) rb_call \<Rightarrow> ('k, 'v) rbmap \<Rightarrow> ('v rb_ret \<times> ('k, 'v) rbmap) option" where
  "store_call malloc A d (Insert k v) s = map_option (\<lambda>(b, s). (Flag b, s)) (nontrans_insert malloc A k v s)"
| "store_call malloc A d (Contains k) s = map_option (\<lambda>b. (Flag b, s)) (nontrans_contains k s)"
| "store_call malloc A d (Find k) s = map_option (\<lambda>v. (Value v, s)) (rb_nontrans_find d k s)"
| "store_call malloc A d (Find_To k v) s = map_option (\<lambda>(b, v). (Flag_Value b v, s)) (nontrans_find_to k v s)"
| "store_call malloc A d (Remove k) s = map_option (\<lambda>(b, s). (Flag b, s)) (nontrans_remove A k s)"
| "store_call malloc A d (Remove_To k v) s = map_option (\<lambda>((b, v), s). (Flag_Value b v, s)) (nontrans_remove_to A k v s)"

fun map_call :: "'v \<Rightarrow> ('k, 'v) rb_call \<Rightarrow> ('k \<rightharpoonup> 'v) \<Rightarrow> 'v rb_ret \<times> ('k \<rightharpoonup> 'v)" where
  "map_call d (Insert k v) m = (Flag (m k = None), if m k = None then m(k \<mapsto> v) else m)"
| "map_call d (Contains k) m = (Flag (m k \<noteq> None), m)"
| "map_call d (Find k) m = (Value (case m k of None \<Rightarrow> d | Some v \<Rightarrow> v), m)"
| "map_call d (Find_To k v) m = (Flag_Value (m k \<noteq> None) (case m k of None \<Rightarrow> v | Some w \<Rightarrow> w), m)"
| "map_call d (Remove k) m = (Flag (m k \<noteq> None), m(k := None))"
| "map_call d (Remove_To k v) m = (Flag_Value (m k \<noteq> None) (case m k of None \<Rightarrow> v | Some w \<Rightarrow> w), m(k := None))"

interpretation rb_kv: kv_object "\<lambda>s m. malloc_ok malloc \<and> lock_ok A \<and> stands_for s m" "store_call malloc A d" "map_call d" for malloc A and d :: 'v
proof
  fix s :: "('k :: linorder, 'v) rbmap" and m c
  assume "malloc_ok malloc \<and> lock_ok A \<and> stands_for s m"
  then have a: "malloc_ok malloc" "lock_ok A" "stands_for s m" by auto
  show "\<exists>s'. store_call malloc A d c s = Some (fst (map_call d c m), s') \<and> malloc_ok malloc \<and> lock_ok A \<and> stands_for s' (snd (map_call d c m))"
  proof (cases c)
    case (Insert k v)
    then show ?thesis using insert_ok [OF a(2,1,3), of k v] a by auto
  next
    case (Remove k)
    then show ?thesis using remove_to_ok(2) [OF a(2,3), of k] a by auto
  next
    case (Remove_To k v)
    then show ?thesis using remove_to_ok(1) [OF a(2,3), of k v] a by auto
  qed (use a in \<open>simp_all add: contains_ok find_ok find_to_ok\<close>)
qed

text \<open>C6: Starting from a new tree object, any sequence of the non-transactional calls (insert, contains, both forms of find and of remove) returns,
  with exactly the results the same calls have on a finite map, and the tree object then stands for that map: it is a balanced red-black
  tree with increasing keys, its size counter is the number of keys, exactly its nodes are allocated and its lock is free.  The allocator
  returns addresses that are not in use, and a lock that was free can be taken and is free after it is released.\<close>

theorem rb_store_refines_map:
  assumes "malloc_ok malloc" "lock_ok A"
  shows "\<exists>s. run_store (store_call malloc A d) cs (rbmap_init h key val) = Some (fst (run_spec (map_call d) cs Map.empty), s) \<and>
    stands_for s (snd (run_spec (map_call d) cs Map.empty))"
proof -
  have "holds_map (rbmap_init h key val) Leaf Map.empty"
    by (simp add: holds_map_def rbmap_init_def rbtree_init_def rb_holds_def rb_ok_def end_node_def)
  then have "stands_for (rbmap_init h key val) Map.empty" by (auto simp: stands_for_def rbmap_init_def is_locked_def)
  then show ?thesis using rb_kv.calls_refine [of malloc A "rbmap_init h key val" Map.empty d cs] assms by blast
qed

text \<open>An allocator and a lock for an example.\<close>

definition ex_malloc :: "nat list \<Rightarrow> nat" where
  "ex_malloc xs = Suc (sum_list xs)"

definition ex_api :: tree_lock_api where
  "ex_api = \<lparr>api_lock_write = (\<lambda>v. if is_locked v then None else Some (or v lock_bit)), api_inc_write_version = (\<lambda>v. v), api_unlock_write = (\<lambda>v. and v (not lock_bit))\<rparr>"

lemma ex_parameters: "malloc_ok ex_malloc" "lock_ok ex_api"
proof -
  have "sum_list xs < n \<Longrightarrow> n \<notin> set xs" for n :: nat and xs using member_le_sum_list [of n xs] by auto
  then show "malloc_ok ex_malloc" by (auto simp: malloc_ok_def ex_malloc_def)
  show "lock_ok ex_api" by (auto simp: lock_ok_def ex_api_def is_locked_def and.assoc)
qed

theorem rb_store_refines_map_witness:
  "\<exists>s. run_store (store_call ex_malloc ex_api 0) [Insert 3 7, Insert 5 8, Insert 3 9, Find 3, Remove_To 3 1, Contains 3, Find_To 5 1]
      (rbmap_init (\<lambda>_. \<lparr>rb_p = 0, rb_c = (\<lambda>_. rb_null)\<rparr>) (\<lambda>_. 0 :: nat) (\<lambda>_. 0 :: nat))
    = Some ([Flag True, Flag True, Flag False, Value 7, Flag_Value True 7, Flag False, Flag_Value True 8], s)"
  using rb_store_refines_map [OF ex_parameters, of 0 "[Insert 3 7, Insert 5 8, Insert 3 9, Find 3, Remove_To 3 1, Contains 3, Find_To 5 1]"
    "\<lambda>_. \<lparr>rb_p = 0, rb_c = (\<lambda>_. rb_null)\<rparr>" "\<lambda>_. 0 :: nat" "\<lambda>_. 0 :: nat"] by auto

end
