(* ===== verification/Spec2Isabelle.thy ===== *)
theory Spec2Isabelle
  imports Fpga_Runs Central_Proofs Worker_Msg Strife_Barrier Epochs Txn_Box Mvcc_Ops Client_Runs Rb_Store
begin

text \<open>
  Verification of AlNiCo, a transaction system in which a scheduler on an FPGA NIC (or on a CPU) sends every request to the worker whose
  running transactions it conflicts with most, and the workers run the requests on the STO transaction runtime.  This theory joins
  the library; the theorems are in the theories of the components.

  \<^bold>\<open>The parts and how they work together.\<close>  A client thread (\<open>src/Clients/NetTx\<close>) serializes a request into a slot buffer and
  writes it, with a feature bitmap, to the server and to the NIC.  The scheduler (\<open>src/Innova2/scheduler\<close> on the NIC, or
  \<open>central_scheduler_t\<close> in \<open>src/AlNiCo_Server/sto/nic-sched/worker_buf.cpp\<close>) detects the message by its toggle bit, scores each core
  by the weights of the features it shares with the request, counts the request for the core it picks, and puts a doorbell into
  that worker's ring.  The worker takes the doorbell, decodes the request, runs a transaction, and leaves a reply word; the reply
  thread (\<open>nic-sched/rpc_reply.cpp\<close>) scans these words and posts the replies to the clients.  Aborts are counted per feature and
  give the weights of the schedulers.  Under the workers is the runtime in \<open>src/AlNiCo_Server/sto/sto-core\<close>: version words, transaction
  items and sets, the commit protocol, multi-version objects, epochs and deferred frees, and the data types built on them.

  \<^bold>\<open>Foundations.\<close>
  \<^item> \<open>Prelude\<close>: machine integers, the rule for counted loops, shared list and word facts.
  \<^item> \<open>Sched_Config\<close>: compile-time constants, and the build as a record of the macros of \<open>GNUmakefile.in\<close>.
  \<^item> \<open>Host_Memory\<close>: byte memory with little-endian accesses.  \<open>Connect\<close>: slot addresses and request heads of \<open>rpc_common.h\<close>.
  \<^item> Interfaces as locales: \<open>Weight_Table\<close> (tables and scores, interpreted for both schedulers), \<open>Mailbox_Ring\<close> (rings, interpreted for the
    dispatch queues), \<open>Lock_Word\<close> (locks in one word, interpreted for version words and TicToc words), and the interface of a map
    in \<open>Rb_Store\<close>.

  \<^bold>\<open>On-NIC scheduler\<close> (\<open>Innova2/scheduler/tx_scheduler.cpp\<close>, \<open>no_dma.cpp\<close>, \<open>utils.h\<close>).  \<open>Fpga_Scheduler\<close> models the whole kernel; the state is
  the record \<open>fpga\<close>, the streams between the dataflow stages are lists, and host memory is read through observations.  \<open>Gray_Code\<close> and
  \<open>Fpga_Tables\<close> show what the tables hold, \<open>Fpga_Choice\<close> that the best core is picked, \<open>Fpga_Pipeline\<close> and \<open>Fpga_Layout\<close> that the
  counters count the slots and the address layout has no overlaps, \<open>Fpga_Runs\<close> that a message is taken once per toggle, that doorbells go round the
  ring in order, and that the loop returns after the host asks it to stop.

  \<^bold>\<open>CPU scheduler\<close>.  \<open>Central_Scheduler\<close> models \<open>central_scheduler_t\<close> for every build variant; \<open>Central_Proofs\<close> has the same results for it,
  and that a request once detected is dispatched to a ring.

  \<^bold>\<open>Rings, workers, replies\<close> (\<open>nic-sched\<close>).  \<open>Dispatch_Queue\<close>: the rings of \<open>fpga.h\<close> and \<open>worker_buf.h\<close> under concurrent producers, first in
  first out.  \<open>Worker_Msg\<close>: decoding and answering of a request.  \<open>Rpc_Reply\<close>: the reply pass, with the number of outstanding writes bounded by the
  send queue.  \<open>Strife_Barrier\<close>: the three-phase barrier as an interleaving of the reply thread and the workers.  \<open>Model_Update\<close>: abort windows
  and weights.

  \<^bold>\<open>Client\<close> (\<open>Clients/NetTx\<close>).  \<open>Client_Rpc\<close> models the loop of \<open>run_tpcc_client\<close> and \<open>push_new_call_write\<close>; \<open>Client_Request\<close> shows that the worker
  decodes what the client sent; \<open>Client_Runs\<close> that every transaction is counted once, after its own answer.

  \<^bold>\<open>Transaction runtime\<close> (\<open>sto/sto-core\<close>).  \<open>Sto_Tid\<close>: version words of \<open>VersionBase.hh\<close>, mutual exclusion.  \<open>Sto_TicToc\<close>: timestamps and
  validation.  \<open>Sto_Rwlock\<close>: the lock of \<open>EagerVersions.hh\<close>.  \<open>Txn_Item\<close>, \<open>Txn_Set\<close>: items, flags and the hash table in front of the set.
  \<open>Txn_Commit\<close>, \<open>Txn_Box\<close>: the commit protocol over the callbacks of an object, and transactional boxes on it, with other threads acting between any two
  accesses; a committed transaction is serialized at one point, an aborted one leaves nothing behind.  \<open>Rcu_Set\<close>, \<open>Epochs\<close>: deferred frees and the epochs that
  make them safe.  \<open>Mvcc_Chain\<close>, \<open>Mvcc_Flatten\<close>, \<open>Mvcc_Reads\<close>, \<open>Mvcc_Ops\<close>: version chains, their values, the validity of reads under interleaving, and
  that the operations are the steps of the protocol.

  \<^bold>\<open>Red-black tree\<close> (\<open>sto/datatype/RBTreeInternal.hh\<close>, \<open>RBTree.hh\<close>).  \<open>Rb_Tree\<close> and \<open>Rb_Delete\<close> hold the operations on a heap of linked nodes with the colour
  in the pointer.  \<open>Rb_Shape\<close> relates a heap to a tree and to a tree with a hole.  \<open>Rb_Insert\<close> and \<open>Rb_Map\<close>: lookup and insertion.  \<open>Rb_Erase\<close>: removal.
  \<open>Rb_Check\<close>: iteration, size and the tree's consistency check.  \<open>Rb_Store\<close>: the non-transactional methods of the map refine a finite map.

  \<^bold>\<open>Bounds and fuel.\<close>  Integers have the width of the source, so wrap-around is part of the model.  Loops over arrays are folds and terminate.
  Loops that may not end are \<^theory_text>\<open>partial_function (option)\<close>, where \<open>None\<close> is not returning, and the theorems about them prove that a result exists:
  the loops of the red-black tree are of this kind.  Polling loops are given the list of values they read, or fuel: the counting of a Strife batch
  returns with any fuel above the number of waiting requests, and the kernel loop returns at the first observation of a cleared control word.  Concurrent
  code is a relation of atomic steps, and the theorems hold for runs of any length.

  \<^bold>\<open>Parameters.\<close>  The verbs library, the workload generator, the packing of values, the callbacks of deferred frees, the allocator, and the
  functions \<open>RBTree.hh\<close> calls for its tree lock, which the sources do not declare, are arguments of the definitions; what is assumed of them is a hypothesis
  of the theorem, with an instance in its witness.

  \<^bold>\<open>Not modelled.\<close>
  \<^item> Setting up devices, queue pairs and memory regions; mapping the FPGA; text output, timing and latency statistics; kernel modules: calls into
    the operating system and the verbs library without a result the model could state.
  \<^item> Masstree, allocators, hashing and command-line parsing: third-party code.
  \<^item> The indexes and workloads of \<open>sto/benchmark\<close> and the data generation of the clients: business logic and random data above the interfaces modelled here.
  \<^item> The remaining data types of \<open>sto/datatype\<close>, and the transactional methods of \<open>RBTree.hh\<close>: further users of the commit callbacks, for which boxes stand.
  \<^item> The SwissTM versions with their contention manager, the column selectors and generated accessors, inlined multi-version heads and the freeing of
    versions.
  \<^item> \<open>merge_weights\<close>: floating-point arithmetic.  \<open>rdma_read_reply_nictx\<close>: never called.
  \<^item> Weak memory: an access is atomic and seen by all threads at once, as fences and locked instructions of the sources intend.
\<close>

end
